(* ===== verification/Kernel_Prelude.thy ===== *)
theory Kernel_Prelude
  imports Main "HOL-Library.Word" "HOL-Library.While_Combinator"
begin

unbundle bit_operations_syntax

text \<open>
  Shared vocabulary of the development: the machine integers of the i386 target, the ways in
  which a kernel routine can fail to return, the store that kernel data structures live in, and
  the generic facts on words, lists and loops that the component theories use.
\<close>

section \<open>Machine integers\<close>

text \<open>
  On the 32-bit target \<^verbatim>\<open>size_t\<close>, \<^verbatim>\<open>uint32_t\<close>, \<^verbatim>\<open>unsigned long\<close> and every pointer are 32 bits wide.
\<close>

type_synonym u8 = "8 word"
type_synonym u16 = "16 word"
type_synonym u32 = "32 word"

text \<open>Pointers are machine addresses; \<^verbatim>\<open>nullptr\<close> is address 0.\<close>

type_synonym ptr = u32

abbreviation nullptr :: ptr where
  "nullptr \<equiv> 0"

section \<open>Outcomes of a kernel routine\<close>

text \<open>
  A routine returns a value or it does not return at all: \<^verbatim>\<open>panic\<close> and \<^verbatim>\<open>bug\<close>
  (\<^verbatim>\<open>libkernelcxx/src/error.cpp\<close>) print a message and halt the processor for ever, a loop may run
  for ever, and an operation may have no defined meaning (a null pointer is dereferenced, an
  array is indexed out of its bounds, a shift count is at least the width).
\<close>

datatype fault = Panic string | Hang | Undef

type_synonym 'a result = "fault + 'a"

definition bindE :: "'a result \<Rightarrow> ('a \<Rightarrow> 'b result) \<Rightarrow> 'b result" where
  "bindE m f = (case m of Inl e \<Rightarrow> Inl e | Inr x \<Rightarrow> f x)"

lemma bindE_simps [simp]:
  "bindE (Inl e) f = Inl e"
  "bindE (Inr x) f = f x"
  by (simp_all add: bindE_def)

lemma bindE_cong [fundef_cong]:
  "m = m' \<Longrightarrow> (\<And>x. m' = Inr x \<Longrightarrow> f x = f' x) \<Longrightarrow> bindE m f = bindE m' f'"
  by (cases m') (simp_all)

lemma bindE_eq_Inr_iff: "bindE m f = Inr y \<longleftrightarrow> (\<exists>x. m = Inr x \<and> f x = Inr y)"
  by (cases m) simp_all

text \<open>A loop that is not known to end is \<^const>\<open>while_option\<close>; not ending is the fault \<^const>\<open>Hang\<close>.\<close>

definition of_loop :: "'a option \<Rightarrow> 'a result" where
  "of_loop r = (case r of None \<Rightarrow> Inl Hang | Some x \<Rightarrow> Inr x)"

lemma of_loop_simps [simp]: "of_loop None = Inl Hang" "of_loop (Some x) = Inr x"
  by (simp_all add: of_loop_def)

lemma bindE_assoc [simp]: "bindE (bindE m f) g = bindE m (\<lambda>x. bindE (f x) g)"
  by (cases m) simp_all

lemma bindE_Inr [simp]: "bindE m Inr = m"
  by (cases m) simp_all

lemma bindE_ext: "(\<And>x. f x = g x) \<Longrightarrow> bindE m f = bindE m g"
  by (cases m) simp_all

text \<open>A loop whose body may fail: it ends with the first failure or when its guard does not hold.\<close>

definition while_result :: "('s \<Rightarrow> bool) \<Rightarrow> ('s \<Rightarrow> 's result) \<Rightarrow> 's \<Rightarrow> 's result" where
  "while_result b c s =
     bindE (of_loop (while_option (\<lambda>r. case r of Inl e \<Rightarrow> False | Inr x \<Rightarrow> b x) (\<lambda>r. bindE r c) (Inr s))) id"

lemma while_result_unfold: "while_result b c s = (if b s then bindE (c s) (while_result b c) else Inr s)"
proof -
  let ?b = "\<lambda>r. case r of Inl e \<Rightarrow> False | Inr x \<Rightarrow> b x" and ?c = "\<lambda>r. bindE r c"
  have "while_option ?b ?c (Inr s) = (if b s then while_option ?b ?c (c s) else Some (Inr s))"
    by (subst while_option_unfold) simp
  moreover have "while_option ?b ?c (Inl e) = Some (Inl e)" for e
    by (subst while_option_unfold) simp
  ultimately show ?thesis by (cases "c s") (simp_all add: while_result_def)
qed

section \<open>The store\<close>

text \<open>
  Kernel data structures live in physical memory. The store keeps the two kinds of objects that
  the allocators place there by address: the \<^verbatim>\<open>next\<close> field of a list item that lies at the beginning
  of a free page frame, and the bytes of the bit arrays.
\<close>

record store =
  nexts :: "ptr \<Rightarrow> ptr"
  bytes :: "ptr \<Rightarrow> u8"

section \<open>Collections of rewrite rules\<close>

named_theorems word_nat "word operations read as operations on natural numbers"
named_theorems step_simps "one step of a loop of the code"

section \<open>Words\<close>

lemma unat_u32_less [simp]: "unat (x :: u32) < 4294967296"
  using unsigned_less [of x] by simp

lemma unat_u16_less [simp]: "unat (x :: u16) < 65536"
  using unsigned_less [of x] by simp

lemma unat_u8_less [simp]: "unat (x :: u8) < 256"
  using unsigned_less [of x] by simp

lemma unat_u32_le [simp]: "unat (x :: u32) \<le> 4294967295"
  using unat_u32_less [of x] by linarith

lemma unat_add_u32 [word_nat]:
  "unat (a :: u32) + unat b < 4294967296 \<Longrightarrow> unat (a + b) = unat a + unat b"
  by (simp add: unat_word_ariths)

lemma unat_sub_u32 [word_nat]:
  "unat (b :: u32) \<le> unat a \<Longrightarrow> unat (a - b) = unat a - unat b"
  by (simp add: unat_sub word_le_nat_alt)

lemma unat_mult_u32 [word_nat]:
  "unat (a :: u32) * unat b < 4294967296 \<Longrightarrow> unat (a * b) = unat a * unat b"
  by (simp add: unat_word_ariths)

lemma unat_of_nat_u32 [word_nat]:
  "n < 4294967296 \<Longrightarrow> unat (of_nat n :: u32) = n"
  by (simp add: unat_of_nat)

lemma of_nat_unat_u32: "of_nat (unat (a :: u32)) = a"
  by simp

lemma unat_div_u32 [word_nat]: "unat ((a :: u32) div b) = unat a div unat b"
  by (fact unat_div)

lemma unat_mod_u32 [word_nat]: "unat ((a :: u32) mod b) = unat a mod unat b"
  by (fact unat_mod)

lemma u32_eq_iff_unat: "(a :: u32) = b \<longleftrightarrow> unat a = unat b"
  by (fact word_unat_eq_iff)

lemma less_unat_u32: "i < unat (n :: u32) \<Longrightarrow> i < 4294967296"
  using order_less_trans [OF _ unat_u32_less] .

lemma of_nat_index_inject:
  "i < unat n \<Longrightarrow> j < unat n \<Longrightarrow> (of_nat i :: u32) = of_nat j \<longleftrightarrow> i = j" for n :: u32
  using less_unat_u32 [of i n] less_unat_u32 [of j n] by (auto simp: u32_eq_iff_unat unat_of_nat_u32)

lemma unat_pow2_u32 [word_nat]:
  assumes "k < 32"
  shows "unat (2 ^ k :: u32) = 2 ^ k"
proof -
  have "(2::nat) ^ k < 2 ^ 32"
    using assms by (intro power_strict_increasing) simp_all
  then have "unat (of_nat (2 ^ k) :: u32) = 2 ^ k"
    by (intro unat_of_nat_u32) simp
  then show ?thesis by simp
qed

text \<open>Masking with \<open>2 ^ k - 1\<close> keeps the low \<open>k\<close> bits.\<close>

lemma unat_and_low_bits:
  assumes "k < 32"
  shows "unat ((v :: u32) AND (2 ^ k - 1)) = unat v mod 2 ^ k"
proof -
  have "v AND (2 ^ k - 1) = take_bit k v"
    by (simp add: take_bit_eq_mask mask_eq_exp_minus_1)
  then have "unat (v AND (2 ^ k - 1)) = take_bit k (unat v)"
    by (simp only: unsigned_take_bit_eq)
  then show ?thesis by (simp add: take_bit_eq_mod)
qed

section \<open>Iterating a loop body\<close>

text \<open>
  If a loop runs its body \<open>n\<close> times before the guard fails, the loop returns the state after
  \<open>n\<close> runs.
\<close>

lemma while_option_funpow:
  assumes "\<And>i. i < n \<Longrightarrow> b ((c ^^ i) s)" and "\<not> b ((c ^^ n) s)"
  shows "while_option b c s = Some ((c ^^ n) s)"
  using assms
proof (induction n arbitrary: s)
  case 0
  then show ?case by (simp add: while_option_unfold)
next
  case (Suc n)
  from Suc.prems(1) [of 0] have "b s" by simp
  moreover have "while_option b c (c s) = Some ((c ^^ n) (c s))"
  proof (rule Suc.IH)
    fix i assume "i < n"
    then show "b ((c ^^ i) (c s))"
      using Suc.prems(1) [of "Suc i"] by (simp add: funpow_swap1)
  next
    show "\<not> b ((c ^^ n) (c s))"
      using Suc.prems(2) by (simp add: funpow_swap1)
  qed
  ultimately show ?case
    by (simp add: while_option_unfold [of b c s] funpow_swap1)
qed

lemma while_option_stops:
  assumes "\<not> b ((c ^^ k) s)"
  obtains n where "while_option b c s = Some ((c ^^ n) s)" and "\<not> b ((c ^^ n) s)"
proof
  let ?n = "LEAST k. \<not> b ((c ^^ k) s)"
  show "while_option b c s = Some ((c ^^ ?n) s)"
    using assms by (auto simp: while_option_def)
  show "\<not> b ((c ^^ ?n) s)"
    using assms by (rule LeastI)
qed

lemma funpow_apply_add: "(f ^^ i) ((f ^^ j) x) = (f ^^ (i + j)) x"
  by (simp add: funpow_add)

text \<open>A sequence of iterates that repeats a value is periodic from there on.\<close>

lemma funpow_periodic:
  fixes f :: "'a \<Rightarrow> 'a"
  assumes "(f ^^ a) x = (f ^^ b) x" and "a \<le> b" and "a \<le> k"
  shows "(f ^^ (k + t * (b - a))) x = (f ^^ k) x"
proof (induction t)
  case (Suc t)
  define e where "e = k - a"
  have "k + Suc t * (b - a) = (e + t * (b - a)) + b"
    using assms(2,3) by (simp add: e_def)
  then have "(f ^^ (k + Suc t * (b - a))) x = (f ^^ ((e + t * (b - a)) + b)) x"
    by (simp only:)
  also have "\<dots> = (f ^^ (e + t * (b - a))) ((f ^^ b) x)"
    by (simp only: funpow_apply_add)
  also have "\<dots> = (f ^^ (e + t * (b - a))) ((f ^^ a) x)"
    by (simp only: assms(1))
  also have "\<dots> = (f ^^ (k + t * (b - a))) x"
    using assms(3) by (simp add: funpow_apply_add e_def)
  finally show ?case using Suc by simp
qed simp

text \<open>Loops that count a word up to a limit end, whatever they start from.\<close>

lemma word_count_up:
  fixes i sz :: u32
  assumes "i \<noteq> sz"
  shows "unat (sz - (i + 1)) < unat (sz - i)"
proof -
  have "sz - i \<noteq> 0" using assms by simp
  then have "unat (sz - i - 1) < unat (sz - i)" by (metis measure_unat)
  then show ?thesis by (simp add: algebra_simps)
qed

text \<open>A store of zeros.\<close>

definition store_zero :: store where
  "store_zero = \<lparr>nexts = \<lambda>_. 0, bytes = \<lambda>_. 0\<rparr>"

end
