(* ===== verification/Mem_Utils.thy ===== *)
theory Mem_Utils
  imports Kernel_Prelude
begin

text \<open>
  \<^verbatim>\<open>libkernelcxx/include/mem_utils.hpp\<close>: bit-field extraction and alignment of addresses. Every use in the
  kernel instantiates the templates at 32-bit unsigned values or pointers.
\<close>

section \<open>Definitions\<close>

definition PAGE_SIZE :: u32 where
  "PAGE_SIZE = 4096"

definition shiftmask :: "u32 \<Rightarrow> nat \<Rightarrow> u32 \<Rightarrow> u32" where
  "shiftmask v offset m = (drop_bit offset v AND m)"

definition align_down :: "u32 \<Rightarrow> u32 \<Rightarrow> u32" where
  "align_down boundary v = (v AND NOT (boundary - 1))"

definition align_up :: "u32 \<Rightarrow> u32 \<Rightarrow> u32" where
  "align_up boundary v =
     (if v AND (boundary - 1) \<noteq> 0 then align_down boundary v + boundary else v)"

definition is_aligned_at_least :: "u32 \<Rightarrow> u32 \<Rightarrow> bool" where
  "is_aligned_at_least boundary v \<longleftrightarrow> align_up boundary v = v"

section \<open>Alignment as arithmetic\<close>

lemma PAGE_SIZE_pow2: "PAGE_SIZE = 2 ^ 12"
  by (simp add: PAGE_SIZE_def)

lemma unat_align_down:
  assumes "k < 32"
  shows "unat (align_down (2 ^ k) v) = unat v - unat v mod 2 ^ k"
proof -
  let ?m = "2 ^ k - 1 :: u32"
  have "v - (v AND ?m) = v AND NOT (v AND ?m)"
    by (rule disjunctive_diff) (simp add: bit_simps)
  also have "\<dots> = v AND NOT ?m"
    by (rule bit_word_eqI) (auto simp add: bit_simps)
  finally have "align_down (2 ^ k) v = v - (v AND ?m)"
    by (simp add: align_down_def)
  moreover have "unat (v AND ?m) = unat v mod 2 ^ k"
    using assms by (rule unat_and_low_bits)
  ultimately show ?thesis
    by (simp add: unat_sub_u32)
qed

text \<open>Rounding up to a multiple of \<open>2 ^ k\<close>, as arithmetic modulo the width.\<close>

lemma round_up_nat:
  assumes "0 < (p::nat)"
  shows "(n + p - 1) div p * p = (if n mod p = 0 then n else n - n mod p + p)"
proof -
  define q r where "q = n div p" and "r = n mod p"
  have n: "n = q * p + r" and r: "r < p"
    using assms by (simp_all add: q_def r_def)
  have "(n + p - 1) div p = q + (r + p - 1) div p"
  proof -
    have "n + p - 1 = (r + p - 1) + q * p"
      using assms n by simp
    then show ?thesis
      using assms by (simp only: div_mult_self1)
  qed
  moreover have "(r + p - 1) div p = (if r = 0 then 0 else 1)"
  proof (cases "r = 0")
    case False
    then have "r + p - 1 = (r - 1) + 1 * p" by simp
    then show ?thesis
      using False r by (simp only: div_mult_self1) simp
  qed (use assms in simp)
  ultimately have d: "(n + p - 1) div p = q + (if r = 0 then 0 else 1)"
    by simp
  have m: "n mod p = r" by (simp add: r_def)
  show ?thesis
  proof (cases "r = 0")
    case True
    then show ?thesis using d m n by simp
  next
    case False
    have "n - r + p = (q + 1) * p" using n by simp
    then show ?thesis using False d m by simp
  qed
qed

lemma round_up_ge:
  assumes "0 < (p::nat)"
  shows "n \<le> (n + p - 1) div p * p"
proof -
  have "n mod p < p" using assms by simp
  then have "n \<le> n - n mod p + p" by linarith
  then show ?thesis
    by (simp only: round_up_nat [OF assms] split: if_split) simp
qed

lemma unat_align_up_round:
  assumes "k < 32"
  shows "unat (align_up (2 ^ k) v) =
    (if unat v mod 2 ^ k = 0 then unat v
     else (unat v - unat v mod 2 ^ k + 2 ^ k) mod 4294967296)"
proof -
  have "(v AND (2 ^ k - 1) = 0) = (unat v mod 2 ^ k = 0)"
    using unat_and_low_bits [OF assms, of v] by (metis unsigned_0 word_unat_eq_iff)
  then show ?thesis
    using assms
    by (simp add: align_up_def unat_word_ariths unat_align_down unat_pow2_u32)
qed

lemma unat_align_up:
  assumes "k < 32"
  shows "unat (align_up (2 ^ k) v) = (unat v + 2 ^ k - 1) div 2 ^ k * 2 ^ k mod 4294967296"
proof -
  have "0 < (2 ^ k :: nat)" by simp
  from round_up_nat [OF this, of "unat v"] show ?thesis
    using unat_align_up_round [OF assms, of v]
    by (cases "unat v mod 2 ^ k = 0") (simp_all only: mod_less unat_u32_less if_True if_False simp_thms)
qed

lemma unat_align_up_div:
  assumes "k < 32" and "unat v + 2 ^ k \<le> 4294967296"
  shows "unat (align_up (2 ^ k) v div 2 ^ k) = (unat v + 2 ^ k - 1) div 2 ^ k"
proof -
  have "(unat v + 2 ^ k - 1) div 2 ^ k * 2 ^ k \<le> unat v + 2 ^ k - 1"
    by simp
  also have "\<dots> < 4294967296"
    using assms(2) by simp
  finally show ?thesis
    using assms(1) by (simp add: unat_div unat_align_up unat_pow2_u32)
qed

section \<open>Properties\<close>

text \<open>
  For every boundary that is a power of two, \<^const>\<open>align_up\<close> returns the least multiple of the
  boundary that is not below its argument, provided such a multiple fits in 32 bits.
\<close>

theorem align_up_least:
  assumes "k < 32" and "unat v + 2 ^ k \<le> 4294967296"
  shows "2 ^ k dvd unat (align_up (2 ^ k) v) \<and> v \<le> align_up (2 ^ k) v
    \<and> (\<forall>w. 2 ^ k dvd unat w \<longrightarrow> v \<le> w \<longrightarrow> align_up (2 ^ k) v \<le> w)"
proof -
  let ?p = "2 ^ k :: nat" and ?n = "unat v"
  let ?u = "(?n + ?p - 1) div ?p * ?p"
  have "?u \<le> ?n + ?p - 1" by simp
  also have "\<dots> < 4294967296" using assms(2) by simp
  finally have u: "unat (align_up (2 ^ k) v) = ?u"
    using unat_align_up [OF assms(1), of v] by (simp only: mod_less)
  have "?n \<le> ?u"
    by (rule round_up_ge) simp
  moreover have "?u \<le> w" if "?p dvd w" and "?n \<le> w" for w
  proof -
    obtain q where q: "w = q * ?p" using \<open>?p dvd w\<close> by (metis dvd_def mult.commute)
    have "0 < ?p" by simp
    then have "?n + ?p - 1 < q * ?p + ?p"
      using \<open>?n \<le> w\<close> q by linarith
    then have "?n + ?p - 1 < (q + 1) * ?p" by simp
    then have "(?n + ?p - 1) div ?p < q + 1"
      by (rule less_mult_imp_div_less)
    then show ?thesis using q by simp
  qed
  ultimately show ?thesis
    using u by (auto simp: word_le_nat_alt)
qed

theorem align_up_least_witness:
  "4096 dvd unat (align_up (2 ^ 12) 5000) \<and> 5000 \<le> align_up (2 ^ 12) 5000 \<and> align_up (2 ^ 12) 5000 \<le> 8192"
  using align_up_least [of 12 5000] by simp

end
