(* ===== verification/Free_List.thy ===== *)
theory Free_List
  imports Mem_Utils
begin

text \<open>
  \<^verbatim>\<open>memory/free_list.{hpp,cpp}\<close>: a singly linked list of free page blocks of one order, kept sorted by address,
  whose links are written into the free blocks themselves. Operations return the new store, the
  new list head and statistics, and the routine's own result. The second part relates the
  pointers to a sorted list of page numbers.
\<close>

section \<open>Definitions\<close>

text \<open>
  Orders are small numbers (at most \<^verbatim>\<open>MAX_ORDER = 10\<close>) and are kept as natural numbers; every
  counter that the code lets wrap is a word.
\<close>

record free_list =
  fl_items :: u32
  fl_list :: ptr
  fl_order :: nat
  fl_disable_squashing :: bool

definition free_list_empty :: free_list where
  "free_list_empty =
     \<lparr>fl_items = 0, fl_list = nullptr, fl_order = 0, fl_disable_squashing = False\<rparr>"

definition set_next :: "store \<Rightarrow> ptr \<Rightarrow> ptr \<Rightarrow> store" where
  "set_next m p q = m\<lparr>nexts := (nexts m)(p := q)\<rparr>"

text \<open>\<^verbatim>\<open>if (p) p = p->next;\<close>\<close>

definition next_or_null :: "store \<Rightarrow> ptr \<Rightarrow> ptr" where
  "next_or_null m p = (if p = nullptr then nullptr else nexts m p)"

text \<open>Subtraction of \<^verbatim>\<open>page_frame_t\<close> pointers: a signed number of frames.\<close>

definition frame_diff :: "ptr \<Rightarrow> ptr \<Rightarrow> u32" where
  "frame_diff a b = signed_drop_bit 12 (a - b)"

definition are_consequent :: "ptr \<Rightarrow> ptr \<Rightarrow> nat \<Rightarrow> bool" where
  "are_consequent fst_frame snd_frame order \<longleftrightarrow>
     frame_diff snd_frame fst_frame = push_bit order 1"

definition is_the_first_in_buddy :: "ptr \<Rightarrow> nat \<Rightarrow> bool" where
  "is_the_first_in_buddy frame order \<longleftrightarrow>
     frame_diff frame nullptr AND push_bit order 1 = 0"

text \<open>The two iterators of the cycle check advance by one and by two items.\<close>

definition fl_chase :: "store \<Rightarrow> ptr \<times> ptr \<Rightarrow> ptr \<times> ptr" where
  "fl_chase m = (\<lambda>(slow, fast). (next_or_null m slow, next_or_null m (next_or_null m fast)))"

definition fl_sanity_check :: "store \<Rightarrow> free_list \<Rightarrow> unit result" where
  "fl_sanity_check m fl =
     bindE (of_loop (while_option (\<lambda>(slow, fast). slow \<noteq> nullptr \<and> fast \<noteq> nullptr \<and> slow \<noteq> fast)
         (fl_chase m) (fl_chase m (fl_list fl, fl_list fl))))
       (\<lambda>(slow, fast).
         if slow = fast \<and> slow \<noteq> nullptr then Inl (Panic ''FreeList loop detected!'')
         else bindE (of_loop (while_option (\<lambda>(it, len). it \<noteq> nullptr)
                 (\<lambda>(it, len). (nexts m it, len + 1)) (fl_list fl, 0 :: u32)))
           (\<lambda>(it, len).
             if len \<noteq> fl_items fl then Inl (Panic ''FreeList stats are invalid!'')
             else Inr ()))"

text \<open>\<^verbatim>\<open>sanity_check(); return p;\<close> ends every path through \<^verbatim>\<open>get\<close> and \<^verbatim>\<open>put\<close>.\<close>

definition fl_return :: "store \<Rightarrow> free_list \<Rightarrow> ptr \<Rightarrow> (store \<times> free_list \<times> ptr) result" where
  "fl_return m fl p = bindE (fl_sanity_check m fl) (\<lambda>_. Inr (m, fl, p))"

definition fl_initialize :: "store \<Rightarrow> free_list \<Rightarrow> nat \<Rightarrow> bool \<Rightarrow> (free_list \<times> bool) result" where
  "fl_initialize m fl order disable_squashing =
     (let fl' = fl\<lparr>fl_list := nullptr, fl_order := order, fl_disable_squashing := disable_squashing\<rparr>
      in bindE (fl_sanity_check m fl') (\<lambda>_. Inr (fl', True)))"

definition fl_get :: "store \<Rightarrow> free_list \<Rightarrow> (store \<times> free_list \<times> ptr) result" where
  "fl_get m fl =
     (let free_item = fl_list fl
      in if free_item \<noteq> nullptr
         then fl_return (set_next m free_item nullptr)
                (fl\<lparr>fl_list := nexts m free_item, fl_items := fl_items fl - 1\<rparr>) free_item
         else fl_return m fl free_item)"

definition fl_find_last_lesser :: "store \<Rightarrow> free_list \<Rightarrow> ptr \<Rightarrow> (ptr \<times> ptr) result" where
  "fl_find_last_lesser m fl new_item =
     bindE (of_loop (while_option (\<lambda>(item, lst, prelast). item \<noteq> nullptr \<and> item < new_item)
         (\<lambda>(item, lst, prelast). (nexts m item, item, lst)) (fl_list fl, nullptr, nullptr)))
       (\<lambda>(item, lst, prelast). Inr (lst, prelast))"

definition fl_put :: "store \<Rightarrow> free_list \<Rightarrow> ptr \<Rightarrow> (store \<times> free_list \<times> ptr) result" where
  "fl_put m0 fl frame =
     (if frame = nullptr then Inl Undef
      else let m = set_next m0 frame nullptr;
               grown = fl\<lparr>fl_items := fl_items fl + 1\<rparr>;
               shrunk = fl\<lparr>fl_items := fl_items fl - 1\<rparr>
      in if fl_list fl = nullptr then fl_return m (grown\<lparr>fl_list := frame\<rparr>) nullptr
      else bindE (fl_find_last_lesser m fl frame) (\<lambda>(last_lesser, prelast_lesser).
        if fl_disable_squashing fl then
          (if last_lesser = nullptr
           then fl_return (set_next m frame (fl_list fl)) (grown\<lparr>fl_list := frame\<rparr>) nullptr
           else fl_return (set_next (set_next m frame (nexts m last_lesser)) last_lesser frame)
                  grown nullptr)
        else if last_lesser = nullptr then
          (if are_consequent frame (fl_list fl) (fl_order fl)
              \<and> is_the_first_in_buddy frame (fl_order fl)
           then fl_return m (shrunk\<lparr>fl_list := nexts m (fl_list fl)\<rparr>) frame
           else fl_return (set_next m frame (fl_list fl)) (grown\<lparr>fl_list := frame\<rparr>) nullptr)
        else let next_item = nexts m last_lesser
        in if are_consequent last_lesser frame (fl_order fl)
              \<and> is_the_first_in_buddy last_lesser (fl_order fl) then
             (if prelast_lesser \<noteq> nullptr
              then fl_return
                     (set_next (set_next m prelast_lesser next_item) last_lesser nullptr)
                     shrunk last_lesser
              else fl_return (set_next m last_lesser nullptr)
                     (shrunk\<lparr>fl_list := next_item\<rparr>) last_lesser)
           else if are_consequent frame next_item (fl_order fl)
                   \<and> is_the_first_in_buddy frame (fl_order fl) then
             (if next_item = nullptr then Inl Undef
              else fl_return (set_next m last_lesser (nexts m next_item)) shrunk frame)
           else fl_return (set_next (set_next m frame next_item) last_lesser frame)
                  grown nullptr))"

section \<open>The sanity check terminates and is exact\<close>

lemma next_or_null_null [simp]: "next_or_null m nullptr = nullptr"
  by (simp add: next_or_null_def)

lemma next_or_null_item [simp]: "p \<noteq> nullptr \<Longrightarrow> next_or_null m p = nexts m p"
  by (simp add: next_or_null_def)

lemma next_or_null_funpow_null [simp]: "(next_or_null m ^^ k) nullptr = nullptr"
  by (induction k) simp_all

lemma fl_chase_funpow:
  "(fl_chase m ^^ i) (p, p) = ((next_or_null m ^^ i) p, (next_or_null m ^^ (2 * i)) p)"
  by (induction i) (simp_all add: fl_chase_def)

text \<open>A list that reaches null visits no item twice.\<close>

lemma visits_distinct:
  assumes "(next_or_null m ^^ n) p = nullptr" and "i < j"
    and "(next_or_null m ^^ i) p \<noteq> nullptr"
  shows "(next_or_null m ^^ i) p \<noteq> (next_or_null m ^^ j) p"
proof
  let ?g = "next_or_null m"
  assume eq: "(?g ^^ i) p = (?g ^^ j) p"
  have "1 \<le> j - i" using \<open>i < j\<close> by simp
  then have "n * 1 \<le> n * (j - i)" by (rule mult_le_mono2)
  then have "n \<le> i + n * (j - i)" by (simp only: mult_1_right trans_le_add2)
  then obtain e where e: "i + n * (j - i) = e + n" by (metis le_add_diff_inverse2)
  have "(?g ^^ (i + n * (j - i))) p = (?g ^^ i) p"
    using eq \<open>i < j\<close> by (intro funpow_periodic) simp_all
  then show False
    using assms(1,3) by (simp add: e funpow_add)
qed

text \<open>A list that never reaches null is caught: some item is at a position and at its double.\<close>

lemma chase_meets:
  assumes "\<And>k. (next_or_null m ^^ k) p \<noteq> nullptr"
  shows "\<exists>i > 0. (next_or_null m ^^ i) p = (next_or_null m ^^ (2 * i)) p"
proof -
  let ?x = "\<lambda>k. (next_or_null m ^^ k) p"
  have "\<not> inj ?x"
    using finite_imageD [OF finite [of "range ?x"]] infinite_UNIV_nat by blast
  then obtain u v where uv: "u \<noteq> v" "?x u = ?x v" by (auto simp: inj_def)
  define a b where "a = min u v" and "b = max u v"
  have "a < b" and ab: "?x a = ?x b"
    using uv by (auto simp: a_def b_def min_def max_def)
  define i where "i = (a + 1) * (b - a)"
  have "1 \<le> b - a" using \<open>a < b\<close> by simp
  then have "a + 1 \<le> i"
    using mult_le_mono2 [of 1 "b - a" "a + 1"] by (simp add: i_def)
  then have "?x (i + (a + 1) * (b - a)) = ?x i"
    using ab \<open>a < b\<close> by (intro funpow_periodic) simp_all
  then have "?x (2 * i) = ?x i" by (simp only: i_def [symmetric] mult_2)
  then show ?thesis using \<open>a + 1 \<le> i\<close> by (intro exI [of _ i]) simp
qed

lemma count_items:
  assumes "(next_or_null m ^^ n) p = nullptr" and "\<And>i. i < n \<Longrightarrow> (next_or_null m ^^ i) p \<noteq> nullptr"
  shows "while_option (\<lambda>(it, len). it \<noteq> nullptr) (\<lambda>(it, len). (nexts m it, len + 1)) (p, k :: u32)
    = Some (nullptr, k + of_nat n)"
  using assms
proof (induction n arbitrary: p k)
  case 0
  then show ?case by (simp add: while_option_unfold)
next
  case (Suc n)
  from Suc.prems(2) [of 0] have p: "p \<noteq> nullptr" by simp
  then have nx: "next_or_null m p = nexts m p" by (simp add: next_or_null_def)
  have "while_option (\<lambda>(it, len). it \<noteq> nullptr) (\<lambda>(it, len). (nexts m it, len + 1))
      (next_or_null m p, k + 1) = Some (nullptr, (k + 1) + of_nat n)"
  proof (rule Suc.IH)
    show "(next_or_null m ^^ n) (next_or_null m p) = nullptr"
      using Suc.prems(1) by (simp add: funpow_swap1)
    show "(next_or_null m ^^ i) (next_or_null m p) \<noteq> nullptr" if "i < n" for i
      using Suc.prems(2) [of "Suc i"] that by (simp add: funpow_swap1)
  qed
  then show ?case
    using p by (simp add: while_option_unfold [of _ _ "(p, k)"] nx algebra_simps)
qed

lemma sanity_check_finite:
  assumes "(next_or_null m ^^ n) (fl_list fl) = nullptr"
    and "\<And>i. i < n \<Longrightarrow> (next_or_null m ^^ i) (fl_list fl) \<noteq> nullptr"
  shows "fl_sanity_check m fl =
    (if of_nat n = fl_items fl then Inr () else Inl (Panic ''FreeList stats are invalid!''))"
proof -
  let ?p = "fl_list fl" and ?g = "next_or_null m"
  let ?b = "\<lambda>(slow, fast). slow \<noteq> nullptr \<and> fast \<noteq> nullptr \<and> slow \<noteq> (fast :: ptr)"
  let ?s = "fl_chase m (?p, ?p)"
  have it: "(fl_chase m ^^ k) ?s = ((?g ^^ Suc k) ?p, (?g ^^ (2 * Suc k)) ?p)" for k
    using fl_chase_funpow [of "Suc k" m ?p] by (simp add: funpow_swap1)
  have "(?g ^^ (2 * Suc n)) ?p = nullptr"
    using assms(1) by (simp add: mult_2 funpow_add)
  then have "\<not> ?b ((fl_chase m ^^ n) ?s)"
    by (simp only: it) simp
  then obtain k where k: "while_option ?b (fl_chase m) ?s = Some ((fl_chase m ^^ k) ?s)"
    by (rule while_option_stops)
  have "Suc k < 2 * Suc k" by simp
  from visits_distinct [OF assms(1) this]
  have "\<not> ((?g ^^ Suc k) ?p = (?g ^^ (2 * Suc k)) ?p \<and> (?g ^^ Suc k) ?p \<noteq> nullptr)"
    by blast
  then show ?thesis
    using count_items [OF assms, of 0] k it [of k] by (simp add: fl_sanity_check_def)
qed

lemma sanity_check_cyclic:
  assumes "\<And>k. (next_or_null m ^^ k) (fl_list fl) \<noteq> nullptr"
  shows "fl_sanity_check m fl = Inl (Panic ''FreeList loop detected!'')"
proof -
  let ?p = "fl_list fl" and ?g = "next_or_null m"
  let ?b = "\<lambda>(slow, fast). slow \<noteq> nullptr \<and> fast \<noteq> nullptr \<and> slow \<noteq> (fast :: ptr)"
  let ?s = "fl_chase m (?p, ?p)"
  have it: "(fl_chase m ^^ k) ?s = ((?g ^^ Suc k) ?p, (?g ^^ (2 * Suc k)) ?p)" for k
    using fl_chase_funpow [of "Suc k" m ?p] by (simp add: funpow_swap1)
  obtain i where "0 < i" and "(?g ^^ i) ?p = (?g ^^ (2 * i)) ?p"
    using chase_meets [of m ?p] assms by blast
  then have "\<not> ?b ((fl_chase m ^^ (i - 1)) ?s)"
    by (cases i) (simp_all only: it diff_Suc_1 case_prod_conv simp_thms)
  then obtain k where k: "while_option ?b (fl_chase m) ?s = Some ((fl_chase m ^^ k) ?s)"
    and "\<not> ?b ((fl_chase m ^^ k) ?s)"
    by (rule while_option_stops)
  then have "(?g ^^ Suc k) ?p = (?g ^^ (2 * Suc k)) ?p"
    using assms by (simp only: it case_prod_conv simp_thms)
  then show ?thesis
    using k it [of k] assms [of "Suc k"] by (simp add: fl_sanity_check_def)
qed

section \<open>Page numbers and addresses\<close>

text \<open>
  A page frame is named by its number; the 32-bit address space has \<open>2 ^ 20\<close> of them, and frame 0
  is the null pointer.
\<close>

definition frame_addr :: "nat \<Rightarrow> ptr" where
  "frame_addr n = of_nat (n * 4096)"

abbreviation max_frame :: nat where
  "max_frame \<equiv> 1048576"

abbreviation frames :: "nat set" where
  "frames \<equiv> {0<..<max_frame}"

lemma unat_frame_addr: "n < max_frame \<Longrightarrow> unat (frame_addr n) = n * 4096"
  by (simp add: frame_addr_def unat_of_nat_u32 del: of_nat_mult)

lemma frame_addr_inject: "a < max_frame \<Longrightarrow> b < max_frame \<Longrightarrow> frame_addr a = frame_addr b \<longleftrightarrow> a = b"
  by (simp add: word_unat_eq_iff unat_frame_addr)

lemma frame_addr_less: "a < max_frame \<Longrightarrow> b < max_frame \<Longrightarrow> frame_addr a < frame_addr b \<longleftrightarrow> a < b"
  by (simp add: word_less_nat_alt unat_frame_addr)

lemma frame_addr_null: "a \<in> frames \<Longrightarrow> frame_addr a \<noteq> nullptr"
  by (simp add: word_unat_eq_iff unat_frame_addr)

lemma frame_addr_max: "frame_addr max_frame = nullptr"
  by (simp add: frame_addr_def)

lemma sint_frame_distance:
  assumes "d < max_frame"
  shows "sint (of_nat (d * 4096) :: u32) div 4096 = (if d < 524288 then int d else int d - 1048576)"
proof (cases "d < 524288")
  case True
  then have "sint (of_nat (d * 4096) :: u32) = int (d * 4096)"
    by (simp add: signed_of_nat signed_take_bit_int_eq_self_iff del: of_nat_mult)
  then show ?thesis using True by simp
next
  case False
  have "(of_nat (d * 4096) :: u32) = of_int (int d * 4096 - 4294967296)"
    by simp
  moreover have "sint (of_int (int d * 4096 - 4294967296) :: u32) = int d * 4096 - 4294967296"
    using False assms
    by (subst signed_of_int) (simp add: signed_take_bit_int_eq_self_iff)
  ultimately have "sint (of_nat (d * 4096) :: u32) = int d * 4096 - 4294967296"
    by (simp only:)
  then have "sint (of_nat (d * 4096) :: u32) = (int d - 1048576) * 4096"
    by (simp only: left_diff_distrib)
  then show ?thesis using False by simp
qed

lemma are_consequent_frames:
  assumes "a \<in> frames" "a < b" "b \<le> max_frame" "order < 19"
  shows "are_consequent (frame_addr a) (frame_addr b) order \<longleftrightarrow> b = a + 2 ^ order"
proof -
  let ?d = "b - a"
  have d: "?d < max_frame" using assms by auto
  have "frame_addr b - frame_addr a = of_nat (?d * 4096)"
    using assms(2) by (simp add: frame_addr_def of_nat_diff diff_mult_distrib algebra_simps)
  then have "sint (frame_diff (frame_addr b) (frame_addr a)) =
      (if ?d < 524288 then int ?d else int ?d - 1048576)"
    using sint_frame_distance [OF d]
    by (simp add: frame_diff_def sint_signed_drop_bit_eq drop_bit_eq_div del: of_nat_mult of_nat_diff)
  moreover have "sint (2 ^ order :: u32) = 2 ^ order"
  proof -
    have "(2::int) ^ order < 2 ^ 31"
      using assms(4) by (intro power_strict_increasing) simp_all
    moreover have "- 2147483648 \<le> (2::int) ^ order"
      by (rule order_trans [of _ 0]) simp_all
    ultimately have "sint (of_int (2 ^ order) :: u32) = 2 ^ order"
      by (subst signed_of_int) (simp add: signed_take_bit_int_eq_self_iff)
    then show ?thesis by simp
  qed
  ultimately have "frame_diff (frame_addr b) (frame_addr a) = 2 ^ order \<longleftrightarrow>
      (if ?d < 524288 then int ?d = 2 ^ order else int ?d - 1048576 = 2 ^ order)"
    by (metis signed_word_eqI)
  also have "\<dots> \<longleftrightarrow> ?d = 2 ^ order"
  proof -
    have "(2::nat) ^ order \<le> 2 ^ 18"
      using assms(4) by (intro power_increasing) simp_all
    moreover have "int ?d = 2 ^ order \<longleftrightarrow> ?d = 2 ^ order"
      by (metis of_nat_eq_iff of_nat_numeral of_nat_power)
    moreover have "int ?d - 1048576 \<noteq> 2 ^ order"
      using d zero_le_power [of "2::int" order] by linarith
    ultimately show ?thesis by (auto split: if_split)
  qed
  finally show ?thesis
    using assms(2) by (auto simp: are_consequent_def)
qed

lemma is_the_first_in_buddy_frames:
  assumes "a < max_frame" "order < 20"
  shows "is_the_first_in_buddy (frame_addr a) order \<longleftrightarrow> even (a div 2 ^ order)"
proof -
  have "frame_diff (frame_addr a) nullptr AND push_bit order 1 = 0 \<longleftrightarrow>
      \<not> bit (frame_diff (frame_addr a) nullptr) order"
    by (metis and_exp_eq_0_iff_not_bit push_bit_of_1)
  also have "bit (frame_diff (frame_addr a) nullptr) order \<longleftrightarrow> bit (frame_addr a) (12 + order)"
    using assms(2) by (simp add: frame_diff_def bit_signed_drop_bit_iff)
  also have "\<dots> \<longleftrightarrow> bit (unat (frame_addr a)) (12 + order)"
    by (simp add: bit_unsigned_iff)
  also have "\<dots> \<longleftrightarrow> bit (push_bit 12 a) (12 + order)"
    using assms(1) by (simp add: unat_frame_addr push_bit_eq_mult)
  also have "\<dots> \<longleftrightarrow> odd (a div 2 ^ order)"
    by (simp only: bit_push_bit_iff_nat) (simp add: bit_iff_odd)
  finally show ?thesis by (simp add: is_the_first_in_buddy_def)
qed

section \<open>Linked lists in the store\<close>

text \<open>\<open>linked h p xs q\<close>: following \<open>h\<close> from \<open>p\<close> visits the items \<open>xs\<close> and then reaches \<open>q\<close>.\<close>

fun linked :: "(ptr \<Rightarrow> ptr) \<Rightarrow> ptr \<Rightarrow> ptr list \<Rightarrow> ptr \<Rightarrow> bool" where
  "linked h p [] q \<longleftrightarrow> p = q"
| "linked h p (x # xs) q \<longleftrightarrow> p = x \<and> x \<noteq> nullptr \<and> linked h (h x) xs q"

lemma linked_append [simp]:
  "linked h p (xs @ ys) q \<longleftrightarrow> (\<exists>r. linked h p xs r \<and> linked h r ys q)"
  by (induction xs arbitrary: p) auto

lemma linked_cong:
  "(\<And>x. x \<in> set xs \<Longrightarrow> h' x = h x) \<Longrightarrow> linked h' p xs q \<longleftrightarrow> linked h p xs q"
  by (induction xs arbitrary: p) auto

lemma linked_upd [simp]: "u \<notin> set xs \<Longrightarrow> linked (h(u := v)) p xs q \<longleftrightarrow> linked h p xs q"
  by (rule linked_cong) auto

lemma linked_visits:
  assumes "linked (nexts m) p xs nullptr"
  shows "(next_or_null m ^^ length xs) p = nullptr"
    and "i < length xs \<Longrightarrow> (next_or_null m ^^ i) p = xs ! i \<and> xs ! i \<noteq> nullptr"
proof -
  show "(next_or_null m ^^ length xs) p = nullptr"
    using assms
  proof (induction xs arbitrary: p)
    case (Cons x xs)
    then show ?case by (simp add: funpow_swap1)
  qed simp
  show "i < length xs \<Longrightarrow> (next_or_null m ^^ i) p = xs ! i \<and> xs ! i \<noteq> nullptr"
    using assms
  proof (induction i arbitrary: p xs)
    case 0
    then show ?case by (cases xs) auto
  next
    case (Suc i)
    then obtain x ys where "xs = x # ys" by (cases xs) auto
    with Suc show ?case by (simp add: funpow_swap1) blast
  qed
qed

text \<open>
  The abstraction: the list represents a strictly increasing list of frame numbers, and its
  statistics count them.
\<close>

definition fl_rep :: "store \<Rightarrow> free_list \<Rightarrow> nat list \<Rightarrow> bool" where
  "fl_rep m fl ns \<longleftrightarrow> linked (nexts m) (fl_list fl) (map frame_addr ns) nullptr
     \<and> sorted_wrt (<) ns \<and> set ns \<subseteq> frames \<and> fl_items fl = of_nat (length ns)"

lemma fl_rep_sane: "fl_rep m fl ns \<Longrightarrow> fl_sanity_check m fl = Inr ()"
  using linked_visits [of m "fl_list fl" "map frame_addr ns"]
  by (subst sanity_check_finite [of "length ns"]) (auto simp: fl_rep_def)

lemma fl_rep_return: "fl_rep m fl ns \<Longrightarrow> fl_return m fl p = Inr (m, fl, p)"
  by (simp add: fl_return_def fl_rep_sane)

lemma frame_addr_notin:
  "x \<in> frames \<Longrightarrow> set ns \<subseteq> frames \<Longrightarrow> frame_addr x \<in> frame_addr ` set ns \<longleftrightarrow> x \<in> set ns"
  using frame_addr_inject by (auto simp: image_iff)

lemma fl_rep_Nil_iff: "fl_rep m fl [] \<longleftrightarrow> fl_list fl = nullptr \<and> fl_items fl = 0"
  by (auto simp: fl_rep_def)

lemma fl_rep_cong:
  assumes "fl_rep m fl ns" and "\<And>n. n \<in> set ns \<Longrightarrow> nexts m' (frame_addr n) = nexts m (frame_addr n)"
  shows "fl_rep m' fl ns"
proof -
  have "linked (nexts m') p (map frame_addr ns) q \<longleftrightarrow> linked (nexts m) p (map frame_addr ns) q" for p q
    using assms(2) by (intro linked_cong) auto
  then show ?thesis using assms(1) by (simp add: fl_rep_def)
qed

lemma fl_rep_other:
  assumes "fl_rep m fl ns" and "x \<in> frames" and "x \<notin> set ns"
  shows "fl_rep (set_next m (frame_addr x) q) fl ns"
  using assms(1)
proof (rule fl_rep_cong)
  fix n assume "n \<in> set ns"
  moreover from this assms have "n \<in> frames" by (auto simp: fl_rep_def)
  ultimately show "nexts (set_next m (frame_addr x) q) (frame_addr n) = nexts m (frame_addr n)"
    using assms(2,3) frame_addr_inject [of n x] by (auto simp: set_next_def)
qed

lemma fl_rep_push:
  assumes "fl_rep m fl ns" and "x \<in> frames" and "\<And>n. n \<in> set ns \<Longrightarrow> x < n"
  shows "fl_rep (set_next m (frame_addr x) (fl_list fl))
    (fl\<lparr>fl_items := fl_items fl + 1, fl_list := frame_addr x\<rparr>) (x # ns)"
proof -
  have "x \<notin> set ns" using assms(3) by blast
  from fl_rep_other [OF assms(1,2) this, of "fl_list fl"] show ?thesis
    using assms by (auto simp: fl_rep_def set_next_def frame_addr_null)
qed

lemma fl_rep_pop:
  assumes "fl_rep m fl (n # ns)"
  shows "fl_list fl = frame_addr n" and "n \<in> frames"
    and "fl_rep m (fl\<lparr>fl_items := fl_items fl - 1, fl_list := nexts m (frame_addr n)\<rparr>) ns"
  using assms by (auto simp: fl_rep_def)

lemma fl_rep_insert_after:
  assumes "fl_rep m fl (ls @ a # rs)" and "x \<in> frames" and "a < x" and "\<And>n. n \<in> set rs \<Longrightarrow> x < n"
  shows "fl_rep (set_next (set_next m (frame_addr x) (nexts m (frame_addr a))) (frame_addr a) (frame_addr x))
    (fl\<lparr>fl_items := fl_items fl + 1\<rparr>) (ls @ a # x # rs)"
proof -
  have sub: "set ls \<subseteq> frames" "set rs \<subseteq> frames" "a \<in> frames"
    and srt: "sorted_wrt (<) (ls @ a # rs)"
    using assms(1) by (auto simp: fl_rep_def)
  have "a \<notin> set ls" "a \<notin> set rs" "x \<notin> set ls" "x \<notin> set rs" "x \<noteq> a"
    using srt assms(3,4) by (auto simp: sorted_wrt_append)
  then have "frame_addr a \<notin> frame_addr ` set ls" "frame_addr a \<notin> frame_addr ` set rs"
    "frame_addr x \<notin> frame_addr ` set ls" "frame_addr x \<notin> frame_addr ` set rs"
    "frame_addr x \<noteq> frame_addr a"
    using sub assms(2) by (simp_all add: frame_addr_notin frame_addr_inject)
  then show ?thesis
    using assms srt by (auto simp: fl_rep_def set_next_def sorted_wrt_append frame_addr_null)
qed

lemma fl_rep_remove_after:
  assumes "fl_rep m fl (ls @ b # a # rs)"
  shows "fl_rep (set_next m (frame_addr b) (nexts m (frame_addr a)))
    (fl\<lparr>fl_items := fl_items fl - 1\<rparr>) (ls @ b # rs)"
proof -
  have sub: "set ls \<subseteq> frames" "set rs \<subseteq> frames" "b \<in> frames"
    and srt: "sorted_wrt (<) (ls @ b # a # rs)"
    using assms by (auto simp: fl_rep_def)
  have "b \<notin> set ls" "b \<notin> set rs"
    using srt by (auto simp: sorted_wrt_append)
  then have "frame_addr b \<notin> frame_addr ` set ls" "frame_addr b \<notin> frame_addr ` set rs"
    using sub by (simp_all add: frame_addr_notin)
  then show ?thesis
    using assms srt by (auto simp: fl_rep_def set_next_def sorted_wrt_append)
qed

text \<open>Reading the list that a pointer operation works on.\<close>

lemma fl_rep_next:
  assumes "fl_rep m fl (ls @ a # rs)"
  shows "nexts m (frame_addr a) = (case rs of [] \<Rightarrow> nullptr | n # _ \<Rightarrow> frame_addr n)"
  using assms by (cases rs) (auto simp: fl_rep_def)

section \<open>Refinement of the operations\<close>

text \<open>
  The list operations on frame numbers that the pointer code implements. A put squashes with the
  preceding or the following block when they are buddies; otherwise it inserts in order.
\<close>

definition put_pages :: "nat \<Rightarrow> bool \<Rightarrow> nat \<Rightarrow> nat list \<Rightarrow> nat list \<times> nat option" where
  "put_pages order nosquash x ns =
     (let ls = takeWhile (\<lambda>n. n < x) ns; rs = dropWhile (\<lambda>n. n < x) ns
      in if \<not> nosquash \<and> ls \<noteq> [] \<and> x = last ls + 2 ^ order \<and> even (last ls div 2 ^ order)
         then (butlast ls @ rs, Some (last ls))
         else if \<not> nosquash \<and> rs \<noteq> [] \<and> hd rs = x + 2 ^ order \<and> even (x div 2 ^ order)
         then (ls @ tl rs, Some x)
         else (ls @ x # rs, None))"

fun last_two :: "ptr \<Rightarrow> ptr \<Rightarrow> nat list \<Rightarrow> ptr \<times> ptr" where
  "last_two l k [] = (l, k)"
| "last_two l k (n # ns) = last_two (frame_addr n) l ns"

lemma last_two_snoc: "last_two l k (ns @ [a]) = (frame_addr a, fst (last_two l k ns))"
  by (induction ns arbitrary: l k) simp_all

lemma find_last_lesser_loop:
  assumes "linked (nexts m) p (map frame_addr ns) nullptr" and "set ns \<subseteq> frames" and "x \<in> frames"
  shows "\<exists>q. while_option (\<lambda>(item, lst, prelast). item \<noteq> nullptr \<and> item < frame_addr x)
      (\<lambda>(item, lst, prelast). (nexts m item, item, lst)) (p, l, k)
    = Some (q, last_two l k (takeWhile (\<lambda>n. n < x) ns))"
  using assms(1,2)
proof (induction ns arbitrary: p l k)
  case Nil
  then show ?case by (simp add: while_option_unfold)
next
  case (Cons n ns)
  then have p: "p = frame_addr n" "p \<noteq> nullptr" and n: "n \<in> frames" by auto
  then have "p < frame_addr x \<longleftrightarrow> n < x" using assms(3) by (simp add: frame_addr_less)
  then show ?case
    using Cons.IH [of "nexts m p" p l] Cons.prems p
    by (subst while_option_unfold) auto
qed

lemma find_last_lesser_rep:
  assumes "fl_rep m fl ns" and "x \<in> frames"
  shows "fl_find_last_lesser m fl (frame_addr x)
    = Inr (last_two nullptr nullptr (takeWhile (\<lambda>n. n < x) ns))"
proof -
  obtain q where "while_option (\<lambda>(item, lst, prelast). item \<noteq> nullptr \<and> item < frame_addr x)
      (\<lambda>(item, lst, prelast). (nexts m item, item, lst)) (fl_list fl, nullptr, nullptr)
    = Some (q, last_two nullptr nullptr (takeWhile (\<lambda>n. n < x) ns))"
    using assms find_last_lesser_loop [of m "fl_list fl" ns x nullptr nullptr]
    by (auto simp: fl_rep_def)
  then show ?thesis
    by (simp add: fl_find_last_lesser_def split: prod.split)
qed

text \<open>An operation writes the links of its own items only.\<close>

definition same_outside :: "nat set \<Rightarrow> store \<Rightarrow> store \<Rightarrow> bool" where
  "same_outside A m m' \<longleftrightarrow> bytes m' = bytes m
     \<and> (\<forall>p. p \<notin> frame_addr ` A \<longrightarrow> nexts m' p = nexts m p)"

lemma same_outside_refl [simp]: "same_outside A m m"
  by (simp add: same_outside_def)

lemma same_outside_set_next:
  "same_outside A m m' \<Longrightarrow> x \<in> A \<Longrightarrow> same_outside A m (set_next m' (frame_addr x) q)"
  by (auto simp: same_outside_def set_next_def)

lemma same_outside_trans:
  "same_outside A m m' \<Longrightarrow> same_outside B m' m'' \<Longrightarrow> same_outside (A \<union> B) m m''"
  by (simp add: same_outside_def image_Un)

lemma same_outside_mono: "same_outside A m m' \<Longrightarrow> A \<subseteq> B \<Longrightarrow> same_outside B m m'"
  by (auto simp: same_outside_def)

lemma fl_rep_same_outside:
  assumes "fl_rep m fl ns" and "same_outside A m m'" and "A \<subseteq> frames" and "A \<inter> set ns = {}"
  shows "fl_rep m' fl ns"
  using assms(1)
proof (rule fl_rep_cong)
  fix n assume "n \<in> set ns"
  moreover from this assms(1) have "n < max_frame" by (auto simp: fl_rep_def)
  moreover have "x < max_frame" if "x \<in> A" for x
    using assms(3) that by auto
  ultimately have "frame_addr n \<noteq> frame_addr x" if "x \<in> A" for x
    using assms(4) that by (auto simp: frame_addr_inject)
  then have "frame_addr n \<notin> frame_addr ` A" by blast
  then show "nexts m' (frame_addr n) = nexts m (frame_addr n)"
    using assms(2) by (auto simp: same_outside_def)
qed

lemma fl_get_Nil: "fl_rep m fl [] \<Longrightarrow> fl_get m fl = Inr (m, fl, nullptr)"
  using fl_rep_return [of m fl "[]" nullptr] by (simp add: fl_get_def fl_rep_Nil_iff)

lemma fl_get_Cons:
  assumes "fl_rep m fl (n # ns)"
  shows "\<exists>m' fl'. fl_get m fl = Inr (m', fl', frame_addr n) \<and> fl_rep m' fl' ns
    \<and> fl_order fl' = fl_order fl \<and> fl_disable_squashing fl' = fl_disable_squashing fl
    \<and> same_outside {n} m m'"
proof -
  let ?fl' = "fl\<lparr>fl_list := nexts m (frame_addr n), fl_items := fl_items fl - 1\<rparr>"
  let ?m' = "set_next m (frame_addr n) nullptr"
  note pop = fl_rep_pop [OF assms]
  have "n \<notin> set ns" using assms by (auto simp: fl_rep_def)
  moreover have "fl_rep m ?fl' ns" using pop(3) by (simp add: fl_rep_def)
  ultimately have "fl_rep ?m' ?fl' ns"
    using pop(2) by (intro fl_rep_other)
  moreover from this have "fl_get m fl = Inr (?m', ?fl', frame_addr n)"
    using pop(1) frame_addr_null [OF pop(2)] fl_rep_return [of ?m' ?fl' ns]
    by (simp add: fl_get_def Let_def)
  ultimately show ?thesis
    by (intro exI [of _ ?m'] exI [of _ ?fl']) (simp add: same_outside_set_next)
qed

text \<open>
  The split of a sorted list at a frame that is not in it.
\<close>

lemma split_at:
  assumes "sorted_wrt (<) ns" and "x \<notin> set ns"
  shows "\<And>n. n \<in> set (takeWhile (\<lambda>n. n < x) ns) \<Longrightarrow> n < x"
    and "\<And>n. n \<in> set (dropWhile (\<lambda>n. n < x) ns) \<Longrightarrow> x < (n::nat)"
    and "ns = takeWhile (\<lambda>n. n < x) ns @ dropWhile (\<lambda>n. n < x) ns"
proof -
  show "n \<in> set (takeWhile (\<lambda>n. n < x) ns) \<Longrightarrow> n < x" for n
    by (rule set_takeWhileD [THEN conjunct2])
  show "n \<in> set (dropWhile (\<lambda>n. n < x) ns) \<Longrightarrow> x < n" for n
    using assms by (induction ns) (auto split: if_splits)
  show "ns = takeWhile (\<lambda>n. n < x) ns @ dropWhile (\<lambda>n. n < x) ns" by simp
qed

definition ptr_of :: "nat option \<Rightarrow> ptr" where
  "ptr_of r = (case r of None \<Rightarrow> nullptr | Some n \<Rightarrow> frame_addr n)"

lemma ptr_of_simps [simp]: "ptr_of None = nullptr" "ptr_of (Some n) = frame_addr n"
  by (simp_all add: ptr_of_def)

text \<open>What a put guarantees: the result, the represented list and what it left alone.\<close>

definition put_ok :: "store \<Rightarrow> free_list \<Rightarrow> nat \<Rightarrow> nat list \<Rightarrow> nat list \<times> nat option \<Rightarrow> bool" where
  "put_ok m fl x ns = (\<lambda>(ns', r). \<exists>m' fl'. fl_put m fl (frame_addr x) = Inr (m', fl', ptr_of r)
     \<and> fl_rep m' fl' ns' \<and> fl_order fl' = fl_order fl
     \<and> fl_disable_squashing fl' = fl_disable_squashing fl \<and> same_outside (insert x (set ns)) m m')"

lemma put_okI:
  assumes "fl_put m fl (frame_addr x) = fl_return m' fl' (ptr_of r)" and "fl_rep m' fl' ns'"
    and "fl_order fl' = fl_order fl" and "fl_disable_squashing fl' = fl_disable_squashing fl"
    and "same_outside (insert x (set ns)) m m'"
  shows "put_ok m fl x ns (ns', r)"
  using assms by (auto simp: put_ok_def fl_rep_return)

text \<open>A put at the head of the list.\<close>

lemma fl_put_head:
  assumes rep: "fl_rep m fl ns" and x: "x \<in> frames" and lt: "\<And>n. n \<in> set ns \<Longrightarrow> x < n"
    and ord: "fl_order fl < 19"
  shows "put_ok m fl x ns (put_pages (fl_order fl) (fl_disable_squashing fl) x ns)"
proof -
  let ?m = "set_next m (frame_addr x) nullptr" and ?o = "fl_order fl"
  have "x \<notin> set ns" using lt by blast
  then have rep1: "fl_rep ?m fl ns" using rep x by (intro fl_rep_other)
  have tw: "takeWhile (\<lambda>n. n < x) ns = []" "dropWhile (\<lambda>n. n < x) ns = ns"
    using lt by (cases ns; fastforce)+
  have find: "fl_find_last_lesser ?m fl (frame_addr x) = Inr (nullptr, nullptr)"
    using find_last_lesser_rep [OF rep1 x] by (simp add: tw)
  have push: "fl_rep (set_next ?m (frame_addr x) (fl_list fl))
      (fl\<lparr>fl_items := fl_items fl + 1, fl_list := frame_addr x\<rparr>) (x # ns)"
    using rep1 x lt by (rule fl_rep_push)
  have out: "same_outside (insert x (set ns)) m (set_next ?m (frame_addr x) q)"
    "same_outside (insert x (set ns)) m ?m" for q
    by (simp_all add: same_outside_set_next)
  note defs = fl_put_def Let_def frame_addr_null [OF x] find
  show ?thesis
  proof (cases ns)
    case Nil
    then have "fl_list fl = nullptr" using rep by (simp add: fl_rep_def)
    moreover have "set_next ?m (frame_addr x) nullptr = ?m" by (simp add: set_next_def)
    ultimately show ?thesis
      using push out(2) Nil by (auto intro!: put_okI simp: put_pages_def defs)
  next
    case (Cons c cs)
    have c: "c \<in> frames" "x < c" "fl_list fl = frame_addr c"
      using rep lt Cons by (auto simp: fl_rep_def)
    have cons: "are_consequent (frame_addr x) (fl_list fl) ?o \<and> is_the_first_in_buddy (frame_addr x) ?o
        \<longleftrightarrow> c = x + 2 ^ ?o \<and> even (x div 2 ^ ?o)"
      using c x ord by (simp add: are_consequent_frames is_the_first_in_buddy_frames)
    show ?thesis
    proof (cases "\<not> fl_disable_squashing fl \<and> c = x + 2 ^ ?o \<and> even (x div 2 ^ ?o)")
      case True
      have "fl_rep ?m (fl\<lparr>fl_items := fl_items fl - 1, fl_list := nexts ?m (frame_addr c)\<rparr>) cs"
        using fl_rep_pop(3) [of ?m fl c cs] rep1 Cons by simp
      then show ?thesis
        using True Cons c cons out(2) tw frame_addr_null [OF c(1)]
        by (auto intro!: put_okI simp: put_pages_def defs)
    next
      case False
      then have "put_pages ?o (fl_disable_squashing fl) x ns = (x # ns, None)"
        using tw Cons by (auto simp: put_pages_def)
      then show ?thesis
        using False c cons out(1) push frame_addr_null [OF c(1)]
        by (auto intro!: put_okI simp: defs)
    qed
  qed
qed

text \<open>
  The null pointer behaves as the frame past the last one. A block that ends there is the second
  of its pair, so it is never squashed with null.
\<close>

lemma last_block_not_first:
  assumes "x + 2 ^ order = max_frame" and "order < 20"
  shows "odd (x div 2 ^ order)"
proof -
  have "(max_frame :: nat) = 2 ^ (20 - order) * 2 ^ order"
    using assms(2) by (simp add: power_add [symmetric])
  then have "x = (2 ^ (20 - order) - 1) * 2 ^ order"
    using assms(1) by (simp add: diff_mult_distrib)
  then have "x div 2 ^ order = 2 ^ (20 - order) - 1" by simp
  then show ?thesis using assms(2) by simp
qed

text \<open>A put behind an item of the list.\<close>

lemma fl_put_behind:
  assumes rep: "fl_rep m fl (ls @ a # rs)" and x: "x \<in> frames" and lt: "a < x"
    and gt: "\<And>n. n \<in> set rs \<Longrightarrow> x < n" and ord: "fl_order fl < 19"
  shows "put_ok m fl x (ls @ a # rs)
    (put_pages (fl_order fl) (fl_disable_squashing fl) x (ls @ a # rs))"
proof -
  let ?m = "set_next m (frame_addr x) nullptr" and ?o = "fl_order fl" and ?ns = "ls @ a # rs"
  have srt: "sorted_wrt (<) ?ns" and a: "a \<in> frames" and sub: "set ?ns \<subseteq> frames"
    using rep by (auto simp: fl_rep_def)
  have "x \<notin> set ?ns" using srt lt gt by (auto simp: sorted_wrt_append)
  then have rep1: "fl_rep ?m fl ?ns" using rep x by (intro fl_rep_other)
  have lsx: "\<And>n. n \<in> set ls \<Longrightarrow> n < x" using srt lt by (auto simp: sorted_wrt_append)
  have tw: "takeWhile (\<lambda>n. n < x) ?ns = ls @ [a]" "dropWhile (\<lambda>n. n < x) ?ns = rs"
    using lsx lt gt by (cases rs; fastforce)+
  define pre where "pre = fst (last_two nullptr nullptr ls)"
  have find: "fl_find_last_lesser ?m fl (frame_addr x) = Inr (frame_addr a, pre)"
    using find_last_lesser_rep [OF rep1 x] by (simp add: tw(1) last_two_snoc pre_def)
  have list: "fl_list fl \<noteq> nullptr"
    using rep frame_addr_null [OF a] by (cases ls) (auto simp: fl_rep_def)
  define nx where "nx = nexts ?m (frame_addr a)"
  have nx: "nx = frame_addr (case rs of [] \<Rightarrow> max_frame | n # _ \<Rightarrow> n)"
    using fl_rep_next [OF rep1] by (simp add: nx_def frame_addr_max split: list.split)
  note defs = fl_put_def Let_def frame_addr_null [OF x] frame_addr_null [OF a] find list
  define L R where "L \<longleftrightarrow> x = a + 2 ^ ?o \<and> even (a div 2 ^ ?o)"
    and "R \<longleftrightarrow> rs \<noteq> [] \<and> hd rs = x + 2 ^ ?o \<and> even (x div 2 ^ ?o)"
  have cl: "are_consequent (frame_addr a) (frame_addr x) ?o \<and> is_the_first_in_buddy (frame_addr a) ?o
      \<longleftrightarrow> L"
    using a x lt ord by (simp add: L_def are_consequent_frames is_the_first_in_buddy_frames)
  have cr: "are_consequent (frame_addr x) nx ?o \<and> is_the_first_in_buddy (frame_addr x) ?o
      \<longleftrightarrow> R"
  proof (cases rs)
    case Nil
    then show ?thesis
      using x ord last_block_not_first [of x ?o]
      by (auto simp: R_def nx are_consequent_frames is_the_first_in_buddy_frames)
  next
    case (Cons c cs)
    then have "c \<in> frames" "x < c" using sub gt by auto
    then show ?thesis
      using x ord Cons by (simp add: R_def nx are_consequent_frames is_the_first_in_buddy_frames)
  qed
  have out1: "same_outside (insert x (set ?ns)) m (set_next ?m (frame_addr y) q)"
    if "y \<in> insert x (set ?ns)" for y q
    using that by (simp add: same_outside_set_next)
  have out2: "same_outside (insert x (set ?ns)) m (set_next (set_next ?m (frame_addr y) q) (frame_addr z) r)"
    if "y \<in> insert x (set ?ns)" "z \<in> insert x (set ?ns)" for y z q r
    using that by (simp add: same_outside_set_next)
  consider (left) "\<not> fl_disable_squashing fl" L
    | (right) "\<not> fl_disable_squashing fl" "\<not> L" R
    | (alone) "fl_disable_squashing fl \<or> \<not> L \<and> \<not> R"
    by blast
  then show ?thesis
  proof cases
    case left
    then have res: "put_pages ?o (fl_disable_squashing fl) x ?ns = (ls @ rs, Some a)"
      unfolding put_pages_def tw L_def by simp
    have adist: "a \<notin> set (ls @ rs)" using srt by (auto simp: sorted_wrt_append)
    show ?thesis
    proof (cases ls rule: rev_cases)
      case Nil
      have "fl_rep ?m (fl\<lparr>fl_items := fl_items fl - 1, fl_list := nx\<rparr>) rs"
        using fl_rep_pop(3) [of ?m fl a rs] rep1 Nil by (simp add: nx_def)
      then have "fl_rep (set_next ?m (frame_addr a) nullptr)
          (fl\<lparr>fl_items := fl_items fl - 1, fl_list := nx\<rparr>) (ls @ rs)"
        using fl_rep_other [OF _ a] adist Nil by simp
      moreover have "pre = nullptr" by (simp add: pre_def Nil)
      ultimately show ?thesis
        using left cl out1 [of a]
        unfolding res by (auto intro!: put_okI simp: defs nx_def [symmetric])
    next
      case (snoc ks b)
      have b: "b \<in> frames" using sub snoc by auto
      have "fl_rep (set_next ?m (frame_addr b) nx) (fl\<lparr>fl_items := fl_items fl - 1\<rparr>) (ls @ rs)"
        using fl_rep_remove_after [of ?m fl ks b a rs] rep1 snoc by (simp add: nx_def)
      then have "fl_rep (set_next (set_next ?m (frame_addr b) nx) (frame_addr a) nullptr)
          (fl\<lparr>fl_items := fl_items fl - 1\<rparr>) (ls @ rs)"
        using fl_rep_other [OF _ a adist] by simp
      moreover have "pre = frame_addr b" by (simp add: pre_def snoc last_two_snoc)
      ultimately show ?thesis
        using left cl out2 [of b a] frame_addr_null [OF b] snoc
        unfolding res by (auto intro!: put_okI simp: defs nx_def [symmetric])
    qed
  next
    case right
    then obtain c cs where rs: "rs = c # cs" by (cases rs) (auto simp: R_def)
    have c: "c \<in> frames" using sub rs by auto
    have res: "put_pages ?o (fl_disable_squashing fl) x ?ns = (ls @ a # cs, Some x)"
      using right rs unfolding put_pages_def tw L_def R_def by auto
    have "fl_rep (set_next ?m (frame_addr a) (nexts ?m (frame_addr c)))
        (fl\<lparr>fl_items := fl_items fl - 1\<rparr>) (ls @ a # cs)"
      using rep1 rs by (intro fl_rep_remove_after) simp
    moreover have "nx = frame_addr c" using nx rs by simp
    ultimately show ?thesis
      using right cl cr out1 [of a] frame_addr_null [OF c]
      unfolding res by (auto intro!: put_okI simp: defs nx_def [symmetric])
  next
    case alone
    then have res: "put_pages ?o (fl_disable_squashing fl) x ?ns = (ls @ a # x # rs, None)"
      unfolding put_pages_def tw L_def R_def by auto
    have "fl_rep (set_next (set_next ?m (frame_addr x) nx) (frame_addr a) (frame_addr x))
        (fl\<lparr>fl_items := fl_items fl + 1\<rparr>) (ls @ a # x # rs)"
      unfolding nx_def using rep1 x lt gt by (rule fl_rep_insert_after)
    then show ?thesis
      using alone cl cr out2 [of x a]
      unfolding res by (auto intro!: put_okI simp: defs nx_def [symmetric])
  qed
qed

lemma fl_put_refines:
  assumes "fl_rep m fl ns" and "x \<in> frames" and "x \<notin> set ns" and "fl_order fl < 19"
  shows "put_ok m fl x ns (put_pages (fl_order fl) (fl_disable_squashing fl) x ns)"
proof -
  have "sorted_wrt (<) ns" using assms(1) by (simp add: fl_rep_def)
  note split = split_at [OF this assms(3)]
  show ?thesis
  proof (cases "takeWhile (\<lambda>n. n < x) ns" rule: rev_cases)
    case Nil
    then have "\<And>n. n \<in> set ns \<Longrightarrow> x < n" using split(2,3) by (metis append_Nil)
    then show ?thesis using assms by (intro fl_put_head)
  next
    case (snoc ls a)
    then have ns: "ns = ls @ a # dropWhile (\<lambda>n. n < x) ns" using split(3) by simp
    have "a < x" using split(1) snoc by simp
    then have "put_ok m fl x (ls @ a # dropWhile (\<lambda>n. n < x) ns)
        (put_pages (fl_order fl) (fl_disable_squashing fl) x (ls @ a # dropWhile (\<lambda>n. n < x) ns))"
      using assms split(2) ns by (intro fl_put_behind) simp_all
    then show ?thesis by (simp only: ns [symmetric])
  qed
qed

section \<open>Buddies\<close>

text \<open>The other half of the pair that a block of the order belongs to.\<close>

definition buddy :: "nat \<Rightarrow> nat \<Rightarrow> nat" where
  "buddy order x = (if even (x div 2 ^ order) then x + 2 ^ order else x - 2 ^ order)"

lemma multiple_between:
  assumes "(p::nat) dvd a" and "p dvd b" and "a < b" and "b < a + 2 * p"
  shows "b = a + p"
proof -
  obtain i j where a: "a = p * i" and b: "b = p * j" using assms(1,2) by (auto simp: dvd_def)
  have "p * i < p * j" using assms(3) by (simp only: a b)
  then have "i < j" by simp
  have "p * j < p * (i + 2)" using assms(4) by (simp add: a b algebra_simps)
  then have "j < i + 2" by (simp only: nat_mult_less_cancel_disj)
  with \<open>i < j\<close> have "j = i + 1" by simp
  then show ?thesis by (simp add: a b)
qed

lemma div_next: "(p::nat) dvd a \<Longrightarrow> 0 < p \<Longrightarrow> (a + p) div p = a div p + 1"
  by simp

lemma odd_quotient_le: "odd (a div (p::nat)) \<Longrightarrow> p \<le> a"
  by (cases "a < p") simp_all

lemma sorted_last_ge: "sorted_wrt (<) ls \<Longrightarrow> (y::nat) \<in> set ls \<Longrightarrow> y \<le> last ls"
  by (induction ls rule: rev_induct) (auto simp: sorted_wrt_append)

lemma sorted_hd_le: "sorted_wrt (<) rs \<Longrightarrow> (y::nat) \<in> set rs \<Longrightarrow> hd rs \<le> y"
  by (cases rs) auto

text \<open>On lists of blocks of the order, a put squashes exactly when the buddy is there.\<close>

lemma put_pages_left:
  fixes x :: nat
  assumes "sorted_wrt (<) ls" and "\<And>n. n \<in> set ls \<Longrightarrow> n < x \<and> 2 ^ order dvd n" and "2 ^ order dvd x"
  shows "ls \<noteq> [] \<and> x = last ls + 2 ^ order \<and> even (last ls div 2 ^ order)
    \<longleftrightarrow> odd (x div 2 ^ order) \<and> x - 2 ^ order \<in> set ls"
proof
  assume "ls \<noteq> [] \<and> x = last ls + 2 ^ order \<and> even (last ls div 2 ^ order)"
  then show "odd (x div 2 ^ order) \<and> x - 2 ^ order \<in> set ls"
    using assms(2) [of "last ls"] by (simp add: div_next)
next
  assume h: "odd (x div 2 ^ order) \<and> x - 2 ^ order \<in> set ls"
  then have "ls \<noteq> []" "2 ^ order \<le> x" "x - 2 ^ order \<le> last ls"
    using assms(1) by (auto intro: odd_quotient_le sorted_last_ge)
  moreover from this have l: "last ls < x" "2 ^ order dvd last ls" using assms(2) by simp_all
  ultimately have "x = last ls + 2 ^ order"
    using assms(3) by (intro multiple_between) linarith+
  then show "ls \<noteq> [] \<and> x = last ls + 2 ^ order \<and> even (last ls div 2 ^ order)"
    using h l \<open>ls \<noteq> []\<close> by (simp add: div_next)
qed

lemma filter_notin: "y \<notin> set ls \<Longrightarrow> filter (\<lambda>n. n \<noteq> y) ls = ls"
  by (auto simp: filter_id_conv)

lemma put_pages_right:
  fixes x :: nat
  assumes "sorted_wrt (<) rs" and "\<And>n. n \<in> set rs \<Longrightarrow> x < n \<and> 2 ^ order dvd n" and "2 ^ order dvd x"
  shows "rs \<noteq> [] \<and> hd rs = x + 2 ^ order \<longleftrightarrow> x + 2 ^ order \<in> set rs"
proof
  assume h: "x + 2 ^ order \<in> set rs"
  then have "rs \<noteq> []" "hd rs \<le> x + 2 ^ order"
    using assms(1) by (auto intro: sorted_hd_le)
  moreover from this have "x < hd rs" "2 ^ order dvd hd rs" using assms(2) by simp_all
  moreover have "0 < (2::nat) ^ order" by simp
  ultimately have "hd rs = x + 2 ^ order"
    using assms(3) by (intro multiple_between) linarith+
  with \<open>rs \<noteq> []\<close> show "rs \<noteq> [] \<and> hd rs = x + 2 ^ order" by simp
qed (metis hd_in_set)

lemma put_pages_buddy:
  assumes srt: "sorted_wrt (<) ns" and x: "x \<notin> set ns"
    and al: "2 ^ order dvd x" "\<And>n. n \<in> set ns \<Longrightarrow> 2 ^ order dvd n"
  shows "put_pages order nosquash x ns =
    (if \<not> nosquash \<and> buddy order x \<in> set ns
     then (filter (\<lambda>n. n \<noteq> buddy order x) ns, Some (min x (buddy order x)))
     else (takeWhile (\<lambda>n. n < x) ns @ x # dropWhile (\<lambda>n. n < x) ns, None))"
proof -
  let ?p = "2 ^ order :: nat"
  define ls rs where "ls = takeWhile (\<lambda>n. n < x) ns" and "rs = dropWhile (\<lambda>n. n < x) ns"
  have lt: "\<And>n. n \<in> set ls \<Longrightarrow> n < x" and gt: "\<And>n. n \<in> set rs \<Longrightarrow> x < n"
    and ns: "ns = ls @ rs"
    using split_at [OF srt x] by (auto simp: ls_def rs_def)
  have srts: "sorted_wrt (<) ls" "sorted_wrt (<) rs" "distinct ns"
    using srt by (auto simp: ns sorted_wrt_append strict_sorted_iff)
  have left: "ls \<noteq> [] \<and> x = last ls + ?p \<and> even (last ls div ?p)
      \<longleftrightarrow> odd (x div ?p) \<and> x - ?p \<in> set ls"
    using srts(1) lt al ns by (intro put_pages_left) auto
  have right: "rs \<noteq> [] \<and> hd rs = x + ?p \<longleftrightarrow> x + ?p \<in> set rs"
    using srts(2) gt al ns by (intro put_pages_right) auto
  have mem: "odd (x div ?p) \<Longrightarrow> buddy order x \<in> set ns \<longleftrightarrow> x - ?p \<in> set ls"
    "even (x div ?p) \<Longrightarrow> buddy order x \<in> set ns \<longleftrightarrow> x + ?p \<in> set rs"
    using gt [of "x - ?p"] lt [of "x + ?p"] odd_quotient_le [of x ?p] by (auto simp: ns buddy_def)
  show ?thesis
  proof (cases "nosquash \<or> buddy order x \<notin> set ns")
    case True
    then show ?thesis
      using left right mem unfolding put_pages_def Let_def ls_def [symmetric] rs_def [symmetric] by auto
  next
    case False
    show ?thesis
    proof (cases "even (x div ?p)")
      case True
      then have "hd rs = x + ?p" "rs \<noteq> []" using False mem right by auto
      then obtain cs where rs: "rs = (x + ?p) # cs" by (cases rs) auto
      then have "filter (\<lambda>n. n \<noteq> x + ?p) ns = ls @ cs"
        using srts(3) by (simp add: ns filter_notin)
      moreover have "\<not> (ls \<noteq> [] \<and> x = last ls + ?p \<and> even (last ls div ?p))"
        using left True by blast
      ultimately show ?thesis
        using False True rs unfolding put_pages_def Let_def ls_def [symmetric] rs_def [symmetric]
        by (simp add: buddy_def)
    next
      case odd: False
      then have l: "ls \<noteq> [] \<and> x = last ls + ?p \<and> even (last ls div ?p)" using False mem left by auto
      then obtain ks a where ls: "ls = ks @ [a]" by (metis append_butlast_last_id)
      with l have a: "x - ?p = a" "a \<le> x" by auto
      have "filter (\<lambda>n. n \<noteq> a) ns = ks @ rs"
        using srts(3) by (simp add: ns ls filter_notin)
      then show ?thesis
        using False odd l a ls unfolding put_pages_def Let_def ls_def [symmetric] rs_def [symmetric]
        by (simp add: buddy_def)
    qed
  qed
qed

section \<open>Properties\<close>

text \<open>
  C28: the consistency check that ends every operation of a free list is exact and always returns,
  whatever the memory holds. It accepts a chain that ends after as many items as the counter says,
  it panics for a wrong count on every other finite chain, and it panics for a loop exactly on the
  chains that never end.
\<close>

theorem sanity_check_exact:
  "fl_sanity_check m fl =
    (if \<exists>n. (next_or_null m ^^ n) (fl_list fl) = nullptr
     then if of_nat (LEAST n. (next_or_null m ^^ n) (fl_list fl) = nullptr) = fl_items fl
          then Inr () else Inl (Panic ''FreeList stats are invalid!'')
     else Inl (Panic ''FreeList loop detected!''))"
proof (cases "\<exists>n. (next_or_null m ^^ n) (fl_list fl) = nullptr")
  case True
  let ?n = "LEAST n. (next_or_null m ^^ n) (fl_list fl) = nullptr"
  have "(next_or_null m ^^ ?n) (fl_list fl) = nullptr" using True by (rule LeastI_ex)
  moreover have "(next_or_null m ^^ i) (fl_list fl) \<noteq> nullptr" if "i < ?n" for i
    using that by (rule not_less_Least)
  ultimately show ?thesis using True sanity_check_finite by simp
next
  case False
  then show ?thesis using sanity_check_cyclic by simp
qed

text \<open>
  On a list that is a sorted chain of distinct page frames, \<^verbatim>\<open>put\<close> of a frame of the right
  alignment succeeds. It merges the frame with its buddy exactly when the buddy is in the list and
  merging is enabled: the buddy leaves the list and the first frame of the pair is returned. In
  every other case the frame is inserted at its place in the order and null is returned.
\<close>

theorem free_list_put:
  assumes "fl_rep m fl ns" and "x \<in> frames" and "x \<notin> set ns" and "fl_order fl < 19"
    and "2 ^ fl_order fl dvd x" and "\<forall>n\<in>set ns. 2 ^ fl_order fl dvd n"
  shows "\<exists>m' fl'. if \<not> fl_disable_squashing fl \<and> buddy (fl_order fl) x \<in> set ns
    then fl_put m fl (frame_addr x) = Inr (m', fl', frame_addr (min x (buddy (fl_order fl) x)))
      \<and> fl_rep m' fl' (filter (\<lambda>n. n \<noteq> buddy (fl_order fl) x) ns)
    else fl_put m fl (frame_addr x) = Inr (m', fl', nullptr)
      \<and> fl_rep m' fl' (takeWhile (\<lambda>n. n < x) ns @ x # dropWhile (\<lambda>n. n < x) ns)"
proof -
  have "sorted_wrt (<) ns" using assms(1) by (simp add: fl_rep_def)
  then have "put_ok m fl x ns
      (if \<not> fl_disable_squashing fl \<and> buddy (fl_order fl) x \<in> set ns
       then (filter (\<lambda>n. n \<noteq> buddy (fl_order fl) x) ns, Some (min x (buddy (fl_order fl) x)))
       else (takeWhile (\<lambda>n. n < x) ns @ x # dropWhile (\<lambda>n. n < x) ns, None))"
    using fl_put_refines [OF assms(1-4)] put_pages_buddy [of ns x "fl_order fl"] assms(3,5,6) by simp
  then show ?thesis by (auto simp: put_ok_def split: if_splits)
qed

theorem free_list_put_witness:
  "\<exists>m fl. fl_put store_zero (free_list_empty\<lparr>fl_items := 1, fl_list := frame_addr 256\<rparr>) (frame_addr 257)
    = Inr (m, fl, frame_addr 256) \<and> fl_rep m fl []"
proof -
  let ?fl = "free_list_empty\<lparr>fl_items := 1, fl_list := frame_addr 256\<rparr>"
  have rep: "fl_rep store_zero ?fl [256]"
    using frame_addr_null [of 256] by (simp add: fl_rep_def store_zero_def free_list_empty_def)
  show ?thesis
    using free_list_put [OF rep, of 257] by (simp add: free_list_empty_def buddy_def)
qed

end
