(* ===== verification/Memory_Region.thy ===== *)
theory Memory_Region
  imports Free_List
begin

text \<open>
  \<^verbatim>\<open>memory/memory_region.hpp\<close>: the half-open range of page frames that an allocator manages.
\<close>

record memory_region =
  mr_begin :: ptr
  mr_end :: ptr

definition mr_set_begin :: "memory_region \<Rightarrow> ptr \<Rightarrow> memory_region" where
  "mr_set_begin r address = r\<lparr>mr_begin := address\<rparr>"

definition mr_set_end :: "memory_region \<Rightarrow> ptr \<Rightarrow> memory_region" where
  "mr_set_end r address = r\<lparr>mr_end := address\<rparr>"

definition mr_owns :: "memory_region \<Rightarrow> ptr \<Rightarrow> bool" where
  "mr_owns r frame \<longleftrightarrow> mr_begin r \<le> frame \<and> frame < mr_end r"

definition mr_index_of :: "memory_region \<Rightarrow> ptr \<Rightarrow> u32" where
  "mr_index_of r frame = frame_diff frame (mr_begin r)"

definition mr_size :: "memory_region \<Rightarrow> u32" where
  "mr_size r = frame_diff (mr_end r) (mr_begin r)"

text \<open>
  On frames less than half the address space apart, pointer subtraction counts frames.
\<close>

lemma frame_diff_frames:
  assumes "a \<le> b" and "b - a < 524288"
  shows "frame_diff (frame_addr b) (frame_addr a) = of_nat (b - a)"
proof -
  have "frame_addr b - frame_addr a = of_nat ((b - a) * 4096)"
    using assms(1) by (simp add: frame_addr_def of_nat_diff algebra_simps)
  then have "sint (frame_diff (frame_addr b) (frame_addr a)) = int (b - a)"
    using sint_frame_distance [of "b - a"] assms(2)
    by (simp add: frame_diff_def sint_signed_drop_bit_eq drop_bit_eq_div del: of_nat_mult of_nat_diff)
  moreover have "sint (of_nat (b - a) :: u32) = int (b - a)"
    using assms(2) by (simp add: signed_of_nat signed_take_bit_int_eq_self_iff del: of_nat_diff)
  ultimately show ?thesis by (metis signed_word_eqI)
qed

lemma mr_index_of_frames:
  assumes "mr_begin r = frame_addr s" and "s \<le> n" and "n - s < 524288"
  shows "mr_index_of r (frame_addr n) = of_nat (n - s)"
  using assms by (simp add: mr_index_of_def frame_diff_frames)

lemma mr_size_frames:
  assumes "mr_begin r = frame_addr s" and "mr_end r = frame_addr e" and "s \<le> e" and "e - s < 524288"
  shows "mr_size r = of_nat (e - s)"
  using assms by (simp add: mr_size_def frame_diff_frames)

lemma mr_owns_frames:
  assumes "mr_begin r = frame_addr s" and "mr_end r = frame_addr e"
    and "s < max_frame" "e < max_frame" "n < max_frame"
  shows "mr_owns r (frame_addr n) \<longleftrightarrow> s \<le> n \<and> n < e"
  using assms by (simp add: mr_owns_def word_le_nat_alt word_less_nat_alt unat_frame_addr)

end
