(* ===== verification/Buddy_Allocator.thy ===== *)
theory Buddy_Allocator
  imports Memory_Region
begin

text \<open>
  \<^verbatim>\<open>memory/buddy_allocator.{hpp,cpp}\<close>: free lists of the orders 0 to \<^verbatim>\<open>MAX_ORDER\<close>. A block that is put
  is cut into aligned blocks of powers of two, each of which is merged with its buddy as long as
  the buddy is free; a request takes the first block of a sufficient order and puts the rest
  back. The second part shows that the allocator keeps a set of free pages.
\<close>

section \<open>Definitions\<close>

definition MAX_ORDER :: nat where
  "MAX_ORDER = 10"

record pblk =
  blk_ptr :: ptr
  blk_size :: u32

record buddy_allocator =
  bud_allocations :: u32
  bud_deallocations :: u32
  bud_lists :: "free_list list"
  bud_region :: memory_region

definition buddy_allocator_default :: "memory_region \<Rightarrow> buddy_allocator" where
  "buddy_allocator_default r =
     \<lparr>bud_allocations = 0, bud_deallocations = 0,
      bud_lists = replicate (MAX_ORDER + 1) free_list_empty, bud_region = r\<rparr>"

fun bud_init_lists :: "store \<Rightarrow> nat \<Rightarrow> free_list list \<Rightarrow> free_list list result" where
  "bud_init_lists m i [] = Inr []"
| "bud_init_lists m i (fl # fls) =
     bindE (fl_initialize m fl i (i = MAX_ORDER))
       (\<lambda>(fl', ok). bindE (bud_init_lists m (i + 1) fls) (\<lambda>fls'. Inr (fl' # fls')))"

definition bud_initialize ::
  "store \<Rightarrow> buddy_allocator \<Rightarrow> memory_region \<Rightarrow> buddy_allocator result" where
  "bud_initialize m b region =
     bindE (bud_init_lists m 0 (bud_lists b))
       (\<lambda>fls. Inr (b\<lparr>bud_region := region, bud_lists := fls\<rparr>))"

text \<open>\<^verbatim>\<open>free_list_[i].put(frame)\<close> and \<^verbatim>\<open>free_list_[i].get()\<close>; the array has \<^verbatim>\<open>MAX_ORDER + 1\<close> elements.\<close>

definition bud_list_put ::
  "store \<Rightarrow> buddy_allocator \<Rightarrow> nat \<Rightarrow> ptr \<Rightarrow> (store \<times> buddy_allocator \<times> ptr) result" where
  "bud_list_put m b i frame =
     (if i \<le> MAX_ORDER \<and> i < length (bud_lists b)
      then bindE (fl_put m (bud_lists b ! i) frame)
             (\<lambda>(m', fl, p). Inr (m', b\<lparr>bud_lists := (bud_lists b)[i := fl]\<rparr>, p))
      else Inl Undef)"

definition bud_list_get ::
  "store \<Rightarrow> buddy_allocator \<Rightarrow> nat \<Rightarrow> (store \<times> buddy_allocator \<times> ptr) result" where
  "bud_list_get m b i =
     (if i \<le> MAX_ORDER \<and> i < length (bud_lists b)
      then bindE (fl_get m (bud_lists b ! i))
             (\<lambda>(m', fl, p). Inr (m', b\<lparr>bud_lists := (bud_lists b)[i := fl]\<rparr>, p))
      else Inl Undef)"

text \<open>The two loops of \<^verbatim>\<open>compute_order\<close>. A count below 0 would shift by an undefined amount.\<close>

function order_up :: "nat \<Rightarrow> u32 \<Rightarrow> nat" where
  "order_up order page_number =
     (if page_number AND 1 = 0 \<and> order < MAX_ORDER
      then order_up (order + 1) (drop_bit 1 page_number) else order)"
  by pat_completeness auto
termination
  by (relation "measure (\<lambda>(order, _). MAX_ORDER - order)") auto

fun order_down :: "nat \<Rightarrow> u32 \<Rightarrow> nat result" where
  "order_down order sz =
     (if push_bit order 1 > sz
      then (case order of 0 \<Rightarrow> Inl Undef | Suc k \<Rightarrow> order_down k sz) else Inr order)"

definition compute_order :: "pblk \<Rightarrow> nat result" where
  "compute_order blk = order_down (order_up 0 (blk_ptr blk div PAGE_SIZE)) (blk_size blk)"

declare order_up.simps [simp del] order_down.simps [simp del]

text \<open>\<^verbatim>\<open>while ((squashed_pages = free_list_[putting_list].put(squashed_pages))) ++putting_list;\<close>\<close>

function bud_squash ::
  "store \<Rightarrow> buddy_allocator \<Rightarrow> nat \<Rightarrow> ptr \<Rightarrow> (store \<times> buddy_allocator) result" where
  "bud_squash m b putting_list squashed =
     (if MAX_ORDER < putting_list then Inl Undef
      else bindE (bud_list_put m b putting_list squashed)
        (\<lambda>(m', b', p). if p \<noteq> nullptr then bud_squash m' b' (putting_list + 1) p else Inr (m', b')))"
  by pat_completeness auto
termination
  by (relation "measure (\<lambda>(m, b, i, p). MAX_ORDER + 1 - i)") auto

declare bud_squash.simps [simp del]

lemma order_up_le: "order \<le> MAX_ORDER \<Longrightarrow> order_up order q \<le> MAX_ORDER"
proof (induction order q rule: order_up.induct)
  case (1 order q)
  then show ?case by (subst order_up.simps) auto
qed

lemma order_down_bound:
  "order_down order sz = Inr k \<Longrightarrow> k \<le> order \<and> push_bit k 1 \<le> sz"
proof (induction order)
  case 0
  then show ?case
    by (subst (asm) order_down.simps)
       (auto simp: word_le_nat_alt unat_gt_0 Suc_le_eq not_less split: if_splits)
next
  case (Suc n)
  then show ?case by (subst (asm) order_down.simps) (auto simp: not_less split: if_splits)
qed

lemma compute_order_bound:
  assumes "compute_order blk = Inr k"
  shows "k \<le> 10" and "2 ^ k \<le> unat (blk_size blk)"
proof -
  have d: "k \<le> order_up 0 (blk_ptr blk div PAGE_SIZE) \<and> push_bit k 1 \<le> blk_size blk"
    using order_down_bound assms unfolding compute_order_def by blast
  moreover have "order_up 0 (blk_ptr blk div PAGE_SIZE) \<le> 10"
    using order_up_le [of 0] by (simp add: MAX_ORDER_def)
  ultimately show k: "k \<le> 10" by simp
  then show "2 ^ k \<le> unat (blk_size blk)"
    using d by (simp add: word_le_nat_alt unat_pow2_u32)
qed

text \<open>The loop of \<^verbatim>\<open>put\<close>: it ends because every round takes at least one page off the block.\<close>

function bud_put_loop :: "store \<Rightarrow> buddy_allocator \<Rightarrow> pblk \<Rightarrow> (store \<times> buddy_allocator) result" where
  "bud_put_loop m b blk =
     (if blk_size blk = 0 then Inr (m, b)
      else case compute_order blk of
        Inl f \<Rightarrow> Inl f
      | Inr block_order \<Rightarrow>
          if blk_ptr blk AND (push_bit 12 1 - 1) \<noteq> 0 then Inl (Panic ''bad page addr in while!'')
          else case bud_list_put m b block_order (blk_ptr blk) of
            Inl f \<Rightarrow> Inl f
          | Inr (m1, b1, squashed_pages) \<Rightarrow>
             (case (if squashed_pages \<noteq> nullptr
                    then bud_squash m1 b1 (block_order + 1) squashed_pages else Inr (m1, b1)) of
                Inl f \<Rightarrow> Inl f
              | Inr (m2, b2) \<Rightarrow>
                  bud_put_loop m2 b2
                    \<lparr>blk_ptr = blk_ptr blk + PAGE_SIZE * push_bit block_order 1,
                     blk_size = blk_size blk - push_bit block_order 1\<rparr>))"
  by pat_completeness auto
termination
proof (relation "measure (\<lambda>(m, b, blk). unat (blk_size blk))", simp)
  fix m b and blk :: pblk and k m1 b1 p m2 b2
  assume "compute_order blk = Inr k" and "blk_size blk \<noteq> 0"
  then have "k \<le> 10" and "2 ^ k \<le> unat (blk_size blk)" by (simp_all add: compute_order_bound)
  then have "unat (blk_size blk - push_bit k 1) < unat (blk_size blk)"
    using less_le_trans [of 0 "2 ^ k" "unat (blk_size blk)"]
    by (simp add: unat_sub_u32 unat_pow2_u32 word_le_nat_alt)
  then show "((m2, b2, \<lparr>blk_ptr = blk_ptr blk + PAGE_SIZE * push_bit k 1,
      blk_size = blk_size blk - push_bit k 1\<rparr>), m, b, blk) \<in> measure (\<lambda>(m, b, blk). unat (blk_size blk))"
    by simp
qed

declare bud_put_loop.simps [simp del]

definition bud_put :: "store \<Rightarrow> buddy_allocator \<Rightarrow> pblk \<Rightarrow> (store \<times> buddy_allocator) result" where
  "bud_put m b blk =
     (if blk_size blk = 0 then Inr (m, b)
      else if blk_ptr blk AND (push_bit 12 1 - 1) \<noteq> 0 then Inl (Panic ''put'')
      else bud_put_loop m (b\<lparr>bud_deallocations := bud_deallocations b + 1\<rparr>) blk)"

text \<open>
  The first loop of \<^verbatim>\<open>get\<close>. The shift is defined for orders below 32 only, so a request for more
  than \<^verbatim>\<open>2 ^ 31\<close> pages has no defined result.
\<close>

function order_for :: "u32 \<Rightarrow> nat \<Rightarrow> nat result" where
  "order_for pages order =
     (if 32 \<le> order then Inl Undef
      else if pages > push_bit order 1 then order_for pages (order + 1) else Inr order)"
  by pat_completeness auto
termination
  by (relation "measure (\<lambda>(pages, order). 32 - order)") auto

declare order_for.simps [simp del]

text \<open>The second loop of \<^verbatim>\<open>get\<close>.\<close>

function bud_scan :: "store \<Rightarrow> buddy_allocator \<Rightarrow> nat \<Rightarrow> (store \<times> buddy_allocator \<times> nat \<times> ptr) result" where
  "bud_scan m b order =
     (if order \<le> MAX_ORDER
      then bindE (bud_list_get m b order)
        (\<lambda>(m', b', p). if p \<noteq> nullptr then Inr (m', b', order, p) else bud_scan m' b' (order + 1))
      else Inr (m, b, order, nullptr))"
  by pat_completeness auto
termination
  by (relation "measure (\<lambda>(m, b, order). MAX_ORDER + 1 - order)") auto

declare bud_scan.simps [simp del]

definition bud_get :: "store \<Rightarrow> buddy_allocator \<Rightarrow> u32 \<Rightarrow> (store \<times> buddy_allocator \<times> pblk) result" where
  "bud_get m b0 pages =
     (let b = b0\<lparr>bud_allocations := bud_allocations b0 + 1\<rparr>
      in bindE (order_for pages 0) (\<lambda>order.
        if order > MAX_ORDER then Inr (m, b, \<lparr>blk_ptr = nullptr, blk_size = 0\<rparr>)
        else bindE (bud_scan m b order) (\<lambda>(m1, b1, order1, p).
          if p = nullptr then Inr (m1, b1, \<lparr>blk_ptr = nullptr, blk_size = 0\<rparr>)
          else let blk = \<lparr>blk_ptr = p, blk_size = pages\<rparr>;
                   extra_memory = \<lparr>blk_ptr = p + PAGE_SIZE * pages, blk_size = push_bit order1 1 - pages\<rparr>
          in if blk_size extra_memory \<noteq> 0
             then bindE (bud_put m1 b1 extra_memory) (\<lambda>(m2, b2). Inr (m2, b2, blk))
             else Inr (m1, b1, blk))))"

section \<open>Blocks\<close>

definition block :: "nat \<Rightarrow> nat \<Rightarrow> nat set" where
  "block i x = {x..<x + 2 ^ i}"

definition free_pages :: "(nat \<Rightarrow> nat set) \<Rightarrow> nat set" where
  "free_pages A = (\<Union>i. \<Union>x\<in>A i. block i x)"

definition block_at :: "nat \<Rightarrow> nat \<Rightarrow> bool" where
  "block_at i x \<longleftrightarrow> i \<le> 10 \<and> x \<in> frames \<and> 2 ^ i dvd x"

definition blocks_ok :: "(nat \<Rightarrow> nat set) \<Rightarrow> bool" where
  "blocks_ok A \<longleftrightarrow> (\<forall>i. \<forall>x\<in>A i. block_at i x)
     \<and> (\<forall>i j. \<forall>x\<in>A i. \<forall>y\<in>A j. (i, x) \<noteq> (j, y) \<longrightarrow> block i x \<inter> block j y = {})
     \<and> (\<forall>i < 10. \<forall>x\<in>A i. buddy i x \<notin> A i)"

lemma blocks_okD:
  assumes "blocks_ok A"
  shows "x \<in> A i \<Longrightarrow> block_at i x"
    and "x \<in> A i \<Longrightarrow> y \<in> A j \<Longrightarrow> (i, x) \<noteq> (j, y) \<Longrightarrow> block i x \<inter> block j y = {}"
    and "i < 10 \<Longrightarrow> x \<in> A i \<Longrightarrow> buddy i x \<notin> A i"
  using assms unfolding blocks_ok_def by blast+

lemma block_head [simp]: "x \<in> block i x"
  by (simp add: block_def)

lemma in_free_pages: "x \<in> A i \<Longrightarrow> block i x \<subseteq> free_pages A"
  by (auto simp: free_pages_def)

lemma heads_disjoint: "blocks_ok A \<Longrightarrow> i \<noteq> j \<Longrightarrow> A i \<inter> A j = {}"
  using blocks_okD(2) [of A _ i _ j] block_head by (metis Pair_inject disjoint_iff)

lemma blocks_finite: "blocks_ok A \<Longrightarrow> finite (A i)"
  by (rule finite_subset [of _ frames]) (auto dest: blocks_okD(1) simp: block_at_def)

lemma dvd_block_end:
  assumes "block_at i x"
  shows "x + 2 ^ i \<le> max_frame"
proof -
  have "(2::nat) ^ i dvd 2 ^ 20" using assms by (intro le_imp_power_dvd) (simp add: block_at_def)
  then have "2 ^ i dvd max_frame - x" using assms by (simp add: block_at_def)
  moreover have "0 < max_frame - x" using assms by (simp add: block_at_def)
  ultimately have "2 ^ i \<le> max_frame - x" by (rule dvd_imp_le)
  then show ?thesis using \<open>0 < max_frame - x\<close> by linarith
qed

lemma free_pages_frames: "blocks_ok A \<Longrightarrow> free_pages A \<subseteq> frames"
  using blocks_okD(1) [of A] dvd_block_end
  by (force simp: free_pages_def block_def block_at_def)

lemma buddy_cases:
  assumes "2 ^ i dvd x"
  obtains (first) "even (x div 2 ^ i)" "buddy i x = x + 2 ^ i" "2 ^ (i + 1) dvd x"
  | (second) "odd (x div 2 ^ i)" "x = buddy i x + 2 ^ i" "2 ^ (i + 1) dvd buddy i x"
proof (cases "even (x div 2 ^ i)")
  case True
  moreover obtain q where "x = 2 ^ i * q" using assms by (auto simp: dvd_def)
  ultimately show ?thesis using first by (simp add: buddy_def)
next
  case False
  moreover obtain q where q: "x = 2 ^ i * q" using assms by (auto simp: dvd_def)
  ultimately have "odd q" by simp
  then obtain r where "q = 2 * r + 1" by (rule oddE)
  with False q show ?thesis using second by (simp add: buddy_def algebra_simps)
qed

lemma block_split: "block (i + 1) x = block i x \<union> block i (x + 2 ^ i)"
  by (auto simp: block_def)

lemma buddy_merge:
  assumes "2 ^ i dvd x"
  shows "block (i + 1) (min x (buddy i x)) = block i x \<union> block i (buddy i x)"
    and "2 ^ (i + 1) dvd min x (buddy i x)"
  using assms
proof (atomize (full), cases rule: buddy_cases)
  case first
  then show "block (i + 1) (min x (buddy i x)) = block i x \<union> block i (buddy i x)
    \<and> 2 ^ (i + 1) dvd min x (buddy i x)"
    using block_split [of i x] by (simp add: min_def)
next
  case second
  have "min x (buddy i x) = buddy i x" using second(2) by linarith
  then show "block (i + 1) (min x (buddy i x)) = block i x \<union> block i (buddy i x)
    \<and> 2 ^ (i + 1) dvd min x (buddy i x)"
    using block_split [of i "buddy i x"] second(2,3) by (metis Un_commute)
qed

lemma buddy_buddy:
  assumes "2 ^ i dvd x"
  shows "buddy i (buddy i x) = x"
  using assms
proof (cases rule: buddy_cases)
  case first
  then have "odd ((x + 2 ^ i) div 2 ^ i)" using div_next [of "2 ^ i" x] assms by simp
  then show ?thesis using first by (simp add: buddy_def [of i "x + 2 ^ i"])
next
  case second
  obtain q where "buddy i x = 2 ^ (i + 1) * q" using second(3) by (rule dvdE)
  then have "buddy i x = 2 ^ i * (2 * q)" by simp
  then have "even (buddy i x div 2 ^ i)" by simp
  then show ?thesis using second by (simp add: buddy_def [of i "buddy i x"])
qed

lemma buddy_disjoint: "2 ^ i dvd x \<Longrightarrow> block i x \<inter> block i (buddy i x) = {}"
  by (cases rule: buddy_cases) (auto simp: block_def)

lemma blocks_ok_remove: "blocks_ok A \<Longrightarrow> blocks_ok (A(i := A i - {y}))"
  unfolding blocks_ok_def by (auto split: if_splits)

lemma free_pages_remove:
  assumes "blocks_ok A" and "y \<in> A i"
  shows "free_pages (A(i := A i - {y})) = free_pages A - block i y"
  using assms(2) blocks_okD(2) [OF assms(1) assms(2)]
  by (fastforce simp: free_pages_def split: if_splits)

lemma free_pages_insert: "free_pages (A(i := insert x (A i))) = free_pages A \<union> block i x"
proof -
  have "(\<Union>j. \<Union>y\<in>(A(i := insert x (A i))) j. block j y) = (\<Union>j. (\<Union>y\<in>A j. block j y) \<union> (if j = i then block i x else {}))"
    by (rule SUP_cong) (auto simp del: UN_simps)
  then show ?thesis by (auto simp: free_pages_def split: if_splits)
qed

lemma blocks_ok_insert:
  assumes ok: "blocks_ok A" and at: "block_at i x" and new: "block i x \<inter> free_pages A = {}"
    and co: "i < 10 \<Longrightarrow> buddy i x \<notin> A i"
  shows "blocks_ok (A(i := insert x (A i)))"
proof -
  have al: "2 ^ i dvd x" using at by (simp add: block_at_def)
  have dis: "y \<in> A j \<Longrightarrow> block j y \<inter> block i x = {}" for j y
    using in_free_pages [of y A j] new by blast
  have "buddy i y \<noteq> x" if "i < 10" "y \<in> A i" for y
    using buddy_buddy [of i y] co that blocks_okD(1) [OF ok that(2)] by (auto simp: block_at_def)
  moreover have "buddy i x \<noteq> x" using buddy_disjoint [OF al] block_head [of x i] by (metis Int_absorb empty_iff)
  ultimately show ?thesis
    using ok at co dis unfolding blocks_ok_def by (auto split: if_splits)
qed


text \<open>The lists of the allocator hold exactly the heads of the blocks.\<close>

definition bud_rep :: "store \<Rightarrow> buddy_allocator \<Rightarrow> (nat \<Rightarrow> nat set) \<Rightarrow> bool" where
  "bud_rep m b A \<longleftrightarrow> length (bud_lists b) = 11
     \<and> (\<forall>i \<le> 10. fl_rep m (bud_lists b ! i) (sorted_list_of_set (A i))
          \<and> fl_order (bud_lists b ! i) = i \<and> fl_disable_squashing (bud_lists b ! i) = (i = 10))"

lemma bud_rep_update:
  assumes rep: "bud_rep m b A" and ok: "blocks_ok A" and i: "i \<le> 10"
    and fl: "fl_rep m' fl (sorted_list_of_set S)" "fl_order fl = i" "fl_disable_squashing fl = (i = 10)"
    and same: "same_outside T m m'" and T: "T \<subseteq> frames" "\<And>j. j \<noteq> i \<Longrightarrow> T \<inter> A j = {}"
  shows "bud_rep m' (b\<lparr>bud_lists := (bud_lists b)[i := fl]\<rparr>) (A(i := S))"
proof -
  have "fl_rep m' (bud_lists b ! j) (sorted_list_of_set (A j))" if "j \<le> 10" "j \<noteq> i" for j
    using rep same T that blocks_finite [OF ok]
    by (intro fl_rep_same_outside [OF _ same]) (auto simp: bud_rep_def)
  then show ?thesis using rep fl i by (auto simp: bud_rep_def nth_list_update)
qed

lemma sorted_list_remove:
  assumes "finite S"
  shows "filter (\<lambda>n. n \<noteq> y) (sorted_list_of_set S) = sorted_list_of_set (S - {y::nat})"
  using assms
  by (intro sorted_distinct_set_unique) (auto simp: sorted_wrt_filter)

lemma sorted_list_insert:
  assumes "finite S" and "x \<notin> S"
  shows "takeWhile (\<lambda>n. n < x) (sorted_list_of_set S) @ x # dropWhile (\<lambda>n. n < x) (sorted_list_of_set S)
    = sorted_list_of_set (insert (x::nat) S)" (is "?l = _")
proof -
  let ?ns = "sorted_list_of_set S"
  define ls rs where "ls = takeWhile (\<lambda>n. n < x) ?ns" and "rs = dropWhile (\<lambda>n. n < x) ?ns"
  have srt: "sorted_wrt (<) ?ns" and x: "x \<notin> set ?ns" using assms by auto
  have app: "ls @ rs = ?ns" by (simp add: ls_def rs_def)
  have "sorted_wrt (<) (ls @ rs)" by (simp add: app)
  moreover have "\<forall>n\<in>set ls. n < x" "\<forall>n\<in>set rs. x < n"
    using split_at(1,2) [OF srt x] by (simp_all add: ls_def rs_def)
  ultimately have s: "sorted_wrt (<) (ls @ x # rs)" by (auto simp: sorted_wrt_append)
  have "set (ls @ x # rs) = insert x S" using arg_cong [OF app, of set] assms by auto
  then have "ls @ x # rs = sorted_list_of_set (insert x S)"
    using s sorted_list_of_set.idem_if_sorted_distinct [of "ls @ x # rs"] by (simp only: strict_sorted_iff)
  then show ?thesis by (simp only: ls_def rs_def)
qed

text \<open>The result of \<^verbatim>\<open>free_list_[i].put\<close> on the abstract side.\<close>

definition list_put_blocks :: "(nat \<Rightarrow> nat set) \<Rightarrow> nat \<Rightarrow> nat \<Rightarrow> (nat \<Rightarrow> nat set) \<times> nat option" where
  "list_put_blocks A i x =
     (if i < 10 \<and> buddy i x \<in> A i then (A(i := A i - {buddy i x}), Some (min x (buddy i x)))
      else (A(i := insert x (A i)), None))"

text \<open>A step of the pool writes the \<^verbatim>\<open>next\<close> fields of the frames \<open>T\<close> at most.\<close>

definition pool_step :: "nat set \<Rightarrow> store \<Rightarrow> buddy_allocator \<Rightarrow> store \<Rightarrow> buddy_allocator \<Rightarrow> bool" where
  "pool_step T m b m' b' \<longleftrightarrow> same_outside T m m' \<and> bud_region b' = bud_region b
     \<and> bud_allocations b' = bud_allocations b"

lemma pool_step_refl [simp]: "pool_step T m b m b"
  by (simp add: pool_step_def)

lemma pool_step_trans: "pool_step S m b m' b' \<Longrightarrow> pool_step T m' b' m'' b'' \<Longrightarrow> S \<union> T \<subseteq> U \<Longrightarrow> pool_step U m b m'' b''"
  using same_outside_trans [of S m m' T m''] same_outside_mono [of "S \<union> T" m m'' U] by (simp add: pool_step_def)

lemma bud_list_put_blocks:
  assumes rep: "bud_rep m b A" and ok: "blocks_ok A" and at: "block_at i x"
    and new: "block i x \<inter> free_pages A = {}"
  shows "\<exists>m' b'. bud_list_put m b i (frame_addr x) = Inr (m', b', ptr_of (snd (list_put_blocks A i x)))
    \<and> bud_rep m' b' (fst (list_put_blocks A i x)) \<and> pool_step (free_pages A \<union> block i x) m b m' b' \<and> bud_deallocations b' = bud_deallocations b"
proof -
  let ?fl = "bud_lists b ! i" and ?ns = "sorted_list_of_set (A i)"
  have i: "i \<le> 10" and x: "x \<in> frames" and al: "2 ^ i dvd x" using at by (auto simp: block_at_def)
  have nin: "x \<notin> A j" for j using new in_free_pages [of x A j] block_head [of x] by blast
  note fin = blocks_finite [OF ok]
  have fl: "fl_rep m ?fl ?ns" "fl_order ?fl = i" "fl_disable_squashing ?fl = (i = 10)"
    using rep i by (auto simp: bud_rep_def)
  obtain m' fl' where put: "fl_put m ?fl (frame_addr x) = Inr (m', fl', ptr_of (snd (put_pages i (i = 10) x ?ns)))"
    and rep': "fl_rep m' fl' (fst (put_pages i (i = 10) x ?ns))"
    and fl': "fl_order fl' = i" "fl_disable_squashing fl' = (i = 10)"
    and same: "same_outside (insert x (A i)) m m'"
    using fl_put_refines [OF fl(1) x] fl i nin fin by (fastforce simp: put_ok_def split: prod.splits)
  have spec: "put_pages i (i = 10) x ?ns = (sorted_list_of_set (fst (list_put_blocks A i x) i), snd (list_put_blocks A i x))"
    using fin nin al i blocks_okD(1) [OF ok, of _ i]
    by (subst put_pages_buddy)
       (auto simp: list_put_blocks_def sorted_list_remove sorted_list_insert block_at_def)
  have "bud_rep m' (b\<lparr>bud_lists := (bud_lists b)[i := fl']\<rparr>) (A(i := fst (list_put_blocks A i x) i))"
    using rep' fl' spec x nin heads_disjoint [OF ok] blocks_okD(1) [OF ok]
    by (intro bud_rep_update [OF rep ok i _ _ _ same]) (auto simp: block_at_def)
  moreover have "A(i := fst (list_put_blocks A i x) i) = fst (list_put_blocks A i x)"
    by (auto simp: list_put_blocks_def)
  moreover have "insert x (A i) \<subseteq> free_pages A \<union> block i x" using in_free_pages [of _ A i] block_head by fastforce
  then have "same_outside (free_pages A \<union> block i x) m m'" by (rule same_outside_mono [OF same])
  ultimately show ?thesis
    using put spec rep i by (auto simp: bud_list_put_def MAX_ORDER_def bud_rep_def pool_step_def)
qed


lemma merge_at:
  assumes "block_at i x" and "blocks_ok A" and "i < 10" and "buddy i x \<in> A i"
  shows "block_at (i + 1) (min x (buddy i x))"
  using assms(1,3) blocks_okD(1) [OF assms(2,4)] buddy_merge(2) [of i x]
  by (auto simp: block_at_def min_def)

lemma bud_squash_blocks:
  assumes "bud_rep m b A" and "blocks_ok A" and "block_at i x" and "block i x \<inter> free_pages A = {}"
  shows "\<exists>m' b' A'. bud_squash m b i (frame_addr x) = Inr (m', b') \<and> bud_rep m' b' A' \<and> blocks_ok A'
    \<and> free_pages A' = free_pages A \<union> block i x \<and> pool_step (free_pages A \<union> block i x) m b m' b'
    \<and> bud_deallocations b' = bud_deallocations b"
  using assms
proof (induction "10 - i" arbitrary: i x m b A rule: less_induct)
  case less
  have i: "i \<le> 10" and al: "2 ^ i dvd x" using less.prems(3) by (auto simp: block_at_def)
  obtain m1 b1 where put: "bud_list_put m b i (frame_addr x) = Inr (m1, b1, ptr_of (snd (list_put_blocks A i x)))"
    and rep1: "bud_rep m1 b1 (fst (list_put_blocks A i x))" and st1: "pool_step (free_pages A \<union> block i x) m b m1 b1"
    and de1: "bud_deallocations b1 = bud_deallocations b"
    using bud_list_put_blocks [OF less.prems] by blast
  show ?case
  proof (cases "i < 10 \<and> buddy i x \<in> A i")
    case True
    let ?y = "buddy i x" and ?A = "A(i := A i - {buddy i x})"
    have at: "block_at (i + 1) (min x ?y)" using merge_at less.prems(2,3) True by blast
    have sum: "block (i + 1) (min x ?y) = block i x \<union> block i ?y" by (rule buddy_merge [OF al])
    have fp: "free_pages ?A = free_pages A - block i ?y"
      using free_pages_remove [OF less.prems(2)] True by blast
    have "block (i + 1) (min x ?y) \<inter> free_pages ?A = {}" using sum fp less.prems(4) by blast
    moreover have "10 - (i + 1) < 10 - i" using True by linarith
    ultimately obtain m' b' A' where "bud_squash m1 b1 (i + 1) (frame_addr (min x ?y)) = Inr (m', b')"
      "bud_rep m' b' A'" "blocks_ok A'" "free_pages A' = free_pages ?A \<union> block (i + 1) (min x ?y)"
      and st2: "pool_step (free_pages ?A \<union> block (i + 1) (min x ?y)) m1 b1 m' b'" and "bud_deallocations b' = bud_deallocations b1"
      using less.hyps [of "i + 1" m1 b1 ?A "min x ?y"] True rep1 at blocks_ok_remove [OF less.prems(2)]
      by (auto simp: list_put_blocks_def)
    moreover have fpe: "free_pages ?A \<union> block (i + 1) (min x ?y) = free_pages A \<union> block i x"
      using sum fp in_free_pages [of ?y A i] True by blast
    moreover have "pool_step (free_pages A \<union> block i x) m b m' b'" by (rule pool_step_trans [OF st1 st2]) (use fpe in blast)
    moreover have "frame_addr (min x ?y) \<noteq> nullptr"
      using at by (intro frame_addr_null) (simp only: block_at_def)
    ultimately show ?thesis
      using put i True de1
      by (subst bud_squash.simps) (auto simp: list_put_blocks_def MAX_ORDER_def)
  next
    case False
    then show ?thesis
      using put rep1 st1 de1 i blocks_ok_insert [OF less.prems(2-4)] free_pages_insert [of A i x]
      by (subst bud_squash.simps) (auto simp: list_put_blocks_def MAX_ORDER_def)
  qed
qed


text \<open>One round of the loop of \<^verbatim>\<open>put\<close> is a put at the order of the block with the merges it causes.\<close>

lemma bud_put_loop_round:
  assumes "blk_size blk \<noteq> 0" and "compute_order blk = Inr k" and "blk_ptr blk AND 4095 = 0"
    and "bud_squash m b k (blk_ptr blk) = Inr (m', b')"
  shows "bud_put_loop m b blk = bud_put_loop m' b'
    \<lparr>blk_ptr = blk_ptr blk + PAGE_SIZE * push_bit k 1, blk_size = blk_size blk - push_bit k 1\<rparr>"
  using assms compute_order_bound(1) [OF assms(2)]
  by (subst bud_put_loop.simps)
     (auto simp: bud_squash.simps [of m b k] MAX_ORDER_def bindE_eq_Inr_iff split: sum.splits prod.splits if_splits)

lemma order_up_dvd:
  assumes "order_up order (of_nat q) = k" and "q < 2 ^ 32"
  shows "order \<le> k \<and> 2 ^ (k - order) dvd q"
  using assms
proof (induction "10 - order" arbitrary: order q)
  case 0
  then show ?case by (subst (asm) order_up.simps) (simp add: MAX_ORDER_def)
next
  case (Suc n)
  have q: "unat (of_nat q :: u32) = q" using Suc.prems(2) by (simp add: unat_of_nat_u32)
  have ev: "(of_nat q :: u32) AND 1 = 0 \<longleftrightarrow> even q" 
    using q by (simp add: and_one_eq u32_eq_iff_unat unat_mod_u32 even_iff_mod_2_eq_zero)
  have half: "drop_bit 1 (of_nat q :: u32) = of_nat (q div 2)"
    using Suc.prems(2) by (simp add: u32_eq_iff_unat unat_div_u32 drop_bit_Suc unat_of_nat_u32)
  show ?case
  proof (cases "even q")
    case True
    then have "order_up (order + 1) (of_nat (q div 2)) = k"
      using Suc.prems(1) Suc.hyps(2) ev half
      by (subst (asm) order_up.simps) (simp add: MAX_ORDER_def split: if_splits)
    then have "order + 1 \<le> k \<and> 2 ^ (k - (order + 1)) dvd q div 2"
      using Suc.hyps(1) [of "order + 1" "q div 2"] Suc.hyps(2) Suc.prems(2) by simp
    then show ?thesis
      using True by (auto simp: dvd_div_iff_mult Suc_diff_Suc mult.commute simp flip: power_Suc)
  next
    case False
    then show ?thesis using Suc.prems(1) ev by (subst (asm) order_up.simps) simp
  qed
qed

lemma order_down_returns: "0 < sz \<Longrightarrow> \<exists>k. order_down order sz = Inr k"
proof (induction order)
  case 0
  then show ?case by (subst order_down.simps) (auto simp: word_le_nat_alt unat_gt_0 Suc_le_eq not_less)
next
  case (Suc n)
  then show ?case by (subst order_down.simps) simp
qed

lemma compute_order_frames:
  assumes "x < max_frame" and "0 < n" and "n < max_frame"
  shows "\<exists>k. compute_order \<lparr>blk_ptr = frame_addr x, blk_size = of_nat n\<rparr> = Inr k \<and> k \<le> 10 \<and> 2 ^ k dvd x \<and> 2 ^ k \<le> n"
proof -
  let ?blk = "\<lparr>blk_ptr = frame_addr x, blk_size = of_nat n :: u32\<rparr>" and ?o = "order_up 0 (of_nat x)"
  have pn: "frame_addr x div PAGE_SIZE = of_nat x"
    using assms(1) by (simp add: word_unat_eq_iff unat_div_u32 unat_frame_addr PAGE_SIZE_def unat_of_nat_u32)
  have sz: "unat (of_nat n :: u32) = n" using assms(3) by (simp add: unat_of_nat_u32)
  then have "(0 :: u32) < of_nat n" using assms(2) by (simp add: word_less_nat_alt)
  then obtain k where k: "order_down ?o (of_nat n :: u32) = Inr k" using order_down_returns by blast
  then have eq: "compute_order ?blk = Inr k" by (simp add: compute_order_def pn)
  have "2 ^ ?o dvd x" using order_up_dvd [OF refl, of x 0] assms(1) by simp
  moreover have "k \<le> ?o" using order_down_bound [OF k] by simp
  ultimately have "2 ^ k dvd x" using power_le_dvd by blast
  then show ?thesis using eq compute_order_bound [OF eq] sz by auto
qed


lemma frame_addr_aligned: "frame_addr x AND 4095 = 0"
proof -
  have "unat (frame_addr x AND (2 ^ 12 - 1)) = unat (frame_addr x) mod 2 ^ 12"
    by (rule unat_and_low_bits) simp
  also have "\<dots> = 0"
    by (simp add: frame_addr_def unat_of_nat mod_mod_cancel flip: dvd_eq_mod_eq_0 del: of_nat_mult)
  finally show ?thesis by (simp add: u32_eq_iff_unat)
qed

lemma frame_addr_add: "frame_addr x + PAGE_SIZE * of_nat n = frame_addr (x + n)"
  by (simp add: frame_addr_def PAGE_SIZE_def algebra_simps)

lemma bud_put_loop_blocks:
  assumes "bud_rep m b A" and "blocks_ok A" and "0 < x" and "x + n \<le> max_frame"
    and "{x..<x + n} \<inter> free_pages A = {}"
  shows "\<exists>m' b' A'. bud_put_loop m b \<lparr>blk_ptr = frame_addr x, blk_size = of_nat n\<rparr> = Inr (m', b')
    \<and> bud_rep m' b' A' \<and> blocks_ok A' \<and> free_pages A' = free_pages A \<union> {x..<x + n}
    \<and> pool_step (free_pages A \<union> {x..<x + n}) m b m' b' \<and> bud_deallocations b' = bud_deallocations b"
  using assms
proof (induction n arbitrary: x m b A rule: less_induct)
  case (less n)
  let ?blk = "\<lparr>blk_ptr = frame_addr x, blk_size = of_nat n :: u32\<rparr>"
  show ?case
  proof (cases "n = 0")
    case True
    then show ?thesis using less.prems by (subst bud_put_loop.simps) auto
  next
    case False
    have n: "n < max_frame" "x < max_frame" using less.prems(3,4) False by auto
    then have nz: "blk_size ?blk \<noteq> 0" using False by (simp add: u32_eq_iff_unat unat_of_nat_u32)
    obtain k where k: "compute_order ?blk = Inr k" "k \<le> 10" "2 ^ k dvd x" "2 ^ k \<le> n"
      using compute_order_frames [of x n] False n by auto
    have at: "block_at k x" using k n less.prems(3) by (simp add: block_at_def)
    have sub: "block k x \<subseteq> {x..<x + n}" using k(4) by (auto simp: block_def)
    obtain m1 b1 A1 where sq: "bud_squash m b k (frame_addr x) = Inr (m1, b1)" and rep1: "bud_rep m1 b1 A1"
      and ok1: "blocks_ok A1" and fp1: "free_pages A1 = free_pages A \<union> block k x" and st1: "pool_step (free_pages A \<union> block k x) m b m1 b1"
      and de1: "bud_deallocations b1 = bud_deallocations b"
      using bud_squash_blocks [OF less.prems(1,2) at] sub less.prems(5) by blast
    have rest: "{x + 2 ^ k..<x + 2 ^ k + (n - 2 ^ k)} \<inter> free_pages A1 = {}"
    proof -
      have "{x + 2 ^ k..<x + 2 ^ k + (n - 2 ^ k)} \<subseteq> {x..<x + n} - block k x"
        using k(4) by (auto simp: block_def)
      then show ?thesis using less.prems(5) by (auto simp: fp1)
    qed
    have "n - 2 ^ k < n" using k(4) False by simp
    then obtain m' b' A' where
      "bud_put_loop m1 b1 \<lparr>blk_ptr = frame_addr (x + 2 ^ k), blk_size = of_nat (n - 2 ^ k)\<rparr> = Inr (m', b')"
      "bud_rep m' b' A'" "blocks_ok A'"
      "free_pages A' = free_pages A1 \<union> {x + 2 ^ k..<x + 2 ^ k + (n - 2 ^ k)}"
      and st2: "pool_step (free_pages A1 \<union> {x + 2 ^ k..<x + 2 ^ k + (n - 2 ^ k)}) m1 b1 m' b'"
      and "bud_deallocations b' = bud_deallocations b1"
      using less.IH [OF _ rep1 ok1, of "n - 2 ^ k" "x + 2 ^ k"] rest less.prems(3,4) k(4) by auto
    moreover have fpe: "free_pages A1 \<union> {x + 2 ^ k..<x + 2 ^ k + (n - 2 ^ k)} = free_pages A \<union> {x..<x + n}"
      using k(4) by (auto simp: fp1 block_def)
    moreover have "pool_step (free_pages A \<union> {x..<x + n}) m b m' b'"
      by (rule pool_step_trans [OF st1 st2]) (use fpe fp1 in blast)
    moreover have "bud_put_loop m b ?blk = bud_put_loop m1 b1
        \<lparr>blk_ptr = frame_addr (x + 2 ^ k), blk_size = of_nat (n - 2 ^ k)\<rparr>"
      using bud_put_loop_round [OF nz k(1) _, of m b m1 b1] sq frame_addr_add [of x "2 ^ k"] k(4)
      by (simp add: frame_addr_aligned)
    ultimately show ?thesis using de1 by auto
  qed
qed


lemma bud_put_blocks:
  assumes "bud_rep m b A" and "blocks_ok A" and "0 < x" and "x + n \<le> max_frame"
    and "{x..<x + n} \<inter> free_pages A = {}"
  shows "\<exists>m' b' A'. bud_put m b \<lparr>blk_ptr = frame_addr x, blk_size = of_nat n\<rparr> = Inr (m', b')
    \<and> bud_rep m' b' A' \<and> blocks_ok A' \<and> free_pages A' = free_pages A \<union> {x..<x + n}
    \<and> pool_step (free_pages A \<union> {x..<x + n}) m b m' b'"
proof (cases "n = 0")
  case True
  then show ?thesis using assms by (auto simp: bud_put_def)
next
  case False
  let ?b = "b\<lparr>bud_deallocations := bud_deallocations b + 1\<rparr>"
  have "bud_rep m ?b A" using assms(1) by (simp add: bud_rep_def)
  moreover have "(of_nat n :: u32) \<noteq> 0"
    using False assms(3,4) by (simp add: u32_eq_iff_unat unat_of_nat_u32)
  ultimately show ?thesis
    using bud_put_loop_blocks [of m ?b A x n] assms
    by (auto simp: bud_put_def frame_addr_aligned pool_step_def)
qed

subsection \<open>Requests\<close>

lemma order_for_spec:
  assumes "unat pages \<le> 2 ^ 31" and "order \<le> 31" and "\<And>i. i < order \<Longrightarrow> 2 ^ i < unat pages"
  shows "\<exists>k. order_for pages order = Inr k \<and> unat pages \<le> 2 ^ k \<and> (\<forall>i < k. 2 ^ i < unat pages)"
  using assms(2,3)
proof (induction "31 - order" arbitrary: order rule: less_induct)
  case less
  show ?case
  proof (cases "push_bit order 1 < pages")
    case True
    then have big: "2 ^ order < unat pages"
      using less.prems(1) by (simp add: word_less_nat_alt unat_pow2_u32)
    then have "order \<noteq> 31" using assms(1) by auto
    then have "order < 31" using less.prems(1) by simp
    moreover have "2 ^ i < unat pages" if "i < order + 1" for i
      using that less.prems(2) big by (auto simp: less_Suc_eq)
    ultimately show ?thesis
      using less.hyps [of "order + 1"] True by (subst order_for.simps) simp
  next
    case False
    then have "unat pages \<le> 2 ^ order"
      using less.prems(1) by (simp add: word_less_nat_alt unat_pow2_u32 not_less)
    then show ?thesis using less.prems False by (subst order_for.simps) auto
  qed
qed

lemma bud_list_get_blocks:
  assumes rep: "bud_rep m b A" and ok: "blocks_ok A" and i: "i \<le> 10"
  shows "A i = {} \<Longrightarrow> \<exists>b'. bud_list_get m b i = Inr (m, b', nullptr) \<and> b' = b"
    and "A i \<noteq> {} \<Longrightarrow> \<exists>m' b'. bud_list_get m b i = Inr (m', b', frame_addr (Min (A i)))
      \<and> bud_rep m' b' (A(i := A i - {Min (A i)})) \<and> pool_step (free_pages A) m b m' b'"
proof -
  let ?fl = "bud_lists b ! i"
  have fl: "fl_rep m ?fl (sorted_list_of_set (A i))" "fl_order ?fl = i" "fl_disable_squashing ?fl = (i = 10)"
    and len: "length (bud_lists b) = 11"
    using rep i by (auto simp: bud_rep_def)
  {
    assume "A i = {}"
    then have "fl_get m ?fl = Inr (m, ?fl, nullptr)" using fl(1) by (simp add: fl_get_Nil)
    then show "\<exists>b'. bud_list_get m b i = Inr (m, b', nullptr) \<and> b' = b"
      using i len by (simp add: bud_list_get_def MAX_ORDER_def)
  next
    assume ne: "A i \<noteq> {}"
    note fin = blocks_finite [OF ok, of i]
    let ?x = "Min (A i)" and ?ns = "sorted_list_of_set (A i - {Min (A i)})"
    have "sorted_list_of_set (A i) = ?x # ?ns"
      using fin ne by (rule sorted_list_of_set_nonempty)
    then obtain m' fl' where get: "fl_get m ?fl = Inr (m', fl', frame_addr ?x)" and fl': "fl_rep m' fl' ?ns"
      "fl_order fl' = i" "fl_disable_squashing fl' = (i = 10)" and same: "same_outside {?x} m m'"
      using fl_get_Cons [of m ?fl ?x ?ns] fl by auto
    have x: "?x \<in> A i" using fin ne by simp
    then have "?x \<in> frames" using blocks_okD(1) [OF ok] by (auto simp: block_at_def)
    then have "bud_rep m' (b\<lparr>bud_lists := (bud_lists b)[i := fl']\<rparr>) (A(i := A i - {?x}))"
      using heads_disjoint [OF ok] x by (intro bud_rep_update [OF rep ok i fl' same]) auto
    moreover have "same_outside (free_pages A) m m'"
      using same in_free_pages [of ?x A i, OF x] block_head [of ?x i] by (elim same_outside_mono) blast
    ultimately show "\<exists>m' b'. bud_list_get m b i = Inr (m', b', frame_addr (Min (A i)))
      \<and> bud_rep m' b' (A(i := A i - {Min (A i)})) \<and> pool_step (free_pages A) m b m' b'"
      using get i len by (auto simp: bud_list_get_def MAX_ORDER_def pool_step_def)
  }
qed

lemma bud_scan_blocks:
  assumes rep: "bud_rep m b A" and ok: "blocks_ok A" and "o1 \<le> 11"
  shows "(\<forall>i. o1 \<le> i \<longrightarrow> A i = {}) \<and> bud_scan m b o1 = Inr (m, b, 11, nullptr)
    \<or> (\<exists>m' b' i x. bud_scan m b o1 = Inr (m', b', i, frame_addr x) \<and> o1 \<le> i \<and> x \<in> A i
         \<and> x = Min (A i) \<and> (\<forall>j. o1 \<le> j \<and> j < i \<longrightarrow> A j = {})
         \<and> bud_rep m' b' (A(i := A i - {x})) \<and> pool_step (free_pages A) m b m' b')"
  using assms(3)
proof (induction "11 - o1" arbitrary: o1)
  case 0
  then have "A i = {}" if "o1 \<le> i" for i
    using that blocks_okD(1) [OF ok, of _ i] by (auto simp: block_at_def)
  then show ?case using 0 by (subst bud_scan.simps) (simp add: MAX_ORDER_def)
next
  case (Suc n)
  then have i: "o1 \<le> 10" by simp
  show ?case
  proof (cases "A o1 = {}")
    case True
    then obtain b' where "bud_list_get m b o1 = Inr (m, b, nullptr)"
      using bud_list_get_blocks(1) [OF rep ok i] by blast
    then have eq: "bud_scan m b o1 = bud_scan m b (o1 + 1)"
      using i by (subst bud_scan.simps) (simp add: MAX_ORDER_def)
    have "A i = {}" if "\<forall>i. o1 + 1 \<le> i \<longrightarrow> A i = {}" "o1 \<le> i" for i
      using that True by (cases "i = o1") simp_all
    moreover have "n = 11 - (o1 + 1)" "o1 + 1 \<le> 11" using Suc.hyps(2) i by simp_all
    moreover have "A j = {}" if "\<forall>j. o1 + 1 \<le> j \<and> j < i \<longrightarrow> A j = {}" "o1 \<le> j" "j < i" for i j
      using that True by (cases "j = o1") simp_all
    ultimately show ?thesis
      using Suc.hyps(1) [of "o1 + 1"] unfolding eq by (metis add_leD1)
  next
    case False
    let ?x = "Min (A o1)"
    have x: "?x \<in> A o1" using False blocks_finite [OF ok] by simp
    then have "frame_addr ?x \<noteq> nullptr"
      using blocks_okD(1) [OF ok] by (intro frame_addr_null) (auto simp: block_at_def)
    then show ?thesis
      using bud_list_get_blocks(2) [OF rep ok i False] i x
      by (subst bud_scan.simps) (auto simp: MAX_ORDER_def)
  qed
qed


text \<open>
  Merging keeps the free pages in blocks that are as large as alignment allows, so every free
  aligned run of pages lies within one block of the lists.
\<close>

lemma block_containing:
  assumes "2 ^ i dvd x" and "2 ^ j dvd y" and "j \<le> i" and "block i x \<inter> block j y \<noteq> {}"
  shows "block j y \<subseteq> block i x"
proof -
  obtain q where y: "y = 2 ^ j * q" using assms(2) by (rule dvdE)
  have "2 ^ j dvd x" using assms(1,3) power_le_dvd by blast
  then obtain p where x: "x = 2 ^ j * p" by (rule dvdE)
  have i: "(2::nat) ^ i = 2 ^ j * 2 ^ (i - j)" using assms(3) by (simp flip: power_add)
  have "y < x + 2 ^ i" "x < y + 2 ^ j" using assms(4) by (auto simp: block_def)
  then have "2 ^ j * q < 2 ^ j * (p + 2 ^ (i - j))" "2 ^ j * p < 2 ^ j * (q + 1)"
    by (simp_all add: x y i algebra_simps)
  then have "q < p + 2 ^ (i - j)" "p < q + 1" by (simp_all only: nat_mult_less_cancel_disj)
  then have "q + 1 \<le> p + 2 ^ (i - j)" "p \<le> q" by simp_all
  then have "2 ^ j * (q + 1) \<le> 2 ^ j * (p + 2 ^ (i - j))" "2 ^ j * p \<le> 2 ^ j * q"
    by (simp_all only: mult_le_mono2)
  then show ?thesis by (auto simp: block_def x y i algebra_simps)
qed

lemma free_run_in_block:
  assumes ok: "blocks_ok A"
  shows "i \<le> 10 \<Longrightarrow> 2 ^ i dvd x \<Longrightarrow> block i x \<subseteq> free_pages A
    \<Longrightarrow> \<exists>j\<ge>i. \<exists>y\<in>A j. block i x \<subseteq> block j y"
proof (induction i arbitrary: x)
  case 0
  then have "x \<in> free_pages A" using block_head [of x 0] by blast
  then show ?case by (auto simp: free_pages_def block_def)
next
  case (Suc i)
  let ?x' = "x + 2 ^ i"
  have split: "block (Suc i) x = block i x \<union> block i ?x'" using block_split [of i x] by simp
  have dvd: "2 ^ i dvd x" using Suc.prems(2) by (meson dvd_trans le_imp_power_dvd le_SucI order_refl)
  then have dvd': "2 ^ i dvd ?x'" by simp
  obtain j y where j: "i \<le> j" "y \<in> A j" "block i x \<subseteq> block j y"
    using Suc.IH [of x] Suc.prems split dvd by auto
  obtain k z where k: "i \<le> k" "z \<in> A k" "block i ?x' \<subseteq> block k z"
    using Suc.IH [of ?x'] Suc.prems split dvd' by auto
  have aligned: "2 ^ j dvd y" "2 ^ k dvd z"
    using j k blocks_okD(1) [OF ok] by (auto simp: block_at_def)
  have large: "\<exists>j\<ge>Suc i. \<exists>y\<in>A j. block (Suc i) x \<subseteq> block j y"
    if "Suc i \<le> l" "w \<in> A l" "block l w \<inter> block (Suc i) x \<noteq> {}" for l w
    using that block_containing [of l w "Suc i" x] Suc.prems(2) blocks_okD(1) [OF ok that(2)]
    by (auto simp: block_at_def)
  show ?case
  proof (cases "Suc i \<le> j \<or> Suc i \<le> k")
    case True
    then show ?thesis
      using large [of j y] large [of k z] j k split block_head [of x i] block_head [of ?x' i] by blast
  next
    case False
    then have "j = i" "k = i" using j k by auto
    moreover have "y = x" if "block i x \<subseteq> block i y" for x y
      using that by (auto simp: block_def atLeastLessThan_subset_iff)
    ultimately have "x \<in> A i" "?x' \<in> A i" using j k by auto
    moreover have "buddy i x = ?x'" using dvd
    proof (cases rule: buddy_cases)
      case second
      obtain q where "x = 2 ^ i * (2 * q)" using Suc.prems(2) by (auto elim!: dvdE)
      then show ?thesis using second(1) by simp
    qed
    ultimately show ?thesis using blocks_okD(3) [OF ok, of i x] Suc.prems(1) by simp
  qed
qed


section \<open>The allocator as a set of free pages\<close>

definition bud_pool :: "store \<Rightarrow> buddy_allocator \<Rightarrow> nat set \<Rightarrow> bool" where
  "bud_pool m b F \<longleftrightarrow> (\<exists>A. bud_rep m b A \<and> blocks_ok A \<and> free_pages A = F)"

text \<open>A run starts at a multiple of a power of two, up to the largest order, that it fits in.\<close>

definition aligned_for :: "nat \<Rightarrow> nat \<Rightarrow> bool" where
  "aligned_for n x \<longleftrightarrow> (\<exists>i \<le> 10. n \<le> 2 ^ i \<and> 2 ^ i dvd x)"

lemma bud_pool_frames: "bud_pool m b F \<Longrightarrow> F \<subseteq> frames"
  using free_pages_frames by (auto simp: bud_pool_def)

lemma bud_pool_put:
  assumes "bud_pool m b F" and "0 < x" and "x + n \<le> max_frame" and "{x..<x + n} \<inter> F = {}"
  shows "\<exists>m' b'. bud_put m b \<lparr>blk_ptr = frame_addr x, blk_size = of_nat n\<rparr> = Inr (m', b')
    \<and> bud_pool m' b' (F \<union> {x..<x + n}) \<and> pool_step (F \<union> {x..<x + n}) m b m' b'"
  using assms bud_put_blocks unfolding bud_pool_def by blast

lemma bud_get_found:
  assumes rep: "bud_rep m b A" and ok: "blocks_ok A" and "i \<le> 10" and x: "x \<in> A i"
    and n: "n \<le> 2 ^ i" and rep1: "bud_rep m1 b1 (A(i := A i - {x}))"
  shows "\<exists>m2 b2. (if (push_bit i 1 - of_nat n :: u32) \<noteq> 0
      then bud_put m1 b1 \<lparr>blk_ptr = frame_addr x + PAGE_SIZE * of_nat n, blk_size = push_bit i 1 - of_nat n\<rparr>
      else Inr (m1, b1)) = Inr (m2, b2)
    \<and> bud_pool m2 b2 (free_pages A - {x..<x + n}) \<and> pool_step (free_pages A) m1 b1 m2 b2 \<and> {x..<x + n} \<subseteq> free_pages A"
proof -
  have at: "block_at i x" by (rule blocks_okD(1) [OF ok x])
  note e = dvd_block_end [OF at]
  have fp: "free_pages (A(i := A i - {x})) = free_pages A - block i x" by (rule free_pages_remove [OF ok x])
  have sub: "{x..<x + n} \<subseteq> block i x" using n by (auto simp: block_def)
  have diff: "push_bit i 1 - of_nat n = (of_nat (2 ^ i - n) :: u32)" using n by simp
  have pool: "bud_pool m1 b1 (free_pages A - block i x)"
    using rep1 blocks_ok_remove [OF ok] fp unfolding bud_pool_def by blast
  have "{x + n..<x + n + (2 ^ i - n)} \<inter> (free_pages A - block i x) = {}" using n by (auto simp: block_def)
  moreover have "0 < x + n" using at by (simp add: block_at_def)
  ultimately obtain m2 b2 where
    "bud_put m1 b1 \<lparr>blk_ptr = frame_addr (x + n), blk_size = of_nat (2 ^ i - n)\<rparr> = Inr (m2, b2)"
    "bud_pool m2 b2 ((free_pages A - block i x) \<union> {x + n..<x + n + (2 ^ i - n)})"
    and st: "pool_step ((free_pages A - block i x) \<union> {x + n..<x + n + (2 ^ i - n)}) m1 b1 m2 b2"
    using bud_pool_put [OF pool, of "x + n" "2 ^ i - n"] e n by auto
  moreover have fpe: "(free_pages A - block i x) \<union> {x + n..<x + n + (2 ^ i - n)} = free_pages A - {x..<x + n}"
    using in_free_pages [of x A i] x n by (auto simp: block_def)
  moreover have "pool_step (free_pages A) m1 b1 m2 b2"
    by (rule pool_step_trans [OF pool_step_refl [of "{}"] st]) (use fpe in blast)
  moreover have "bud_put m1 b1 \<lparr>blk_ptr = frame_addr (x + n), blk_size = of_nat (2 ^ i - n)\<rparr> = Inr (m1, b1)"
    if "(of_nat (2 ^ i - n) :: u32) = 0" using that by (simp add: bud_put_def)
  ultimately show ?thesis
    using in_free_pages [of x A i] x sub unfolding diff frame_addr_add
    by (cases "(of_nat (2 ^ i - n) :: u32) = 0") auto
qed

lemma bud_pool_get:
  assumes pool: "bud_pool m b F" and n: "unat pages \<le> 2 ^ 31"
  shows "\<exists>m' b' blk. bud_get m b pages = Inr (m', b', blk) \<and> pool_step F m (b\<lparr>bud_allocations := bud_allocations b + 1\<rparr>) m' b'
    \<and> (if blk_ptr blk = nullptr
       then blk_size blk = 0 \<and> bud_pool m' b' F
         \<and> (\<forall>i x. i \<le> 10 \<and> unat pages \<le> 2 ^ i \<and> 2 ^ i dvd x \<longrightarrow> \<not> block i x \<subseteq> F)
       else \<exists>x. blk = \<lparr>blk_ptr = frame_addr x, blk_size = pages\<rparr> \<and> x \<in> frames
         \<and> {x..<x + unat pages} \<subseteq> F \<and> aligned_for (unat pages) x \<and> bud_pool m' b' (F - {x..<x + unat pages}))"
proof -
  let ?b = "b\<lparr>bud_allocations := bud_allocations b + 1\<rparr>" and ?n = "unat pages"
  obtain A where rep: "bud_rep m ?b A" and ok: "blocks_ok A" and F: "free_pages A = F"
    using pool by (auto simp: bud_pool_def bud_rep_def)
  then have pool1: "bud_pool m ?b F" by (auto simp: bud_pool_def)
  obtain k where k: "order_for pages 0 = Inr k" "?n \<le> 2 ^ k" "\<And>i. i < k \<Longrightarrow> 2 ^ i < ?n"
    using order_for_spec [of pages 0] n by auto
  have least: "k \<le> i" if "?n \<le> 2 ^ i" for i using k(3) [of i] that by (meson not_le)
  consider (large) "10 < k" | (none) "k \<le> 10" "\<forall>i. k \<le> i \<longrightarrow> A i = {}" "bud_scan m ?b k = Inr (m, ?b, 11, nullptr)"
    | (some) m1 b1 i x where "k \<le> 10" "bud_scan m ?b k = Inr (m1, b1, i, frame_addr x)" "k \<le> i" "x \<in> A i"
      "bud_rep m1 b1 (A(i := A i - {x}))" "pool_step F m ?b m1 b1"
  proof (cases "k \<le> 10")
    case True
    then have "k \<le> 11" by simp
    from bud_scan_blocks [OF rep ok this] show ?thesis using none some True unfolding F by blast
  qed simp
  then show ?thesis
  proof cases
    case large
    then show ?thesis using k(1) pool1 least by (force simp: bud_get_def MAX_ORDER_def)
  next
    case none
    have "\<not> block i x \<subseteq> F" if "i \<le> 10" "?n \<le> 2 ^ i" "2 ^ i dvd x" for i x
      using free_run_in_block [OF ok that(1,3)] none(2) least [OF that(2)] F by (metis empty_iff le_trans)
    then show ?thesis using none k(1) pool1 by (auto simp: bud_get_def MAX_ORDER_def)
  next
    case some
    have at: "block_at i x" using blocks_okD(1) [OF ok some(4)] .
    have "?n \<le> 2 ^ i" using le_trans [OF k(2) power_increasing [OF some(3)]] by simp
    then obtain m2 b2 where "(if (push_bit i 1 - pages) \<noteq> 0
        then bud_put m1 b1 \<lparr>blk_ptr = frame_addr x + PAGE_SIZE * pages, blk_size = push_bit i 1 - pages\<rparr>
        else Inr (m1, b1)) = Inr (m2, b2)" and
      "bud_pool m2 b2 (F - {x..<x + ?n})" "pool_step F m1 b1 m2 b2" "{x..<x + ?n} \<subseteq> F"
      using bud_get_found [OF rep ok _ some(4) _ some(5), of ?n, unfolded of_nat_unat_u32] at F
      by (auto simp: block_at_def)
    moreover have "frame_addr x \<noteq> nullptr" "x \<in> frames" "aligned_for ?n x"
      using at frame_addr_null [of x] \<open>?n \<le> 2 ^ i\<close> by (auto simp: block_at_def aligned_for_def)
    moreover from calculation have "bud_get m b pages = Inr (m2, b2, \<lparr>blk_ptr = frame_addr x, blk_size = pages\<rparr>)"
      using some(1,2) k(1) by (auto simp: bud_get_def MAX_ORDER_def split: if_splits)
    ultimately show ?thesis
      using pool_step_trans [OF some(6), of F m2 b2 F]
      by (intro exI [of _ m2] exI [of _ b2] exI [of _ "\<lparr>blk_ptr = frame_addr x, blk_size = pages\<rparr>"]) auto
  qed
qed

lemma bud_init_lists_empty:
  assumes "\<forall>fl\<in>set fls. fl_items fl = 0"
  shows "bud_init_lists m i fls = Inr (map (\<lambda>j. \<lparr>fl_items = 0, fl_list = nullptr, fl_order = j,
    fl_disable_squashing = (j = MAX_ORDER)\<rparr>) [i..<i + length fls])"
  using assms
proof (induction fls arbitrary: i)
  case (Cons fl fls)
  let ?fl = "fl\<lparr>fl_list := nullptr, fl_order := i, fl_disable_squashing := (i = MAX_ORDER)\<rparr>"
  have "fl_rep m ?fl []" using Cons.prems by (simp add: fl_rep_Nil_iff)
  then have init: "fl_initialize m fl i (i = MAX_ORDER) = Inr (?fl, True)"
    by (simp add: fl_initialize_def Let_def fl_rep_sane)
  have eq: "?fl = \<lparr>fl_items = 0, fl_list = nullptr, fl_order = i, fl_disable_squashing = (i = MAX_ORDER)\<rparr>"
    using Cons.prems by (cases fl) simp
  then show ?case
    using Cons by (simp add: init [unfolded eq] upt_conv_Cons del: upt_Suc)
qed simp

text \<open>The state after \<^verbatim>\<open>initialize\<close>.\<close>

definition bud_fresh :: "memory_region \<Rightarrow> buddy_allocator" where
  "bud_fresh r = \<lparr>bud_allocations = 0, bud_deallocations = 0,
     bud_lists = map (\<lambda>j. \<lparr>fl_items = 0, fl_list = nullptr, fl_order = j, fl_disable_squashing = (j = 10)\<rparr>) [0..<11],
     bud_region = r\<rparr>"

lemma bud_initialize_fresh: "bud_initialize m (buddy_allocator_default r0) r = Inr (bud_fresh r)"
  by (simp add: bud_initialize_def buddy_allocator_default_def bud_init_lists_empty bud_fresh_def
      free_list_empty_def MAX_ORDER_def del: replicate.simps upt_Suc)

lemma bud_fresh_rep: "bud_rep m (bud_fresh r) (\<lambda>i. {})"
  unfolding bud_rep_def bud_fresh_def
  by (simp add: fl_rep_Nil_iff nth_map nth_upt le_less_Suc_eq del: upt_Suc)

lemma no_blocks: "blocks_ok (\<lambda>i. {})" "free_pages (\<lambda>i. {}) = {}"
  by (auto simp: blocks_ok_def free_pages_def)

lemma bud_fresh_pool: "bud_pool m (bud_fresh r) {}"
  using bud_fresh_rep no_blocks unfolding bud_pool_def by blast

lemma bud_pool_same:
  assumes "bud_pool m b F" "same_outside T m m'" "T \<subseteq> frames" "T \<inter> F = {}"
  shows "bud_pool m' b F"
proof -
  obtain A where A: "bud_rep m b A" "blocks_ok A" "free_pages A = F" using assms(1) by (auto simp: bud_pool_def)
  have "T \<inter> A i = {}" for i using in_free_pages [of _ A i] block_head assms(4) A(3) by blast
  then have "fl_rep m' (bud_lists b ! i) (sorted_list_of_set (A i))" if "i \<le> 10" for i
    using A(1) that blocks_finite [OF A(2)]
    by (intro fl_rep_same_outside [OF _ assms(2,3)]) (auto simp: bud_rep_def)
  then have "bud_rep m' b A" using A(1) by (simp add: bud_rep_def)
  then show ?thesis using A(2,3) by (auto simp: bud_pool_def)
qed

text \<open>
  The blocks are determined by the free pages: they are the aligned runs of free pages that are
  not part of a larger one. So are the answers to requests.
\<close>

definition canon :: "nat set \<Rightarrow> nat \<Rightarrow> nat set" where
  "canon F i = {x. block_at i x \<and> block i x \<subseteq> F \<and> (i < 10 \<longrightarrow> \<not> block (i + 1) (min x (buddy i x)) \<subseteq> F)}"

lemma blocks_canon:
  assumes ok: "blocks_ok A"
  shows "A i = canon (free_pages A) i"
proof (intro equalityI subsetI)
  fix x assume x: "x \<in> A i"
  note at = blocks_okD(1) [OF ok x]
  have "\<not> block (i + 1) (min x (buddy i x)) \<subseteq> free_pages A" if i: "i < 10"
  proof
    assume "block (i + 1) (min x (buddy i x)) \<subseteq> free_pages A"
    moreover have al: "2 ^ (i + 1) dvd min x (buddy i x)" and sum: "block (i + 1) (min x (buddy i x)) = block i x \<union> block i (buddy i x)"
      using buddy_merge [of i x] at by (auto simp: block_at_def)
    ultimately obtain j y where y: "i + 1 \<le> j" "y \<in> A j" "block (i + 1) (min x (buddy i x)) \<subseteq> block j y"
      using free_run_in_block [OF ok _ al] i by auto
    then have "x \<in> block i x \<inter> block j y" using sum by auto
    then show False using blocks_okD(2) [OF ok x y(2)] y(1) by auto
  qed
  then show "x \<in> canon (free_pages A) i" using at in_free_pages [of x A i] x by (simp add: canon_def)
next
  fix x assume "x \<in> canon (free_pages A) i"
  then have at: "block_at i x" and sub: "block i x \<subseteq> free_pages A"
    and max: "i < 10 \<longrightarrow> \<not> block (i + 1) (min x (buddy i x)) \<subseteq> free_pages A" by (auto simp: canon_def)
  obtain j y where y: "i \<le> j" "y \<in> A j" "block i x \<subseteq> block j y"
    using free_run_in_block [OF ok _ _ sub] at by (auto simp: block_at_def)
  note aty = blocks_okD(1) [OF ok y(2)]
  have "j = i"
  proof (rule ccontr)
    assume "j \<noteq> i"
    then have j: "i + 1 \<le> j" "i < 10" using y(1) aty by (auto simp: block_at_def)
    have al: "2 ^ (i + 1) dvd min x (buddy i x)" and sum: "block (i + 1) (min x (buddy i x)) = block i x \<union> block i (buddy i x)"
      using buddy_merge [of i x] at by (auto simp: block_at_def)
    have "x \<in> block j y \<inter> block (i + 1) (min x (buddy i x))" using y(3) sum by auto
    then have "block (i + 1) (min x (buddy i x)) \<subseteq> block j y"
      using block_containing [OF _ al j(1), of y] aty by (auto simp: block_at_def)
    then show False using max j(2) in_free_pages [of y A j] y(2) by blast
  qed
  moreover from this have "x = y" using y(3) by (auto simp: block_def atLeastLessThan_subset_iff)
  ultimately show "x \<in> A i" using y(2) by simp
qed

text \<open>The answer to a request: the lowest of the smallest blocks that are large enough.\<close>

definition first_fit :: "nat set \<Rightarrow> nat \<Rightarrow> nat option" where
  "first_fit F n =
     (if \<exists>i. n \<le> 2 ^ i \<and> canon F i \<noteq> {} then Some (Min (canon F (LEAST i. n \<le> 2 ^ i \<and> canon F i \<noteq> {}))) else None)"

lemma first_fit_eqI:
  assumes "n \<le> 2 ^ i" "canon F i \<noteq> {}" "\<And>j. n \<le> 2 ^ j \<Longrightarrow> j < i \<Longrightarrow> canon F j = {}"
  shows "first_fit F n = Some (Min (canon F i))"
proof -
  have "(LEAST i. n \<le> 2 ^ i \<and> canon F i \<noteq> {}) = i"
    using assms by (intro Least_equality) (auto simp: not_less [symmetric])
  then show ?thesis using assms(1,2) by (auto simp: first_fit_def)
qed

lemma first_fit_frames:
  assumes "first_fit F n = Some y"
  shows "y \<in> frames"
proof -
  let ?P = "\<lambda>i. n \<le> 2 ^ i \<and> canon F i \<noteq> {}"
  have "\<exists>i. ?P i" and y: "y = Min (canon F (LEAST i. ?P i))" using assms by (auto simp: first_fit_def split: if_splits)
  then have "canon F (LEAST i. ?P i) \<noteq> {}" using LeastI_ex [of ?P] by blast
  moreover have "finite (canon F i)" for i by (rule finite_subset [of _ frames]) (auto simp: canon_def block_at_def)
  ultimately have "y \<in> canon F (LEAST i. ?P i)" using Min_in y by blast
  then show ?thesis by (auto simp: canon_def block_at_def)
qed

definition blk_of :: "u32 \<Rightarrow> nat option \<Rightarrow> pblk" where
  "blk_of pages r = (case r of None \<Rightarrow> \<lparr>blk_ptr = nullptr, blk_size = 0\<rparr> | Some x \<Rightarrow> \<lparr>blk_ptr = frame_addr x, blk_size = pages\<rparr>)"

lemma bud_get_first_fit:
  assumes "bud_pool m b F" "unat pages \<le> 2 ^ 31" "bud_get m b pages = Inr (m', b', blk)"
  shows "blk = blk_of pages (first_fit F (unat pages))"
proof -
  let ?b = "b\<lparr>bud_allocations := bud_allocations b + 1\<rparr>"
  obtain A where A: "bud_rep m ?b A" "blocks_ok A" "free_pages A = F"
    using assms(1) unfolding bud_pool_def by (auto simp: bud_rep_def)
  have canon: "canon F i = A i" for i using blocks_canon [OF A(2), of i] A(3) by simp
  have small: "i \<le> 10" if "canon F i \<noteq> {}" for i using that by (auto simp: canon_def block_at_def)
  obtain k where k: "order_for pages 0 = Inr k" "unat pages \<le> 2 ^ k" "\<forall>i<k. 2 ^ i < unat pages"
    using order_for_spec [of pages 0] assms(2) by auto
  have fit: "unat pages \<le> 2 ^ i \<longleftrightarrow> k \<le> i" for i
    using k(2,3) le_trans [OF k(2) power_increasing [of k i "2 :: nat"]] by (cases "k \<le> i") (auto simp: not_le)
  show ?thesis
  proof (cases "\<exists>i. k \<le> i \<and> A i \<noteq> {}")
    case False
    then have "first_fit F (unat pages) = None" by (simp add: first_fit_def fit canon)
    moreover have "blk = \<lparr>blk_ptr = nullptr, blk_size = 0\<rparr>"
      using False assms(3) k(1) bud_scan_blocks [OF A(1,2), of k]
      by (cases "k \<le> 10") (auto simp: bud_get_def MAX_ORDER_def)
    ultimately show ?thesis by (simp add: blk_of_def)
  next
    case True
    then have k10: "k \<le> 10" using small canon le_trans by metis
    then obtain m1 b1 i x where s: "bud_scan m ?b k = Inr (m1, b1, i, frame_addr x)" "k \<le> i" "x \<in> A i" "x = Min (A i)"
      "\<forall>j. k \<le> j \<and> j < i \<longrightarrow> A j = {}"
      using True bud_scan_blocks [OF A(1,2), of k] by auto
    have "first_fit F (unat pages) = Some x"
      using s unfolding s(4) by (subst first_fit_eqI [of _ i]) (auto simp: fit canon)
    moreover have "frame_addr x \<noteq> nullptr"
      using blocks_okD(1) [OF A(2) s(3)] by (intro frame_addr_null) (auto simp: block_at_def)
    then have "blk = \<lparr>blk_ptr = frame_addr x, blk_size = pages\<rparr>"
      using assms(3) k(1) s(1) k10 by (auto simp: bud_get_def MAX_ORDER_def bindE_eq_Inr_iff Let_def split: if_splits prod.splits)
    ultimately show ?thesis by (simp add: blk_of_def)
  qed
qed

text \<open>The contract that the page allocator relies on.\<close>

locale page_pool =
  fixes put :: "store \<Rightarrow> 'b \<Rightarrow> pblk \<Rightarrow> (store \<times> 'b) result"
    and get :: "store \<Rightarrow> 'b \<Rightarrow> u32 \<Rightarrow> (store \<times> 'b \<times> pblk) result"
    and pool :: "store \<Rightarrow> 'b \<Rightarrow> nat set \<Rightarrow> bool"
    and region :: "'b \<Rightarrow> memory_region"
    and choice :: "nat set \<Rightarrow> nat \<Rightarrow> nat option"
  assumes pool_frames: "pool m b F \<Longrightarrow> F \<subseteq> frames"
    and pool_same: "pool m b F \<Longrightarrow> same_outside T m m' \<Longrightarrow> T \<subseteq> frames \<Longrightarrow> T \<inter> F = {} \<Longrightarrow> pool m' b F"
    and pool_bytes: "pool (m\<lparr>bytes := f\<rparr>) b F = pool m b F"
    and pool_put: "pool m b F \<Longrightarrow> 0 < x \<Longrightarrow> x + n \<le> max_frame \<Longrightarrow> {x..<x + n} \<inter> F = {}
      \<Longrightarrow> \<exists>m' b'. put m b \<lparr>blk_ptr = frame_addr x, blk_size = of_nat n\<rparr> = Inr (m', b')
        \<and> pool m' b' (F \<union> {x..<x + n}) \<and> same_outside (F \<union> {x..<x + n}) m m' \<and> bytes m' = bytes m \<and> region b' = region b"
    and pool_get: "pool m b F \<Longrightarrow> unat pages \<le> 2 ^ 31
      \<Longrightarrow> \<exists>m' b' blk. get m b pages = Inr (m', b', blk) \<and> same_outside F m m' \<and> bytes m' = bytes m \<and> region b' = region b
        \<and> (if blk_ptr blk = nullptr then pool m' b' F
             \<and> (\<forall>i x. i \<le> 10 \<and> unat pages \<le> 2 ^ i \<and> 2 ^ i dvd x \<longrightarrow> \<not> block i x \<subseteq> F)
           else \<exists>x. blk = \<lparr>blk_ptr = frame_addr x, blk_size = pages\<rparr> \<and> x \<in> frames
             \<and> {x..<x + unat pages} \<subseteq> F \<and> aligned_for (unat pages) x \<and> pool m' b' (F - {x..<x + unat pages}))"
    and pool_choice: "pool m b F \<Longrightarrow> unat pages \<le> 2 ^ 31 \<Longrightarrow> get m b pages = Inr (m', b', blk)
      \<Longrightarrow> blk = blk_of pages (choice F (unat pages))"
begin

lemma get_put_restores:
  assumes "pool m b F" and "unat pages \<le> 2 ^ 31" and "pages \<noteq> 0"
    and "get m b pages = Inr (m', b', blk)" and "blk_ptr blk \<noteq> nullptr"
  shows "\<exists>m'' b''. put m' b' blk = Inr (m'', b'') \<and> pool m'' b'' F"
proof -
  obtain x where blk: "blk = \<lparr>blk_ptr = frame_addr x, blk_size = pages\<rparr>" and x: "x \<in> frames"
    and sub: "{x..<x + unat pages} \<subseteq> F" and p: "pool m' b' (F - {x..<x + unat pages})"
    using pool_get [OF assms(1,2)] assms(4,5) by auto
  have "x + unat pages - 1 \<in> {x..<x + unat pages}" using assms(3) by (auto simp: u32_eq_iff_unat)
  then have "x + unat pages - 1 \<in> F" using sub by blast
  then have "x + unat pages \<le> max_frame" using pool_frames [OF assms(1)] by fastforce
  then obtain m'' b'' where "put m' b' \<lparr>blk_ptr = frame_addr x, blk_size = of_nat (unat pages)\<rparr> = Inr (m'', b'')"
    and "pool m'' b'' ((F - {x..<x + unat pages}) \<union> {x..<x + unat pages})"
    using pool_put [OF p, of x "unat pages"] x by auto
  then show ?thesis using sub by (simp add: blk Un_absorb2)
qed

end

interpretation bud: page_pool bud_put bud_get bud_pool bud_region first_fit
proof
  fix m b F
  show "bud_pool m b F \<Longrightarrow> F \<subseteq> frames" by (rule bud_pool_frames)
  show "bud_pool m b F \<Longrightarrow> same_outside T m m' \<Longrightarrow> T \<subseteq> frames \<Longrightarrow> T \<inter> F = {} \<Longrightarrow> bud_pool m' b F" for T m'
    by (rule bud_pool_same)
  show "bud_pool (m\<lparr>bytes := f\<rparr>) b F = bud_pool m b F" for f
    by (simp add: bud_pool_def bud_rep_def fl_rep_def)
  show "\<exists>m' b'. bud_put m b \<lparr>blk_ptr = frame_addr x, blk_size = of_nat n\<rparr> = Inr (m', b')
      \<and> bud_pool m' b' (F \<union> {x..<x + n}) \<and> same_outside (F \<union> {x..<x + n}) m m' \<and> bytes m' = bytes m \<and> bud_region b' = bud_region b"
    if "bud_pool m b F" "0 < x" "x + n \<le> max_frame" "{x..<x + n} \<inter> F = {}" for x n
    using bud_pool_put [OF that] by (auto simp: pool_step_def same_outside_def)
  show "\<exists>m' b' blk. bud_get m b pages = Inr (m', b', blk) \<and> same_outside F m m' \<and> bytes m' = bytes m \<and> bud_region b' = bud_region b
        \<and> (if blk_ptr blk = nullptr then bud_pool m' b' F
             \<and> (\<forall>i x. i \<le> 10 \<and> unat pages \<le> 2 ^ i \<and> 2 ^ i dvd x \<longrightarrow> \<not> block i x \<subseteq> F)
           else \<exists>x. blk = \<lparr>blk_ptr = frame_addr x, blk_size = pages\<rparr> \<and> x \<in> frames
             \<and> {x..<x + unat pages} \<subseteq> F \<and> aligned_for (unat pages) x \<and> bud_pool m' b' (F - {x..<x + unat pages}))"
    if *: "bud_pool m b F" "unat pages \<le> 2 ^ 31" for pages
  proof -
    obtain m' b' blk where g: "bud_get m b pages = Inr (m', b', blk)"
      "pool_step F m (b\<lparr>bud_allocations := bud_allocations b + 1\<rparr>) m' b'"
      "if blk_ptr blk = nullptr
       then blk_size blk = 0 \<and> bud_pool m' b' F
         \<and> (\<forall>i x. i \<le> 10 \<and> unat pages \<le> 2 ^ i \<and> 2 ^ i dvd x \<longrightarrow> \<not> block i x \<subseteq> F)
       else \<exists>x. blk = \<lparr>blk_ptr = frame_addr x, blk_size = pages\<rparr> \<and> x \<in> frames
         \<and> {x..<x + unat pages} \<subseteq> F \<and> aligned_for (unat pages) x \<and> bud_pool m' b' (F - {x..<x + unat pages})"
      using bud_pool_get [OF *] by blast
    from g(2) have "same_outside F m m'" "bytes m' = bytes m" "bud_region b' = bud_region b"
      by (auto simp: pool_step_def same_outside_def)
    then show ?thesis using g(1,3) by (intro exI [of _ m'] exI [of _ b'] exI [of _ blk]) (auto split: if_splits)
  qed
  show "blk = blk_of pages (first_fit F (unat pages))"
    if "bud_pool m b F" "unat pages \<le> 2 ^ 31" "bud_get m b pages = Inr (m', b', blk)" for pages m' b' blk
    by (rule bud_get_first_fit [OF that])
qed

section \<open>Properties\<close>

text \<open>
  C8: \<^verbatim>\<open>BuddyAllocator::put\<close> of a block of frames that are not free succeeds, adds exactly the
  frames of the block to the free ones and keeps the allocator well-formed: the lists are sorted
  chains of disjoint aligned blocks and no block is free together with its buddy.
\<close>

theorem buddy_put:
  assumes "bud_rep m b A" and "blocks_ok A" and "0 < x" and "x + n \<le> max_frame"
    and "{x..<x + n} \<inter> free_pages A = {}"
  shows "\<exists>m' b' A'. bud_put m b \<lparr>blk_ptr = frame_addr x, blk_size = of_nat n\<rparr> = Inr (m', b')
    \<and> bud_rep m' b' A' \<and> blocks_ok A' \<and> free_pages A' = free_pages A \<union> {x..<x + n}"
  using bud_put_blocks [OF assms] by blast

theorem buddy_put_witness:
  "\<exists>m b A. bud_put store_zero (bud_fresh \<lparr>mr_begin = frame_addr 256, mr_end = frame_addr 4096\<rparr>)
      \<lparr>blk_ptr = frame_addr 300, blk_size = of_nat 1000\<rparr> = Inr (m, b)
    \<and> bud_rep m b A \<and> blocks_ok A \<and> free_pages A = {300..<1300}"
  using buddy_put [OF bud_fresh_rep no_blocks(1), of 300 1000] by (simp add: no_blocks(2))

text \<open>
  C9: \<^verbatim>\<open>BuddyAllocator::get\<close> returns for every request of at most \<^verbatim>\<open>2 ^ 31\<close> pages. It either returns a
  block of exactly the requested size all of whose frames were free, aligned to a power of two that
  it fits in, and then exactly these frames are no longer free, or it returns null, and then it leaves the free frames alone and no aligned
  run of \<^verbatim>\<open>2 ^ i\<close> free frames, \<^verbatim>\<open>i\<close> up to 10, is large enough for the request. The answer depends on the set of free
  frames alone, not on how it came about: it is the lowest among the smallest maximal aligned blocks of free frames that
  are large enough.
\<close>

theorem buddy_get:
  assumes "bud_pool m b F" and "unat pages \<le> 2 ^ 31"
  shows "\<exists>m' b' blk. bud_get m b pages = Inr (m', b', blk) \<and> blk = blk_of pages (first_fit F (unat pages))
    \<and> (if blk_ptr blk = nullptr
       then bud_pool m' b' F \<and> (\<forall>i x. i \<le> 10 \<and> unat pages \<le> 2 ^ i \<and> 2 ^ i dvd x \<longrightarrow> \<not> block i x \<subseteq> F)
       else \<exists>x. blk = \<lparr>blk_ptr = frame_addr x, blk_size = pages\<rparr>
         \<and> {x..<x + unat pages} \<subseteq> F \<and> aligned_for (unat pages) x \<and> bud_pool m' b' (F - {x..<x + unat pages}))"
proof -
  obtain m' b' blk where g: "bud_get m b pages = Inr (m', b', blk)"
    "if blk_ptr blk = nullptr then bud_pool m' b' F
         \<and> (\<forall>i x. i \<le> 10 \<and> unat pages \<le> 2 ^ i \<and> 2 ^ i dvd x \<longrightarrow> \<not> block i x \<subseteq> F)
       else \<exists>x. blk = \<lparr>blk_ptr = frame_addr x, blk_size = pages\<rparr> \<and> x \<in> frames
         \<and> {x..<x + unat pages} \<subseteq> F \<and> aligned_for (unat pages) x \<and> bud_pool m' b' (F - {x..<x + unat pages})"
    using bud.pool_get [OF assms] by blast
  then show ?thesis using bud.pool_choice [OF assms g(1)] by (intro exI [of _ m'] exI [of _ b'] exI [of _ blk]) (auto split: if_splits)
qed

theorem buddy_get_witness:
  "\<exists>m b m' b' x. bud_put store_zero (bud_fresh \<lparr>mr_begin = frame_addr 256, mr_end = frame_addr 4096\<rparr>)
      \<lparr>blk_ptr = frame_addr 300, blk_size = of_nat 1000\<rparr> = Inr (m, b)
    \<and> bud_get m b 5 = Inr (m', b', \<lparr>blk_ptr = frame_addr x, blk_size = 5\<rparr>) \<and> {x..<x + 5} \<subseteq> {300..<1300}"
proof -
  let ?r = "\<lparr>mr_begin = frame_addr 256, mr_end = frame_addr 4096\<rparr>"
  obtain m b where put: "bud_put store_zero (bud_fresh ?r) \<lparr>blk_ptr = frame_addr 300, blk_size = of_nat 1000\<rparr> = Inr (m, b)"
    and pool: "bud_pool m b {300..<1300}"
    using bud_pool_put [OF bud_fresh_pool [of store_zero ?r], of 300 1000] by auto
  have five: "unat (5 :: u32) = 5" by simp
  obtain m' b' blk where get: "bud_get m b 5 = Inr (m', b', blk)"
    and res: "if blk_ptr blk = nullptr
       then bud_pool m' b' {300..<1300} \<and> (\<forall>i x. i \<le> 10 \<and> 5 \<le> (2::nat) ^ i \<and> 2 ^ i dvd x \<longrightarrow> \<not> block i x \<subseteq> {300..<1300})
       else \<exists>x. blk = \<lparr>blk_ptr = frame_addr x, blk_size = 5\<rparr>
         \<and> {x..<x + 5} \<subseteq> {300..<1300} \<and> aligned_for 5 x \<and> bud_pool m' b' ({300..<1300} - {x..<x + 5})"
    using buddy_get [OF pool, of 5] unfolding five by auto
  have "block 3 304 \<subseteq> {300..<1300}" by (simp add: block_def)
  moreover have "3 \<le> (10::nat) \<and> 5 \<le> (2::nat) ^ 3 \<and> 2 ^ 3 dvd (304::nat)" by simp
  ultimately have "blk_ptr blk \<noteq> nullptr" using res by metis
  then show ?thesis using res get put by auto
qed

end
