(* ===== verification/Bit_Array.thy ===== *)
theory Bit_Array
  imports Mem_Utils
begin

text \<open>
  \<^verbatim>\<open>libkernelcxx/include/bitarray.hpp\<close>: an array of bits laid out over bytes of the store. The page allocator keeps
  the ends of its blocks in one, every slab keeps its free elements in one. The interface that
  both rely on is the locale \<open>bit_store\<close>, whose laws are proved for the code at the end.
\<close>

section \<open>Definitions\<close>

record bit_array =
  ba_size :: u32
  ba_data :: ptr

definition ba_byte :: "bit_array \<Rightarrow> u32 \<Rightarrow> ptr" where
  "ba_byte a index = ba_data a + index div 8"

definition ba_mask :: "u32 \<Rightarrow> u8" where
  "ba_mask index = push_bit (unat (index mod 8)) 1"

definition ba_initialize :: "store \<Rightarrow> ptr \<Rightarrow> u32 \<Rightarrow> store \<times> bit_array" where
  "ba_initialize m on_address sz =
     (let a = \<lparr>ba_size = sz, ba_data = on_address\<rparr>;
          n = align_up 8 sz div 8
      in (m\<lparr>bytes := fold (\<lambda>idx b. b(on_address + of_nat idx := 0)) [0..<unat n] (bytes m)\<rparr>, a))"

definition ba_get :: "store \<Rightarrow> bit_array \<Rightarrow> u32 \<Rightarrow> bool" where
  "ba_get m a index \<longleftrightarrow> bytes m (ba_byte a index) AND ba_mask index \<noteq> 0"

definition ba_set :: "store \<Rightarrow> bit_array \<Rightarrow> u32 \<Rightarrow> bool \<Rightarrow> store" where
  "ba_set m a index v =
     (let p = ba_byte a index
      in if v then m\<lparr>bytes := (bytes m)(p := bytes m p OR ba_mask index)\<rparr>
         else m\<lparr>bytes := (bytes m)(p := bytes m p AND NOT (ba_mask index))\<rparr>)"

definition ba_expected_size :: "u32 \<Rightarrow> u32" where
  "ba_expected_size elems = (if elems mod 8 \<noteq> 0 then elems div 8 + 1 else elems div 8)"

section \<open>Bits and bytes\<close>

lemma ba_get_bit: "ba_get m a i \<longleftrightarrow> bit (bytes m (ba_byte a i)) (unat (i mod 8))"
proof -
  have "unat (i mod 8) < 8"
    by (simp add: unat_mod)
  then have "(w AND push_bit (unat (i mod 8)) 1 \<noteq> 0) \<longleftrightarrow> bit w (unat (i mod 8))" for w :: u8
    by (metis and_exp_eq_0_iff_not_bit push_bit_of_1)
  then show ?thesis
    by (simp only: ba_get_def ba_mask_def)
qed

lemma ba_byte_inject:
  "ba_byte a i = ba_byte a j \<longleftrightarrow> unat i div 8 = unat j div 8"
  by (simp add: ba_byte_def) (simp add: word_unat_eq_iff unat_div)

lemma u32_div_mod_8_eq: "unat (i :: u32) div 8 = unat j div 8 \<Longrightarrow> unat (i mod 8) = unat (j mod 8) \<Longrightarrow> i = j"
  by (simp add: word_unat_eq_iff unat_mod) (metis div_mult_mod_eq)

lemma ba_get_set:
  "ba_get (ba_set m a i v) a j \<longleftrightarrow> (if i = j then v else ba_get m a j)"
proof (cases "ba_byte a i = ba_byte a j")
  case False
  then show ?thesis by (auto simp: ba_get_def ba_set_def Let_def)
next
  case True
  have le: "unat (j mod 8) < 8" by (simp add: unat_mod)
  have "i = j \<longleftrightarrow> unat (i mod 8) = unat (j mod 8)"
    using True u32_div_mod_8_eq ba_byte_inject by blast
  then show ?thesis
    using True le
    by (auto simp: ba_get_bit ba_set_def ba_mask_def Let_def bit_simps)
qed

lemma ba_set_nexts [simp]: "nexts (ba_set m a i v) = nexts m"
  by (simp add: ba_set_def Let_def)

lemma ba_set_bytes_other: "p \<noteq> ba_byte a i \<Longrightarrow> bytes (ba_set m a i v) p = bytes m p"
  by (simp add: ba_set_def Let_def)

lemma unat_ba_expected_size: "unat (ba_expected_size n) = (unat n + 7) div 8"
proof -
  have "unat n div 8 < 4294967295"
    by (rule less_mult_imp_div_less) (rule order_less_le_trans [OF unat_u32_less], simp)
  then have "unat (n div 8 + 1) = unat n div 8 + 1"
    by (subst unat_add_u32) (simp_all add: unat_div)
  moreover have "(n mod 8 = 0) = (unat n mod 8 = 0)"
    by (simp add: word_unat_eq_iff unat_mod)
  ultimately show ?thesis
    by (auto simp: ba_expected_size_def unat_div) presburger+
qed

lemma ba_initialize_nexts [simp]: "nexts (fst (ba_initialize m p n)) = nexts m"
  by (simp add: ba_initialize_def Let_def)

lemma ba_initialize_array [simp]:
  "snd (ba_initialize m p n) = \<lparr>ba_size = n, ba_data = p\<rparr>"
  by (simp add: ba_initialize_def Let_def)

lemma fold_clear_bytes:
  "fold (\<lambda>idx b. b(p + of_nat idx := (0::u8))) is b q =
     (if \<exists>i \<in> set is. q = p + of_nat i then 0 else b q)"
  by (induction "is" arbitrary: b) auto

lemma ba_initialize_bytes:
  assumes "unat n + 8 \<le> 4294967296"
  shows "bytes (fst (ba_initialize m p n)) q =
    (if \<exists>i < (unat n + 7) div 8. q = p + of_nat i then 0 else bytes m q)"
proof -
  have "unat (align_up 8 n div 8) = (unat n + 7) div 8"
    using unat_align_up_div [of 3 n] assms by simp
  then show ?thesis
    by (auto simp: ba_initialize_def Let_def fold_clear_bytes)
qed

lemma ba_get_initialize:
  assumes "unat n + 8 \<le> 4294967296" and "i < n"
  shows "\<not> ba_get (fst (ba_initialize m p n)) (snd (ba_initialize m p n)) i"
proof -
  have "unat i div 8 < (unat n + 7) div 8"
    using assms(2) by (simp add: word_less_nat_alt)
  moreover have "i div 8 = of_nat (unat i div 8)"
    by (simp add: word_unat_eq_iff unat_div unat_of_nat_u32 less_imp_diff_less
        order_le_less_trans [OF div_le_dividend unat_u32_less])
  ultimately have "bytes (fst (ba_initialize m p n)) (p + i div 8) = 0"
    using ba_initialize_bytes [OF assms(1), of m p] by auto
  then show ?thesis by (simp add: ba_get_def ba_byte_def)
qed

section \<open>The interface of a bit store\<close>

text \<open>
  What the allocators rely on: a bit that has been set reads back, and setting it leaves every
  other bit alone. From the law follows the effect of any sequence of writes.
\<close>

locale bit_store =
  fixes get :: "'m \<Rightarrow> 'a \<Rightarrow> u32 \<Rightarrow> bool"
    and put :: "'m \<Rightarrow> 'a \<Rightarrow> u32 \<Rightarrow> bool \<Rightarrow> 'm"
  assumes get_put: "get (put m a i v) a j \<longleftrightarrow> (if i = j then v else get m a j)"
begin

lemma get_writes:
  "get (fold (\<lambda>(i, v) m. put m a i v) ws m) a j = (case map_of (rev ws) j of None \<Rightarrow> get m a j | Some v \<Rightarrow> v)"
  by (induction ws arbitrary: m) (auto simp: get_put map_add_def split: option.splits)

end

interpretation ba: bit_store ba_get ba_set
  by unfold_locales (rule ba_get_set)

section \<open>Properties\<close>

text \<open>
  C30: a bit array placed at any address over any previous contents is all false after
  initialisation, and after any sequence of writes each bit below the size holds the last value
  written to it, whatever the writes to the others were.
\<close>

theorem bit_array_last_write:
  assumes "unat n + 8 \<le> 4294967296" and "j < n"
    and "ba_initialize m p n = (m', a)"
  shows "ba_get (fold (\<lambda>(i, v) m. ba_set m a i v) ws m') a j
    = (case map_of (rev ws) j of None \<Rightarrow> False | Some v \<Rightarrow> v)"
  using ba_get_initialize [OF assms(1,2), of m p] assms(3) by (simp add: ba.get_writes split: option.splits)

theorem bit_array_last_write_witness:
  "\<not> ba_get (fold (\<lambda>(i, v) m. ba_set m \<lparr>ba_size = 20, ba_data = 4096\<rparr> i v) [(3, True), (4, True), (3, False)]
      (fst (ba_initialize store_zero 4096 20))) \<lparr>ba_size = 20, ba_data = 4096\<rparr> 3"
  using bit_array_last_write [of 20 3 store_zero 4096 "fst (ba_initialize store_zero 4096 20)"
      "\<lparr>ba_size = 20, ba_data = 4096\<rparr>" "[(3, True), (4, True), (3, False)]"]
  by (simp add: prod_eq_iff)

end
