(* ===== verification/Page_Allocator.thy ===== *)
theory Page_Allocator
  imports Buddy_Allocator Bit_Array
begin

text \<open>
  \<^verbatim>\<open>memory/page_allocator.{hpp,cpp}\<close>: allocation of runs of pages on top of the buddy system. The
  allocator keeps no header in the pages it hands out; a bit array with one bit for every page of
  the region marks the last page of each allocated run, and a release scans for that mark. The
  invariant \<open>pa_rep\<close> relates the bit array to the set of runs that are held by clients.
  \<^verbatim>\<open>RecursiveIrqGuard\<close> makes every operation atomic with respect to interrupt handlers; the
  operations are modelled as functions on the state.
\<close>

section \<open>Definitions\<close>

definition zero_size_page :: ptr where
  "zero_size_page = 0x10"

record page_allocator =
  pa_primary :: buddy_allocator
  pa_map :: bit_array

definition pa_initialize ::
  "store \<Rightarrow> buddy_allocator \<Rightarrow> ptr \<Rightarrow> (store \<times> page_allocator) result" where
  "pa_initialize m primary first_free =
     (let region = bud_region primary;
          map_size = align_up PAGE_SIZE (ba_expected_size (mr_size region)) div PAGE_SIZE;
          pages_ptr = first_free + PAGE_SIZE * map_size;
          pages = \<lparr>blk_ptr = pages_ptr, blk_size = frame_diff (mr_end region) pages_ptr\<rparr>
      in bindE (bud_put m primary pages) (\<lambda>(m1, primary1).
        let (m2, map) = ba_initialize m1 first_free (mr_size region)
        in Inr (m2, \<lparr>pa_primary = primary1, pa_map = map\<rparr>)))"

definition pa_allocate ::
  "store \<Rightarrow> page_allocator \<Rightarrow> u32 \<Rightarrow> (store \<times> page_allocator \<times> ptr) result" where
  "pa_allocate m pa pages =
     (if pages = 0 then Inr (m, pa, zero_size_page)
      else bindE (bud_get m (pa_primary pa) pages) (\<lambda>(m1, primary, free_memory).
        if blk_ptr free_memory = nullptr then Inr (m1, pa\<lparr>pa_primary := primary\<rparr>, nullptr)
        else let page_index = mr_index_of (bud_region primary) (blk_ptr free_memory);
                 last_page_in_block = page_index + blk_size free_memory - 1
          in Inr (ba_set m1 (pa_map pa) last_page_in_block True, pa\<lparr>pa_primary := primary\<rparr>,
                  blk_ptr free_memory)))"

text \<open>The loop of \<^verbatim>\<open>deallocate\<close>: the size of the block is counted up to the first mark.\<close>

function pa_scan :: "store \<Rightarrow> bit_array \<Rightarrow> u32 \<Rightarrow> u32 \<Rightarrow> u32 \<Rightarrow> store \<times> u32" where
  "pa_scan m a region_size index blk_sz =
     (if index = region_size then (m, blk_sz)
      else if ba_get m a index then (ba_set m a index False, blk_sz + 1)
      else pa_scan m a region_size (index + 1) (blk_sz + 1))"
  by pat_completeness auto
termination
  by (relation "measure (\<lambda>(m, a, region_size, index, blk_sz). unat (region_size - index))")
     (auto intro: word_count_up)

declare pa_scan.simps [simp del]

definition pa_deallocate ::
  "store \<Rightarrow> page_allocator \<Rightarrow> ptr \<Rightarrow> (store \<times> page_allocator) result" where
  "pa_deallocate m pa memory =
     (if memory = nullptr \<or> memory = zero_size_page then Inr (m, pa)
      else let region = bud_region (pa_primary pa);
               page_index = mr_index_of region memory;
               (m1, size) = pa_scan m (pa_map pa) (mr_size region) page_index 0
      in bindE (bud_put m1 (pa_primary pa) \<lparr>blk_ptr = memory, blk_size = size\<rparr>)
           (\<lambda>(m2, primary). Inr (m2, pa\<lparr>pa_primary := primary\<rparr>)))"

section \<open>The held runs\<close>

text \<open>
  The frames of a region: it begins at \<open>gb\<close> and ends before \<open>ge\<close>, the bit array is laid out from
  frame \<open>gm\<close> on and the pages that are handed out are those from \<open>gf\<close> on.
\<close>

record geometry =
  gb :: nat
  ge :: nat
  gm :: nat
  gf :: nat

definition geometry_ok :: "geometry \<Rightarrow> bool" where
  "geometry_ok g \<longleftrightarrow> 0 < gb g \<and> gb g \<le> gm g \<and> gm g \<le> gf g \<and> gf g \<le> ge g \<and> ge g < max_frame
     \<and> ge g - gb g < 524288 \<and> (ge g - gb g + 7) div 8 \<le> (gf g - gm g) * 4096"

definition run :: "nat \<times> nat \<Rightarrow> nat set" where
  "run = (\<lambda>(x, n). {x..<x + n})"

definition held_ok :: "geometry \<Rightarrow> nat set \<Rightarrow> (nat \<times> nat) set \<Rightarrow> bool" where
  "held_ok g F H \<longleftrightarrow> F \<subseteq> {gf g..<ge g}
     \<and> (\<forall>h\<in>H. 0 < snd h \<and> run h \<subseteq> {gf g..<ge g} \<and> run h \<inter> F = {})
     \<and> (\<forall>h\<in>H. \<forall>k\<in>H. h \<noteq> k \<longrightarrow> run h \<inter> run k = {})"

definition marks :: "geometry \<Rightarrow> (nat \<times> nat) set \<Rightarrow> nat set" where
  "marks g H = (\<lambda>(x, n). x + n - 1 - gb g) ` H"

definition pa_rep :: "geometry \<Rightarrow> store \<Rightarrow> page_allocator \<Rightarrow> nat set \<Rightarrow> (nat \<times> nat) set \<Rightarrow> bool" where
  "pa_rep g m pa F H \<longleftrightarrow> geometry_ok g
     \<and> bud_region (pa_primary pa) = \<lparr>mr_begin = frame_addr (gb g), mr_end = frame_addr (ge g)\<rparr>
     \<and> ba_data (pa_map pa) = frame_addr (gm g) \<and> bud_pool m (pa_primary pa) F \<and> held_ok g F H
     \<and> (\<forall>i < ge g - gb g. ba_get m (pa_map pa) (of_nat i) \<longleftrightarrow> i \<in> marks g H)"

text \<open>The bytes below the managed pages that hold the bit array.\<close>

definition map_bytes :: "geometry \<Rightarrow> ptr set" where
  "map_bytes g = {p. gm g * 4096 \<le> unat p \<and> unat p < gf g * 4096}"

lemma map_byte_in:
  assumes "geometry_ok g" and "ba_data a = frame_addr (gm g)" and "i < ge g - gb g"
  shows "ba_byte a (of_nat i) \<in> map_bytes g"
proof -
  have "i div 8 < (gf g - gm g) * 4096" using assms(1,3) by (simp add: geometry_ok_def) linarith
  then have lt: "gm g * 4096 + i div 8 < gf g * 4096"
    using assms(1) by (simp add: geometry_ok_def diff_mult_distrib)
  moreover have "gf g * 4096 < 4294967296" using assms(1) by (simp add: geometry_ok_def)
  moreover have "gm g < max_frame" "i < 4294967296" using assms by (simp_all add: geometry_ok_def)
  ultimately have "unat (ba_byte a (of_nat i)) = gm g * 4096 + i div 8"
    by (simp add: ba_byte_def assms(2) unat_add_u32 unat_frame_addr unat_div_u32 unat_of_nat_u32)
  then show ?thesis using lt by (simp add: map_bytes_def)
qed

lemma run_bounds:
  assumes "held_ok g F H" and "(x, n) \<in> H"
  shows "0 < n" "gf g \<le> x" "x + n \<le> ge g" "{x..<x + n} \<inter> F = {}"
proof -
  have h: "0 < n" "{x..<x + n} \<subseteq> {gf g..<ge g}" "{x..<x + n} \<inter> F = {}"
    using assms by (auto simp: held_ok_def run_def)
  then show "0 < n" "{x..<x + n} \<inter> F = {}" by simp_all
  show "gf g \<le> x" "x + n \<le> ge g" using h by (auto simp: atLeastLessThan_subset_iff)
qed

lemma marks_insert: "marks g (insert (x, n) H) = insert (x + n - 1 - gb g) (marks g H)"
  by (simp add: marks_def)

lemma held_ok_insert:
  assumes "held_ok g F H" and "0 < n" and "{x..<x + n} \<subseteq> F"
  shows "held_ok g (F - {x..<x + n}) (insert (x, n) H)"
proof -
  have r: "run (x, n) = {x..<x + n}" by (simp add: run_def)
  have "run h \<inter> run (x, n) = {}" if "h \<in> H" for h
    using assms(1,3) that r by (fastforce simp: held_ok_def)
  then show ?thesis using assms unfolding held_ok_def r [symmetric] by auto
qed

lemma held_ok_remove:
  assumes "held_ok g F H" and "(x, n) \<in> H"
  shows "held_ok g (F \<union> {x..<x + n}) (H - {(x, n)})"
proof -
  have r: "run (x, n) = {x..<x + n}" by (simp add: run_def)
  then show ?thesis using assms unfolding held_ok_def r [symmetric] by blast
qed

lemma marks_remove:
  assumes ok: "held_ok g F H" and g: "geometry_ok g" and h: "(x, n) \<in> H"
  shows "marks g (H - {(x, n)}) = marks g H - {x + n - 1 - gb g}"
proof -
  have "x + n - 1 - gb g \<noteq> y + k - 1 - gb g" if "(y, k) \<in> H" "(y, k) \<noteq> (x, n)" for y k
  proof -
    have "{x..<x + n} \<inter> {y..<y + k} = {}" using ok h that by (fastforce simp: held_ok_def run_def)
    moreover have "x + n - 1 \<in> {x..<x + n}" "y + k - 1 \<in> {y..<y + k}"
      using run_bounds [OF ok h] run_bounds [OF ok that(1)] by auto
    ultimately have "x + n - 1 \<noteq> y + k - 1" by (metis disjoint_iff)
    moreover have "gb g \<le> x + n - 1" "gb g \<le> y + k - 1"
      using run_bounds [OF ok h] run_bounds [OF ok that(1)] g by (auto simp: geometry_ok_def)
    ultimately show ?thesis by linarith
  qed
  then show ?thesis using h by (fastforce simp: marks_def)
qed

lemma first_mark:
  assumes ok: "held_ok g F H" and g: "geometry_ok g" and h: "(x, n) \<in> H" and i: "x \<le> i" "i < x + n - 1"
  shows "i - gb g \<notin> marks g H"
proof
  assume "i - gb g \<in> marks g H"
  then obtain y k where y: "(y, k) \<in> H" "i - gb g = y + k - 1 - gb g" by (auto simp: marks_def)
  have "gb g \<le> x" "gb g \<le> y + k - 1" "0 < k" "0 < n"
    using run_bounds [OF ok h] run_bounds [OF ok y(1)] g by (auto simp: geometry_ok_def)
  then have "i = y + k - 1" using y(2) i by linarith
  then have "i \<in> run (x, n)" "i \<in> run (y, k)" using i \<open>0 < k\<close> by (auto simp: run_def)
  moreover have "(x, n) \<noteq> (y, k)" using i \<open>i = y + k - 1\<close> by auto
  ultimately show False using ok h y(1) by (fastforce simp: held_ok_def)
qed


section \<open>Operations keep the invariant\<close>

lemma frame_page: "x \<in> frames \<Longrightarrow> unat (frame_addr x) div 4096 = x"
  by (simp add: unat_frame_addr)

lemma zero_size_page_not_frame: "x < max_frame \<Longrightarrow> frame_addr x \<noteq> zero_size_page"
  by (simp add: u32_eq_iff_unat unat_frame_addr zero_size_page_def)

lemma pa_rep_update:
  assumes rep: "pa_rep g m pa F H" and k: "k < ge g - gb g"
    and by': "bytes m' = bytes (ba_set m (pa_map pa) (of_nat k) v)"
    and b': "bud_region b' = bud_region (pa_primary pa)" "bud_pool m' b' F'" "held_ok g F' H'"
    and ms: "marks g H' = (if v then insert k (marks g H) else marks g H - {k})"
  shows "pa_rep g m' (pa\<lparr>pa_primary := b'\<rparr>) F' H'
    \<and> (\<forall>q. q \<notin> map_bytes g \<longrightarrow> bytes m' q = bytes m q)"
proof -
  have geo: "geometry_ok g" and data: "ba_data (pa_map pa) = frame_addr (gm g)"
    using rep by (auto simp: pa_rep_def)
  have inj: "(of_nat k :: u32) = of_nat i \<longleftrightarrow> i = k" if "i < ge g - gb g" for i
    using that k geo by (auto simp: u32_eq_iff_unat unat_of_nat_u32 geometry_ok_def)
  have "ba_get m' (pa_map pa) i = ba_get (ba_set m (pa_map pa) (of_nat k) v) (pa_map pa) i" for i
    by (simp only: ba_get_def by')
  then have "pa_rep g m' (pa\<lparr>pa_primary := b'\<rparr>) F' H'"
    using rep b' inj by (auto simp: pa_rep_def ba.get_put ms)
  then show ?thesis
    using ba_set_bytes_other map_byte_in [OF geo data k] by' by metis
qed

lemma last_page_index:
  assumes "geometry_ok g" and "gf g \<le> x" "x + n \<le> ge g" "0 < n"
    and "mr_begin r = frame_addr (gb g)"
  shows "mr_index_of r (frame_addr x) = of_nat (x - gb g)"
    and "of_nat (x - gb g) + of_nat n - 1 = (of_nat (x + n - 1 - gb g) :: u32)"
    and "x + n - 1 - gb g < ge g - gb g"
proof -
  have le: "gb g \<le> x" "x - gb g < 524288" using assms by (auto simp: geometry_ok_def)
  then show "mr_index_of r (frame_addr x) = of_nat (x - gb g)"
    using mr_index_of_frames [of r "gb g" x] assms(5) by simp
  have "x + n - 1 - gb g + 1 = (x - gb g) + n" using le assms(4) by simp
  then have "of_nat (x + n - 1 - gb g) + 1 = (of_nat (x - gb g) + of_nat n :: u32)"
    by (metis of_nat_1 of_nat_add)
  then show "of_nat (x - gb g) + of_nat n - 1 = (of_nat (x + n - 1 - gb g) :: u32)"
    by (simp only: diff_eq_eq)
  show "x + n - 1 - gb g < ge g - gb g" using assms le by (auto simp: geometry_ok_def)
qed

text \<open>
  The outcome of a request: no memory was free in a large enough aligned run, or a run is held
  that was free before.
\<close>

lemma pa_allocate_rep:
  assumes rep: "pa_rep g m pa F H" and n: "pages \<noteq> 0" "unat pages \<le> 2 ^ 31"
  shows "\<exists>m' pa' p. pa_allocate m pa pages = Inr (m', pa', p)
    \<and> (\<forall>q. q \<notin> map_bytes g \<longrightarrow> bytes m' q = bytes m q)
    \<and> (if p = nullptr then pa_rep g m' pa' F H
         \<and> (\<forall>i x. i \<le> 10 \<and> unat pages \<le> 2 ^ i \<and> 2 ^ i dvd x \<longrightarrow> \<not> block i x \<subseteq> F)
       else \<exists>x. p = frame_addr x \<and> {x..<x + unat pages} \<subseteq> F \<and> aligned_for (unat pages) x
         \<and> pa_rep g m' pa' (F - {x..<x + unat pages}) (insert (x, unat pages) H))"
proof -
  let ?n = "unat pages" and ?b = "pa_primary pa" and ?a = "pa_map pa"
  have geo: "geometry_ok g" and pool: "bud_pool m ?b F" and held: "held_ok g F H"
    and reg: "bud_region ?b = \<lparr>mr_begin = frame_addr (gb g), mr_end = frame_addr (ge g)\<rparr>"
    and data: "ba_data ?a = frame_addr (gm g)"
    and bits: "\<And>i. i < ge g - gb g \<Longrightarrow> ba_get m ?a (of_nat i) \<longleftrightarrow> i \<in> marks g H"
    using rep by (auto simp: pa_rep_def)
  obtain m1 b1 blk where get: "bud_get m ?b pages = Inr (m1, b1, blk)" and by1: "bytes m1 = bytes m"
    and reg1: "bud_region b1 = bud_region ?b"
    and res: "if blk_ptr blk = nullptr then bud_pool m1 b1 F
             \<and> (\<forall>i x. i \<le> 10 \<and> ?n \<le> 2 ^ i \<and> 2 ^ i dvd x \<longrightarrow> \<not> block i x \<subseteq> F)
           else \<exists>x. blk = \<lparr>blk_ptr = frame_addr x, blk_size = pages\<rparr> \<and> x \<in> frames
             \<and> {x..<x + ?n} \<subseteq> F \<and> aligned_for ?n x \<and> bud_pool m1 b1 (F - {x..<x + ?n})"
    using bud.pool_get [OF pool n(2)] by blast
  have get1: "ba_get m1 ?a i = ba_get m ?a i" for i by (simp add: ba_get_def by1)
  show ?thesis
  proof (cases "blk_ptr blk = nullptr")
    case True
    then have "pa_allocate m pa pages = Inr (m1, pa\<lparr>pa_primary := b1\<rparr>, nullptr)"
      using get n(1) by (simp add: pa_allocate_def)
    moreover have "pa_rep g m1 (pa\<lparr>pa_primary := b1\<rparr>) F H"
      using rep res True reg1 by (simp add: pa_rep_def get1)
    ultimately show ?thesis using res True by1 by auto
  next
    case False
    then obtain x where blk: "blk = \<lparr>blk_ptr = frame_addr x, blk_size = pages\<rparr>" and x: "x \<in> frames"
      and sub: "{x..<x + ?n} \<subseteq> F" and al: "aligned_for ?n x" and pool1: "bud_pool m1 b1 (F - {x..<x + ?n})"
      using res by auto
    have n0: "0 < ?n" using n(1) by (simp add: unat_gt_0)
    have "{x..<x + ?n} \<subseteq> {gf g..<ge g}" using sub held unfolding held_ok_def by blast
    then have xb: "gf g \<le> x" "x + ?n \<le> ge g" using n0 by (auto simp: atLeastLessThan_subset_iff)
    define k where "k = x + ?n - 1 - gb g"
    let ?m = "ba_set m1 ?a (of_nat k) True"
    note idx = last_page_index [OF geo xb n0, of "bud_region b1", unfolded of_nat_unat_u32, folded k_def]
    have alloc: "pa_allocate m pa pages = Inr (?m, pa\<lparr>pa_primary := b1\<rparr>, frame_addr x)"
      using get n(1) False idx(1,2) reg reg1 by (simp add: pa_allocate_def blk)
    have m: "?m = m1\<lparr>bytes := bytes (ba_set m ?a (of_nat k) True)\<rparr>"
      by (simp add: ba_set_def Let_def by1)
    have "pa_rep g ?m (pa\<lparr>pa_primary := b1\<rparr>) (F - {x..<x + ?n}) (insert (x, ?n) H)
      \<and> (\<forall>q. q \<notin> map_bytes g \<longrightarrow> bytes ?m q = bytes m q)"
    proof (rule pa_rep_update [OF rep, where v = True])
      show "k < ge g - gb g" using idx(3) reg reg1 by simp
      show "bud_pool ?m b1 (F - {x..<x + ?n})" unfolding m using pool1 by (simp only: bud.pool_bytes)
      show "bytes ?m = bytes (ba_set m ?a (of_nat k) True)" unfolding m by simp
      show "marks g (insert (x, ?n) H) = (if True then insert k (marks g H) else marks g H - {k})"
        unfolding marks_insert k_def by simp
    qed (use reg1 held_ok_insert [OF held n0 sub] in simp_all)
    then show ?thesis using alloc sub al frame_addr_null [OF x] by auto
  qed
qed

text \<open>The scan of a release stops at the mark of the run it starts in.\<close>

lemma pa_scan_finds:
  assumes "i \<le> k" and "k < sz" and "sz < 2 ^ 32" and "ba_get m a (of_nat k)"
    and "\<And>j. i \<le> j \<Longrightarrow> j < k \<Longrightarrow> \<not> ba_get m a (of_nat j)"
  shows "pa_scan m a (of_nat sz) (of_nat i) n = (ba_set m a (of_nat k) False, n + of_nat (k + 1 - i))"
  using assms
proof (induction "k - i" arbitrary: i n)
  case 0
  then have "(of_nat k :: u32) \<noteq> of_nat sz" by (simp add: u32_eq_iff_unat unat_of_nat_u32)
  then show ?case using 0 by (subst pa_scan.simps) simp
next
  case (Suc d)
  then have ne: "(of_nat i :: u32) \<noteq> of_nat sz" by (simp add: u32_eq_iff_unat unat_of_nat_u32)
  have "pa_scan m a (of_nat sz) (of_nat (i + 1)) (n + 1) = (ba_set m a (of_nat k) False, n + 1 + of_nat (k + 1 - (i + 1)))"
    using Suc.hyps(2) Suc.prems by (intro Suc.hyps(1)) auto
  moreover have "n + 1 + of_nat (k + 1 - (i + 1)) = n + (of_nat (k + 1 - i) :: u32)"
  proof -
    have "k + 1 - i = Suc (k + 1 - (i + 1))" using Suc.hyps(2) by simp
    then show ?thesis by (simp only: of_nat_Suc add.assoc)
  qed
  moreover have "\<not> ba_get m a (of_nat i)" using Suc.hyps(2) Suc.prems(5) [of i] by simp
  ultimately show ?case using ne by (subst pa_scan.simps) (simp add: algebra_simps)
qed

lemma pa_deallocate_rep:
  assumes rep: "pa_rep g m pa F H" and h: "(x, n) \<in> H"
  shows "\<exists>m' pa'. pa_deallocate m pa (frame_addr x) = Inr (m', pa')
    \<and> pa_rep g m' pa' (F \<union> {x..<x + n}) (H - {(x, n)})
    \<and> (\<forall>q. q \<notin> map_bytes g \<longrightarrow> bytes m' q = bytes m q)
    \<and> (\<forall>q. q \<notin> frame_addr ` (F \<union> {x..<x + n}) \<longrightarrow> nexts m' q = nexts m q)"
proof -
  let ?b = "pa_primary pa" and ?a = "pa_map pa"
  have geo: "geometry_ok g" and pool: "bud_pool m ?b F" and held: "held_ok g F H"
    and reg: "bud_region ?b = \<lparr>mr_begin = frame_addr (gb g), mr_end = frame_addr (ge g)\<rparr>"
    and bits: "\<And>i. i < ge g - gb g \<Longrightarrow> ba_get m ?a (of_nat i) \<longleftrightarrow> i \<in> marks g H"
    using rep by (auto simp: pa_rep_def)
  note xb = run_bounds [OF held h]
  have x: "x \<in> frames" and xg: "gb g \<le> x" and sz: "ge g - gb g < 524288" "x < max_frame"
    using xb geo by (auto simp: geometry_ok_def)
  define k where "k = x + n - 1 - gb g"
  let ?m = "ba_set m ?a (of_nat k) False"
  have "mr_begin (bud_region ?b) = frame_addr (gb g)" using reg by simp
  note idx = last_page_index [OF geo xb(2,3,1) this, folded k_def]
  have size: "mr_size (bud_region ?b) = of_nat (ge g - gb g)"
    using mr_size_frames [of "bud_region ?b" "gb g" "ge g"] reg sz xg xb by simp
  have "pa_scan m ?a (of_nat (ge g - gb g)) (of_nat (x - gb g)) 0 = (?m, 0 + of_nat (k + 1 - (x - gb g)))"
  proof (rule pa_scan_finds)
    show "ba_get m ?a (of_nat k)" using bits [OF idx(3)] h by (force simp: marks_def k_def)
    show "\<not> ba_get m ?a (of_nat j)" if "x - gb g \<le> j" "j < k" for j
      using first_mark [OF held geo h, of "j + gb g"] bits [of j] that idx(3) by (simp add: k_def)
  qed (use idx(3) sz xg xb in \<open>auto simp: k_def\<close>)
  moreover have "k + 1 - (x - gb g) = n" using xg xb(1) by (simp add: k_def)
  ultimately have scan: "pa_scan m ?a (mr_size (bud_region ?b)) (mr_index_of (bud_region ?b) (frame_addr x)) 0 = (?m, of_nat n)"
    by (simp only: idx(1) size add_0)
  have "bud_pool ?m ?b F"
    using pool bud.pool_bytes [of "bytes ?m" m] by (simp add: ba_set_def Let_def)
  moreover have "x + n \<le> max_frame" "0 < x" using xb geo x by (auto simp: geometry_ok_def)
  ultimately obtain m' b' where put: "bud_put ?m ?b \<lparr>blk_ptr = frame_addr x, blk_size = of_nat n\<rparr> = Inr (m', b')"
    and b': "bud_pool m' b' (F \<union> {x..<x + n})" "bytes m' = bytes ?m" "bud_region b' = bud_region ?b"
    and nx: "same_outside (F \<union> {x..<x + n}) ?m m'"
    using bud.pool_put [of ?m ?b F x n] xb(4) by auto
  have "pa_deallocate m pa (frame_addr x) = Inr (m', pa\<lparr>pa_primary := b'\<rparr>)"
    using scan put frame_addr_null [OF x] zero_size_page_not_frame [OF sz(2)] by (simp add: pa_deallocate_def)
  moreover have "\<forall>q. q \<notin> frame_addr ` (F \<union> {x..<x + n}) \<longrightarrow> nexts m' q = nexts m q"
    using nx by (simp add: same_outside_def ba_set_def Let_def)
  ultimately show ?thesis
    using pa_rep_update [OF rep idx(3), of m' False b' "F \<union> {x..<x + n}" "H - {(x, n)}"]
      held_ok_remove [OF held h] b' marks_remove [OF held geo h, folded k_def] by (auto simp: reg)
qed


lemma pa_initialize_rep:
  assumes pool: "bud_pool m b {}" and geo: "geometry_ok g"
    and reg: "bud_region b = \<lparr>mr_begin = frame_addr (gb g), mr_end = frame_addr (ge g)\<rparr>"
    and first: "gf g = gm g + ((ge g - gb g + 7) div 8 + 4095) div 4096"
  shows "\<exists>m' pa. pa_initialize m b (frame_addr (gm g)) = Inr (m', pa) \<and> pa_rep g m' pa {gf g..<ge g} {}"
proof -
  let ?n = "ge g - gb g"
  have n: "?n < 524288" "gb g \<le> ge g" "gf g \<le> ge g" "ge g - gf g < 524288" "0 < gf g" "ge g < max_frame"
    using geo by (auto simp: geometry_ok_def)
  have size: "mr_size (bud_region b) = of_nat ?n"
    using mr_size_frames [of "bud_region b" "gb g" "ge g"] reg n by simp
  have un: "unat (of_nat ?n :: u32) = ?n" using n(1) by (simp add: unat_of_nat_u32)
  have exp: "unat (ba_expected_size (of_nat ?n)) = (?n + 7) div 8"
    by (simp only: unat_ba_expected_size un)
  have "(?n + 7) div 8 + 2 ^ 12 \<le> 4294967296" using n(1) by simp
  then have "unat (align_up (2 ^ 12) (ba_expected_size (of_nat ?n)) div 2 ^ 12) = ((?n + 7) div 8 + 2 ^ 12 - 1) div 2 ^ 12"
    using unat_align_up_div [of 12 "ba_expected_size (of_nat ?n)"] unfolding exp by simp
  also have "\<dots> = gf g - gm g" using first by simp
  finally have "align_up PAGE_SIZE (ba_expected_size (of_nat ?n)) div PAGE_SIZE = of_nat (gf g - gm g)"
    unfolding PAGE_SIZE_pow2 by (metis of_nat_unat_u32)
  moreover have "gm g + (gf g - gm g) = gf g" using first by simp
  ultimately have start: "frame_addr (gm g) + PAGE_SIZE * (align_up PAGE_SIZE (ba_expected_size (mr_size (bud_region b))) div PAGE_SIZE)
      = frame_addr (gf g)"
    by (simp only: frame_addr_add size)
  have len: "frame_diff (mr_end (bud_region b)) (frame_addr (gf g)) = of_nat (ge g - gf g)"
    using frame_diff_frames [OF n(3,4)] reg by simp
  obtain m1 b1 where put: "bud_put m b \<lparr>blk_ptr = frame_addr (gf g), blk_size = of_nat (ge g - gf g)\<rparr> = Inr (m1, b1)"
    and b1: "bud_pool m1 b1 {gf g..<ge g}" "bud_region b1 = bud_region b"
    using bud.pool_put [OF pool, of "gf g" "ge g - gf g"] n by auto
  obtain m2 a where ini: "ba_initialize m1 (frame_addr (gm g)) (of_nat ?n) = (m2, a)" by fastforce
  have a: "a = \<lparr>ba_size = of_nat ?n, ba_data = frame_addr (gm g)\<rparr>" and m2: "m2 = m1\<lparr>bytes := bytes m2\<rparr>"
    using ini by (auto simp: ba_initialize_def Let_def)
  have "\<not> ba_get m2 a (of_nat i)" if "i < ?n" for i
    using ba_get_initialize [of "of_nat ?n" "of_nat i" m1 "frame_addr (gm g)"] that n(1) un ini
    by (simp add: a word_less_nat_alt unat_of_nat_u32)
  moreover have "bud_pool m2 b1 {gf g..<ge g}" using b1(1) m2 bud.pool_bytes by metis
  ultimately have "pa_rep g m2 \<lparr>pa_primary = b1, pa_map = a\<rparr> {gf g..<ge g} {}"
    using geo b1(2) reg by (simp add: pa_rep_def a held_ok_def marks_def)
  then show ?thesis
    using put ini start len size by (auto simp: pa_initialize_def Let_def)
qed

section \<open>What is left alone and what is chosen\<close>

lemma pa_allocate_nexts:
  assumes "pa_rep g m pa F H" "unat pages \<le> 2 ^ 31" "pa_allocate m pa pages = Inr (m', pa', p)" "q \<notin> frame_addr ` F"
  shows "nexts m' q = nexts m q"
proof (cases "pages = 0")
  case False
  have "bud_pool m (pa_primary pa) F" using assms(1) by (simp add: pa_rep_def)
  then obtain m1 b1 blk where "bud_get m (pa_primary pa) pages = Inr (m1, b1, blk)" "same_outside F m m1"
    using bud.pool_get [OF _ assms(2)] by blast
  then show ?thesis using assms(3,4) False
    by (auto simp: pa_allocate_def same_outside_def ba_set_def Let_def split: if_splits)
qed (use assms(3) in \<open>simp add: pa_allocate_def\<close>)

lemma pa_allocate_choice:
  assumes "pa_rep g m pa F H" "pages \<noteq> 0" "unat pages \<le> 2 ^ 31" "pa_allocate m pa pages = Inr (m', pa', p)"
  shows "p = ptr_of (first_fit F (unat pages))"
proof -
  have pool: "bud_pool m (pa_primary pa) F" using assms(1) by (simp add: pa_rep_def)
  obtain m2 b2 blk where g: "bud_get m (pa_primary pa) pages = Inr (m2, b2, blk)" using bud.pool_get [OF pool assms(3)] by blast
  have "p = blk_ptr blk" using assms(2,4) g by (auto simp: pa_allocate_def Let_def split: if_splits)
  then show ?thesis using bud.pool_choice [OF pool assms(3) g] by (simp add: blk_of_def split: option.splits)
qed

lemma pa_rep_same:
  assumes "pa_rep g m pa F H" "same_outside T m m'" "T \<subseteq> frames" "T \<inter> F = {}"
  shows "pa_rep g m' pa F H"
  using assms bud.pool_same [OF _ assms(2-4)] by (auto simp: pa_rep_def ba_get_def same_outside_def)

text \<open>The two kinds of content of the page frames of a held run.\<close>

definition run_kept :: "nat \<times> nat \<Rightarrow> store \<Rightarrow> store \<Rightarrow> bool" where
  "run_kept h m m' \<longleftrightarrow> (\<forall>x\<in>run h. nexts m' (frame_addr x) = nexts m (frame_addr x)
     \<and> (\<forall>p. unat p div 4096 = x \<longrightarrow> bytes m' p = bytes m p))"

lemma run_keptI:
  assumes "geometry_ok g" "run h \<subseteq> {gf g..<ge g}" "run h \<inter> F = {}" "F \<subseteq> frames"
    "\<And>q. q \<notin> map_bytes g \<Longrightarrow> bytes m' q = bytes m q" "\<And>q. q \<notin> frame_addr ` F \<Longrightarrow> nexts m' q = nexts m q"
  shows "run_kept h m m'"
proof -
  have "bytes m' p = bytes m p" if "unat p div 4096 \<in> run h" for p
  proof (rule assms(5))
    have "gf g \<le> unat p div 4096" using assms(2) that by auto
    then show "p \<notin> map_bytes g" by (auto simp: map_bytes_def less_mult_imp_div_less not_le dest: leD)
  qed
  moreover have "nexts m' (frame_addr x) = nexts m (frame_addr x)" if x: "x \<in> run h" for x
  proof (rule assms(6))
    have "x \<in> {gf g..<ge g}" using assms(2) x by blast
    then have u: "unat (frame_addr x) = x * 4096" using assms(1) by (simp add: geometry_ok_def unat_frame_addr)
    have "frame_addr x \<noteq> frame_addr y" if y: "y \<in> F" for y
    proof
      assume "frame_addr x = frame_addr y"
      moreover have "y < max_frame" using assms(4) y by auto
      then have "unat (frame_addr y) = y * 4096" by (rule unat_frame_addr)
      ultimately have "y = x" using u by simp
      then show False using assms(3) x y by blast
    qed
    then show "frame_addr x \<notin> frame_addr ` F" by auto
  qed
  ultimately show ?thesis by (auto simp: run_kept_def)
qed

section \<open>Sequences of requests\<close>

text \<open>
  The states that the allocator passes through from a given start under requests and releases of
  runs that are held, with the runs that its clients hold.
\<close>

inductive pa_reach ::
  "store \<Rightarrow> page_allocator \<Rightarrow> store \<Rightarrow> page_allocator \<Rightarrow> (nat \<times> nat) set \<Rightarrow> bool"
  for m0 pa0 where
  start: "pa_reach m0 pa0 m0 pa0 {}"
| alloc: "pa_reach m0 pa0 m pa H \<Longrightarrow> 0 < pages \<Longrightarrow> unat pages \<le> 2 ^ 31
    \<Longrightarrow> pa_allocate m pa pages = Inr (m', pa', p) \<Longrightarrow> p \<noteq> nullptr
    \<Longrightarrow> pa_reach m0 pa0 m' pa' (insert (unat p div 4096, unat pages) H)"
| no_memory: "pa_reach m0 pa0 m pa H \<Longrightarrow> 0 < pages \<Longrightarrow> unat pages \<le> 2 ^ 31
    \<Longrightarrow> pa_allocate m pa pages = Inr (m', pa', nullptr) \<Longrightarrow> pa_reach m0 pa0 m' pa' H"
| free: "pa_reach m0 pa0 m pa H \<Longrightarrow> (x, n) \<in> H
    \<Longrightarrow> pa_deallocate m pa (frame_addr x) = Inr (m', pa') \<Longrightarrow> pa_reach m0 pa0 m' pa' (H - {(x, n)})"

text \<open>Free pages and held runs always partition the managed pages.\<close>

lemma pa_reach_partition:
  assumes "pa_reach m0 pa0 m pa H" and "pa_rep g m0 pa0 {gf g..<ge g} {}"
  shows "\<exists>F. pa_rep g m pa F H \<and> F \<union> (\<Union>h\<in>H. run h) = {gf g..<ge g}"
  using assms
proof (induction rule: pa_reach.induct)
  case start
  then show ?case by auto
next
  case (alloc m pa H pages m' pa' p)
  then obtain F where F: "pa_rep g m pa F H" "F \<union> (\<Union>h\<in>H. run h) = {gf g..<ge g}" by blast
  have fr: "F \<subseteq> frames" using F(1) bud_pool_frames by (auto simp: pa_rep_def)
  obtain x where x: "p = frame_addr x" "{x..<x + unat pages} \<subseteq> F"
    "pa_rep g m' pa' (F - {x..<x + unat pages}) (insert (x, unat pages) H)"
    using pa_allocate_rep [OF F(1) _ alloc.hyps(3)] alloc.hyps(2,4,5) by auto
  have "x \<in> {x..<x + unat pages}" using alloc.hyps(2) by (simp add: word_less_nat_alt)
  then have "unat p div 4096 = x" using x(1,2) fr frame_page [of x] by blast
  moreover have "(F - run (x, unat pages)) \<union> (\<Union>h\<in>insert (x, unat pages) H. run h) = {gf g..<ge g}"
    using F(2) x(2) by (auto simp: run_def)
  ultimately show ?case using x(3) by (auto simp: run_def)
next
  case (no_memory m pa H pages m' pa')
  then obtain F where F: "pa_rep g m pa F H" "F \<union> (\<Union>h\<in>H. run h) = {gf g..<ge g}" by blast
  then have "pa_rep g m' pa' F H"
    using pa_allocate_rep [OF F(1) _ no_memory.hyps(3)] no_memory.hyps(2,4) by auto
  then show ?case using F(2) by blast
next
  case (free m pa H x n m' pa')
  then obtain F where F: "pa_rep g m pa F H" "F \<union> (\<Union>h\<in>H. run h) = {gf g..<ge g}" by blast
  have "pa_rep g m' pa' (F \<union> run (x, n)) (H - {(x, n)})"
    using pa_deallocate_rep [OF F(1) free.hyps(2)] free.hyps(3) by (simp add: run_def)
  moreover have "(F \<union> run (x, n)) \<union> (\<Union>h\<in>H - {(x, n)}. run h) = {gf g..<ge g}"
    using F(2) free.hyps(2) by auto
  ultimately show ?case by blast
qed

text \<open>A region of 15 MiB whose allocator starts at frame 300.\<close>

lemma pa_example:
  "\<exists>m pa. pa_initialize store_zero (bud_fresh \<lparr>mr_begin = frame_addr 256, mr_end = frame_addr 4096\<rparr>) (frame_addr 300)
      = Inr (m, pa) \<and> pa_rep \<lparr>gb = 256, ge = 4096, gm = 300, gf = 301\<rparr> m pa {301..<4096} {}"
proof -
  let ?r = "\<lparr>mr_begin = frame_addr 256, mr_end = frame_addr 4096\<rparr>"
    and ?g = "\<lparr>gb = 256, ge = 4096, gm = 300, gf = 301\<rparr>"
  have "geometry_ok ?g" by (simp add: geometry_ok_def)
  moreover have "bud_region (bud_fresh ?r) = \<lparr>mr_begin = frame_addr (gb ?g), mr_end = frame_addr (ge ?g)\<rparr>"
    by (simp add: bud_fresh_def)
  ultimately show ?thesis
    using pa_initialize_rep [OF bud_fresh_pool [of store_zero ?r], of ?g] by simp
qed

section \<open>Properties\<close>

text \<open>
  C7: a page allocator that was initialised on an empty buddy system serves any sequence of
  requests and releases of held runs. In every state it reaches, free pages and held runs
  partition the managed pages, held runs never overlap each other, and the next request, of at
  most \<^verbatim>\<open>2 ^ 31\<close> pages, and the release of any held run return.
\<close>

theorem page_allocator_partition:
  assumes "bud_pool m b {}" and "geometry_ok g"
    and "bud_region b = \<lparr>mr_begin = frame_addr (gb g), mr_end = frame_addr (ge g)\<rparr>"
    and "gf g = gm g + ((ge g - gb g + 7) div 8 + 4095) div 4096"
    and "pa_initialize m b (frame_addr (gm g)) = Inr (m0, pa0)" and "pa_reach m0 pa0 m1 pa1 H"
  shows "(\<exists>F. bud_pool m1 (pa_primary pa1) F \<and> F \<union> (\<Union>h\<in>H. run h) = {gf g..<ge g} \<and> F \<inter> (\<Union>h\<in>H. run h) = {})
    \<and> (\<forall>h\<in>H. \<forall>k\<in>H. h \<noteq> k \<longrightarrow> run h \<inter> run k = {})
    \<and> (\<forall>pages. unat pages \<le> 2 ^ 31 \<longrightarrow> (\<exists>r. pa_allocate m1 pa1 pages = Inr r))
    \<and> (\<forall>(x, n)\<in>H. \<exists>r. pa_deallocate m1 pa1 (frame_addr x) = Inr r)"
proof -
  have "pa_rep g m0 pa0 {gf g..<ge g} {}"
    using pa_initialize_rep [OF assms(1-4)] assms(5) by auto
  then obtain F where F: "pa_rep g m1 pa1 F H" "F \<union> (\<Union>h\<in>H. run h) = {gf g..<ge g}"
    using pa_reach_partition [OF assms(6)] by blast
  then have "held_ok g F H" by (simp add: pa_rep_def)
  then have "F \<inter> (\<Union>h\<in>H. run h) = {}" "\<forall>h\<in>H. \<forall>k\<in>H. h \<noteq> k \<longrightarrow> run h \<inter> run k = {}"
    unfolding held_ok_def by blast+
  moreover have "\<exists>r. pa_allocate m1 pa1 pages = Inr r" if "unat pages \<le> 2 ^ 31" for pages
    using pa_allocate_rep [OF F(1) _ that] by (cases "pages = 0") (auto simp: pa_allocate_def)
  moreover have "\<exists>r. pa_deallocate m1 pa1 (frame_addr x) = Inr r" if "(x, n) \<in> H" for x n
    using pa_deallocate_rep [OF F(1) that] by blast
  moreover have "bud_pool m1 (pa_primary pa1) F" using F(1) by (simp add: pa_rep_def)
  ultimately show ?thesis using F(2) by auto
qed

theorem page_allocator_partition_witness:
  "\<exists>m0 pa0 r. pa_initialize store_zero (bud_fresh \<lparr>mr_begin = frame_addr 256, mr_end = frame_addr 4096\<rparr>) (frame_addr 300)
      = Inr (m0, pa0) \<and> bud_pool m0 (pa_primary pa0) {301..<4096} \<and> pa_allocate m0 pa0 3 = Inr r"
proof -
  let ?b = "bud_fresh \<lparr>mr_begin = frame_addr 256, mr_end = frame_addr 4096\<rparr>"
    and ?g = "\<lparr>gb = 256, ge = 4096, gm = 300, gf = 301\<rparr>"
  have pool: "bud_pool store_zero ?b {}" by (rule bud_fresh_pool)
  have geo: "geometry_ok ?g" by (simp add: geometry_ok_def)
  have reg: "bud_region ?b = \<lparr>mr_begin = frame_addr (gb ?g), mr_end = frame_addr (ge ?g)\<rparr>"
    by (simp add: bud_fresh_def)
  have gf: "gf ?g = gm ?g + ((ge ?g - gb ?g + 7) div 8 + 4095) div 4096" by simp
  obtain m0 pa0 where ini: "pa_initialize store_zero ?b (frame_addr (gm ?g)) = Inr (m0, pa0)"
    using pa_initialize_rep [OF pool geo reg gf] by blast
  from page_allocator_partition [OF pool geo reg gf ini pa_reach.start] ini show ?thesis
    by (auto dest!: spec [of _ "3 :: u32"])
qed

text \<open>
  C20: the page allocator leaves the memory of its clients alone. It keeps its lists in the free pages themselves and its marks
  in the map, so that neither a request nor a release changes a byte or a link of a run that a client
  holds and does not release.
\<close>

theorem held_runs_untouched:
  assumes "pa_rep g m pa F H" and "h \<in> H"
  shows "(unat pages \<le> 2 ^ 31 \<longrightarrow> (\<exists>m' pa' p. pa_allocate m pa pages = Inr (m', pa', p) \<and> run_kept h m m'))
    \<and> ((x, n) \<in> H - {h} \<longrightarrow> (\<exists>m' pa'. pa_deallocate m pa (frame_addr x) = Inr (m', pa') \<and> run_kept h m m'))"
proof (intro conjI impI)
  have geo: "geometry_ok g" and held: "held_ok g F H" and fr: "F \<subseteq> frames"
    using assms(1) bud_pool_frames by (auto simp: pa_rep_def)
  have h: "run h \<subseteq> {gf g..<ge g}" "run h \<inter> F = {}" using held assms(2) by (auto simp: held_ok_def)
  show "\<exists>m' pa' p. pa_allocate m pa pages = Inr (m', pa', p) \<and> run_kept h m m'" if n: "unat pages \<le> 2 ^ 31"
  proof (cases "pages = 0")
    case False
    then obtain m' pa' p where a: "pa_allocate m pa pages = Inr (m', pa', p)" "\<And>q. q \<notin> map_bytes g \<Longrightarrow> bytes m' q = bytes m q"
      using pa_allocate_rep [OF assms(1) _ n] by blast
    have "run_kept h m m'"
      by (rule run_keptI [OF geo h fr a(2)]) (use pa_allocate_nexts [OF assms(1) n a(1)] in simp_all)
    then show ?thesis using a(1) by blast
  qed (simp add: pa_allocate_def run_kept_def)
  show "\<exists>m' pa'. pa_deallocate m pa (frame_addr x) = Inr (m', pa') \<and> run_kept h m m'" if x: "(x, n) \<in> H - {h}"
  proof -
    have xH: "(x, n) \<in> H" using x by blast
    obtain m' pa' where d: "pa_deallocate m pa (frame_addr x) = Inr (m', pa')" "\<And>q. q \<notin> map_bytes g \<Longrightarrow> bytes m' q = bytes m q"
      "\<And>q. q \<notin> frame_addr ` (F \<union> {x..<x + n}) \<Longrightarrow> nexts m' q = nexts m q"
      using pa_deallocate_rep [OF assms(1) xH] by blast
    have r: "run (x, n) = {x..<x + n}" by (simp add: run_def)
    have "run h \<inter> run (x, n) = {}" using held assms(2) x unfolding held_ok_def by blast
    then have i: "run h \<inter> (F \<union> {x..<x + n}) = {}" using h(2) r by blast
    have "F \<union> {x..<x + n} \<subseteq> frames" using fr run_bounds [OF held xH] geo by (auto simp: geometry_ok_def)
    then have "run_kept h m m'" by (rule run_keptI [OF geo h(1) i _ d(2,3)])
    then show ?thesis using d(1) by blast
  qed
qed

theorem held_runs_untouched_witness:
  "\<exists>m0 pa0 m1 pa1 x m2 pa2 p. pa_initialize store_zero (bud_fresh \<lparr>mr_begin = frame_addr 256, mr_end = frame_addr 4096\<rparr>) (frame_addr 300)
      = Inr (m0, pa0) \<and> pa_allocate m0 pa0 3 = Inr (m1, pa1, frame_addr x) \<and> {x..<x + 3} \<subseteq> {301..<4096}
    \<and> pa_allocate m1 pa1 5 = Inr (m2, pa2, p) \<and> run_kept (x, 3) m1 m2"
proof -
  let ?g = "\<lparr>gb = 256, ge = 4096, gm = 300, gf = 301\<rparr>"
  obtain m0 pa0 where ini: "pa_initialize store_zero (bud_fresh \<lparr>mr_begin = frame_addr 256, mr_end = frame_addr 4096\<rparr>) (frame_addr 300) = Inr (m0, pa0)"
    and rep: "pa_rep ?g m0 pa0 {301..<4096} {}" using pa_example by blast
  have "block 2 304 \<subseteq> {301..<4096}" "3 \<le> (2::nat) ^ 2" "(2::nat) ^ 2 dvd 304" by (auto simp: block_def)
  then obtain m1 pa1 x where a: "pa_allocate m0 pa0 3 = Inr (m1, pa1, frame_addr x)" "{x..<x + 3} \<subseteq> {301..<4096}"
    "pa_rep ?g m1 pa1 ({301..<4096} - {x..<x + 3}) {(x, 3)}"
    using pa_allocate_rep [OF rep, of 3] by (auto split: if_splits)
  show ?thesis using held_runs_untouched [OF a(3), of "(x, 3)" 5] ini a by fastforce
qed

end
