(* ===== verification/Slab_Allocator.thy ===== *)
theory Slab_Allocator
  imports Page_Allocator
begin

text \<open>
  \<^verbatim>\<open>memory/slab.cpp\<close> and \<^verbatim>\<open>bolgenos-ng/slab.hpp\<close>: an area of equal elements taken from the page
  allocator. The bits that say which elements are free stand at the start of the area, the
  elements follow them. \<open>slab_rep\<close> relates the bits to the set of elements in use.
\<close>

section \<open>Definitions\<close>

record slab =
  sl_elem_size :: u32
  sl_nelems :: u32
  sl_memory :: ptr
  sl_area :: ptr
  sl_map :: bit_array
  sl_initialized :: bool

definition slab_default :: slab where
  "slab_default = \<lparr>sl_elem_size = 0, sl_nelems = 0, sl_memory = nullptr, sl_area = nullptr,
     sl_map = \<lparr>ba_size = 0, ba_data = nullptr\<rparr>, sl_initialized = False\<rparr>"

definition slab_is_free :: "store \<Rightarrow> slab \<Rightarrow> u32 \<Rightarrow> bool" where
  "slab_is_free m sl index = ba_get m (sl_map sl) index"

definition slab_set_free :: "store \<Rightarrow> slab \<Rightarrow> u32 \<Rightarrow> bool \<Rightarrow> store" where
  "slab_set_free m sl index status = ba_set m (sl_map sl) index status"

definition slab_initialize ::
  "store \<Rightarrow> page_allocator \<Rightarrow> slab \<Rightarrow> u32 \<Rightarrow> u32 \<Rightarrow> (store \<times> page_allocator \<times> slab \<times> bool) result" where
  "slab_initialize m pa sl0 elem_size nelems =
     (let sl = sl0\<lparr>sl_elem_size := elem_size, sl_nelems := nelems\<rparr>;
          required_memory = elem_size * nelems + ba_expected_size nelems;
          required_pages = align_up PAGE_SIZE required_memory div PAGE_SIZE
      in bindE (pa_allocate m pa required_pages) (\<lambda>(m1, pa1, area).
        if area = nullptr then Inr (m1, pa1, sl\<lparr>sl_area := area, sl_initialized := False\<rparr>, False)
        else let (m2, map) = ba_initialize m1 area nelems;
                 sl2 = sl\<lparr>sl_area := area, sl_map := map, sl_memory := area + ba_expected_size nelems\<rparr>;
                 m3 = fold (\<lambda>elem m. slab_set_free m sl2 (of_nat elem) True) [0..<unat nelems] m2
        in Inr (m3, pa1, sl2\<lparr>sl_initialized := True\<rparr>, True)))"

definition slab_construct ::
  "store \<Rightarrow> page_allocator \<Rightarrow> u32 \<Rightarrow> u32 \<Rightarrow> (store \<times> page_allocator \<times> slab) result" where
  "slab_construct m pa elem_size nelems =
     bindE (slab_initialize m pa slab_default elem_size nelems) (\<lambda>(m', pa', sl, _). Inr (m', pa', sl))"

definition slab_destroy ::
  "store \<Rightarrow> page_allocator \<Rightarrow> slab \<Rightarrow> (store \<times> page_allocator \<times> slab) result" where
  "slab_destroy m pa sl =
     bindE (pa_deallocate m pa (sl_area sl)) (\<lambda>(m', pa'). Inr (m', pa', sl\<lparr>sl_memory := nullptr\<rparr>))"

function slab_allocate_from :: "store \<Rightarrow> slab \<Rightarrow> u32 \<Rightarrow> store \<times> ptr" where
  "slab_allocate_from m sl chunk =
     (if chunk = sl_nelems sl then (m, nullptr)
      else if slab_is_free m sl chunk
      then (slab_set_free m sl chunk False, sl_memory sl + chunk * sl_elem_size sl)
      else slab_allocate_from m sl (chunk + 1))"
  by pat_completeness auto
termination
  by (relation "measure (\<lambda>(m, sl, chunk). unat (sl_nelems sl - chunk))") (auto intro: word_count_up)

declare slab_allocate_from.simps [simp del]

definition slab_allocate :: "store \<Rightarrow> slab \<Rightarrow> store \<times> ptr" where
  "slab_allocate m sl = slab_allocate_from m sl 0"

definition slab_owns :: "slab \<Rightarrow> ptr \<Rightarrow> bool result" where
  "slab_owns sl memory =
     (if sl_memory sl = nullptr then Inl (Panic ''assertion failed'')
      else let high_limit = sl_memory sl + sl_nelems sl * sl_elem_size sl
      in Inr (sl_memory sl \<le> memory \<and> memory < high_limit))"

definition slab_is_initialized :: "slab \<Rightarrow> bool" where
  "slab_is_initialized sl = sl_initialized sl"

definition slab_deallocate :: "store \<Rightarrow> slab \<Rightarrow> ptr \<Rightarrow> store result" where
  "slab_deallocate m sl addr =
     (if addr = nullptr then Inr m
      else bindE (slab_owns sl addr) (\<lambda>owned.
        if \<not> owned then Inl (Panic ''Critical error'')
        else let chunk = (addr - sl_memory sl) div sl_elem_size sl
        in Inr (slab_set_free m sl chunk True)))"

section \<open>Elements\<close>

text \<open>The bytes of the bit map and of each element, as numbers.\<close>

definition slab_map_bytes :: "slab \<Rightarrow> nat set" where
  "slab_map_bytes sl = {unat (sl_area sl)..<unat (sl_area sl) + (unat (sl_nelems sl) + 7) div 8}"

definition slab_elem :: "slab \<Rightarrow> nat \<Rightarrow> nat set" where
  "slab_elem sl i = {unat (sl_memory sl) + i * unat (sl_elem_size sl)..<
     unat (sl_memory sl) + (i + 1) * unat (sl_elem_size sl)}"

definition slab_ptr :: "slab \<Rightarrow> nat \<Rightarrow> ptr" where
  "slab_ptr sl i = sl_memory sl + of_nat i * sl_elem_size sl"

definition slab_shape :: "slab \<Rightarrow> bool" where
  "slab_shape sl \<longleftrightarrow> sl_area sl \<noteq> nullptr \<and> 0 < sl_elem_size sl \<and> 0 < sl_nelems sl \<and> ba_data (sl_map sl) = sl_area sl
     \<and> sl_memory sl = sl_area sl + ba_expected_size (sl_nelems sl)
     \<and> unat (sl_area sl) + (unat (sl_nelems sl) + 7) div 8
         + unat (sl_nelems sl) * unat (sl_elem_size sl) < 4294967296"

definition slab_rep :: "store \<Rightarrow> slab \<Rightarrow> nat set \<Rightarrow> bool" where
  "slab_rep m sl S \<longleftrightarrow> slab_shape sl \<and> S \<subseteq> {..<unat (sl_nelems sl)}
     \<and> (\<forall>i < unat (sl_nelems sl). slab_is_free m sl (of_nat i) \<longleftrightarrow> i \<notin> S)"

lemma slab_memory_nat:
  assumes "slab_shape sl"
  shows "unat (sl_memory sl) = unat (sl_area sl) + (unat (sl_nelems sl) + 7) div 8"
  using assms by (simp add: slab_shape_def unat_add_u32 unat_ba_expected_size)

lemma slab_ptr_nat:
  assumes "slab_shape sl" and "i < unat (sl_nelems sl)"
  shows "unat (slab_ptr sl i) = unat (sl_memory sl) + i * unat (sl_elem_size sl)"
proof -
  have "i * unat (sl_elem_size sl) \<le> unat (sl_nelems sl) * unat (sl_elem_size sl)"
    using assms(2) by (intro mult_right_mono) simp_all
  then have "unat (sl_memory sl) + i * unat (sl_elem_size sl) < 4294967296"
    using assms(1) unfolding slab_memory_nat [OF assms(1)] slab_shape_def by linarith
  moreover note less_unat_u32 [OF assms(2)]
  ultimately show ?thesis
    by (simp add: slab_ptr_def unat_add_u32 unat_mult_u32 unat_of_nat_u32)
qed

lemma slab_ptr_not_null: "slab_shape sl \<Longrightarrow> i < unat (sl_nelems sl) \<Longrightarrow> slab_ptr sl i \<noteq> nullptr"
  using slab_ptr_nat [of sl i] slab_memory_nat [of sl]
  by (auto simp: slab_shape_def u32_eq_iff_unat)

lemma slab_elem_start:
  assumes "slab_shape sl" and "i < unat (sl_nelems sl)"
  shows "slab_elem sl i = {unat (slab_ptr sl i)..<unat (slab_ptr sl i) + unat (sl_elem_size sl)}"
  using slab_ptr_nat [OF assms] by (simp add: slab_elem_def algebra_simps)

lemma slab_elems_disjoint: "i \<noteq> j \<Longrightarrow> slab_elem sl i \<inter> slab_elem sl j = {}"
proof (induction i j rule: linorder_wlog)
  case (le i j)
  then have "(i + 1) * unat (sl_elem_size sl) \<le> j * unat (sl_elem_size sl)" by (intro mult_right_mono) auto
  then show ?case by (auto simp: slab_elem_def)
qed auto

lemma slab_elem_not_map: "slab_shape sl \<Longrightarrow> slab_elem sl i \<inter> slab_map_bytes sl = {}"
  using slab_memory_nat [of sl] by (auto simp: slab_elem_def slab_map_bytes_def)

lemma slab_bit_byte:
  assumes "slab_shape sl" and "i < unat (sl_nelems sl)"
  shows "unat (ba_byte (sl_map sl) (of_nat i)) \<in> slab_map_bytes sl"
proof -
  note i = less_unat_u32 [OF assms(2)]
  have "i div 8 < (unat (sl_nelems sl) + 7) div 8" using assms(2) by linarith
  moreover from this have "unat (sl_area sl) + i div 8 < 4294967296"
    using assms(1) by (simp add: slab_shape_def)
  ultimately show ?thesis
    using assms(1) i
    by (simp add: slab_shape_def slab_map_bytes_def ba_byte_def unat_add_u32 unat_div_u32 unat_of_nat_u32)
qed

lemma slab_rep_cong:
  assumes "slab_rep m sl S" and "\<And>p. unat p \<in> slab_map_bytes sl \<Longrightarrow> bytes m' p = bytes m p"
  shows "slab_rep m' sl S"
  using assms slab_bit_byte [of sl] by (simp add: slab_rep_def slab_is_free_def ba_get_def)

lemma slab_set_free_rep:
  assumes rep: "slab_rep m sl S" and i: "i < unat (sl_nelems sl)"
  shows "slab_rep (slab_set_free m sl (of_nat i) v) sl (if v then S - {i} else insert i S)"
    and "unat p \<notin> slab_map_bytes sl \<Longrightarrow> bytes (slab_set_free m sl (of_nat i) v) p = bytes m p"
proof -
  show "slab_rep (slab_set_free m sl (of_nat i) v) sl (if v then S - {i} else insert i S)"
    using rep i of_nat_index_inject [OF i]
    by (auto simp: slab_rep_def slab_is_free_def slab_set_free_def ba.get_put)
  show "bytes (slab_set_free m sl (of_nat i) v) p = bytes m p" if "unat p \<notin> slab_map_bytes sl"
  proof -
    have "p \<noteq> ba_byte (sl_map sl) (of_nat i)"
      using slab_bit_byte [OF _ i] rep that by (auto simp: slab_rep_def)
    then show ?thesis by (simp add: slab_set_free_def ba_set_bytes_other)
  qed
qed


section \<open>Operations\<close>

lemma slab_allocate_from_rep:
  assumes rep: "slab_rep m sl S" and "k \<le> unat (sl_nelems sl)"
    and "\<And>j. j < k \<Longrightarrow> j \<in> S"
  shows "if S = {..<unat (sl_nelems sl)} then slab_allocate_from m sl (of_nat k) = (m, nullptr)
    else \<exists>i. i < unat (sl_nelems sl) \<and> i \<notin> S \<and> (\<forall>j < i. j \<in> S)
      \<and> slab_allocate_from m sl (of_nat k) = (slab_set_free m sl (of_nat i) False, slab_ptr sl i)"
  using assms(2,3)
proof (induction "unat (sl_nelems sl) - k" arbitrary: k)
  case 0
  have "k = unat (sl_nelems sl)" using 0 by simp
  moreover from this have "S = {..<unat (sl_nelems sl)}" using 0 rep by (auto simp: slab_rep_def)
  ultimately show ?case by (simp add: slab_allocate_from.simps)
next
  case (Suc d)
  then have k: "k < unat (sl_nelems sl)" by simp
  then have ne: "of_nat k \<noteq> sl_nelems sl" using less_unat_u32 [OF k] unat_of_nat_u32 [of k] by auto
  have free: "slab_is_free m sl (of_nat k) \<longleftrightarrow> k \<notin> S" using rep k by (simp add: slab_rep_def)
  show ?case
  proof (cases "k \<in> S")
    case True
    then have eq: "slab_allocate_from m sl (of_nat k) = slab_allocate_from m sl (of_nat (k + 1))"
      using ne free by (subst slab_allocate_from.simps) (simp add: add.commute)
    have below: "j \<in> S" if "j < k + 1" for j using that True Suc.prems(2) by (cases "j = k") auto
    have "d = unat (sl_nelems sl) - (k + 1)" "k + 1 \<le> unat (sl_nelems sl)" using Suc.hyps(2) k by auto
    then show ?thesis unfolding eq using below by (rule Suc.hyps(1))
  next
    case False
    then show ?thesis
      using ne free k Suc.prems(2)
      by (subst slab_allocate_from.simps) (auto simp: slab_ptr_def)
  qed
qed

lemma slab_allocate_rep:
  assumes "slab_rep m sl S"
  shows "if S = {..<unat (sl_nelems sl)} then slab_allocate m sl = (m, nullptr)
    else \<exists>i m'. i < unat (sl_nelems sl) \<and> i \<notin> S \<and> (\<forall>j < i. j \<in> S) \<and> slab_allocate m sl = (m', slab_ptr sl i)
      \<and> slab_rep m' sl (insert i S) \<and> (\<forall>p. unat p \<notin> slab_map_bytes sl \<longrightarrow> bytes m' p = bytes m p)
      \<and> nexts m' = nexts m"
proof (cases "S = {..<unat (sl_nelems sl)}")
  case True
  then show ?thesis using slab_allocate_from_rep [OF assms, of 0] by (simp add: slab_allocate_def)
next
  case False
  then obtain i where i: "i < unat (sl_nelems sl)" "i \<notin> S" "\<forall>j < i. j \<in> S"
    "slab_allocate m sl = (slab_set_free m sl (of_nat i) False, slab_ptr sl i)"
    using slab_allocate_from_rep [OF assms, of 0] by (auto simp: slab_allocate_def)
  moreover have "nexts (slab_set_free m sl (of_nat i) False) = nexts m" by (simp add: slab_set_free_def)
  ultimately show ?thesis
    using False slab_set_free_rep(1) [OF assms i(1), of False] slab_set_free_rep(2) [OF assms i(1)] by (auto intro!: exI [of _ i])
qed

lemma slab_owns_exact:
  assumes "slab_shape sl"
  shows "slab_owns sl p = Inr (\<exists>i < unat (sl_nelems sl). unat p \<in> slab_elem sl i)"
proof -
  let ?n = "unat (sl_nelems sl)" and ?e = "unat (sl_elem_size sl)" and ?b = "unat (sl_memory sl)"
  have lim: "?b + ?n * ?e < 4294967296"
    using assms slab_memory_nat [OF assms] by (simp add: slab_shape_def)
  then have hi: "unat (sl_memory sl + sl_nelems sl * sl_elem_size sl) = ?b + ?n * ?e"
    by (simp add: unat_add_u32 unat_mult_u32)
  have e: "0 < ?e" using assms by (simp add: slab_shape_def word_less_nat_alt)
  have "?b \<le> unat p \<and> unat p < ?b + ?n * ?e \<longleftrightarrow> (\<exists>i < ?n. unat p \<in> slab_elem sl i)" (is "?l \<longleftrightarrow> ?r")
  proof
    assume ?l
    let ?i = "(unat p - ?b) div ?e"
    have "?i < ?n" using \<open>?l\<close> by (intro less_mult_imp_div_less) linarith
    moreover have "?i * ?e \<le> unat p - ?b" by (rule div_times_less_eq_dividend)
    moreover have "unat p - ?b < (?i + 1) * ?e"
      using e dividend_less_div_times [of ?e "unat p - ?b"] by simp
    ultimately have "unat p \<in> slab_elem sl ?i" using \<open>?l\<close> unfolding slab_elem_def atLeastLessThan_iff by linarith
    then show ?r using \<open>?i < ?n\<close> by blast
  next
    assume ?r
    then obtain i where "i + 1 \<le> ?n" "unat p \<in> slab_elem sl i" by (auto simp: Suc_le_eq)
    moreover from this(1) have "(i + 1) * ?e \<le> ?n * ?e" by (intro mult_right_mono) auto
    ultimately show ?l unfolding slab_elem_def by (simp only: atLeastLessThan_iff) linarith
  qed
  moreover have "sl_memory sl \<noteq> nullptr"
    using slab_memory_nat [OF assms] assms by (auto simp: slab_shape_def u32_eq_iff_unat)
  ultimately show ?thesis
    by (simp add: slab_owns_def word_le_nat_alt word_less_nat_alt hi)
qed

lemma slab_deallocate_rep:
  assumes rep: "slab_rep m sl S" and i: "i \<in> S"
  shows "\<exists>m'. slab_deallocate m sl (slab_ptr sl i) = Inr m' \<and> slab_rep m' sl (S - {i})
    \<and> (\<forall>p. unat p \<notin> slab_map_bytes sl \<longrightarrow> bytes m' p = bytes m p) \<and> nexts m' = nexts m"
proof -
  have sh: "slab_shape sl" and n: "i < unat (sl_nelems sl)" using rep i by (auto simp: slab_rep_def)
  have e: "0 < unat (sl_elem_size sl)" using sh by (simp add: slab_shape_def word_less_nat_alt)
  note p = slab_ptr_nat [OF sh n]
  have "unat (slab_ptr sl i) \<in> slab_elem sl i" using slab_elem_start [OF sh n] e by simp
  then have own: "slab_owns sl (slab_ptr sl i) = Inr True" using slab_owns_exact [OF sh] n by auto
  have "unat ((slab_ptr sl i - sl_memory sl) div sl_elem_size sl) = i"
    using e p by (simp add: unat_div_u32 unat_sub_u32 word_le_nat_alt)
  then have "(slab_ptr sl i - sl_memory sl) div sl_elem_size sl = of_nat i" by (metis of_nat_unat_u32)
  then have "slab_deallocate m sl (slab_ptr sl i) = Inr (slab_set_free m sl (of_nat i) True)"
    using own slab_ptr_not_null [OF sh n] by (simp add: slab_deallocate_def)
  moreover have "nexts (slab_set_free m sl (of_nat i) True) = nexts m" by (simp add: slab_set_free_def)
  ultimately show ?thesis using slab_set_free_rep(1) [OF rep n, of True] slab_set_free_rep(2) [OF rep n] by simp
qed


text \<open>
  A slab takes its area from the page allocator; the area is a run that is held by the slab and
  has room for the map and for every element.
\<close>

lemma fold_set_free:
  assumes "slab_rep m sl S" and "set is \<subseteq> {..<unat (sl_nelems sl)}"
  shows "slab_rep (fold (\<lambda>e m. slab_set_free m sl (of_nat e) True) is m) sl (S - set is)
    \<and> (\<forall>p. unat p \<notin> slab_map_bytes sl \<longrightarrow>
        bytes (fold (\<lambda>e m. slab_set_free m sl (of_nat e) True) is m) p = bytes m p)
    \<and> nexts (fold (\<lambda>e m. slab_set_free m sl (of_nat e) True) is m) = nexts m"
  using assms
proof (induction "is" arbitrary: m S)
  case (Cons i "is")
  have i: "i < unat (sl_nelems sl)" "set is \<subseteq> {..<unat (sl_nelems sl)}" using Cons.prems(2) by auto
  have "slab_rep (slab_set_free m sl (of_nat i) True) sl (S - {i})"
    using slab_set_free_rep(1) [OF Cons.prems(1) i(1), of True] by simp
  note IH = Cons.IH [OF this i(2)]
  have "S - {i} - set is = S - set (i # is)" by auto
  then show ?case
    using IH slab_set_free_rep(2) [OF Cons.prems(1) i(1)] by (simp add: slab_set_free_def)
qed simp

lemma slab_start_rep:
  assumes sh: "slab_shape sl" and map: "sl_map sl = \<lparr>ba_size = sl_nelems sl, ba_data = sl_area sl\<rparr>"
    and n: "unat (sl_nelems sl) + 8 \<le> 4294967296"
    and ini: "ba_initialize m (sl_area sl) (sl_nelems sl) = (m', a)"
  shows "slab_rep m' sl {..<unat (sl_nelems sl)}"
    and "unat p \<notin> slab_map_bytes sl \<Longrightarrow> bytes m' p = bytes m p"
proof -
  let ?n = "unat (sl_nelems sl)"
  have "a = sl_map sl" using ini map ba_initialize_array [of m "sl_area sl" "sl_nelems sl"] by simp
  then have "\<not> ba_get m' (sl_map sl) (of_nat i)" if "i < ?n" for i
    using ba_get_initialize [OF n, of "of_nat i" m "sl_area sl"] that ini less_unat_u32 [OF that]
    by (simp add: word_less_nat_alt unat_of_nat_u32)
  then show "slab_rep m' sl {..<?n}" using sh by (simp add: slab_rep_def slab_is_free_def)
  show "bytes m' p = bytes m p" if "unat p \<notin> slab_map_bytes sl"
  proof -
    have "p \<noteq> sl_area sl + of_nat i" if i: "i < (?n + 7) div 8" for i
    proof -
      have "unat (sl_area sl) + i < 4294967296" using sh i by (simp add: slab_shape_def)
      then have "unat (sl_area sl + of_nat i) = unat (sl_area sl) + i"
        by (simp add: unat_add_u32 unat_of_nat_u32)
      then show ?thesis using i \<open>unat p \<notin> slab_map_bytes sl\<close> by (auto simp: slab_map_bytes_def)
    qed
    then show ?thesis using ba_initialize_bytes [OF n, of m "sl_area sl" p] ini by auto
  qed
qed

lemma slab_setup:
  assumes sh: "slab_shape sl" and map: "sl_map sl = \<lparr>ba_size = sl_nelems sl, ba_data = sl_area sl\<rparr>"
    and n: "unat (sl_nelems sl) + 8 \<le> 4294967296"
    and ini: "ba_initialize m (sl_area sl) (sl_nelems sl) = (m', a)"
  defines "m'' \<equiv> fold (\<lambda>elem m. slab_set_free m sl (of_nat elem) True) [0..<unat (sl_nelems sl)] m'"
  shows "slab_rep m'' sl {}" and "unat p \<notin> slab_map_bytes sl \<Longrightarrow> bytes m'' p = bytes m p"
    and "nexts m'' = nexts m"
proof -
  have s: "set [0..<unat (sl_nelems sl)] = {..<unat (sl_nelems sl)}" by auto
  note f = fold_set_free [OF slab_start_rep(1) [OF sh map n ini] equalityD1 [OF s], folded m''_def]
  show "slab_rep m'' sl {}" using f [unfolded s] by simp
  show "bytes m'' p = bytes m p" if "unat p \<notin> slab_map_bytes sl"
    using f slab_start_rep(2) [OF sh map n ini that] that by simp
  have "nexts m' = nexts m" using ini ba_initialize_nexts [of m "sl_area sl" "sl_nelems sl"] by simp
  then show "nexts m'' = nexts m" using f by simp
qed


lemma pa_rep_bytes:
  assumes rep: "pa_rep g m pa F H" and "nexts m' = nexts m"
    and same: "\<And>p. p \<in> map_bytes g \<Longrightarrow> bytes m' p = bytes m p"
  shows "pa_rep g m' pa F H"
proof -
  have "m' = m\<lparr>bytes := bytes m'\<rparr>" using assms(2) by simp
  then have "bud_pool m' (pa_primary pa) F" using rep bud.pool_bytes unfolding pa_rep_def by metis
  moreover have "ba_get m' (pa_map pa) (of_nat i) = ba_get m (pa_map pa) (of_nat i)" if "i < ge g - gb g" for i
    using map_byte_in [OF _ _ that] rep same by (simp add: pa_rep_def ba_get_def)
  ultimately show ?thesis using rep by (simp add: pa_rep_def)
qed

definition run_bytes :: "nat \<times> nat \<Rightarrow> nat set" where
  "run_bytes h = {fst h * 4096..<(fst h + snd h) * 4096}"

definition slab_bytes :: "slab \<Rightarrow> nat set" where
  "slab_bytes sl = slab_map_bytes sl \<union> (\<Union>i < unat (sl_nelems sl). slab_elem sl i)"

lemma slab_bytes_bound:
  assumes "slab_shape sl"
  shows "slab_bytes sl \<subseteq> {unat (sl_area sl)..<unat (sl_area sl) + (unat (sl_nelems sl) + 7) div 8
    + unat (sl_nelems sl) * unat (sl_elem_size sl)}"
proof -
  have "(i + 1) * unat (sl_elem_size sl) \<le> unat (sl_nelems sl) * unat (sl_elem_size sl)"
    if "i < unat (sl_nelems sl)" for i using that by (intro mult_right_mono) auto
  then show ?thesis
    using slab_memory_nat [OF assms] by (fastforce simp: slab_bytes_def slab_map_bytes_def slab_elem_def)
qed

definition slab_page_count :: "nat \<Rightarrow> nat \<Rightarrow> nat" where
  "slab_page_count es n = (es * n + (n + 7) div 8 + 4095) div 4096"

lemma slab_pages:
  assumes "unat es * unat n + (unat n + 7) div 8 + 4096 \<le> 4294967296" and "0 < es" "0 < (n :: u32)"
  defines "pages \<equiv> align_up PAGE_SIZE (es * n + ba_expected_size n) div PAGE_SIZE"
  shows "unat es * unat n + (unat n + 7) div 8 \<le> unat pages * 4096" and "0 < unat pages" "unat pages \<le> 2 ^ 31"
    and "unat pages = slab_page_count (unat es) (unat n)"
proof -
  define k where "k = unat es * unat n + (unat n + 7) div 8"
  have k: "k + 4096 \<le> 4294967296" using assms(1) by (simp only: k_def)
  have "unat (es * n) = unat es * unat n" using k by (intro unat_mult_u32) (simp add: k_def)
  then have "unat (es * n + ba_expected_size n) = k"
    using k by (subst unat_add_u32) (simp_all add: unat_ba_expected_size k_def)
  then have p: "unat pages = (k + 4095) div 4096"
    using unat_align_up_div [of 12 "es * n + ba_expected_size n"] k
    by (simp add: pages_def PAGE_SIZE_pow2 add.commute)
  then show "unat pages = slab_page_count (unat es) (unat n)" by (simp add: slab_page_count_def k_def)
  have "0 < k" using assms(2,3) by (simp add: word_less_nat_alt k_def)
  then show "0 < unat pages" using p by simp
  show "unat pages \<le> 2 ^ 31" using p k by simp
  show "unat es * unat n + (unat n + 7) div 8 \<le> unat pages * 4096"
    unfolding k_def [symmetric] p by linarith
qed

lemma slab_place:
  assumes "x \<in> frames" and "(x + k) * 4096 < 4294967296" and "0 < sl_elem_size sl" "0 < sl_nelems sl" and "sl_area sl = frame_addr x"
    and "sl_map sl = \<lparr>ba_size = sl_nelems sl, ba_data = sl_area sl\<rparr>"
    and "sl_memory sl = sl_area sl + ba_expected_size (sl_nelems sl)"
    and "unat (sl_elem_size sl) * unat (sl_nelems sl) + (unat (sl_nelems sl) + 7) div 8 \<le> k * 4096"
  shows "slab_shape sl" and "slab_bytes sl \<subseteq> run_bytes (x, k)"
proof -
  have ua: "unat (sl_area sl) = x * 4096" using assms(1,5) by (simp add: unat_frame_addr)
  have le: "unat (sl_area sl) + (unat (sl_nelems sl) + 7) div 8 + unat (sl_nelems sl) * unat (sl_elem_size sl)
      \<le> (x + k) * 4096"
    using assms(8) ua by (simp add: algebra_simps)
  then show sh: "slab_shape sl"
    using assms(2,3,4,6,7) frame_addr_null [OF assms(1)] assms(5) by (simp add: slab_shape_def)
  show "slab_bytes sl \<subseteq> run_bytes (x, k)"
    using slab_bytes_bound [OF sh] le ua by (fastforce simp: run_bytes_def)
qed

lemma slab_initialize_rep:
  assumes rep: "pa_rep g m pa F H" and pos: "0 < es" "0 < n"
    and fits: "unat es * unat n + (unat n + 7) div 8 + 4096 \<le> 4294967296"
  shows "\<exists>m' pa' sl' ok. slab_initialize m pa sl es n = Inr (m', pa', sl', ok)
    \<and> (if ok then \<exists>h. pa_rep g m' pa' (F - run h) (insert h H) \<and> run h \<subseteq> F \<and> 0 < snd h
          \<and> slab_rep m' sl' {} \<and> sl_elem_size sl' = es \<and> sl_nelems sl' = n
          \<and> aligned_for (snd h) (fst h) \<and> snd h = slab_page_count (unat es) (unat n)
          \<and> sl_area sl' = frame_addr (fst h) \<and> slab_bytes sl' \<subseteq> run_bytes h
          \<and> (\<forall>p. p \<notin> map_bytes g \<and> unat p \<notin> run_bytes h \<longrightarrow> bytes m' p = bytes m p)
        else pa_rep g m' pa' F H
          \<and> (\<forall>i x. i \<le> 10 \<and> slab_page_count (unat es) (unat n) \<le> 2 ^ i \<and> 2 ^ i dvd x \<longrightarrow> \<not> block i x \<subseteq> F))"
proof -
  define pages where "pages = align_up PAGE_SIZE (es * n + ba_expected_size n) div PAGE_SIZE"
  note pg = slab_pages [OF fits pos, folded pages_def]
  have nz: "pages \<noteq> 0" using pg(2) by auto
  obtain m1 pa1 p where alloc: "pa_allocate m pa pages = Inr (m1, pa1, p)"
    and by1: "\<And>q. q \<notin> map_bytes g \<Longrightarrow> bytes m1 q = bytes m q"
    and res: "if p = nullptr then pa_rep g m1 pa1 F H
         \<and> (\<forall>i x. i \<le> 10 \<and> unat pages \<le> 2 ^ i \<and> 2 ^ i dvd x \<longrightarrow> \<not> block i x \<subseteq> F)
       else \<exists>x. p = frame_addr x \<and> {x..<x + unat pages} \<subseteq> F \<and> aligned_for (unat pages) x
         \<and> pa_rep g m1 pa1 (F - {x..<x + unat pages}) (insert (x, unat pages) H)"
    using pa_allocate_rep [OF rep nz pg(3)] by blast
  show ?thesis
  proof (cases "p = nullptr")
    case True
    then show ?thesis using alloc res pg(4) by (auto simp: slab_initialize_def Let_def simp flip: pages_def)
  next
    case False
    then obtain x where p: "p = frame_addr x" and sub: "{x..<x + unat pages} \<subseteq> F" and al: "aligned_for (unat pages) x"
      and rep1: "pa_rep g m1 pa1 (F - {x..<x + unat pages}) (insert (x, unat pages) H)" using res by auto
    have geo: "geometry_ok g" and held: "held_ok g (F - {x..<x + unat pages}) (insert (x, unat pages) H)"
      using rep1 by (auto simp: pa_rep_def)
    note xb = run_bounds [OF held insertI1]
    have end_lt: "(x + unat pages) * 4096 < 4294967296" and xf: "x \<in> frames" using xb geo by (auto simp: geometry_ok_def)
    define sl2 where "sl2 = sl\<lparr>sl_elem_size := es, sl_nelems := n, sl_area := p,
      sl_map := \<lparr>ba_size = n, ba_data = p\<rparr>, sl_memory := p + ba_expected_size n\<rparr>"
    define sl3 where "sl3 = sl2\<lparr>sl_initialized := True\<rparr>"
    have f: "sl_nelems sl3 = n" "sl_elem_size sl3 = es" "sl_area sl3 = p" "sl_map sl3 = \<lparr>ba_size = n, ba_data = p\<rparr>"
      "sl_memory sl3 = p + ba_expected_size n"
      by (simp_all add: sl3_def sl2_def)
    note place = slab_place [OF xf end_lt, of sl3, unfolded f, OF pos p refl refl pg(1)]
    note sh = place(1) and sb = place(2)
    obtain m2 a where ini: "ba_initialize m1 p n = (m2, a)" by fastforce
    then have a: "a = \<lparr>ba_size = n, ba_data = p\<rparr>" using ba_initialize_array [of m1 p n] by simp
    define m3 where "m3 = fold (\<lambda>elem m. slab_set_free m sl3 (of_nat elem) True) [0..<unat n] m2"
    have n8: "unat n + 8 \<le> 4294967296"
    proof -
      have "1 * unat n \<le> unat es * unat n" using pos by (intro mult_right_mono) (simp_all add: word_less_nat_alt)
      then show ?thesis using fits by linarith
    qed
    note su = slab_setup [OF sh, unfolded f, OF refl n8 ini, folded m3_def]
    have m3': "fold (\<lambda>elem m. slab_set_free m sl2 (of_nat elem) True) [0..<unat n] m2 = m3"
      by (simp add: m3_def slab_set_free_def sl3_def)
    have "slab_initialize m pa sl es n = Inr (m3, pa1, sl3, True)"
      using alloc False ini a m3' unfolding slab_initialize_def
      by (simp add: Let_def sl3_def sl2_def flip: pages_def)
    moreover have "p' \<in> map_bytes g \<Longrightarrow> unat p' \<notin> slab_map_bytes sl3" for p'
      using sb xb(2) by (auto simp: map_bytes_def slab_bytes_def run_bytes_def subset_iff)
    then have "pa_rep g m3 pa1 (F - {x..<x + unat pages}) (insert (x, unat pages) H)"
      using su by (intro pa_rep_bytes [OF rep1]) auto
    moreover have "bytes m3 q = bytes m q" if "q \<notin> map_bytes g" "unat q \<notin> run_bytes (x, unat pages)" for q
      using su(2) [of q] by1 [OF that(1)] that(2) sb by (auto simp: slab_bytes_def)
    ultimately have "slab_initialize m pa sl es n = Inr (m3, pa1, sl3, True)
        \<and> (\<exists>h. pa_rep g m3 pa1 (F - run h) (insert h H) \<and> run h \<subseteq> F \<and> 0 < snd h
          \<and> slab_rep m3 sl3 {} \<and> sl_elem_size sl3 = es \<and> sl_nelems sl3 = n
          \<and> aligned_for (snd h) (fst h) \<and> snd h = slab_page_count (unat es) (unat n)
          \<and> sl_area sl3 = frame_addr (fst h) \<and> slab_bytes sl3 \<subseteq> run_bytes h
          \<and> (\<forall>p. p \<notin> map_bytes g \<and> unat p \<notin> run_bytes h \<longrightarrow> bytes m3 p = bytes m p))"
      using su(1) sub sb pg(2,4) f p al by (intro conjI exI [of _ "(x, unat pages)"]) (simp_all add: run_def)
    then show ?thesis
      by (intro exI [of _ m3] exI [of _ pa1] exI [of _ sl3] exI [of _ True]) (simp only: if_True)
  qed
qed

text \<open>
  The contract of a pool of cells, as the chain of slabs relies on it: what is handed out was not in
  use, an exhausted pool says so, and a release takes back exactly one cell.
\<close>

locale cell_pool =
  fixes alloc :: "store \<Rightarrow> 's \<Rightarrow> store \<times> ptr"
    and dealloc :: "store \<Rightarrow> 's \<Rightarrow> ptr \<Rightarrow> store result"
    and rep :: "store \<Rightarrow> 's \<Rightarrow> nat set \<Rightarrow> bool"
    and cell :: "'s \<Rightarrow> nat \<Rightarrow> ptr"
    and capacity :: "'s \<Rightarrow> nat"
  assumes cells: "rep m s S \<Longrightarrow> S \<subseteq> {..<capacity s}"
    and cell_not_null: "rep m s S \<Longrightarrow> i < capacity s \<Longrightarrow> cell s i \<noteq> nullptr"
    and alloc_full: "rep m s {..<capacity s} \<Longrightarrow> alloc m s = (m, nullptr)"
    and alloc_cell: "rep m s S \<Longrightarrow> S \<noteq> {..<capacity s} \<Longrightarrow>
      \<exists>i m'. i < capacity s \<and> i \<notin> S \<and> (\<forall>j < i. j \<in> S) \<and> alloc m s = (m', cell s i) \<and> rep m' s (insert i S)"
    and dealloc_cell: "rep m s S \<Longrightarrow> i \<in> S \<Longrightarrow> \<exists>m'. dealloc m s (cell s i) = Inr m' \<and> rep m' s (S - {i})"
begin

text \<open>From an empty pool the cells come out in order, and then null.\<close>

lemma alloc_in_order:
  assumes "rep m s {..<k}" and "k < capacity s"
  shows "\<exists>m'. alloc m s = (m', cell s k) \<and> rep m' s {..<Suc k}"
proof -
  obtain i m' where i: "i < capacity s" "i \<notin> {..<k}" "\<forall>j < i. j \<in> {..<k}" "alloc m s = (m', cell s i)"
    "rep m' s (insert i {..<k})"
    using alloc_cell [OF assms(1)] assms(2) by auto
  then have "i = k" by (metis lessThan_iff less_irrefl linorder_neqE_nat)
  then show ?thesis using i by (simp add: lessThan_Suc)
qed

lemma alloc_dealloc:
  assumes "rep m s S" and "alloc m s = (m', p)" and "p \<noteq> nullptr"
  shows "\<exists>m''. dealloc m' s p = Inr m'' \<and> rep m'' s S"
proof -
  have "S \<noteq> {..<capacity s}" using alloc_full assms by auto
  then obtain i where i: "i \<notin> S" "p = cell s i" "rep m' s (insert i S)"
    using alloc_cell [OF assms(1)] assms(2) by auto
  then show ?thesis using dealloc_cell [OF i(3), of i] by auto
qed

end

interpretation sl: cell_pool slab_allocate slab_deallocate slab_rep slab_ptr "\<lambda>sl. unat (sl_nelems sl)"
proof
  fix m sl S
  show "slab_rep m sl S \<Longrightarrow> S \<subseteq> {..<unat (sl_nelems sl)}" by (simp add: slab_rep_def)
  show "slab_rep m sl S \<Longrightarrow> i < unat (sl_nelems sl) \<Longrightarrow> slab_ptr sl i \<noteq> nullptr" for i
    by (simp add: slab_rep_def slab_ptr_not_null)
  show "slab_rep m sl {..<unat (sl_nelems sl)} \<Longrightarrow> slab_allocate m sl = (m, nullptr)"
    using slab_allocate_rep [of m sl "{..<unat (sl_nelems sl)}"] by simp
  show "\<exists>i m'. i < unat (sl_nelems sl) \<and> i \<notin> S \<and> (\<forall>j < i. j \<in> S)
      \<and> slab_allocate m sl = (m', slab_ptr sl i) \<and> slab_rep m' sl (insert i S)"
    if "slab_rep m sl S" "S \<noteq> {..<unat (sl_nelems sl)}"
    using slab_allocate_rep [OF that(1)] that(2) by auto
  show "\<exists>m'. slab_deallocate m sl (slab_ptr sl i) = Inr m' \<and> slab_rep m' sl (S - {i})"
    if "slab_rep m sl S" "i \<in> S" for i
    using slab_deallocate_rep [OF that] by blast
qed

section \<open>Properties\<close>

fun slab_drain :: "nat \<Rightarrow> store \<Rightarrow> slab \<Rightarrow> store \<times> ptr list" where
  "slab_drain 0 m sl = (m, [])"
| "slab_drain (Suc k) m sl =
     (let (m1, p) = slab_allocate m sl; (m2, ps) = slab_drain k m1 sl in (m2, p # ps))"

lemma slab_drain_in_order:
  assumes "slab_rep m sl {..<j}" and "j + k \<le> unat (sl_nelems sl)"
  shows "\<exists>m'. slab_drain k m sl = (m', map (slab_ptr sl) [j..<j + k]) \<and> slab_rep m' sl {..<j + k}"
  using assms
proof (induction k arbitrary: m j)
  case (Suc k)
  then obtain m1 where "slab_allocate m sl = (m1, slab_ptr sl j)" "slab_rep m1 sl {..<Suc j}"
    using sl.alloc_in_order [of m sl j] by auto
  then show ?case using Suc.IH [of m1 "Suc j"] Suc.prems(2) by (auto simp: upt_conv_Cons simp del: upt_Suc)
qed simp

text \<open>
  C29: a slab set up by \<^verbatim>\<open>initialize\<close> on the page allocator serves exactly as many elements as it was
  asked for. They are handed out in order, lie in the run of pages that the slab holds, overlap
  neither each other nor the allocation map, and the next request returns null.
\<close>

theorem slab_capacity:
  assumes "pa_rep g m pa F H" and "0 < es" "0 < n"
    and "unat es * unat n + (unat n + 7) div 8 + 4096 \<le> 4294967296"
    and "slab_initialize m pa slab_default es n = Inr (m1, pa1, sl, True)"
  shows "\<exists>h m2. run h \<subseteq> F \<and> pa_rep g m1 pa1 (F - run h) (insert h H)
    \<and> slab_drain (unat n) m1 sl = (m2, map (slab_ptr sl) [0..<unat n])
    \<and> slab_allocate m2 sl = (m2, nullptr)
    \<and> (\<forall>i < unat n. slab_elem sl i = {unat (slab_ptr sl i)..<unat (slab_ptr sl i) + unat es}
        \<and> slab_elem sl i \<subseteq> run_bytes h \<and> slab_elem sl i \<inter> slab_map_bytes sl = {}
        \<and> (\<forall>j < unat n. j \<noteq> i \<longrightarrow> slab_elem sl i \<inter> slab_elem sl j = {}))"
proof -
  obtain h where h: "pa_rep g m1 pa1 (F - run h) (insert h H)" "run h \<subseteq> F" "slab_rep m1 sl {}"
      "sl_elem_size sl = es" "sl_nelems sl = n" "slab_bytes sl \<subseteq> run_bytes h"
    using slab_initialize_rep [OF assms(1-4), of slab_default] assms(5) by auto
  have sh: "slab_shape sl" using h(3) by (simp add: slab_rep_def)
  obtain m2 where m2: "slab_drain (unat n) m1 sl = (m2, map (slab_ptr sl) [0..<unat n])" "slab_rep m2 sl {..<unat n}"
    using slab_drain_in_order [of m1 sl 0 "unat n"] h by auto
  have "slab_allocate m2 sl = (m2, nullptr)" using sl.alloc_full [of m2 sl] m2(2) h(5) by simp
  moreover have "slab_elem sl i = {unat (slab_ptr sl i)..<unat (slab_ptr sl i) + unat es}
      \<and> slab_elem sl i \<subseteq> run_bytes h \<and> slab_elem sl i \<inter> slab_map_bytes sl = {}
      \<and> (\<forall>j < unat n. j \<noteq> i \<longrightarrow> slab_elem sl i \<inter> slab_elem sl j = {})" if "i < unat n" for i
  proof -
    have "slab_elem sl i \<subseteq> run_bytes h" using h(5,6) that by (auto simp: slab_bytes_def)
    then show ?thesis
      using slab_elem_start [OF sh, of i] slab_elem_not_map [OF sh, of i] slab_elems_disjoint [of i _ sl] h(4,5) that by simp
  qed
  ultimately show ?thesis using h(1,2) m2(1) by blast
qed


theorem slab_capacity_witness:
  "\<exists>m0 pa0 m1 pa1 sl m2. pa_initialize store_zero (bud_fresh \<lparr>mr_begin = frame_addr 256, mr_end = frame_addr 4096\<rparr>) (frame_addr 300)
      = Inr (m0, pa0)
    \<and> slab_initialize m0 pa0 slab_default 48 100 = Inr (m1, pa1, sl, True)
    \<and> slab_drain 100 m1 sl = (m2, map (slab_ptr sl) [0..<100]) \<and> slab_allocate m2 sl = (m2, nullptr)"
proof -
  let ?g = "\<lparr>gb = 256, ge = 4096, gm = 300, gf = 301\<rparr>"
  obtain m0 pa0 where ini: "pa_initialize store_zero
      (bud_fresh \<lparr>mr_begin = frame_addr 256, mr_end = frame_addr 4096\<rparr>) (frame_addr 300) = Inr (m0, pa0)"
    and rep: "pa_rep ?g m0 pa0 {301..<4096} {}"
    using pa_example by blast
  obtain m1 pa1 sl ok where sl: "slab_initialize m0 pa0 slab_default 48 100 = Inr (m1, pa1, sl, ok)"
    and no: "\<not> ok \<Longrightarrow> (\<forall>i x. i \<le> 10 \<and> slab_page_count 48 100 \<le> 2 ^ i \<and> 2 ^ i dvd x \<longrightarrow> \<not> block i x \<subseteq> {301..<4096})"
    using slab_initialize_rep [OF rep, of 48 100 slab_default] by (auto split: if_splits)
  have "block 1 512 \<subseteq> {301..<4096}" "slab_page_count 48 100 \<le> 2 ^ 1" "(2::nat) ^ 1 dvd 512" "(1::nat) \<le> 10"
    by (simp_all add: block_def slab_page_count_def)
  then have ok using no by metis
  moreover from this obtain m2 where "slab_drain 100 m1 sl = (m2, map (slab_ptr sl) [0..<100])" "slab_allocate m2 sl = (m2, nullptr)"
    using slab_capacity [OF rep, of 48 100 m1 pa1 sl] sl by auto
  ultimately show ?thesis using ini sl by auto
qed

end
