(* ===== verification/Mallocator.thy ===== *)
theory Mallocator
  imports Slab_Allocator
begin

text \<open>
  \<^verbatim>\<open>memory/mallocator.{hpp,cpp}\<close>: a chain of slabs with elements of 8, 16, 32, 48, ... bytes in front
  of the page allocator. The slab objects of the chain live in an element of another slab; they are
  a list here, and the size of a slab object, which the compiler determines, is an argument of
  \<open>ma_initialize\<close>. Both \<^verbatim>\<open>fallback_\<close> and \<^verbatim>\<open>alloc_pages\<close> are the one page allocator of the kernel, which the
  operations take and return.
\<close>

section \<open>Definitions\<close>

record mallocator =
  ma_chain_length :: u32
  ma_chain_ptr :: ptr
  ma_chain :: "slab list"
  ma_internal :: slab
  ma_initialized :: bool

definition mallocator_default :: mallocator where
  "mallocator_default = \<lparr>ma_chain_length = 0, ma_chain_ptr = nullptr, ma_chain = [],
     ma_internal = slab_default, ma_initialized = False\<rparr>"

definition chain_unit_size :: "u32 \<Rightarrow> u32" where
  "chain_unit_size index = (if index = 0 then 8 else index * 16)"

fun ma_init_chain ::
  "store \<Rightarrow> page_allocator \<Rightarrow> u32 \<Rightarrow> nat list \<Rightarrow> (store \<times> page_allocator \<times> slab list) result" where
  "ma_init_chain m pa chain_memory [] = Inr (m, pa, [])"
| "ma_init_chain m pa chain_memory (slab_idx # idxs) =
     (let elem_size = chain_unit_size (of_nat slab_idx)
      in bindE (slab_initialize m pa slab_default elem_size (chain_memory div elem_size)) (\<lambda>(m1, pa1, sl, ok).
        if \<not> ok then Inl (Panic ''Initializing of chain failed!'')
        else bindE (ma_init_chain m1 pa1 chain_memory idxs) (\<lambda>(m2, pa2, sls). Inr (m2, pa2, sl # sls))))"

definition ma_initialize ::
  "store \<Rightarrow> page_allocator \<Rightarrow> mallocator \<Rightarrow> u32 \<Rightarrow> u32 \<Rightarrow> u32 \<Rightarrow> (store \<times> page_allocator \<times> mallocator) result" where
  "ma_initialize m pa ma sizeof_slab chain_memory chain_length =
     (let chain_size = sizeof_slab * chain_length
      in bindE (slab_initialize m pa (ma_internal ma) chain_size 1) (\<lambda>(m1, pa1, internal, ok).
        if \<not> ok then Inl (Panic ''Initializing of internal allocator failed!'')
        else let (m2, chain) = slab_allocate m1 internal
        in if chain = nullptr \<and> chain_length \<noteq> 0 then Inl Undef
        else bindE (ma_init_chain m2 pa1 chain_memory [0..<unat chain_length]) (\<lambda>(m3, pa2, sls).
          Inr (m3, pa2, \<lparr>ma_chain_length = chain_length, ma_chain_ptr = chain, ma_chain = sls,
                 ma_internal = internal, ma_initialized = True\<rparr>))))"

definition ma_assert_initialized :: "mallocator \<Rightarrow> unit result" where
  "ma_assert_initialized ma =
     (if \<not> ma_initialized ma then Inl (Panic ''mallocator is not initialized'') else Inr ())"

definition ma_first_slab :: "mallocator \<Rightarrow> u32 \<Rightarrow> u32" where
  "ma_first_slab ma n =
     (if n \<le> 8 then 0
      else let slab_idx = align_up 16 n div 16
      in if slab_idx \<ge> ma_chain_length ma then ma_chain_length ma else slab_idx)"

function ma_try :: "store \<Rightarrow> mallocator \<Rightarrow> u32 \<Rightarrow> (store \<times> ptr) result" where
  "ma_try m ma slab_idx =
     (if slab_idx = ma_chain_length ma then Inr (m, nullptr)
      else if length (ma_chain ma) \<le> unat slab_idx then Inl Undef
      else case slab_allocate m (ma_chain ma ! unat slab_idx) of (m', memory) \<Rightarrow>
        if memory \<noteq> nullptr then Inr (m', memory) else ma_try m' ma (slab_idx + 1))"
  by pat_completeness auto
termination
  by (relation "measure (\<lambda>(m, ma, slab_idx). unat (ma_chain_length ma - slab_idx))") (auto intro: word_count_up)

declare ma_try.simps [simp del]

definition ma_allocate ::
  "store \<Rightarrow> page_allocator \<Rightarrow> mallocator \<Rightarrow> u32 \<Rightarrow> (store \<times> page_allocator \<times> ptr) result" where
  "ma_allocate m pa ma n =
     bindE (ma_assert_initialized ma) (\<lambda>_.
     bindE (ma_try m ma (ma_first_slab ma n)) (\<lambda>(m1, memory).
       if memory \<noteq> nullptr then Inr (m1, pa, memory)
       else pa_allocate m1 pa (align_up PAGE_SIZE n div PAGE_SIZE)))"

text \<open>The index of the first slab that owns an address; the length of the chain if there is none.\<close>

function ma_owner :: "mallocator \<Rightarrow> ptr \<Rightarrow> u32 \<Rightarrow> u32 result" where
  "ma_owner ma memory chain_idx =
     (if chain_idx = ma_chain_length ma then Inr chain_idx
      else if length (ma_chain ma) \<le> unat chain_idx then Inl Undef
      else case slab_owns (ma_chain ma ! unat chain_idx) memory of
        Inl f \<Rightarrow> Inl f
      | Inr owned \<Rightarrow> if owned then Inr chain_idx else ma_owner ma memory (chain_idx + 1))"
  by pat_completeness auto
termination
  by (relation "measure (\<lambda>(ma, memory, chain_idx). unat (ma_chain_length ma - chain_idx))") (auto intro: word_count_up)

declare ma_owner.simps [simp del]

definition ma_deallocate ::
  "store \<Rightarrow> page_allocator \<Rightarrow> mallocator \<Rightarrow> ptr \<Rightarrow> (store \<times> page_allocator) result" where
  "ma_deallocate m pa ma memory =
     bindE (ma_assert_initialized ma) (\<lambda>_.
     bindE (ma_owner ma memory 0) (\<lambda>chain_idx.
       if chain_idx \<noteq> ma_chain_length ma
       then bindE (slab_deallocate m (ma_chain ma ! unat chain_idx) memory) (\<lambda>m'. Inr (m', pa))
       else pa_deallocate m pa memory))"

section \<open>The chain\<close>

text \<open>
  \<open>h0\<close> is the run of the slab that holds the chain, \<open>hs\<close> are the runs of the slabs of the chain and
  \<open>Ss\<close> the elements in use of each.
\<close>

definition chain_ok :: "store \<Rightarrow> slab list \<Rightarrow> (nat \<times> nat) list \<Rightarrow> nat set list \<Rightarrow> bool" where
  "chain_ok m sls hs Ss \<longleftrightarrow> length hs = length sls \<and> length Ss = length sls
     \<and> (\<forall>k < length sls. slab_rep m (sls ! k) (Ss ! k)
          \<and> sl_elem_size (sls ! k) = chain_unit_size (of_nat k) \<and> slab_bytes (sls ! k) \<subseteq> run_bytes (hs ! k))"

definition ma_rep ::
  "geometry \<Rightarrow> store \<Rightarrow> page_allocator \<Rightarrow> mallocator \<Rightarrow> nat set \<Rightarrow> (nat \<times> nat) set
    \<Rightarrow> nat \<times> nat \<Rightarrow> (nat \<times> nat) list \<Rightarrow> nat set list \<Rightarrow> bool" where
  "ma_rep g m pa ma F H h0 hs Ss \<longleftrightarrow> pa_rep g m pa F H \<and> ma_initialized ma
     \<and> unat (ma_chain_length ma) = length (ma_chain ma) \<and> length (ma_chain ma) < 2 ^ 16
     \<and> distinct (h0 # hs) \<and> set (h0 # hs) \<subseteq> H \<and> chain_ok m (ma_chain ma) hs Ss"

text \<open>What clients hold: elements in use and the runs that back no slab.\<close>

definition ma_live :: "mallocator \<Rightarrow> (nat \<times> nat) set \<Rightarrow> nat \<times> nat \<Rightarrow> (nat \<times> nat) list \<Rightarrow> nat set list \<Rightarrow> nat set set" where
  "ma_live ma H h0 hs Ss =
     {slab_elem (ma_chain ma ! k) i |k i. k < length (ma_chain ma) \<and> i \<in> Ss ! k}
     \<union> run_bytes ` (H - set (h0 # hs))"

lemma run_bytes_disjoint:
  assumes "held_ok g F H" and "h \<in> H" "k \<in> H" "h \<noteq> k"
  shows "run_bytes h \<inter> run_bytes k = {}"
proof -
  have "run h \<inter> run k = {}" using assms by (simp add: held_ok_def)
  moreover have "a div 4096 \<in> run h" if "a \<in> run_bytes h" for a h
    using that by (cases h) (auto simp: run_bytes_def run_def less_mult_imp_div_less)
  ultimately show ?thesis by (meson disjoint_iff)
qed

lemma slab_rep_other:
  assumes "held_ok g F H" and "h \<in> H" "k \<in> H" "h \<noteq> k" and "slab_rep m sl S"
    and "slab_bytes sl \<subseteq> run_bytes h" and "\<And>p. unat p \<notin> run_bytes k \<Longrightarrow> bytes m' p = bytes m p"
  shows "slab_rep m' sl S"
  using run_bytes_disjoint [OF assms(1-4)] assms(6,7)
  by (intro slab_rep_cong [OF assms(5)]) (auto simp: slab_bytes_def)


lemma ma_repD:
  assumes "ma_rep g m pa ma F H h0 hs Ss"
  shows "pa_rep g m pa F H" "held_ok g F H" "geometry_ok g" "chain_ok m (ma_chain ma) hs Ss"
    and "length hs = length (ma_chain ma)" "length Ss = length (ma_chain ma)"
    and "k < length (ma_chain ma) \<Longrightarrow> slab_rep m (ma_chain ma ! k) (Ss ! k)"
    and "k < length (ma_chain ma) \<Longrightarrow> slab_shape (ma_chain ma ! k)"
    and "k < length (ma_chain ma) \<Longrightarrow> sl_elem_size (ma_chain ma ! k) = chain_unit_size (of_nat k)"
    and "k < length (ma_chain ma) \<Longrightarrow> slab_bytes (ma_chain ma ! k) \<subseteq> run_bytes (hs ! k)"
    and "k < length (ma_chain ma) \<Longrightarrow> hs ! k \<in> H \<and> hs ! k \<in> set (h0 # hs)"
    and "k < length (ma_chain ma) \<Longrightarrow> j < length (ma_chain ma) \<Longrightarrow> k \<noteq> j \<Longrightarrow> hs ! k \<noteq> hs ! j"
  using assms by (auto simp: ma_rep_def chain_ok_def pa_rep_def slab_rep_def nth_eq_iff_index_eq)

lemma map_bytes_not_run:
  assumes "held_ok g F H" and "h \<in> H" and "p \<in> map_bytes g"
  shows "unat p \<notin> run_bytes h"
proof -
  have "gf g \<le> fst h" using run_bounds(2) [OF assms(1), of "fst h" "snd h"] assms(2) by simp
  then have "gf g * 4096 \<le> fst h * 4096" by simp
  then show ?thesis using assms(3) by (auto simp: run_bytes_def map_bytes_def)
qed

lemma ma_rep_slab_update:
  assumes rep: "ma_rep g m pa ma F H h0 hs Ss" and k: "k < length (ma_chain ma)"
    and new: "slab_rep m' (ma_chain ma ! k) S'" and nx: "nexts m' = nexts m"
    and same: "\<And>p. unat p \<notin> slab_map_bytes (ma_chain ma ! k) \<Longrightarrow> bytes m' p = bytes m p"
  shows "ma_rep g m' pa ma F H h0 hs (Ss[k := S'])"
proof -
  note D = ma_repD [OF rep]
  have out: "bytes m' p = bytes m p" if "unat p \<notin> run_bytes (hs ! k)" for p
    using same [of p] D(10) [OF k] that by (auto simp: slab_bytes_def)
  have "pa_rep g m' pa F H"
    using out map_bytes_not_run [OF D(2)] D(11) [OF k] by (intro pa_rep_bytes [OF D(1) nx]) blast
  moreover have "slab_rep m' (ma_chain ma ! j) (Ss[k := S'] ! j)" if j: "j < length (ma_chain ma)" for j
  proof (cases "j = k")
    case True
    then show ?thesis using new k D(6) by simp
  next
    case False
    then have "slab_rep m' (ma_chain ma ! j) (Ss ! j)"
      using slab_rep_other [OF D(2) _ _ D(12) [OF j k False] D(7) [OF j] D(10) [OF j] out] D(11) [OF j] D(11) [OF k] by blast
    then show ?thesis using False by simp
  qed
  ultimately show ?thesis using rep by (simp add: ma_rep_def chain_ok_def)
qed

lemma ma_try_rep:
  assumes rep: "ma_rep g m pa ma F H h0 hs Ss" and "k \<le> length (ma_chain ma)"
  shows "(\<exists>j i m'. k \<le> j \<and> j < length (ma_chain ma) \<and> i \<notin> Ss ! j \<and> i < unat (sl_nelems (ma_chain ma ! j))
      \<and> ma_try m ma (of_nat k) = Inr (m', slab_ptr (ma_chain ma ! j) i)
      \<and> ma_rep g m' pa ma F H h0 hs (Ss[j := insert i (Ss ! j)]))
    \<or> ma_try m ma (of_nat k) = Inr (m, nullptr)
      \<and> (\<forall>j. k \<le> j \<and> j < length (ma_chain ma) \<longrightarrow> Ss ! j = {..<unat (sl_nelems (ma_chain ma ! j))})"
  using assms(2)
proof (induction "length (ma_chain ma) - k" arbitrary: k)
  case 0
  then have "k = unat (ma_chain_length ma)" using rep by (simp add: ma_rep_def)
  then have "of_nat k = ma_chain_length ma" by simp
  then show ?case using 0 by (subst (1 2) ma_try.simps) auto
next
  case (Suc d)
  then have k: "k < length (ma_chain ma)" and l: "unat (ma_chain_length ma) = length (ma_chain ma)"
    using rep by (auto simp: ma_rep_def)
  have uk: "unat (of_nat k :: u32) = k" using k rep by (simp add: unat_of_nat_u32 ma_rep_def)
  then have ne: "of_nat k \<noteq> ma_chain_length ma" using k l by auto
  let ?sl = "ma_chain ma ! k"
  note D = ma_repD [OF rep]
  show ?case
  proof (cases "Ss ! k = {..<unat (sl_nelems ?sl)}")
    case True
    then have "slab_allocate m ?sl = (m, nullptr)" using sl.alloc_full [of m ?sl] D(7) [OF k] by simp
    then have eq: "ma_try m ma (of_nat k) = ma_try m ma (of_nat (k + 1))"
      using ne k uk by (subst ma_try.simps) (simp add: add.commute)
    have full: "Ss ! j = {..<unat (sl_nelems (ma_chain ma ! j))}"
      if "\<forall>j. k + 1 \<le> j \<and> j < length (ma_chain ma) \<longrightarrow> Ss ! j = {..<unat (sl_nelems (ma_chain ma ! j))}"
        "k \<le> j" "j < length (ma_chain ma)" for j
      using that True by (cases "j = k") auto
    have "d = length (ma_chain ma) - (k + 1)" "k + 1 \<le> length (ma_chain ma)" using Suc.hyps(2) k by auto
    from Suc.hyps(1) [OF this] show ?thesis unfolding eq using full by (meson add_leD1)
  next
    case False
    obtain i m' where i: "i < unat (sl_nelems ?sl)" "i \<notin> Ss ! k" "slab_allocate m ?sl = (m', slab_ptr ?sl i)"
      "slab_rep m' ?sl (insert i (Ss ! k))" "nexts m' = nexts m"
      "\<And>p. unat p \<notin> slab_map_bytes ?sl \<Longrightarrow> bytes m' p = bytes m p"
      using slab_allocate_rep [OF D(7) [OF k]] False by auto
    have "ma_try m ma (of_nat k) = Inr (m', slab_ptr ?sl i)"
      using ne k uk i(3) slab_ptr_not_null [OF D(8) [OF k] i(1)] by (subst ma_try.simps) simp
    then show ?thesis using ma_rep_slab_update [OF rep k i(4,5,6)] i(1,2) k by blast
  qed
qed

text \<open>Every slab from the first one on has elements that are large enough.\<close>

lemma unat_chain_unit_size:
  assumes "k < 2 ^ 16"
  shows "unat (chain_unit_size (of_nat k)) = (if k = 0 then 8 else k * 16)"
proof -
  have "unat (of_nat k :: u32) = k" using assms by (simp add: unat_of_nat_u32)
  moreover from this have "(of_nat k :: u32) = 0 \<longleftrightarrow> k = 0" by (simp add: u32_eq_iff_unat)
  ultimately show ?thesis using assms by (simp add: chain_unit_size_def unat_mult_u32)
qed

lemma ma_first_slab_large:
  assumes "unat (ma_chain_length ma) = l" and "l < 2 ^ 16" and "unat n \<le> 4294963200"
  shows "unat (ma_first_slab ma n) \<le> l"
    and "unat (ma_first_slab ma n) \<le> k \<Longrightarrow> k < l \<Longrightarrow> unat n \<le> unat (chain_unit_size (of_nat k))"
proof -
  have idx: "unat (align_up 16 n div 16) = (unat n + 15) div 16"
    using unat_align_up_div [of 4 n] assms(3) by simp
  show "unat (ma_first_slab ma n) \<le> l"
    using assms(1) idx by (auto simp: ma_first_slab_def Let_def word_le_nat_alt)
  assume k: "unat (ma_first_slab ma n) \<le> k" "k < l"
  then have "n \<le> 8 \<or> (unat n + 15) div 16 \<le> k"
    using assms(1) idx by (auto simp: ma_first_slab_def Let_def split: if_splits)
  moreover have "unat n \<le> 8" if "n \<le> 8" using that by (simp add: word_le_nat_alt)
  moreover have "0 < (unat n + 15) div 16" if "\<not> n \<le> 8" using that by (simp add: word_le_nat_alt)
  ultimately show "unat n \<le> unat (chain_unit_size (of_nat k))"
    using unat_chain_unit_size [of k] k(2) assms(2) by (auto split: if_splits)
qed


lemma ma_rep_pages:
  assumes rep: "ma_rep g m pa ma F H h0 hs Ss" and new: "pa_rep g m' pa' F' H'" and sub: "set (h0 # hs) \<subseteq> H'"
    and same: "\<And>p. p \<notin> map_bytes g \<Longrightarrow> bytes m' p = bytes m p"
  shows "ma_rep g m' pa' ma F' H' h0 hs Ss"
proof -
  note D = ma_repD [OF rep]
  have "slab_rep m' (ma_chain ma ! k) (Ss ! k)" if k: "k < length (ma_chain ma)" for k
  proof (rule slab_rep_cong [OF D(7) [OF k]])
    fix p :: ptr
    assume "unat p \<in> slab_map_bytes (ma_chain ma ! k)"
    then have "unat p \<in> run_bytes (hs ! k)" using D(10) [OF k] by (auto simp: slab_bytes_def)
    then show "bytes m' p = bytes m p" using same [of p] map_bytes_not_run [OF D(2), of "hs ! k" p] D(11) [OF k] by blast
  qed
  then show ?thesis using rep new sub by (simp add: ma_rep_def chain_ok_def)
qed

lemma ma_fallback_rep:
  assumes rep: "ma_rep g m pa ma F H h0 hs Ss" and n: "unat n \<le> 4294963200"
  shows "\<exists>m' pa' p. pa_allocate m pa (align_up PAGE_SIZE n div PAGE_SIZE) = Inr (m', pa', p)
    \<and> ((\<exists>h. h \<notin> H \<and> run h \<subseteq> F \<and> p = frame_addr (fst h) \<and> unat n \<le> snd h * 4096
          \<and> ma_rep g m' pa' ma (F - run h) (insert h H) h0 hs Ss)
      \<or> (n = 0 \<and> p = zero_size_page \<or> p = nullptr) \<and> ma_rep g m' pa' ma F H h0 hs Ss)"
proof -
  note D = ma_repD [OF rep]
  have sub: "set (h0 # hs) \<subseteq> H" using rep by (simp add: ma_rep_def)
  define k where "k = align_up PAGE_SIZE n div PAGE_SIZE"
  have uk: "unat k = (unat n + 4095) div 4096"
    using unat_align_up_div [of 12 n] n by (simp add: k_def PAGE_SIZE_pow2 add.commute)
  show ?thesis unfolding k_def [symmetric]
  proof (cases "k = 0")
    case True
    then have "n = 0" using uk by (simp add: u32_eq_iff_unat)
    then show "\<exists>m' pa' p. pa_allocate m pa k = Inr (m', pa', p)
        \<and> ((\<exists>h. h \<notin> H \<and> run h \<subseteq> F \<and> p = frame_addr (fst h) \<and> unat n \<le> snd h * 4096
              \<and> ma_rep g m' pa' ma (F - run h) (insert h H) h0 hs Ss)
          \<or> (n = 0 \<and> p = zero_size_page \<or> p = nullptr) \<and> ma_rep g m' pa' ma F H h0 hs Ss)"
      using True rep by (simp add: pa_allocate_def)
  next
    case False
    have "unat k \<le> 2 ^ 31" using uk n by simp
    then obtain m' pa' p where alloc: "pa_allocate m pa k = Inr (m', pa', p)"
      and by': "\<And>q. q \<notin> map_bytes g \<Longrightarrow> bytes m' q = bytes m q"
      and res: "p = nullptr \<and> pa_rep g m' pa' F H \<or> (\<exists>x. p = frame_addr x \<and> {x..<x + unat k} \<subseteq> F
         \<and> pa_rep g m' pa' (F - {x..<x + unat k}) (insert (x, unat k) H))"
      using pa_allocate_rep [OF D(1) False] by (metis (no_types))
    from res show "\<exists>m' pa' p. pa_allocate m pa k = Inr (m', pa', p)
        \<and> ((\<exists>h. h \<notin> H \<and> run h \<subseteq> F \<and> p = frame_addr (fst h) \<and> unat n \<le> snd h * 4096
              \<and> ma_rep g m' pa' ma (F - run h) (insert h H) h0 hs Ss)
          \<or> (n = 0 \<and> p = zero_size_page \<or> p = nullptr) \<and> ma_rep g m' pa' ma F H h0 hs Ss)"
    proof (elim disjE exE conjE)
      assume "p = nullptr" "pa_rep g m' pa' F H"
      then show ?thesis using alloc ma_rep_pages [OF rep _ sub by'] by auto
    next
      fix x
      assume x: "p = frame_addr x" "{x..<x + unat k} \<subseteq> F"
        "pa_rep g m' pa' (F - {x..<x + unat k}) (insert (x, unat k) H)"
      have k0: "0 < unat k" using False by (simp add: unat_gt_0)
      have "(x, unat k) \<notin> H" using run_bounds(4) [OF D(2)] x(2) k0 by fastforce
      moreover have "unat n \<le> unat k * 4096" using uk by linarith
      moreover have "ma_rep g m' pa' ma (F - run (x, unat k)) (insert (x, unat k) H) h0 hs Ss"
        using ma_rep_pages [OF rep x(3) _ by'] sub by (auto simp: run_def)
      ultimately have "\<exists>h. h \<notin> H \<and> run h \<subseteq> F \<and> p = frame_addr (fst h) \<and> unat n \<le> snd h * 4096
        \<and> ma_rep g m' pa' ma (F - run h) (insert h H) h0 hs Ss"
        using x(1,2) by (intro exI [of _ "(x, unat k)"]) (simp add: run_def)
      then show ?thesis using alloc by blast
    qed
  qed
qed

lemma ma_allocate_rep:
  assumes rep: "ma_rep g m pa ma F H h0 hs Ss" and n: "unat n \<le> 4294963200"
  shows "\<exists>m' pa' p. ma_allocate m pa ma n = Inr (m', pa', p)
    \<and> ((\<exists>j i. j < length (ma_chain ma) \<and> i \<notin> Ss ! j \<and> i < unat (sl_nelems (ma_chain ma ! j))
          \<and> p = slab_ptr (ma_chain ma ! j) i \<and> unat n \<le> unat (sl_elem_size (ma_chain ma ! j))
          \<and> ma_rep g m' pa' ma F H h0 hs (Ss[j := insert i (Ss ! j)]))
      \<or> (\<exists>h. h \<notin> H \<and> run h \<subseteq> F \<and> p = frame_addr (fst h) \<and> unat n \<le> snd h * 4096
          \<and> ma_rep g m' pa' ma (F - run h) (insert h H) h0 hs Ss)
      \<or> (n = 0 \<and> p = zero_size_page \<or> p = nullptr) \<and> ma_rep g m' pa' ma F H h0 hs Ss)"
proof -
  note D = ma_repD [OF rep]
  let ?k = "unat (ma_first_slab ma n)"
  have l: "unat (ma_chain_length ma) = length (ma_chain ma)" "length (ma_chain ma) < 2 ^ 16"
    and ini: "ma_assert_initialized ma = Inr ()"
    using rep by (auto simp: ma_rep_def ma_assert_initialized_def)
  note first = ma_first_slab_large [OF l n]
  from ma_try_rep [OF rep first(1), unfolded of_nat_unat_u32] show ?thesis
  proof (elim disjE exE conjE)
    fix j i m'
    assume j: "?k \<le> j" "j < length (ma_chain ma)" and i: "i \<notin> Ss ! j" "i < unat (sl_nelems (ma_chain ma ! j))"
      and found: "ma_try m ma (ma_first_slab ma n) = Inr (m', slab_ptr (ma_chain ma ! j) i)"
      and rep': "ma_rep g m' pa ma F H h0 hs (Ss[j := insert i (Ss ! j)])"
    have "ma_allocate m pa ma n = Inr (m', pa, slab_ptr (ma_chain ma ! j) i)"
      using ini found slab_ptr_not_null [OF D(8) [OF j(2)] i(2)] by (simp add: ma_allocate_def)
    moreover have "unat n \<le> unat (sl_elem_size (ma_chain ma ! j))"
      using first(2) [OF j] D(9) [OF j(2)] by simp
    ultimately show ?thesis using j i rep' by blast
  next
    assume "ma_try m ma (ma_first_slab ma n) = Inr (m, nullptr)"
    then have eq: "ma_allocate m pa ma n = pa_allocate m pa (align_up PAGE_SIZE n div PAGE_SIZE)"
      using ini by (simp add: ma_allocate_def)
    show ?thesis unfolding eq using ma_fallback_rep [OF rep n] by blast
  qed
qed


subsection \<open>Live regions\<close>

lemma elem_in_run:
  assumes "ma_rep g m pa ma F H h0 hs Ss" and "k < length (ma_chain ma)" and "i \<in> Ss ! k"
  shows "i < unat (sl_nelems (ma_chain ma ! k))" and "slab_elem (ma_chain ma ! k) i \<subseteq> run_bytes (hs ! k)"
proof -
  show i: "i < unat (sl_nelems (ma_chain ma ! k))"
    using ma_repD(7) [OF assms(1,2)] assms(3) by (auto simp: slab_rep_def)
  show "slab_elem (ma_chain ma ! k) i \<subseteq> run_bytes (hs ! k)"
    using ma_repD(10) [OF assms(1,2)] i by (auto simp: slab_bytes_def)
qed

lemma ma_live_disjoint_elem:
  assumes rep: "ma_rep g m pa ma F H h0 hs Ss" and k: "k < length (ma_chain ma)"
    and i: "i < unat (sl_nelems (ma_chain ma ! k))" "i \<notin> Ss ! k" and L: "L \<in> ma_live ma H h0 hs Ss"
  shows "slab_elem (ma_chain ma ! k) i \<inter> L = {}"
proof -
  note D = ma_repD [OF rep]
  have sub: "slab_elem (ma_chain ma ! k) i \<subseteq> run_bytes (hs ! k)" using D(10) [OF k] i(1) by (auto simp: slab_bytes_def)
  from L consider (elem) j l where "L = slab_elem (ma_chain ma ! j) l" "j < length (ma_chain ma)" "l \<in> Ss ! j"
    | (run) h where "L = run_bytes h" "h \<in> H" "h \<notin> set (h0 # hs)" by (auto simp: ma_live_def)
  then show ?thesis
  proof cases
    case elem
    show ?thesis
    proof (cases "j = k")
      case True
      then show ?thesis using slab_elems_disjoint [of i l] elem i(2) by auto
    next
      case False
      have "run_bytes (hs ! k) \<inter> run_bytes (hs ! j) = {}"
        using run_bytes_disjoint [OF D(2)] D(11) [OF k] D(11) [OF elem(2)] D(12) [OF k elem(2)] False by blast
      then show ?thesis using sub elem_in_run(2) [OF rep elem(2,3)] elem(1) by blast
    qed
  next
    case run
    then have "run_bytes (hs ! k) \<inter> run_bytes h = {}"
      using run_bytes_disjoint [OF D(2), of "hs ! k" h] D(11) [OF k] by auto
    then show ?thesis using sub run(1) by blast
  qed
qed

lemma ma_live_disjoint_run:
  assumes rep: "ma_rep g m pa ma F (insert h H) h0 hs Ss" and h: "h \<notin> H" "set (h0 # hs) \<subseteq> H"
    and L: "L \<in> ma_live ma H h0 hs Ss"
  shows "run_bytes h \<inter> L = {}"
proof -
  note D = ma_repD [OF rep]
  from L consider (elem) j l where "L = slab_elem (ma_chain ma ! j) l" "j < length (ma_chain ma)" "l \<in> Ss ! j"
    | (run) k where "L = run_bytes k" "k \<in> H" by (auto simp: ma_live_def)
  then show ?thesis
  proof cases
    case elem
    have "hs ! j \<in> H" using D(5) elem(2) h(2) by auto
    then have "run_bytes h \<inter> run_bytes (hs ! j) = {}"
      using run_bytes_disjoint [OF D(2), of h "hs ! j"] h(1) by auto
    then show ?thesis using elem_in_run(2) [OF rep elem(2,3)] elem(1) by blast
  next
    case run
    then show ?thesis using run_bytes_disjoint [OF D(2), of h k] h(1) by auto
  qed
qed

lemma ma_live_insert_elem:
  assumes "k < length (ma_chain ma)" and "length Ss = length (ma_chain ma)"
  shows "ma_live ma H h0 hs (Ss[k := insert i (Ss ! k)]) = insert (slab_elem (ma_chain ma ! k) i) (ma_live ma H h0 hs Ss)"
proof -
  have "l \<in> Ss[k := insert i (Ss ! k)] ! j \<longleftrightarrow> l \<in> Ss ! j \<or> j = k \<and> l = i" if "j < length (ma_chain ma)" for j l
    using that assms by (cases "j = k") auto
  then show ?thesis using assms(1) by (auto simp: ma_live_def)
qed

lemma ma_live_insert_run:
  "h \<notin> set (h0 # hs) \<Longrightarrow> ma_live ma (insert h H) h0 hs Ss = insert (run_bytes h) (ma_live ma H h0 hs Ss)"
  by (auto simp: ma_live_def)


subsection \<open>Release\<close>

text \<open>An address belongs to the slab that has it in an element.\<close>

lemma ma_owner_rep:
  assumes rep: "ma_rep g m pa ma F H h0 hs Ss" and "s \<le> k" "k \<le> length (ma_chain ma)"
    and none: "\<And>j i. j < k \<Longrightarrow> i < unat (sl_nelems (ma_chain ma ! j)) \<Longrightarrow> unat p \<notin> slab_elem (ma_chain ma ! j) i"
    and found: "k < length (ma_chain ma) \<Longrightarrow> \<exists>i < unat (sl_nelems (ma_chain ma ! k)). unat p \<in> slab_elem (ma_chain ma ! k) i"
  shows "ma_owner ma p (of_nat s) = Inr (of_nat k)"
  using assms(2)
proof (induction "k - s" arbitrary: s)
  case 0
  then have s: "s = k" by simp
  have l: "unat (ma_chain_length ma) = length (ma_chain ma)" "length (ma_chain ma) < 2 ^ 16" using rep by (auto simp: ma_rep_def)
  show ?case
  proof (cases "k = length (ma_chain ma)")
    case True
    then have "of_nat k = ma_chain_length ma" by (metis l(1) of_nat_unat_u32)
    then show ?thesis using s by (subst ma_owner.simps) simp
  next
    case False
    then have k: "k < length (ma_chain ma)" using assms(3) by simp
    have "unat (of_nat k :: u32) = k" using k l by (simp add: unat_of_nat_u32)
    moreover have "slab_owns (ma_chain ma ! k) p = Inr True"
      using slab_owns_exact [OF ma_repD(8) [OF rep k]] found [OF k] by simp
    ultimately show ?thesis using s k by (subst ma_owner.simps) simp
  qed
next
  case (Suc d)
  have l: "unat (ma_chain_length ma) = length (ma_chain ma)" "length (ma_chain ma) < 2 ^ 16" using rep by (auto simp: ma_rep_def)
  have s: "s < k" "s < length (ma_chain ma)" using Suc.hyps(2) assms(3) by auto
  have us: "unat (of_nat s :: u32) = s" using s l by (simp add: unat_of_nat_u32)
  then have "of_nat s \<noteq> ma_chain_length ma" using s l by auto
  moreover have "slab_owns (ma_chain ma ! s) p = Inr False"
    using slab_owns_exact [OF ma_repD(8) [OF rep s(2)]] none [OF s(1)] by auto
  ultimately have "ma_owner ma p (of_nat s) = ma_owner ma p (of_nat (s + 1))"
    using us s(2) by (subst ma_owner.simps) (simp add: add.commute)
  then show ?case using Suc.hyps(1) [of "s + 1"] Suc.hyps(2) s(1) by simp
qed

lemma ma_deallocate_elem:
  assumes rep: "ma_rep g m pa ma F H h0 hs Ss" and k: "k < length (ma_chain ma)" and i: "i \<in> Ss ! k"
  shows "\<exists>m'. ma_deallocate m pa ma (slab_ptr (ma_chain ma ! k) i) = Inr (m', pa)
    \<and> ma_rep g m' pa ma F H h0 hs (Ss[k := Ss ! k - {i}])"
proof -
  note D = ma_repD [OF rep]
  let ?sl = "ma_chain ma ! k" and ?p = "slab_ptr (ma_chain ma ! k) i"
  note e = elem_in_run [OF rep k i]
  have "0 < unat (sl_elem_size ?sl)" using D(8) [OF k] by (simp add: slab_shape_def word_less_nat_alt)
  then have pin: "unat ?p \<in> slab_elem ?sl i" using slab_elem_start [OF D(8) [OF k] e(1)] by simp
  have "unat ?p \<notin> slab_elem (ma_chain ma ! j) l" if j: "j < k" "l < unat (sl_nelems (ma_chain ma ! j))" for j l
  proof -
    have j': "j < length (ma_chain ma)" using j k by simp
    have "run_bytes (hs ! j) \<inter> run_bytes (hs ! k) = {}"
      using run_bytes_disjoint [OF D(2)] D(11) [OF k] D(11) [OF j'] D(12) [OF j' k] j by blast
    moreover have "slab_elem (ma_chain ma ! j) l \<subseteq> run_bytes (hs ! j)"
      using D(10) [OF j'] j by (auto simp: slab_bytes_def)
    ultimately show ?thesis using pin e(2) by blast
  qed
  then have own: "ma_owner ma ?p 0 = Inr (of_nat k)"
    using ma_owner_rep [OF rep, of 0 k ?p] k e(1) pin by auto
  obtain m' where m': "slab_deallocate m ?sl ?p = Inr m'" "slab_rep m' ?sl (Ss ! k - {i})" "nexts m' = nexts m"
    "\<And>p. unat p \<notin> slab_map_bytes ?sl \<Longrightarrow> bytes m' p = bytes m p"
    using slab_deallocate_rep [OF D(7) [OF k] i] by blast
  have "unat (of_nat k :: u32) = k" "unat (ma_chain_length ma) = length (ma_chain ma)" "ma_initialized ma"
    using k rep by (simp_all add: unat_of_nat_u32 ma_rep_def)
  then have "ma_deallocate m pa ma ?p = Inr (m', pa)"
    using own m'(1) k by (auto simp: ma_deallocate_def ma_assert_initialized_def)
  then show ?thesis using ma_rep_slab_update [OF rep k m'(2,3,4)] by blast
qed

lemma ma_deallocate_run:
  assumes rep: "ma_rep g m pa ma F H h0 hs Ss" and h: "h \<in> H" "h \<notin> set (h0 # hs)"
  shows "\<exists>m' pa'. ma_deallocate m pa ma (frame_addr (fst h)) = Inr (m', pa')
    \<and> ma_rep g m' pa' ma (F \<union> run h) (H - {h}) h0 hs Ss"
proof -
  note D = ma_repD [OF rep]
  obtain x n where hx: "h = (x, n)" by (cases h)
  note b = run_bounds [OF D(2), of x n]
  have "x < max_frame" using b h(1) D(3) by (simp add: hx geometry_ok_def)
  then have pin: "unat (frame_addr x) \<in> run_bytes h" using b h(1) by (simp add: hx run_bytes_def unat_frame_addr)
  have "unat (frame_addr x) \<notin> slab_elem (ma_chain ma ! j) l"
    if j: "j < length (ma_chain ma)" "l < unat (sl_nelems (ma_chain ma ! j))" for j l
  proof -
    have "run_bytes (hs ! j) \<inter> run_bytes h = {}"
      using run_bytes_disjoint [OF D(2)] D(11) [OF j(1)] h by metis
    moreover have "slab_elem (ma_chain ma ! j) l \<subseteq> run_bytes (hs ! j)"
      using D(10) [OF j(1)] j by (auto simp: slab_bytes_def)
    ultimately show ?thesis using pin by blast
  qed
  then have own: "ma_owner ma (frame_addr x) 0 = Inr (of_nat (length (ma_chain ma)))"
    using ma_owner_rep [OF rep, of 0 "length (ma_chain ma)"] by simp
  have len: "of_nat (length (ma_chain ma)) = ma_chain_length ma" and ini: "ma_initialized ma"
    and sub: "set (h0 # hs) \<subseteq> H - {h}"
    using rep h(2) by (auto simp: ma_rep_def) (metis of_nat_unat_u32)
  obtain m' pa' where d: "pa_deallocate m pa (frame_addr x) = Inr (m', pa')"
    "pa_rep g m' pa' (F \<union> run h) (H - {h})" "\<And>q. q \<notin> map_bytes g \<Longrightarrow> bytes m' q = bytes m q"
    using pa_deallocate_rep [OF D(1), of x n] h(1) by (auto simp: hx run_def)
  have "ma_deallocate m pa ma (frame_addr x) = Inr (m', pa')"
    using own len ini d(1) by (simp add: ma_deallocate_def ma_assert_initialized_def)
  then show ?thesis using ma_rep_pages [OF rep d(2) sub d(3)] by (auto simp: hx)
qed


section \<open>Initialisation\<close>

text \<open>
  A slab of at most 2 MiB takes its run out of one naturally aligned group of 512 frames, or of 1024, so a pool
  with as many free groups as there are slabs can serve the chain.
\<close>

definition groups :: "nat \<Rightarrow> nat set \<Rightarrow> nat set" where
  "groups i F = {q. block i (2 ^ i * q) \<subseteq> F}"

lemma groups_finite:
  assumes "F \<subseteq> frames"
  shows "finite (groups i F)"
proof (rule finite_subset)
  show "groups i F \<subseteq> {..<max_frame}"
  proof
    fix q assume "q \<in> groups i F"
    then have "2 ^ i * q \<in> F" using block_head [of "2 ^ i * q" i] by (auto simp: groups_def)
    then have "2 ^ i * q < max_frame" using assms by auto
    moreover have "1 * q \<le> 2 ^ i * q" by (rule mult_right_mono) simp_all
    ultimately show "q \<in> {..<max_frame}" unfolding lessThan_iff by linarith
  qed
qed simp

lemma aligned_run_in_group:
  assumes "aligned_for n x" and "n \<le> 512" and "9 \<le> k"
  shows "{x..<x + n} \<subseteq> block k (2 ^ k * (x div 2 ^ k))"
proof -
  obtain i where i: "i \<le> 10" "n \<le> 2 ^ i" "2 ^ i dvd x" using assms(1) by (auto simp: aligned_for_def)
  define j where "j = min i 9"
  have j: "j \<le> k" "2 ^ j dvd x" "n \<le> 2 ^ j"
    using i assms(2,3) power_le_dvd [OF i(3), of j] by (auto simp: j_def min_def)
  have "x mod 2 ^ k < 2 ^ k" by simp
  then have "x \<in> block k (2 ^ k * (x div 2 ^ k))" unfolding block_def atLeastLessThan_iff
    using mult_div_mod_eq [of "2 ^ k" x] by linarith
  then have "block k (2 ^ k * (x div 2 ^ k)) \<inter> block j x \<noteq> {}" using block_head [of x j] by blast
  then have "block j x \<subseteq> block k (2 ^ k * (x div 2 ^ k))" using block_containing [of k "2 ^ k * (x div 2 ^ k)" j x] j by simp
  moreover have "{x..<x + n} \<subseteq> block j x" using j(3) by (auto simp: block_def)
  ultimately show ?thesis by blast
qed

lemma groups_disjoint:
  assumes "q \<noteq> r"
  shows "block k (2 ^ k * q) \<inter> block k (2 ^ k * r) = {}"
proof (rule ccontr)
  assume "block k (2 ^ k * q) \<inter> block k (2 ^ k * r) \<noteq> {}"
  then have "2 ^ k * q < 2 ^ k * (r + 1)" "2 ^ k * r < 2 ^ k * (q + 1)" by (auto simp: block_def)
  then have "q < r + 1" "r < q + 1" by (simp_all only: mult_less_cancel1)
  then show False using assms by simp
qed

lemma groups_remove:
  assumes "aligned_for (snd h) (fst h)" and "snd h \<le> 512" and "9 \<le> k"
  shows "groups k F - {fst h div 2 ^ k} \<subseteq> groups k (F - run h)"
proof
  fix q assume q: "q \<in> groups k F - {fst h div 2 ^ k}"
  have "run h \<subseteq> block k (2 ^ k * (fst h div 2 ^ k))"
    using aligned_run_in_group [OF assms] by (cases h) (simp add: run_def)
  moreover have "block k (2 ^ k * q) \<inter> block k (2 ^ k * (fst h div 2 ^ k)) = {}" using q by (intro groups_disjoint) auto
  ultimately show "q \<in> groups k (F - run h)" using q by (auto simp: groups_def)
qed

lemma groups_left:
  assumes "aligned_for (snd h) (fst h)" and "snd h \<le> 512" and "9 \<le> k" and "F \<subseteq> frames" and "Suc c \<le> card (groups k F)"
  shows "c \<le> card (groups k (F - run h))"
proof -
  have "c \<le> card (groups k F - {fst h div 2 ^ k})"
    using assms(5) by (cases "fst h div 2 ^ k \<in> groups k F") (auto simp: card_Diff_singleton_if)
  also have "\<dots> \<le> card (groups k (F - run h))"
    using groups_remove [OF assms(1-3)] groups_finite [of "F - run h"] assms(4) by (intro card_mono) auto
  finally show ?thesis .
qed

lemma slab_initialize_succeeds:
  assumes rep: "pa_rep g m pa F H" and pos: "0 < es" "0 < n"
    and fits: "unat es * unat n + (unat n + 7) div 8 \<le> 2 ^ 21 - 4096"
    and avail: "9 \<le> gr" "gr \<le> 10" "Suc c \<le> card (groups gr F)"
  shows "\<exists>m' pa' sl' h. slab_initialize m pa sl es n = Inr (m', pa', sl', True)
    \<and> pa_rep g m' pa' (F - run h) (insert h H) \<and> h \<notin> H \<and> c \<le> card (groups gr (F - run h))
    \<and> slab_rep m' sl' {} \<and> sl_elem_size sl' = es \<and> sl_nelems sl' = n \<and> slab_bytes sl' \<subseteq> run_bytes h
    \<and> (\<forall>p. p \<notin> map_bytes g \<and> unat p \<notin> run_bytes h \<longrightarrow> bytes m' p = bytes m p)"
proof -
  have cnt: "slab_page_count (unat es) (unat n) \<le> 512" using fits by (simp add: slab_page_count_def)
  have F: "F \<subseteq> frames" using rep bud_pool_frames by (auto simp: pa_rep_def)
  have held: "held_ok g F H" using rep by (simp add: pa_rep_def)
  have "groups gr F \<noteq> {}" using avail(3) by auto
  then obtain q where q: "block gr (2 ^ gr * q) \<subseteq> F" by (auto simp: groups_def)
  have lim: "unat es * unat n + (unat n + 7) div 8 + 4096 \<le> 4294967296" using fits by simp
  obtain m' pa' sl' ok where ini: "slab_initialize m pa sl es n = Inr (m', pa', sl', ok)"
    and res: "if ok then \<exists>h. pa_rep g m' pa' (F - run h) (insert h H) \<and> run h \<subseteq> F \<and> 0 < snd h
          \<and> slab_rep m' sl' {} \<and> sl_elem_size sl' = es \<and> sl_nelems sl' = n
          \<and> aligned_for (snd h) (fst h) \<and> snd h = slab_page_count (unat es) (unat n)
          \<and> sl_area sl' = frame_addr (fst h) \<and> slab_bytes sl' \<subseteq> run_bytes h
          \<and> (\<forall>p. p \<notin> map_bytes g \<and> unat p \<notin> run_bytes h \<longrightarrow> bytes m' p = bytes m p)
        else pa_rep g m' pa' F H
          \<and> (\<forall>i x. i \<le> 10 \<and> slab_page_count (unat es) (unat n) \<le> 2 ^ i \<and> 2 ^ i dvd x \<longrightarrow> \<not> block i x \<subseteq> F)"
    using slab_initialize_rep [OF rep pos lim] by blast
  have "(512::nat) \<le> 2 ^ gr" using power_increasing [OF avail(1), of "2 :: nat"] by simp
  then have "gr \<le> 10 \<and> slab_page_count (unat es) (unat n) \<le> 2 ^ gr \<and> 2 ^ gr dvd 2 ^ gr * q" using cnt avail(2) by simp
  then have ok using res q by metis
  then obtain h where h: "pa_rep g m' pa' (F - run h) (insert h H)" "run h \<subseteq> F" "0 < snd h" "slab_rep m' sl' {}"
    "sl_elem_size sl' = es" "sl_nelems sl' = n" "aligned_for (snd h) (fst h)" "snd h = slab_page_count (unat es) (unat n)"
    "slab_bytes sl' \<subseteq> run_bytes h" "\<forall>p. p \<notin> map_bytes g \<and> unat p \<notin> run_bytes h \<longrightarrow> bytes m' p = bytes m p"
    using res by auto
  have "run h \<noteq> {}" using h(3) by (cases h) (simp add: run_def)
  then have "h \<notin> H" using held h(2) unfolding held_ok_def by blast
  moreover have "c \<le> card (groups gr (F - run h))" using groups_left [OF h(7) _ avail(1) F avail(3)] h(8) cnt by simp
  moreover have "slab_initialize m pa sl es n = Inr (m', pa', sl', True)" using ini \<open>ok\<close> by simp
  ultimately show ?thesis using h by blast
qed


text \<open>The sizes of the slabs of a chain.\<close>

lemma chain_slab_size:
  assumes "8 \<le> unat cm" "unat cm \<le> 2 ^ 20" and "i < l" "l < 2 ^ 16" "16 * l \<le> unat cm"
  defines "es \<equiv> chain_unit_size (of_nat i)"
  shows "0 < es" "0 < cm div es" and "unat es * unat (cm div es) + (unat (cm div es) + 7) div 8 \<le> 2 ^ 21 - 4096"
proof -
  have es: "unat es = (if i = 0 then 8 else i * 16)" using unat_chain_unit_size [of i] assms(3,4) by (simp add: es_def)
  then have es8: "8 \<le> unat es" "unat es \<le> unat cm" using assms(1,3,5) by (auto split: if_splits)
  then show "0 < es" by (simp add: word_less_nat_alt)
  have n: "unat (cm div es) = unat cm div unat es" by (rule unat_div_u32)
  have "0 < unat cm div unat es" using es8 by (simp add: div_greater_zero_iff)
  then show "0 < cm div es" using n by (simp add: word_less_nat_alt)
  have arith: "a + (b + 7) div 8 \<le> 2 ^ 21 - 4096" if "a \<le> unat cm" "b \<le> unat cm" for a b :: nat
    using that assms(2) by simp
  show "unat es * unat (cm div es) + (unat (cm div es) + 7) div 8 \<le> 2 ^ 21 - 4096"
    unfolding n by (rule arith) simp_all
qed

text \<open>What is known of a part of the chain that starts at index \<open>k\<close>.\<close>

definition chain_from :: "store \<Rightarrow> u32 \<Rightarrow> nat \<Rightarrow> slab list \<Rightarrow> (nat \<times> nat) list \<Rightarrow> bool" where
  "chain_from m cm k sls hs \<longleftrightarrow> length hs = length sls
     \<and> (\<forall>j < length sls. slab_rep m (sls ! j) {} \<and> sl_elem_size (sls ! j) = chain_unit_size (of_nat (k + j))
          \<and> sl_nelems (sls ! j) = cm div chain_unit_size (of_nat (k + j))
          \<and> slab_bytes (sls ! j) \<subseteq> run_bytes (hs ! j))"

lemma ma_init_chain_rep:
  assumes "pa_rep g m pa F H" and "8 \<le> unat cm" "unat cm \<le> 2 ^ 20" and "k + c = l" "l < 2 ^ 16" "16 * l \<le> unat cm"
    and "c + d \<le> card (groups gr F)" and gr: "9 \<le> gr" "gr \<le> 10"
  shows "\<exists>m' pa' sls hs F'. ma_init_chain m pa cm [k..<l] = Inr (m', pa', sls)
    \<and> pa_rep g m' pa' F' (H \<union> set hs) \<and> distinct hs \<and> set hs \<inter> H = {} \<and> length sls = c
    \<and> d \<le> card (groups gr F') \<and> chain_from m' cm k sls hs
    \<and> (\<forall>p. p \<notin> map_bytes g \<and> (\<forall>h\<in>set hs. unat p \<notin> run_bytes h) \<longrightarrow> bytes m' p = bytes m p)"
  using assms(1,4,7)
proof (induction c arbitrary: m pa F H k)
  case 0
  then show ?case by (auto simp: chain_from_def intro!: exI [of _ F])
next
  case (Suc c)
  then have k: "k < l" by simp
  let ?es = "chain_unit_size (of_nat k)"
  obtain m1 pa1 sl h where ini: "slab_initialize m pa slab_default ?es (cm div ?es) = Inr (m1, pa1, sl, True)"
    and rep1: "pa_rep g m1 pa1 (F - run h) (insert h H)" and h: "h \<notin> H" and av: "c + d \<le> card (groups gr (F - run h))"
    and sl: "slab_rep m1 sl {}" "sl_elem_size sl = ?es" "slab_bytes sl \<subseteq> run_bytes h" "sl_nelems sl = cm div ?es"
    and by1: "\<forall>p. p \<notin> map_bytes g \<and> unat p \<notin> run_bytes h \<longrightarrow> bytes m1 p = bytes m p"
    using slab_initialize_succeeds [OF Suc.prems(1) chain_slab_size [OF assms(2,3) k assms(5,6)] gr, of "c + d" slab_default]
      Suc.prems(3) by auto
  obtain m2 pa2 sls hs F' where IH: "ma_init_chain m1 pa1 cm [Suc k..<l] = Inr (m2, pa2, sls)"
    "pa_rep g m2 pa2 F' (insert h H \<union> set hs)" "distinct hs" "set hs \<inter> insert h H = {}" "length sls = c"
    "d \<le> card (groups gr F')" "chain_from m2 cm (Suc k) sls hs"
    "\<forall>p. p \<notin> map_bytes g \<and> (\<forall>h\<in>set hs. unat p \<notin> run_bytes h) \<longrightarrow> bytes m2 p = bytes m1 p"
  proof -
    have "Suc k + c = l" using Suc.prems(2) by simp
    from Suc.IH [OF rep1 this av] show ?thesis using that by blast
  qed
  have held: "held_ok g F' (insert h H \<union> set hs)" using IH(2) by (simp add: pa_rep_def)
  have "slab_rep m2 sl {}"
  proof (rule slab_rep_cong [OF sl(1)])
    fix p :: ptr
    assume "unat p \<in> slab_map_bytes sl"
    then have p: "unat p \<in> run_bytes h" using sl(3) by (auto simp: slab_bytes_def)
    then have "p \<notin> map_bytes g" using map_bytes_not_run [OF held, of h p] by auto
    moreover have "unat p \<notin> run_bytes j" if "j \<in> set hs" for j
      using run_bytes_disjoint [OF held, of h j] that IH(4) p by auto
    ultimately show "bytes m2 p = bytes m1 p" using IH(8) by blast
  qed
  then have "chain_from m2 cm k (sl # sls) (h # hs)"
    using IH(7) sl(2-4) by (auto simp: chain_from_def nth_Cons add.left_commute split: nat.splits)
  moreover have "[k..<l] = k # [Suc k..<l]" using k by (simp add: upt_conv_Cons)
  moreover have "insert h H \<union> set hs = H \<union> set (h # hs)" by simp
  ultimately show ?case
    using ini IH h by1
    by (intro exI [of _ m2] exI [of _ pa2] exI [of _ "sl # sls"] exI [of _ "h # hs"] exI [of _ F']) auto
qed


lemma ma_initialize_rep:
  assumes rep: "pa_rep g m pa F H" and cm: "8 \<le> unat cm" "unat cm \<le> 2 ^ 20" "unat l < 2 ^ 16" "16 * unat l \<le> unat cm"
    and l: "0 < l" and sz: "0 < sz" "unat sz * unat l \<le> 2 ^ 20" and avail: "Suc (unat l) + d \<le> card (groups gr F)" and gr: "9 \<le> gr" "gr \<le> 10"
  shows "\<exists>m' pa' ma' F' h0 hs. ma_initialize m pa ma sz cm l = Inr (m', pa', ma')
    \<and> ma_rep g m' pa' ma' F' (insert h0 (H \<union> set hs)) h0 hs (replicate (unat l) {}) \<and> ma_chain_length ma' = l
    \<and> set (h0 # hs) \<inter> H = {} \<and> d \<le> card (groups gr F') \<and> (\<forall>k < unat l. sl_nelems (ma_chain ma' ! k) = cm div chain_unit_size (of_nat k))"
proof -
  have es: "unat (sz * l) = unat sz * unat l" using sz(2) by (intro unat_mult_u32) simp
  have "0 < unat sz * unat l" using l sz(1) by (simp add: word_less_nat_alt)
  then have es0: "0 < sz * l" using es by (simp add: word_less_nat_alt)
  have "unat (sz * l) * unat (1 :: u32) + (unat (1 :: u32) + 7) div 8 \<le> 2 ^ 21 - 4096" using es sz(2) by simp
  then obtain m1 pa1 sl h0 where ini: "slab_initialize m pa (ma_internal ma) (sz * l) 1 = Inr (m1, pa1, sl, True)"
    and rep1: "pa_rep g m1 pa1 (F - run h0) (insert h0 H)" and h0: "h0 \<notin> H" and av: "unat l + d \<le> card (groups gr (F - run h0))"
    and sl: "slab_rep m1 sl {}" "sl_nelems sl = 1" "slab_bytes sl \<subseteq> run_bytes h0"
    using slab_initialize_succeeds [OF rep es0 _ _ gr, of 1 "unat l + d" "ma_internal ma"] avail by auto
  obtain i m2 where al: "i < 1" "slab_allocate m1 sl = (m2, slab_ptr sl i)" "nexts m2 = nexts m1"
    "\<forall>p. unat p \<notin> slab_map_bytes sl \<longrightarrow> bytes m2 p = bytes m1 p"
    using slab_allocate_rep [OF sl(1)] sl(2) by (auto simp: lessThan_Suc split: if_splits)
  have nn: "slab_ptr sl i \<noteq> nullptr" using slab_ptr_not_null [of sl i] sl(1,2) al(1) by (simp add: slab_rep_def)
  have held1: "held_ok g (F - run h0) (insert h0 H)" using rep1 by (simp add: pa_rep_def)
  have rep2: "pa_rep g m2 pa1 (F - run h0) (insert h0 H)"
  proof (rule pa_rep_bytes [OF rep1 al(3)])
    fix p assume "p \<in> map_bytes g"
    then have "unat p \<notin> slab_map_bytes sl" using map_bytes_not_run [OF held1, of h0 p] sl(3) by (auto simp: slab_bytes_def)
    then show "bytes m2 p = bytes m1 p" using al(4) by blast
  qed
  have "0 + unat l = unat l" by simp
  from ma_init_chain_rep [OF rep2 cm(1,2) this cm(3,4) av gr]
  obtain m3 pa2 sls hs F' where ch: "ma_init_chain m2 pa1 cm [0..<unat l] = Inr (m3, pa2, sls)"
    "pa_rep g m3 pa2 F' (insert h0 H \<union> set hs)" "distinct hs" "set hs \<inter> insert h0 H = {}" "length sls = unat l"
    "chain_from m3 cm 0 sls hs" "d \<le> card (groups gr F')"
    by blast
  let ?ma = "\<lparr>ma_chain_length = l, ma_chain_ptr = slab_ptr sl i, ma_chain = sls, ma_internal = sl, ma_initialized = True\<rparr>"
  have "ma_initialize m pa ma sz cm l = Inr (m3, pa2, ?ma)"
    using ini al(2) nn ch(1) by (simp add: ma_initialize_def Let_def)
  moreover have "ma_rep g m3 pa2 ?ma F' (insert h0 (H \<union> set hs)) h0 hs (replicate (unat l) {})"
    using ch cm(3) by (auto simp: ma_rep_def chain_ok_def chain_from_def)
  moreover have "set (h0 # hs) \<inter> H = {}" using h0 ch(4) by auto
  moreover have "ma_chain_length ?ma = l" by simp
  moreover have "\<forall>k < unat l. sl_nelems (ma_chain ?ma ! k) = cm div chain_unit_size (of_nat k)" using ch(5,6) by (simp add: chain_from_def)
  ultimately show ?thesis using ch(7) by blast
qed

section \<open>Regions in use\<close>

text \<open>
  \<^verbatim>\<open>Mallocator::allocate\<close> returns for every size up to the last page of the address space. A
  non-null result is the start of a region that holds the requested bytes, that overlaps no region
  in use and that is in use from then on; the allocators stay consistent. A request of no bytes may
  also return the reserved address of empty blocks.
\<close>

lemma ma_allocate_fresh:
  assumes "ma_rep g m pa ma F H h0 hs Ss" and "unat n \<le> 4294963200"
  shows "\<exists>m' pa' p F' H' Ss'. ma_allocate m pa ma n = Inr (m', pa', p) \<and> ma_rep g m' pa' ma F' H' h0 hs Ss'
    \<and> ((p = nullptr \<or> n = 0 \<and> p = zero_size_page) \<and> ma_live ma H' h0 hs Ss' = ma_live ma H h0 hs Ss
      \<or> (\<exists>k. unat n \<le> k \<and> 0 < k \<and> p \<noteq> nullptr
          \<and> ma_live ma H' h0 hs Ss' = insert {unat p..<unat p + k} (ma_live ma H h0 hs Ss)
          \<and> (\<forall>L\<in>ma_live ma H h0 hs Ss. {unat p..<unat p + k} \<inter> L = {})))"
proof -
  note D = ma_repD [OF assms(1)]
  have sub: "set (h0 # hs) \<subseteq> H" using assms(1) by (simp add: ma_rep_def)
  obtain m' pa' p where alloc: "ma_allocate m pa ma n = Inr (m', pa', p)"
    and res: "(\<exists>j i. j < length (ma_chain ma) \<and> i \<notin> Ss ! j \<and> i < unat (sl_nelems (ma_chain ma ! j))
          \<and> p = slab_ptr (ma_chain ma ! j) i \<and> unat n \<le> unat (sl_elem_size (ma_chain ma ! j))
          \<and> ma_rep g m' pa' ma F H h0 hs (Ss[j := insert i (Ss ! j)]))
      \<or> (\<exists>h. h \<notin> H \<and> p = frame_addr (fst h) \<and> unat n \<le> snd h * 4096
          \<and> ma_rep g m' pa' ma (F - run h) (insert h H) h0 hs Ss)
      \<or> (n = 0 \<and> p = zero_size_page \<or> p = nullptr) \<and> ma_rep g m' pa' ma F H h0 hs Ss"
    using ma_allocate_rep [OF assms] by blast
  from res show ?thesis
  proof (elim disjE exE conjE)
    fix j i
    assume j: "j < length (ma_chain ma)" and i: "i \<notin> Ss ! j" "i < unat (sl_nelems (ma_chain ma ! j))"
      and p: "p = slab_ptr (ma_chain ma ! j) i" and n: "unat n \<le> unat (sl_elem_size (ma_chain ma ! j))"
      and rep': "ma_rep g m' pa' ma F H h0 hs (Ss[j := insert i (Ss ! j)])"
    have "0 < unat (sl_elem_size (ma_chain ma ! j))" using D(8) [OF j] by (simp add: slab_shape_def word_less_nat_alt)
    moreover have e: "slab_elem (ma_chain ma ! j) i = {unat p..<unat p + unat (sl_elem_size (ma_chain ma ! j))}"
      using slab_elem_start [OF D(8) [OF j] i(2)] p by simp
    moreover have "p \<noteq> nullptr" using slab_ptr_not_null [OF D(8) [OF j] i(2)] p by simp
    ultimately show ?thesis
      using alloc rep' n ma_live_insert_elem [OF j D(6), of H h0 hs i, unfolded e]
        ma_live_disjoint_elem [OF assms(1) j i(2,1), unfolded e] by blast
  next
    fix h
    assume h: "h \<notin> H" and p: "p = frame_addr (fst h)" and n: "unat n \<le> snd h * 4096"
      and rep': "ma_rep g m' pa' ma (F - run h) (insert h H) h0 hs Ss"
    have b: "0 < snd h" "gf g \<le> fst h" "fst h + snd h \<le> ge g"
      using run_bounds [OF ma_repD(2) [OF rep'], of "fst h" "snd h"] by simp_all
    then have x: "fst h \<in> frames" using D(3) by (auto simp: geometry_ok_def)
    have e: "run_bytes h = {unat p..<unat p + snd h * 4096}"
      using p x by (simp add: run_bytes_def unat_frame_addr algebra_simps)
    have "h \<notin> set (h0 # hs)" using h sub by blast
    note live = ma_live_insert_run [OF this, of ma H Ss, unfolded e]
      and dis = ma_live_disjoint_run [OF rep' h sub, unfolded e]
    have "0 < snd h * 4096" "p \<noteq> nullptr" using b(1) frame_addr_null [OF x] p by simp_all
    then show ?thesis using alloc rep' n live dis by blast
  next
    assume "n = 0" "p = zero_size_page" "ma_rep g m' pa' ma F H h0 hs Ss"
    then show ?thesis using alloc by blast
  next
    assume "p = nullptr" "ma_rep g m' pa' ma F H h0 hs Ss"
    then show ?thesis using alloc by blast
  qed
qed

text \<open>
  \<^verbatim>\<open>Mallocator::deallocate\<close> of the start of a region in use returns, takes exactly this region out
  of use and keeps the allocators consistent.
\<close>

lemma ma_deallocate_releases:
  assumes rep: "ma_rep g m pa ma F H h0 hs Ss" and L: "L \<in> ma_live ma H h0 hs Ss"
    and p: "unat p \<in> L" "\<forall>a\<in>L. unat p \<le> a"
  shows "\<exists>m' pa' F' H' Ss'. ma_deallocate m pa ma p = Inr (m', pa') \<and> ma_rep g m' pa' ma F' H' h0 hs Ss'
    \<and> ma_live ma H' h0 hs Ss' = ma_live ma H h0 hs Ss - {L}"
proof -
  note D = ma_repD [OF rep]
  have sub: "set (h0 # hs) \<subseteq> H" using rep by (simp add: ma_rep_def)
  have start: "p = q" if "L = {unat q..<unat q + k}" for q k
  proof -
    have "unat q \<le> unat p" "unat q \<in> L" using that p(1) by auto
    then show ?thesis using p(2) by (auto simp: u32_eq_iff_unat)
  qed
  from L consider (elem) k i where "L = slab_elem (ma_chain ma ! k) i" "k < length (ma_chain ma)" "i \<in> Ss ! k"
    | (run) h where "L = run_bytes h" "h \<in> H" "h \<notin> set (h0 # hs)" by (auto simp: ma_live_def)
  then show ?thesis
  proof cases
    case elem
    note e = elem_in_run [OF rep elem(2,3)]
    have q: "p = slab_ptr (ma_chain ma ! k) i"
      using start slab_elem_start [OF D(8) [OF elem(2)] e(1)] elem(1) by blast
    obtain m' where d: "ma_deallocate m pa ma p = Inr (m', pa)" "ma_rep g m' pa ma F H h0 hs (Ss[k := Ss ! k - {i}])"
      using ma_deallocate_elem [OF rep elem(2,3)] q by blast
    let ?Ss = "Ss[k := Ss ! k - {i}]"
    have "?Ss[k := insert i (?Ss ! k)] = Ss" using elem(2,3) D(6) by (simp add: insert_absorb)
    then have live: "ma_live ma H h0 hs Ss = insert L (ma_live ma H h0 hs ?Ss)"
      using ma_live_insert_elem [of k ma ?Ss H h0 hs i] elem D(6) by simp
    have "L \<notin> ma_live ma H h0 hs ?Ss"
      using ma_live_disjoint_elem [OF d(2) elem(2) e(1), of L] elem D(6) p(1) by auto
    then show ?thesis using d live by blast
  next
    case run
    have b: "gf g \<le> fst h" "fst h + snd h \<le> ge g" using run_bounds [OF D(2), of "fst h" "snd h"] run(2) by simp_all
    then have "fst h < max_frame" using D(3) by (auto simp: geometry_ok_def)
    then have "run_bytes h = {unat (frame_addr (fst h))..<unat (frame_addr (fst h)) + snd h * 4096}"
      by (simp add: run_bytes_def unat_frame_addr algebra_simps)
    then have q: "p = frame_addr (fst h)" using start run(1) by blast
    obtain m' pa' where d: "ma_deallocate m pa ma p = Inr (m', pa')" "ma_rep g m' pa' ma (F \<union> run h) (H - {h}) h0 hs Ss"
      using ma_deallocate_run [OF rep run(2,3)] q by blast
    have "insert h (H - {h}) = H" "set (h0 # hs) \<subseteq> H - {h}" using run(2,3) sub by auto
    then have live: "ma_live ma H h0 hs Ss = insert L (ma_live ma (H - {h}) h0 hs Ss)"
      using ma_live_insert_run [OF run(3), of ma "H - {h}" Ss] run(1) by simp
    have "L \<notin> ma_live ma (H - {h}) h0 hs Ss"
    proof
      assume "L \<in> ma_live ma (H - {h}) h0 hs Ss"
      from ma_live_disjoint_run [OF _ _ \<open>set (h0 # hs) \<subseteq> H - {h}\<close> this, of g m pa F h]
      show False using rep run(1) p(1) \<open>insert h (H - {h}) = H\<close> by auto
    qed
    then show ?thesis using d live by blast
  qed
qed

end
