(* ===== verification/Kernel_Memory.thy ===== *)
theory Kernel_Memory
  imports Mallocator "HOL-Library.Disjoint_Sets"
begin

text \<open>
  \<^verbatim>\<open>memory/memory.cpp\<close>, \<^verbatim>\<open>kobj/multiboot_info.cpp\<close>, \<^verbatim>\<open>kobj/multiboot_header.cpp\<close> and \<^verbatim>\<open>kobj/kernel_object.cpp\<close>: the one
  instance of each allocator that the kernel has, how they are set up from the information of the
  boot loader, and the entry points \<^verbatim>\<open>alloc_pages\<close>, \<^verbatim>\<open>free_pages\<close>, \<^verbatim>\<open>kmalloc\<close> and \<^verbatim>\<open>kfree\<close>.
\<close>

section \<open>Definitions\<close>

record boot_info =
  bi_flags :: u32
  bi_mem_lower :: u32
  bi_mem_upper :: u32

definition mem_info :: u32 where
  "mem_info = push_bit 0 1"

definition is_meminfo_valid :: "boot_info \<Rightarrow> bool" where
  "is_meminfo_valid bi \<longleftrightarrow> bi_flags bi AND mem_info \<noteq> 0"

definition low_memory :: "boot_info \<Rightarrow> u32" where
  "low_memory bi = bi_mem_lower bi"

definition high_memory :: "boot_info \<Rightarrow> u32" where
  "high_memory bi = bi_mem_upper bi"

text \<open>The symbols that the linker script places around the parts of the kernel image.\<close>

record kobj =
  kobj_begin :: ptr
  kobj_end :: ptr
  kobj_code_begin :: ptr
  kobj_code_end :: ptr
  kobj_stack_begin :: ptr
  kobj_stack_end :: ptr

record multiboot_hdr =
  mb_magic :: u32
  mb_flags :: u32
  mb_checksum :: u32

definition mboot_magic :: u32 where
  "mboot_magic = 0x1badb002"

definition mboot_checksum :: "u32 \<Rightarrow> u32" where
  "mboot_checksum flags = - (mboot_magic + flags)"

definition mbf_align :: u32 where
  "mbf_align = push_bit 0 1"

definition mbf_meminfo :: u32 where
  "mbf_meminfo = push_bit 1 1"

definition mboot_header_initializer :: "u32 \<Rightarrow> multiboot_hdr" where
  "mboot_header_initializer flags =
     \<lparr>mb_magic = mboot_magic, mb_flags = flags, mb_checksum = mboot_checksum flags\<rparr>"

definition multiboot_header :: multiboot_hdr where
  "multiboot_header = mboot_header_initializer (mbf_align OR mbf_meminfo)"

record kernel_memory =
  km_store :: store
  km_highmem :: memory_region
  km_pages :: page_allocator
  km_malloc :: mallocator

definition highmem_start :: ptr where
  "highmem_start = 0x100000"

definition detect_memory_regions :: "boot_info \<Rightarrow> memory_region \<Rightarrow> memory_region result" where
  "detect_memory_regions bi highmem =
     (if \<not> is_meminfo_valid bi
      then Inl (Panic (''Bootloader didn't provide memory info!'' @ [CHR 0x0A]))
      else let highmem_bytes = high_memory bi * 1024;
               h1 = mr_set_begin highmem highmem_start
      in Inr (mr_set_end h1 (highmem_start + PAGE_SIZE * (align_down PAGE_SIZE highmem_bytes div PAGE_SIZE))))"

definition initialize_highmem_allocators ::
  "store \<Rightarrow> kobj \<Rightarrow> u32 \<Rightarrow> memory_region \<Rightarrow> mallocator \<Rightarrow> kernel_memory result" where
  "initialize_highmem_allocators m k sizeof_slab highmem ma0 =
     (let last_kernel_page = align_up PAGE_SIZE (kobj_end k)
      in bindE (bud_initialize m (buddy_allocator_default highmem) highmem) (\<lambda>buddy.
         bindE (pa_initialize m buddy last_kernel_page) (\<lambda>(m1, pa).
         bindE (ma_initialize m1 pa ma0 sizeof_slab (1024 * 1024) 33) (\<lambda>(m2, pa2, ma).
           Inr \<lparr>km_store = m2, km_highmem = highmem, km_pages = pa2, km_malloc = ma\<rparr>))))"

definition memory_init ::
  "store \<Rightarrow> boot_info \<Rightarrow> kobj \<Rightarrow> u32 \<Rightarrow> kernel_memory result" where
  "memory_init m bi k sizeof_slab =
     bindE (detect_memory_regions bi \<lparr>mr_begin = nullptr, mr_end = nullptr\<rparr>)
       (\<lambda>highmem. initialize_highmem_allocators m k sizeof_slab highmem mallocator_default)"

definition alloc_pages :: "kernel_memory \<Rightarrow> u32 \<Rightarrow> (kernel_memory \<times> ptr) result" where
  "alloc_pages s n =
     bindE (pa_allocate (km_store s) (km_pages s) n)
       (\<lambda>(m, pa, p). Inr (s\<lparr>km_store := m, km_pages := pa\<rparr>, p))"

definition free_pages_at :: "kernel_memory \<Rightarrow> ptr \<Rightarrow> kernel_memory result" where
  "free_pages_at s address =
     bindE (pa_deallocate (km_store s) (km_pages s) address)
       (\<lambda>(m, pa). Inr (s\<lparr>km_store := m, km_pages := pa\<rparr>))"

definition kmalloc :: "kernel_memory \<Rightarrow> u32 \<Rightarrow> (kernel_memory \<times> ptr) result" where
  "kmalloc s n =
     bindE (ma_allocate (km_store s) (km_pages s) (km_malloc s) n)
       (\<lambda>(m, pa, p). Inr (s\<lparr>km_store := m, km_pages := pa\<rparr>, p))"

definition kfree :: "kernel_memory \<Rightarrow> ptr \<Rightarrow> kernel_memory result" where
  "kfree s memory =
     bindE (ma_deallocate (km_store s) (km_pages s) (km_malloc s) memory)
       (\<lambda>(m, pa). Inr (s\<lparr>km_store := m, km_pages := pa\<rparr>))"

section \<open>Initialisation\<close>

text \<open>The frames of high memory: it starts at 1 MiB and has as many whole pages as the boot loader says.\<close>

definition boot_geometry :: "boot_info \<Rightarrow> kobj \<Rightarrow> geometry" where
  "boot_geometry bi k =
     (let e = 256 + unat (high_memory bi) div 4; s = (unat (kobj_end k) + 4095) div 4096
      in \<lparr>gb = 256, ge = e, gm = s, gf = s + ((e - 256 + 7) div 8 + 4095) div 4096\<rparr>)"

definition km_rep :: "geometry \<Rightarrow> kernel_memory \<Rightarrow> nat set \<Rightarrow> (nat \<times> nat) set
    \<Rightarrow> nat \<times> nat \<Rightarrow> (nat \<times> nat) list \<Rightarrow> nat set list \<Rightarrow> bool" where
  "km_rep g s F H h0 hs Ss \<longleftrightarrow> ma_rep g (km_store s) (km_pages s) (km_malloc s) F H h0 hs Ss"

lemma highmem_frames:
  assumes "unat (high_memory bi) < 2 ^ 21"
  shows "detect_memory_regions bi r = (if is_meminfo_valid bi
    then Inr \<lparr>mr_begin = frame_addr 256, mr_end = frame_addr (256 + unat (high_memory bi) div 4)\<rparr>
    else Inl (Panic (''Bootloader didn't provide memory info!'' @ [CHR 0x0A])))"
proof -
  let ?k = "unat (high_memory bi)"
  have "unat (high_memory bi * 1024) = ?k * 1024" using assms by (subst unat_mult_u32) simp_all
  then have "unat (align_down (2 ^ 12) (high_memory bi * 1024)) = ?k * 1024 - ?k * 1024 mod 4096"
    using unat_align_down [of 12] by simp
  moreover have "(?k * 1024 - ?k * 1024 mod 4096) div 4096 = ?k div 4"
    using div_mult_mult2 [of 1024 ?k 4] by (simp add: minus_mod_eq_mult_div)
  ultimately have "unat (align_down PAGE_SIZE (high_memory bi * 1024) div PAGE_SIZE) = ?k div 4"
    by (simp add: unat_div_u32 PAGE_SIZE_def)
  then have "align_down PAGE_SIZE (high_memory bi * 1024) div PAGE_SIZE = of_nat (?k div 4)"
    by (metis of_nat_unat_u32)
  moreover have "highmem_start = frame_addr 256" by (simp add: highmem_start_def frame_addr_def)
  ultimately have "highmem_start + PAGE_SIZE * (align_down PAGE_SIZE (high_memory bi * 1024) div PAGE_SIZE)
      = frame_addr (256 + ?k div 4)"
    using frame_addr_add by metis
  then show ?thesis
    by (simp add: detect_memory_regions_def mr_set_begin_def mr_set_end_def highmem_start_def frame_addr_def Let_def)
qed


text \<open>
  With less than 2 GiB of high memory, the kernel image within it, and 34 free groups of 512 frames
  behind the image, the memory subsystem comes up.
\<close>

lemma memory_init_rep:
  assumes valid: "is_meminfo_valid bi" and hm: "unat (high_memory bi) < 2 ^ 21 - 1024"
    and k: "unat (kobj_end k) \<le> 4294963200"
    and geo: "geometry_ok (boot_geometry bi k)" and sz: "0 < sz" "unat sz \<le> 2 ^ 14"
    and groups: "34 + d \<le> card (groups gr {gf (boot_geometry bi k)..<ge (boot_geometry bi k)})" and gr: "9 \<le> gr" "gr \<le> 10"
  shows "\<exists>s F h0 hs. memory_init m bi k sz = Inr s \<and> d \<le> card (groups gr F)
    \<and> km_rep (boot_geometry bi k) s F (insert h0 (set hs)) h0 hs (replicate 33 {})
    \<and> (\<forall>j < 33. sl_nelems (ma_chain (km_malloc s) ! j) = 1048576 div chain_unit_size (of_nat j))"
proof -
  define g where "g = boot_geometry bi k"
  have g: "gb g = 256" "ge g = 256 + unat (high_memory bi) div 4" "gm g = (unat (kobj_end k) + 4095) div 4096"
    "gf g = gm g + ((ge g - gb g + 7) div 8 + 4095) div 4096"
    by (simp_all add: g_def boot_geometry_def Let_def)
  let ?r = "\<lparr>mr_begin = frame_addr (gb g), mr_end = frame_addr (ge g)\<rparr>"
  have det: "detect_memory_regions bi \<lparr>mr_begin = nullptr, mr_end = nullptr\<rparr> = Inr ?r"
    using highmem_frames [of bi] hm valid g by simp
  have "unat (align_up (2 ^ 12) (kobj_end k)) = gm g * 4096"
  proof -
    have "unat (align_up (2 ^ 12) (kobj_end k)) = (unat (kobj_end k) + 2 ^ 12 - 1) div 2 ^ 12 * 2 ^ 12 mod 4294967296"
      by (rule unat_align_up) simp
    also have "(unat (kobj_end k) + 2 ^ 12 - 1) div 2 ^ 12 * 2 ^ 12 = gm g * 4096" using g(3) by simp
    also have "gm g * 4096 mod 4294967296 = gm g * 4096" using k g(3) by simp
    finally show ?thesis .
  qed
  moreover have "gm g < max_frame" using geo unfolding g_def [symmetric] by (simp add: geometry_ok_def)
  ultimately have first: "align_up PAGE_SIZE (kobj_end k) = frame_addr (gm g)"
    by (simp add: u32_eq_iff_unat unat_frame_addr PAGE_SIZE_pow2)
  have "geometry_ok g" using geo by (simp add: g_def)
  then obtain m1 pa where pa: "pa_initialize m (bud_fresh ?r) (frame_addr (gm g)) = Inr (m1, pa)"
    and rep: "pa_rep g m1 pa {gf g..<ge g} {}"
    using pa_initialize_rep [OF bud_fresh_pool [of m ?r], of g] g(4) by (auto simp: bud_fresh_def)
  have "unat sz * 33 \<le> 2 ^ 20" using sz(2) by simp
  moreover have "unat (33 :: u32) = 33" "unat (1048576 :: u32) = 1048576" "(0 :: u32) < 33" by simp_all
  ultimately have "\<exists>m' pa' ma' F' h0 hs. ma_initialize m1 pa mallocator_default sz 1048576 33 = Inr (m', pa', ma')
      \<and> ma_rep g m' pa' ma' F' (insert h0 ({} \<union> set hs)) h0 hs (replicate 33 {}) \<and> ma_chain_length ma' = 33
      \<and> set (h0 # hs) \<inter> {} = {} \<and> d \<le> card (groups gr F')
      \<and> (\<forall>k < 33. sl_nelems (ma_chain ma' ! k) = 1048576 div chain_unit_size (of_nat k))"
    using ma_initialize_rep [OF rep, of 1048576 33 sz d gr mallocator_default] sz(1) groups [folded g_def] gr by (simp only:) simp
  then obtain m2 pa2 ma F h0 hs where ma: "ma_initialize m1 pa mallocator_default sz 1048576 33 = Inr (m2, pa2, ma)"
    "ma_rep g m2 pa2 ma F (insert h0 ({} \<union> set hs)) h0 hs (replicate 33 {})" "d \<le> card (groups gr F)"
    "\<forall>j < 33. sl_nelems (ma_chain ma ! j) = 1048576 div chain_unit_size (of_nat j)"
    by blast
  have "memory_init m bi k sz = Inr \<lparr>km_store = m2, km_highmem = ?r, km_pages = pa2, km_malloc = ma\<rparr>"
    using det first pa ma(1) bud_initialize_fresh
    by (simp add: memory_init_def initialize_highmem_allocators_def Let_def)
  moreover have "km_rep g \<lparr>km_store = m2, km_highmem = ?r, km_pages = pa2, km_malloc = ma\<rparr> F (insert h0 (set hs)) h0 hs (replicate 33 {})"
    using ma(2) by (simp add: km_rep_def)
  moreover have "\<forall>j < 33. sl_nelems (ma_chain (km_malloc \<lparr>km_store = m2, km_highmem = ?r, km_pages = pa2, km_malloc = ma\<rparr>) ! j)
      = 1048576 div chain_unit_size (of_nat j)" unfolding kernel_memory.simps by (rule ma(4))
  ultimately show ?thesis using ma(3) unfolding g_def by blast
qed

section \<open>Clients of kmalloc\<close>

text \<open>
  The states that the memory subsystem passes through while its clients allocate and release, with
  the blocks that are allocated: their addresses and the sizes that were asked for.
\<close>

inductive km_reach :: "kernel_memory \<Rightarrow> kernel_memory \<Rightarrow> (ptr \<times> u32) set \<Rightarrow> bool" for s0 where
  start: "km_reach s0 s0 {}"
| malloc: "km_reach s0 s B \<Longrightarrow> unat n \<le> 4294963200 \<Longrightarrow> kmalloc s n = Inr (s', p) \<Longrightarrow> p \<noteq> nullptr
    \<Longrightarrow> \<not> (n = 0 \<and> p = zero_size_page) \<Longrightarrow> km_reach s0 s' (insert (p, n) B)"
| no_block: "km_reach s0 s B \<Longrightarrow> unat n \<le> 4294963200 \<Longrightarrow> kmalloc s n = Inr (s', p)
    \<Longrightarrow> p = nullptr \<or> n = 0 \<and> p = zero_size_page \<Longrightarrow> km_reach s0 s' B"
| free: "km_reach s0 s B \<Longrightarrow> (p, n) \<in> B \<Longrightarrow> kfree s p = Inr s' \<Longrightarrow> km_reach s0 s' (B - {(p, n)})"

definition extent :: "ptr \<times> u32 \<Rightarrow> nat set" where
  "extent b = {unat (fst b)..<unat (fst b) + unat (snd b)}"

text \<open>Every block lies in a region of its own, and regions do not overlap.\<close>

definition blocks_in :: "(ptr \<times> u32) set \<Rightarrow> nat set set \<Rightarrow> bool" where
  "blocks_in B L \<longleftrightarrow> (\<forall>b\<in>B. \<exists>k. unat (snd b) \<le> k \<and> 0 < k \<and> {unat (fst b)..<unat (fst b) + k} \<in> L)
     \<and> inj_on fst B \<and> disjoint L"

lemma blocks_inD:
  assumes "blocks_in B L" and "b \<in> B"
  obtains k where "unat (snd b) \<le> k" "0 < k" "{unat (fst b)..<unat (fst b) + k} \<in> L"
  using assms unfolding blocks_in_def by blast

lemma blocks_in_grow:
  assumes "blocks_in B L" and "\<forall>S\<in>L. R \<inter> S = {}"
  shows "blocks_in B (insert R L)"
proof -
  have "disjoint (insert R L)" using assms by (auto simp: blocks_in_def pairwise_insert disjnt_def)
  then show ?thesis using assms(1) unfolding blocks_in_def by blast
qed

lemma blocks_in_fresh:
  assumes B: "blocks_in B L" and k: "0 < k" and new: "\<forall>R\<in>L. {unat p..<unat p + k} \<inter> R = {}"
  shows "p \<notin> fst ` B"
proof
  assume "p \<in> fst ` B"
  then obtain b where "b \<in> B" "fst b = p" by blast
  moreover obtain j where "0 < j" "{unat (fst b)..<unat (fst b) + j} \<in> L" using blocks_inD [OF B \<open>b \<in> B\<close>] by blast
  ultimately have "{unat p..<unat p + k} \<inter> {unat p..<unat p + j} = {}" "0 < j" using new by auto
  then show False using k by auto
qed

lemma blocks_in_insert:
  assumes B: "blocks_in B L" and k: "unat n \<le> k" "0 < k" and new: "\<forall>R\<in>L. {unat p..<unat p + k} \<inter> R = {}"
  shows "blocks_in (insert (p, n) B) (insert {unat p..<unat p + k} L)"
proof -
  have "inj_on fst (insert (p, n) B)" using blocks_in_fresh [OF B k(2) new] B by (auto simp: blocks_in_def)
  then show ?thesis using blocks_in_grow [OF B new] k unfolding blocks_in_def by auto
qed

lemma blocks_in_remove:
  assumes B: "blocks_in B L" and b: "b \<in> B" and R: "R \<in> L" "unat (fst b) \<in> R" "\<forall>a\<in>R. unat (fst b) \<le> a"
  shows "blocks_in (B - {b}) (L - {R})"
proof -
  have ne: "{unat (fst c)..<unat (fst c) + k} \<noteq> R" if "c \<in> B" "c \<noteq> b" "0 < k" for c k
  proof
    assume eq: "{unat (fst c)..<unat (fst c) + k} = R"
    then have "unat (fst c) \<in> R" "unat (fst c) \<le> unat (fst b)" using R(2) that(3) by auto
    then have "unat (fst c) = unat (fst b)" using R(3) by (intro le_antisym) auto
    then have "fst c = fst b" by (simp add: u32_eq_iff_unat)
    moreover have "inj_on fst B" using B by (simp add: blocks_in_def)
    ultimately show False using b that(1,2) by (auto dest: inj_onD)
  qed
  have "\<exists>k. unat (snd c) \<le> k \<and> 0 < k \<and> {unat (fst c)..<unat (fst c) + k} \<in> L - {R}" if c: "c \<in> B - {b}" for c
  proof -
    obtain k where "unat (snd c) \<le> k" "0 < k" "{unat (fst c)..<unat (fst c) + k} \<in> L"
      using blocks_inD [OF B, of c] c by blast
    then show ?thesis using ne [of c k] c by blast
  qed
  moreover have "inj_on fst (B - {b})" "disjoint (L - {R})"
    using B by (auto simp: blocks_in_def intro: inj_on_subset pairwise_subset)
  ultimately show ?thesis unfolding blocks_in_def by blast
qed

lemma blocks_in_extents:
  assumes B: "blocks_in B L" and "b \<in> B" "c \<in> B" "b \<noteq> c"
  shows "fst b \<noteq> fst c \<and> extent b \<inter> extent c = {}"
proof -
  obtain j where j: "unat (snd b) \<le> j" "0 < j" "{unat (fst b)..<unat (fst b) + j} \<in> L" using blocks_inD [OF B assms(2)] .
  obtain k where k: "unat (snd c) \<le> k" "0 < k" "{unat (fst c)..<unat (fst c) + k} \<in> L" using blocks_inD [OF B assms(3)] .
  have inj: "inj_on fst B" "disjoint L" using B by (auto simp: blocks_in_def)
  then have ne: "fst b \<noteq> fst c" using assms(2-4) by (meson inj_onD)
  then have "{unat (fst b)..<unat (fst b) + j} \<noteq> {unat (fst c)..<unat (fst c) + k}"
    using j(2) k(2) by (simp add: atLeastLessThan_eq_iff u32_eq_iff_unat)
  then have "{unat (fst b)..<unat (fst b) + j} \<inter> {unat (fst c)..<unat (fst c) + k} = {}"
    using j(3) k(3) inj(2) by (auto dest: disjointD)
  then show ?thesis using ne j(1) k(1) by (auto simp: extent_def disjoint_iff)
qed

definition km_inv :: "geometry \<Rightarrow> kernel_memory \<Rightarrow> (ptr \<times> u32) set \<Rightarrow> bool" where
  "km_inv g s B \<longleftrightarrow> (\<exists>F H h0 hs Ss. km_rep g s F H h0 hs Ss \<and> blocks_in B (ma_live (km_malloc s) H h0 hs Ss))"

lemma kmalloc_inv:
  assumes "km_inv g s B" and "unat n \<le> 4294963200"
  shows "\<exists>s' p. kmalloc s n = Inr (s', p)
    \<and> (if p = nullptr \<or> n = 0 \<and> p = zero_size_page then km_inv g s' B else km_inv g s' (insert (p, n) B))"
proof -
  obtain F H h0 hs Ss where rep: "ma_rep g (km_store s) (km_pages s) (km_malloc s) F H h0 hs Ss"
    and B: "blocks_in B (ma_live (km_malloc s) H h0 hs Ss)" using assms(1) by (auto simp: km_inv_def km_rep_def)
  let ?live = "ma_live (km_malloc s) H h0 hs Ss"
  obtain m' pa' p F' H' Ss' where al: "ma_allocate (km_store s) (km_pages s) (km_malloc s) n = Inr (m', pa', p)"
    and rep': "ma_rep g m' pa' (km_malloc s) F' H' h0 hs Ss'"
    and live: "(p = nullptr \<or> n = 0 \<and> p = zero_size_page) \<and> ma_live (km_malloc s) H' h0 hs Ss' = ?live
      \<or> (\<exists>k. unat n \<le> k \<and> 0 < k \<and> p \<noteq> nullptr \<and> ma_live (km_malloc s) H' h0 hs Ss' = insert {unat p..<unat p + k} ?live
          \<and> (\<forall>L\<in>?live. {unat p..<unat p + k} \<inter> L = {}))"
    using ma_allocate_fresh [OF rep assms(2)] by (elim exE conjE) (rule that)
  let ?s = "s\<lparr>km_store := m', km_pages := pa'\<rparr>"
  have inv: "km_inv g ?s C" if "blocks_in C (ma_live (km_malloc s) H' h0 hs Ss')" for C
    unfolding km_inv_def km_rep_def using rep' that
    by (intro exI [of _ F'] exI [of _ H'] exI [of _ h0] exI [of _ hs] exI [of _ Ss']) simp
  have km: "kmalloc s n = Inr (?s, p)" using al by (simp add: kmalloc_def)
  from live have "if p = nullptr \<or> n = 0 \<and> p = zero_size_page then km_inv g ?s B else km_inv g ?s (insert (p, n) B)"
  proof (rule disjE)
    assume "(p = nullptr \<or> n = 0 \<and> p = zero_size_page) \<and> ma_live (km_malloc s) H' h0 hs Ss' = ?live"
    then show ?thesis using inv [of B] B by argo
  next
    assume "\<exists>k. unat n \<le> k \<and> 0 < k \<and> p \<noteq> nullptr \<and> ma_live (km_malloc s) H' h0 hs Ss' = insert {unat p..<unat p + k} ?live
          \<and> (\<forall>L\<in>?live. {unat p..<unat p + k} \<inter> L = {})"
    then obtain k where k: "unat n \<le> k" "0 < k" and l: "ma_live (km_malloc s) H' h0 hs Ss' = insert {unat p..<unat p + k} ?live"
      and new: "\<forall>L\<in>?live. {unat p..<unat p + k} \<inter> L = {}" by blast
    show ?thesis
      using inv [unfolded l, OF blocks_in_grow [OF B new]] inv [unfolded l, OF blocks_in_insert [OF B k new]]
      by argo
  qed
  then show ?thesis using km by blast
qed

lemma kfree_inv:
  assumes "km_inv g s B" and "(p, n) \<in> B"
  shows "\<exists>s'. kfree s p = Inr s' \<and> km_inv g s' (B - {(p, n)})"
proof -
  obtain F H h0 hs Ss where rep: "ma_rep g (km_store s) (km_pages s) (km_malloc s) F H h0 hs Ss"
    and B: "blocks_in B (ma_live (km_malloc s) H h0 hs Ss)" using assms(1) by (auto simp: km_inv_def km_rep_def)
  have "\<exists>k. unat n \<le> k \<and> 0 < k \<and> {unat p..<unat p + k} \<in> ma_live (km_malloc s) H h0 hs Ss"
    using B assms(2) unfolding blocks_in_def by force
  then obtain k where k: "0 < k" "{unat p..<unat p + k} \<in> ma_live (km_malloc s) H h0 hs Ss" by blast
  obtain m' pa' F' H' Ss' where d: "ma_deallocate (km_store s) (km_pages s) (km_malloc s) p = Inr (m', pa')"
    "ma_rep g m' pa' (km_malloc s) F' H' h0 hs Ss'"
    "ma_live (km_malloc s) H' h0 hs Ss' = ma_live (km_malloc s) H h0 hs Ss - {{unat p..<unat p + k}}"
    using ma_deallocate_releases [OF rep k(2), of p] k(1) by auto
  have "blocks_in (B - {(p, n)}) (ma_live (km_malloc s) H' h0 hs Ss')"
    unfolding d(3) using k by (intro blocks_in_remove [OF B assms(2) k(2)]) auto
  then have "km_inv g (s\<lparr>km_store := m', km_pages := pa'\<rparr>) (B - {(p, n)})"
    unfolding km_inv_def km_rep_def using d(2) by (intro exI [of _ F'] exI [of _ H'] exI [of _ h0] exI [of _ hs] exI [of _ Ss']) simp
  then show ?thesis using d(1) by (simp add: kfree_def)
qed


lemma memory_init_inv:
  assumes "km_rep g s F (insert h0 (set hs)) h0 hs (replicate 33 {})"
  shows "km_inv g s {}"
proof -
  have "length (ma_chain (km_malloc s)) = 33" using assms by (auto simp: km_rep_def ma_rep_def chain_ok_def)
  then have "ma_live (km_malloc s) (insert h0 (set hs)) h0 hs (replicate 33 {}) = {}" by (auto simp: ma_live_def)
  then have "blocks_in {} (ma_live (km_malloc s) (insert h0 (set hs)) h0 hs (replicate 33 {}))"
    by (simp add: blocks_in_def)
  then show ?thesis using assms unfolding km_inv_def by blast
qed

lemma km_reach_inv: "km_reach s0 s B \<Longrightarrow> km_inv g s0 {} \<Longrightarrow> km_inv g s B"
proof (induction rule: km_reach.induct)
  case (malloc s B n s' p)
  then show ?case using kmalloc_inv [OF _ malloc.hyps(2), of g s B] by auto
next
  case (no_block s B n s' p)
  then show ?case using kmalloc_inv [OF _ no_block.hyps(2), of g s B] by auto
next
  case (free s B p n s')
  then show ?case using kfree_inv [OF _ free.hyps(2), of g s] by auto
qed

text \<open>A machine with 255 MiB of high memory whose kernel image ends at 2 MiB.\<close>

definition example_boot :: boot_info where
  "example_boot = \<lparr>bi_flags = 1, bi_mem_lower = 640, bi_mem_upper = 261120\<rparr>"

definition example_image :: kobj where
  "example_image = \<lparr>kobj_begin = 0x100000, kobj_end = 0x200000, kobj_code_begin = 0x100000,
     kobj_code_end = 0x180000, kobj_stack_begin = 0x180000, kobj_stack_end = 0x184000\<rparr>"

lemma example_geometry: "boot_geometry example_boot example_image = \<lparr>gb = 256, ge = 65536, gm = 512, gf = 514\<rparr>"
  by (simp add: boot_geometry_def example_boot_def example_image_def high_memory_def)

lemma example_groups: "34 \<le> card (groups 9 {514..<65536})" "63 \<le> card (groups 10 {514..<65536})"
proof -
  have fin: "finite (groups i {514..<65536})" for i by (rule groups_finite) auto
  have "{2..<36} \<subseteq> groups 9 {514..<65536}" "{1..<64} \<subseteq> groups 10 {514..<65536}" by (auto simp: groups_def block_def)
  then have "card {2..<36::nat} \<le> card (groups 9 {514..<65536})" "card {1..<64::nat} \<le> card (groups 10 {514..<65536})"
    using fin by (intro card_mono; blast)+
  then show "34 \<le> card (groups 9 {514..<65536})" "63 \<le> card (groups 10 {514..<65536})" by simp_all
qed

lemma example_conditions:
  "is_meminfo_valid example_boot" "unat (high_memory example_boot) < 2 ^ 21 - 1024"
  "unat (kobj_end example_image) \<le> 4294963200" "geometry_ok (boot_geometry example_boot example_image)"
  "34 \<le> card (groups 9 {gf (boot_geometry example_boot example_image)..<ge (boot_geometry example_boot example_image)})"
  "34 + 9 \<le> card (groups 10 {gf (boot_geometry example_boot example_image)..<ge (boot_geometry example_boot example_image)})"
  using example_groups
  by (simp_all add: example_geometry geometry_ok_def is_meminfo_valid_def mem_info_def high_memory_def)
     (simp_all add: example_boot_def example_image_def)

section \<open>Properties\<close>

text \<open>
  C2: the memory subsystem comes up on every machine whose boot loader reports its memory, with
  less than 2 GiB of it above 1 MiB and 34 free aligned groups of 512 pages behind the kernel image;
  from then on any sequence of \<^verbatim>\<open>kmalloc\<close> and \<^verbatim>\<open>kfree\<close> of allocated blocks runs without a panic, and at
  every moment the allocated blocks are pairwise disjoint, have different addresses and are non-null.
\<close>

theorem kernel_heap_safe:
  assumes "is_meminfo_valid bi" and "unat (high_memory bi) < 2 ^ 21 - 1024"
    and "unat (kobj_end k) \<le> 4294963200" and "geometry_ok (boot_geometry bi k)"
    and "0 < sz" "unat sz \<le> 2 ^ 14"
    and "34 \<le> card (groups 9 {gf (boot_geometry bi k)..<ge (boot_geometry bi k)})"
  shows "\<exists>s0. memory_init m bi k sz = Inr s0
    \<and> (\<forall>s B. km_reach s0 s B \<longrightarrow>
        (\<forall>b\<in>B. \<forall>c\<in>B. b \<noteq> c \<longrightarrow> fst b \<noteq> fst c \<and> extent b \<inter> extent c = {})
        \<and> (\<forall>n. unat n \<le> 4294963200 \<longrightarrow> (\<exists>s' p. kmalloc s n = Inr (s', p)))
        \<and> (\<forall>b\<in>B. \<exists>s'. kfree s (fst b) = Inr s'))"
proof -
  obtain s0 F h0 hs where ini: "memory_init m bi k sz = Inr s0"
    and "km_rep (boot_geometry bi k) s0 F (insert h0 (set hs)) h0 hs (replicate 33 {})"
    using memory_init_rep [OF assms(1-6), of 0 9 m] assms(7) by auto
  then have inv0: "km_inv (boot_geometry bi k) s0 {}" by (intro memory_init_inv)
  have "(\<forall>b\<in>B. \<forall>c\<in>B. b \<noteq> c \<longrightarrow> fst b \<noteq> fst c \<and> extent b \<inter> extent c = {})
        \<and> (\<forall>n. unat n \<le> 4294963200 \<longrightarrow> (\<exists>s' p. kmalloc s n = Inr (s', p)))
        \<and> (\<forall>b\<in>B. \<exists>s'. kfree s (fst b) = Inr s')" if "km_reach s0 s B" for s B
  proof -
    have inv: "km_inv (boot_geometry bi k) s B" using km_reach_inv [OF that inv0] .
    then obtain L where L: "blocks_in B L" by (auto simp: km_inv_def)
    have "fst b \<noteq> fst c \<and> extent b \<inter> extent c = {}" if "b \<in> B" "c \<in> B" "b \<noteq> c" for b c
      using blocks_in_extents [OF L that] .
    moreover have "\<exists>s' p. kmalloc s n = Inr (s', p)" if "unat n \<le> 4294963200" for n
      using kmalloc_inv [OF inv that] by blast
    moreover have "\<exists>s'. kfree s (fst b) = Inr s'" if "b \<in> B" for b
      using kfree_inv [OF inv, of "fst b" "snd b"] that by auto
    ultimately show ?thesis by blast
  qed
  then show ?thesis using ini by blast
qed

theorem kernel_heap_safe_witness:
  "\<exists>s0 s p s'. memory_init store_zero example_boot example_image 28 = Inr s0
    \<and> kmalloc s0 100 = Inr (s, p) \<and> kmalloc s 5000 = Inr s'"
proof -
  obtain s0 where ini: "memory_init store_zero example_boot example_image 28 = Inr s0"
    and all: "\<And>s B n. km_reach s0 s B \<Longrightarrow> unat n \<le> 4294963200 \<Longrightarrow> \<exists>s' p. kmalloc s n = Inr (s', p)"
    using kernel_heap_safe [OF example_conditions(1-4) _ _ example_conditions(5), of 28 store_zero] by auto
  obtain s p where k: "kmalloc s0 100 = Inr (s, p)" using all [OF km_reach.start, of 100] by auto
  then have "\<exists>B. km_reach s0 s B"
    using km_reach.malloc [OF km_reach.start _ k] km_reach.no_block [OF km_reach.start _ k] by fastforce
  then show ?thesis using ini k all [of s _ 5000] by auto
qed

text \<open>
  C37: a request close to the size of the address space wraps around in the rounding to a multiple
  of 16: the mallocator answers a request for 4294967295 bytes with an element of 8 bytes whenever
  its first slab has a free one.
\<close>

theorem kmalloc_wraps:
  assumes "km_rep g s F H h0 hs Ss" and "0 < length (ma_chain (km_malloc s))"
    and "Ss ! 0 \<noteq> {..<unat (sl_nelems (ma_chain (km_malloc s) ! 0))}"
  shows "\<exists>s' i. kmalloc s 4294967295 = Inr (s', slab_ptr (ma_chain (km_malloc s) ! 0) i)
    \<and> sl_elem_size (ma_chain (km_malloc s) ! 0) = 8"
proof -
  let ?ma = "km_malloc s"
  have rep: "ma_rep g (km_store s) (km_pages s) ?ma F H h0 hs Ss" using assms(1) by (simp add: km_rep_def)
  have "align_up 16 (4294967295 :: u32) = 0" by (simp add: align_up_def align_down_def)
  then have idx: "ma_first_slab ?ma 4294967295 = 0"
    using assms(2) rep by (auto simp: ma_first_slab_def ma_rep_def)
  obtain i m' where "ma_try (km_store s) ?ma 0 = Inr (m', slab_ptr (ma_chain ?ma ! 0) i)"
    "slab_ptr (ma_chain ?ma ! 0) i \<noteq> nullptr"
  proof -
    obtain i m' where i: "i < unat (sl_nelems (ma_chain ?ma ! 0))"
      "slab_allocate (km_store s) (ma_chain ?ma ! 0) = (m', slab_ptr (ma_chain ?ma ! 0) i)"
      using slab_allocate_rep [OF ma_repD(7) [OF rep assms(2)]] assms(3) by auto
    moreover have "slab_ptr (ma_chain ?ma ! 0) i \<noteq> nullptr"
      using slab_ptr_not_null [OF ma_repD(8) [OF rep assms(2)] i(1)] .
    moreover have "ma_chain_length ?ma \<noteq> 0" using rep assms(2) by (auto simp: ma_rep_def)
    ultimately have "ma_try (km_store s) ?ma 0 = Inr (m', slab_ptr (ma_chain ?ma ! 0) i)"
      using assms(2) by (subst ma_try.simps) auto
    then show ?thesis using that \<open>slab_ptr (ma_chain ?ma ! 0) i \<noteq> nullptr\<close> by blast
  qed
  then show ?thesis
    using idx rep ma_repD(9) [OF rep assms(2)]
    by (auto simp: kmalloc_def ma_allocate_def ma_assert_initialized_def ma_rep_def chain_unit_size_def)
qed


theorem kmalloc_wraps_witness:
  "\<exists>s0 s p. memory_init store_zero example_boot example_image 28 = Inr s0
    \<and> kmalloc s0 4294967295 = Inr (s, p) \<and> sl_elem_size (ma_chain (km_malloc s0) ! 0) = 8"
proof -
  obtain s0 F h0 hs where ini: "memory_init store_zero example_boot example_image 28 = Inr s0"
    and rep: "km_rep (boot_geometry example_boot example_image) s0 F (insert h0 (set hs)) h0 hs (replicate 33 {})"
    using memory_init_rep [OF example_conditions(1-4), of 28 0 9 store_zero] example_conditions(5) by auto
  have len: "length (ma_chain (km_malloc s0)) = 33" using rep by (auto simp: km_rep_def ma_rep_def chain_ok_def)
  have "slab_shape (ma_chain (km_malloc s0) ! 0)"
    using ma_repD(8) [OF rep [unfolded km_rep_def], of 0] len by simp
  then have "replicate 33 {} ! 0 \<noteq> {..<unat (sl_nelems (ma_chain (km_malloc s0) ! 0))}"
    by (auto simp: slab_shape_def word_less_nat_alt lessThan_empty_iff)
  then show ?thesis using kmalloc_wraps [OF rep] len ini by auto
qed

end
