(* ===== verification/Self_Tests.thy ===== *)
theory Self_Tests
  imports Kernel_Memory "HOL-Library.Multiset"
begin

text \<open>
  The tests that the kernel runs on itself at start (\<^verbatim>\<open>ost\<close>): those of the page allocator, the slab allocator, the free list,
  the buddy allocator, the heap and the bit array. A failed assertion halts the kernel; the messages that are printed are
  left out. The tests are translated as they are written, and shown to pass on every state of memory with enough
  free pages.
\<close>

section \<open>The tests\<close>

definition ost_assert :: "bool \<Rightarrow> unit result" where
  "ost_assert expression = (if \<not> expression then Inl (Panic ''On start test failed'') else Inr ())"

primrec ost_run :: "(kernel_memory \<Rightarrow> kernel_memory result) list \<Rightarrow> kernel_memory \<Rightarrow> kernel_memory result" where
  "ost_run [] s = Inr s"
| "ost_run (test # tests) s = bindE (test s) (ost_run tests)"

text \<open>The six calls that \<^verbatim>\<open>PageAlloc\<close> makes for the array \<^verbatim>\<open>p\<close> and again for \<^verbatim>\<open>q\<close>.\<close>

definition page_alloc_calls :: "kernel_memory \<Rightarrow> (kernel_memory \<times> ptr list) result" where
  "page_alloc_calls s =
     bindE (alloc_pages s 1) (\<lambda>(s1, p0).
     bindE (alloc_pages s1 2) (\<lambda>(s2, p1).
     bindE (alloc_pages s2 3) (\<lambda>(s3, p2).
     bindE (alloc_pages s3 2) (\<lambda>(s4, p3).
     bindE (free_pages_at s4 p1) (\<lambda>s5.
     bindE (alloc_pages s5 2) (\<lambda>(s6, p4). Inr (s6, [p0, p1, p2, p3, p4])))))))"

definition page_alloc_test :: "kernel_memory \<Rightarrow> kernel_memory result" where
  "page_alloc_test s =
     bindE (page_alloc_calls s) (\<lambda>(s1, p).
     bindE (free_pages_at s1 (p ! 0)) (\<lambda>s2.
     bindE (free_pages_at s2 (p ! 2)) (\<lambda>s3.
     bindE (free_pages_at s3 (p ! 3)) (\<lambda>s4.
     bindE (free_pages_at s4 (p ! 4)) (\<lambda>s5.
     bindE (page_alloc_calls s5) (\<lambda>(s6, q).
     bindE (ost_assert (p ! 0 = q ! 0)) (\<lambda>_.
     bindE (ost_assert (p ! 1 = q ! 1)) (\<lambda>_.
     bindE (ost_assert (p ! 2 = q ! 2)) (\<lambda>_.
     bindE (ost_assert (p ! 3 = q ! 3)) (\<lambda>_.
     bindE (ost_assert (p ! 4 = q ! 4)) (\<lambda>_. Inr s6)))))))))))"

text \<open>\<^verbatim>\<open>OST_ASSERT(fl.put(frame) == expected)\<close> and \<^verbatim>\<open>OST_ASSERT(fl.get() == expected)\<close>.\<close>

definition assert_put :: "ptr \<Rightarrow> ptr \<Rightarrow> store \<times> free_list \<Rightarrow> (store \<times> free_list) result" where
  "assert_put frame expected = (\<lambda>(m, fl).
     bindE (fl_put m fl frame) (\<lambda>(m1, fl1, r). bindE (ost_assert (r = expected)) (\<lambda>_. Inr (m1, fl1))))"

definition assert_get :: "ptr \<Rightarrow> store \<times> free_list \<Rightarrow> (store \<times> free_list) result" where
  "assert_get expected = (\<lambda>(m, fl).
     bindE (fl_get m fl) (\<lambda>(m1, fl1, r). bindE (ost_assert (r = expected)) (\<lambda>_. Inr (m1, fl1))))"

text \<open>What the four tests of the free list have in common: the pages and the initialised list.\<close>

definition free_list_test ::
  "nat \<Rightarrow> bool \<Rightarrow> (ptr \<Rightarrow> store \<times> free_list \<Rightarrow> (store \<times> free_list) result) \<Rightarrow> kernel_memory \<Rightarrow> kernel_memory result" where
  "free_list_test order disable_squashing body s =
     bindE (alloc_pages s 128) (\<lambda>(s1, pages).
     bindE (ost_assert (pages \<noteq> nullptr)) (\<lambda>_.
     bindE (fl_initialize (km_store s1) free_list_empty order disable_squashing) (\<lambda>(fl, ok).
     bindE (ost_assert ok) (\<lambda>_.
     bindE (body pages (km_store s1, fl)) (\<lambda>(m, fl1). free_pages_at (s1\<lparr>km_store := m\<rparr>) pages)))))"

definition small_even_body :: "ptr \<Rightarrow> store \<times> free_list \<Rightarrow> (store \<times> free_list) result" where
  "small_even_body pages x =
     (let first_address = align_up (PAGE_SIZE * 2) pages;
          second_address = first_address + PAGE_SIZE;
          third_address = second_address + PAGE_SIZE
      in bindE (assert_put first_address nullptr x) (\<lambda>x.
         bindE (assert_put second_address first_address x) (\<lambda>x.
         bindE (assert_put third_address nullptr x) (\<lambda>x.
         bindE (assert_get third_address x) (assert_get nullptr)))))"

definition free_list_small_even :: "kernel_memory \<Rightarrow> kernel_memory result" where
  "free_list_small_even = free_list_test 0 False small_even_body"

definition small_odd_body :: "ptr \<Rightarrow> store \<times> free_list \<Rightarrow> (store \<times> free_list) result" where
  "small_odd_body pages x =
     (let first_address = align_up (PAGE_SIZE * 2) pages + PAGE_SIZE;
          second_address = first_address + PAGE_SIZE;
          third_address = second_address + PAGE_SIZE
      in bindE (assert_put first_address nullptr x) (\<lambda>x.
         bindE (assert_put second_address nullptr x) (\<lambda>x.
         bindE (assert_put third_address second_address x) (assert_get first_address))))"

definition free_list_small_odd :: "kernel_memory \<Rightarrow> kernel_memory result" where
  "free_list_small_odd = free_list_test 0 False small_odd_body"

definition high_even_body :: "ptr \<Rightarrow> store \<times> free_list \<Rightarrow> (store \<times> free_list) result" where
  "high_even_body pages x =
     (let first_address = align_up (PAGE_SIZE * 16) pages;
          second_address = first_address + PAGE_SIZE * 8;
          third_address = second_address + PAGE_SIZE * 8
      in bindE (assert_put first_address nullptr x) (\<lambda>x.
         bindE (assert_put second_address nullptr x) (\<lambda>x.
         bindE (assert_put third_address nullptr x) (\<lambda>(m, fl).
         bindE (fl_get m fl) (\<lambda>(m1, fl1, r).
           let got_addr = r div PAGE_SIZE
           in bindE (ost_assert (got_addr = first_address div PAGE_SIZE)) (\<lambda>_. Inr (m1, fl1)))))))"

definition free_list_high_even :: "kernel_memory \<Rightarrow> kernel_memory result" where
  "free_list_high_even = free_list_test 3 True high_even_body"

definition high_odd_body :: "ptr \<Rightarrow> store \<times> free_list \<Rightarrow> (store \<times> free_list) result" where
  "high_odd_body pages x =
     (let first_address = align_up (PAGE_SIZE * 16) pages + PAGE_SIZE * 8;
          second_address = first_address + PAGE_SIZE * 8;
          third_address = second_address + PAGE_SIZE * 8
      in bindE (assert_put first_address nullptr x) (\<lambda>x.
         bindE (assert_put second_address nullptr x) (\<lambda>x.
         bindE (assert_put third_address nullptr x) (\<lambda>x.
         bindE (assert_get first_address x) (\<lambda>x.
         bindE (assert_get second_address x) (\<lambda>x.
         bindE (assert_get third_address x) (assert_get nullptr)))))))"

definition free_list_high_odd :: "kernel_memory \<Rightarrow> kernel_memory result" where
  "free_list_high_odd = free_list_test 3 True high_odd_body"

text \<open>The test of the slab: five elements of four bytes; the destructor gives the memory back.\<close>

definition slab_test :: "kernel_memory \<Rightarrow> kernel_memory result" where
  "slab_test s =
     bindE (slab_construct (km_store s) (km_pages s) 4 10) (\<lambda>(m, pa, test_slab).
     bindE (ost_assert (slab_is_initialized test_slab)) (\<lambda>_.
       let (m0, p0) = slab_allocate m test_slab;
           (m1, p1) = slab_allocate m0 test_slab;
           (m2, p2) = slab_allocate m1 test_slab;
           (m3, p3) = slab_allocate m2 test_slab
       in bindE (slab_deallocate m3 test_slab p2) (\<lambda>m4.
          let (m5, p4) = slab_allocate m4 test_slab
          in bindE (ost_assert (p1 = p0 + 4)) (\<lambda>_.
             bindE (ost_assert (p2 = p1 + 4)) (\<lambda>_.
             bindE (ost_assert (p3 = p2 + 4)) (\<lambda>_.
             bindE (ost_assert (p4 = p2)) (\<lambda>_.
             bindE (slab_destroy m5 pa test_slab) (\<lambda>(m6, pa1, _). Inr (s\<lparr>km_store := m6, km_pages := pa1\<rparr>)))))))))"

text \<open>The test of the buddy allocator, on a region that is taken from the page allocator.\<close>

primrec buddy_get_all :: "nat \<Rightarrow> store \<times> buddy_allocator \<Rightarrow> ((store \<times> buddy_allocator) \<times> pblk list) result" where
  "buddy_get_all 0 x = Inr (x, [])"
| "buddy_get_all (Suc n) x =
     bindE (bud_get (fst x) (snd x) 1) (\<lambda>(m, b, blk).
     bindE (ost_assert (blk_ptr blk \<noteq> nullptr)) (\<lambda>_.
     bindE (buddy_get_all n (m, b)) (\<lambda>(x1, blks). Inr (x1, blk # blks))))"

primrec buddy_put_all :: "pblk list \<Rightarrow> store \<times> buddy_allocator \<Rightarrow> (store \<times> buddy_allocator) result" where
  "buddy_put_all [] x = Inr x"
| "buddy_put_all (blk # blks) x = bindE (bud_put (fst x) (snd x) blk) (buddy_put_all blks)"

primrec buddy_compare_all :: "pblk list \<Rightarrow> store \<times> buddy_allocator \<Rightarrow> (store \<times> buddy_allocator) result" where
  "buddy_compare_all [] x = Inr x"
| "buddy_compare_all (blk # blks) x =
     bindE (bud_get (fst x) (snd x) 1) (\<lambda>(m, b, blk1).
     bindE (ost_assert (blk = blk1)) (\<lambda>_. buddy_compare_all blks (m, b)))"

definition buddy_test :: "kernel_memory \<Rightarrow> kernel_memory result" where
  "buddy_test s =
     bindE (alloc_pages s (800 + 223)) (\<lambda>(s1, ptr).
     bindE (ost_assert (ptr \<noteq> nullptr)) (\<lambda>_.
       let region = mr_set_end (mr_set_begin \<lparr>mr_begin = nullptr, mr_end = nullptr\<rparr> ptr) (ptr + PAGE_SIZE * (800 + 223))
       in bindE (bud_initialize (km_store s1) (buddy_allocator_default \<lparr>mr_begin = nullptr, mr_end = nullptr\<rparr>) region) (\<lambda>b.
          bindE (bud_put (km_store s1) b \<lparr>blk_ptr = ptr, blk_size = 800 + 223\<rparr>) (\<lambda>x1.
          bindE (buddy_get_all 800 x1) (\<lambda>(x2, pages).
          bindE (buddy_put_all pages x2) (\<lambda>x3.
          bindE (buddy_compare_all pages x3) (\<lambda>(m, b).
            free_pages_at (s1\<lparr>km_store := m\<rparr>) ptr)))))))"

text \<open>The loop of the test of the heap, and the test of the bit array.\<close>

function mallocator_loop :: "u32 \<Rightarrow> kernel_memory \<Rightarrow> kernel_memory result" where
  "mallocator_loop chunk_size s =
     (if chunk_size < PAGE_SIZE * 3
      then bindE (kmalloc s chunk_size) (\<lambda>(s1, mem).
           bindE (ost_assert (mem \<noteq> nullptr)) (\<lambda>_.
           bindE (kfree s1 mem) (mallocator_loop (chunk_size + 8))))
      else Inr s)"
  by pat_completeness auto
termination
proof (relation "measure (\<lambda>(c, s). 12288 - unat c)", simp, clarify)
  fix c :: u32 assume "c < PAGE_SIZE * 3"
  then have "unat c < 12288" by (simp add: word_less_nat_alt PAGE_SIZE_def)
  then show "((c + 8, x), (c, s)) \<in> measure (\<lambda>(c, s). 12288 - unat c)" for x :: kernel_memory and s :: kernel_memory
    by (simp add: unat_add_u32)
qed

declare mallocator_loop.simps [simp del]

definition mallocator_test :: "kernel_memory \<Rightarrow> kernel_memory result" where
  "mallocator_test s = mallocator_loop 7 s"

text \<open>The test of the bit array uses the page that it gets without looking whether it got one.\<close>

definition bit_array_test :: "kernel_memory \<Rightarrow> kernel_memory result" where
  "bit_array_test s =
     bindE (alloc_pages s 1) (\<lambda>(s1, mem).
       if mem = nullptr then Inl Undef
       else let (m, ba) = ba_initialize (km_store s1) mem 10;
                m1 = fold (\<lambda>idx m. ba_set m ba (of_nat idx) (odd idx)) [0..<10] m
       in if \<exists>idx\<in>set [0..<10]. ba_get m1 ba (of_nat idx) \<noteq> odd idx then Inl (Panic ''Failed Test!'')
          else free_pages_at (s1\<lparr>km_store := m1\<rparr>) mem)"

section \<open>Steps of the tests\<close>

text \<open>The run that a request takes, and its pages.\<close>

definition held :: "nat \<Rightarrow> nat option \<Rightarrow> (nat \<times> nat) set" where
  "held n r = (case r of None \<Rightarrow> {} | Some x \<Rightarrow> {(x, n)})"

definition taken :: "nat \<Rightarrow> nat option \<Rightarrow> nat set" where
  "taken n r = (case r of None \<Rightarrow> {} | Some x \<Rightarrow> {x..<x + n})"

lemma held_taken_simps [simp]:
  "held n None = {}" "held n (Some x) = {(x, n)}" "taken n None = {}" "taken n (Some x) = {x..<x + n}"
  by (simp_all add: held_def taken_def)

lemma alloc_pages_step:
  assumes rep: "km_rep g s F H h0 hs Ss" and n: "n \<noteq> 0" "unat n \<le> 2 ^ 31"
  defines "r \<equiv> first_fit F (unat n)"
  shows "\<exists>s'. alloc_pages s n = Inr (s', ptr_of r) \<and> km_rep g s' (F - taken (unat n) r) (H \<union> held (unat n) r) h0 hs Ss
    \<and> taken (unat n) r \<subseteq> F \<and> held (unat n) r \<inter> H = {} \<and> km_malloc s' = km_malloc s \<and> km_highmem s' = km_highmem s
    \<and> (case r of None \<Rightarrow> (\<forall>i x. i \<le> 10 \<and> unat n \<le> 2 ^ i \<and> 2 ^ i dvd x \<longrightarrow> \<not> block i x \<subseteq> F)
       | Some x \<Rightarrow> aligned_for (unat n) x)"
proof -
  have ma: "ma_rep g (km_store s) (km_pages s) (km_malloc s) F H h0 hs Ss" using rep by (simp add: km_rep_def)
  have sub: "set (h0 # hs) \<subseteq> H" using ma by (simp add: ma_rep_def)
  note D = ma_repD [OF ma]
  obtain m' pa' p where al: "pa_allocate (km_store s) (km_pages s) n = Inr (m', pa', p)"
    and by': "\<And>q. q \<notin> map_bytes g \<Longrightarrow> bytes m' q = bytes (km_store s) q"
    and res: "if p = nullptr then pa_rep g m' pa' F H
         \<and> (\<forall>i x. i \<le> 10 \<and> unat n \<le> 2 ^ i \<and> 2 ^ i dvd x \<longrightarrow> \<not> block i x \<subseteq> F)
       else \<exists>x. p = frame_addr x \<and> {x..<x + unat n} \<subseteq> F \<and> aligned_for (unat n) x
         \<and> pa_rep g m' pa' (F - {x..<x + unat n}) (insert (x, unat n) H)"
    using pa_allocate_rep [OF D(1) n] by blast
  have p: "p = ptr_of r" unfolding r_def by (rule pa_allocate_choice [OF D(1) n al])
  let ?s = "s\<lparr>km_store := m', km_pages := pa'\<rparr>"
  have a: "alloc_pages s n = Inr (?s, ptr_of r)" using al p by (simp add: alloc_pages_def)
  have n0: "0 < unat n" using n(1) by (simp add: unat_gt_0)
  have fr: "F \<subseteq> frames" using D(1) bud_pool_frames by (auto simp: pa_rep_def)
  show ?thesis
  proof (cases r)
    case None
    then show ?thesis using a p res ma_rep_pages [OF ma _ sub by'] by (auto simp: km_rep_def)
  next
    case (Some y)
    then have yf: "y \<in> frames" using first_fit_frames unfolding r_def by blast
    then have "p \<noteq> nullptr" using p Some frame_addr_null by simp
    then obtain x where x: "p = frame_addr x" "{x..<x + unat n} \<subseteq> F" "aligned_for (unat n) x"
      "pa_rep g m' pa' (F - {x..<x + unat n}) (insert (x, unat n) H)" using res by auto
    have "x \<in> F" using x(2) n0 by auto
    then have "x \<in> frames" using fr by blast
    then have "y = x" using x(1) p Some yf by (simp add: u32_eq_iff_unat unat_frame_addr)
    moreover have "(x, unat n) \<notin> H" using run_bounds(4) [OF D(2)] x(2) n0 by fastforce
    moreover have "ma_rep g m' pa' (km_malloc s) (F - {x..<x + unat n}) (insert (x, unat n) H) h0 hs Ss"
      using ma_rep_pages [OF ma x(4) _ by'] sub by auto
    ultimately show ?thesis using a Some x by (auto simp: km_rep_def)
  qed
qed

lemma free_pages_step:
  assumes rep: "km_rep g s F H h0 hs Ss" and r: "held n r \<subseteq> H" "held n r \<inter> set (h0 # hs) = {}"
  shows "\<exists>s'. free_pages_at s (ptr_of r) = Inr s' \<and> km_rep g s' (F \<union> taken n r) (H - held n r) h0 hs Ss
    \<and> km_malloc s' = km_malloc s \<and> km_highmem s' = km_highmem s"
proof (cases r)
  case None
  then show ?thesis using rep by (simp add: free_pages_at_def pa_deallocate_def)
next
  case (Some x)
  have ma: "ma_rep g (km_store s) (km_pages s) (km_malloc s) F H h0 hs Ss" using rep by (simp add: km_rep_def)
  have sub: "set (h0 # hs) \<subseteq> H" using ma by (simp add: ma_rep_def)
  have h: "(x, n) \<in> H" using r(1) Some by simp
  obtain m' pa' where d: "pa_deallocate (km_store s) (km_pages s) (frame_addr x) = Inr (m', pa')"
    "pa_rep g m' pa' (F \<union> {x..<x + n}) (H - {(x, n)})" "\<And>q. q \<notin> map_bytes g \<Longrightarrow> bytes m' q = bytes (km_store s) q"
    using pa_deallocate_rep [OF ma_repD(1) [OF ma] h] by blast
  have "set (h0 # hs) \<subseteq> H - {(x, n)}" using sub r(2) Some by auto
  from ma_rep_pages [OF ma d(2) this d(3)] show ?thesis using d(1) Some by (auto simp: free_pages_at_def km_rep_def)
qed

text \<open>A client may write into a run that it holds.\<close>

lemma ma_rep_client:
  assumes rep: "ma_rep g m pa ma F H h0 hs Ss" and h: "h \<in> H" "h \<notin> set (h0 # hs)"
    and nx: "\<And>q. q \<notin> frame_addr ` run h \<Longrightarrow> nexts m' q = nexts m q"
    and by': "\<And>q. unat q \<notin> run_bytes h \<Longrightarrow> bytes m' q = bytes m q"
  shows "ma_rep g m' pa ma F H h0 hs Ss"
proof -
  note D = ma_repD [OF rep]
  have pool: "bud_pool m (pa_primary pa) F" using D(1) by (simp add: pa_rep_def)
  have h': "run h \<subseteq> {gf g..<ge g}" "run h \<inter> F = {}" using D(2) h(1) by (auto simp: held_ok_def)
  let ?m = "m'\<lparr>bytes := bytes m\<rparr>"
  have "same_outside (run h) m ?m" using nx by (simp add: same_outside_def)
  moreover have fr: "run h \<subseteq> frames" using h'(1) D(3) by (auto simp: geometry_ok_def)
  ultimately have "bud_pool ?m (pa_primary pa) F" using bud.pool_same [OF pool] h'(2) by blast
  then have "bud_pool m' (pa_primary pa) F" by (simp only: bud.pool_bytes)
  moreover have "ba_get m' (pa_map pa) (of_nat i) = ba_get m (pa_map pa) (of_nat i)" if "i < ge g - gb g" for i
  proof -
    have "ba_byte (pa_map pa) (of_nat i) \<in> map_bytes g"
      using map_byte_in [OF D(3) _ that] D(1) by (simp add: pa_rep_def)
    then show ?thesis using by' map_bytes_not_run [OF D(2) h(1)] by (simp add: ba_get_def)
  qed
  ultimately have pa: "pa_rep g m' pa F H" using D(1) by (simp add: pa_rep_def)
  have "slab_rep m' (ma_chain ma ! k) (Ss ! k)" if k: "k < length (ma_chain ma)" for k
    using D(11) [OF k] h by (intro slab_rep_other [OF D(2) _ h(1) _ D(7) [OF k] D(10) [OF k] by']) auto
  then show ?thesis using rep pa by (simp add: ma_rep_def chain_ok_def)
qed

text \<open>The first page of a run of a power of two of pages is aligned to it.\<close>

lemma taken_aligned: "aligned_for (2 ^ k) x \<Longrightarrow> 2 ^ k dvd x"
  unfolding aligned_for_def by (meson dvd_trans le_imp_power_dvd one_less_numeral_iff power_le_imp_le_exp semiring_norm(76))

lemma alloc_pages_some:
  assumes rep: "km_rep g s F H h0 hs Ss" and n: "n \<noteq> 0" and i: "i \<le> 10" "unat n \<le> 2 ^ i" "2 ^ i dvd y" "block i y \<subseteq> F"
  shows "\<exists>s' x. alloc_pages s n = Inr (s', frame_addr x) \<and> km_rep g s' (F - {x..<x + unat n}) (insert (x, unat n) H) h0 hs Ss
    \<and> {x..<x + unat n} \<subseteq> F \<and> {x..<x + unat n} \<subseteq> frames \<and> x \<in> frames \<and> (x, unat n) \<notin> H \<and> (x, unat n) \<notin> set (h0 # hs)
    \<and> aligned_for (unat n) x \<and> km_malloc s' = km_malloc s \<and> km_highmem s' = km_highmem s"
proof -
  have sub: "set (h0 # hs) \<subseteq> H" using rep by (simp add: km_rep_def ma_rep_def)
  have fr: "F \<subseteq> frames" using rep bud_pool_frames by (auto simp: km_rep_def ma_rep_def pa_rep_def)
  define r where "r = first_fit F (unat n)"
  have "unat n \<le> 2 ^ 31" using i(2) power_increasing [of i 31 "2 :: nat"] i(1) by linarith
  then obtain s1 where a: "alloc_pages s n = Inr (s1, ptr_of r)" "km_rep g s1 (F - taken (unat n) r) (H \<union> held (unat n) r) h0 hs Ss"
    "taken (unat n) r \<subseteq> F" "held (unat n) r \<inter> H = {}" "km_malloc s1 = km_malloc s" "km_highmem s1 = km_highmem s"
    and c: "case r of None \<Rightarrow> (\<forall>i x. i \<le> 10 \<and> unat n \<le> (2::nat) ^ i \<and> 2 ^ i dvd x \<longrightarrow> \<not> block i x \<subseteq> F) | Some x \<Rightarrow> aligned_for (unat n) x"
    using alloc_pages_step [OF rep n] unfolding r_def by blast
  have "r \<noteq> None"
  proof
    assume "r = None"
    then have "\<forall>i x. i \<le> 10 \<and> unat n \<le> (2::nat) ^ i \<and> 2 ^ i dvd x \<longrightarrow> \<not> block i x \<subseteq> F" using c by simp
    then show False using i by blast
  qed
  then obtain x where r: "r = Some x" by blast
  have t: "{x..<x + unat n} \<subseteq> F" using a(3) r by simp
  moreover have "x \<in> F" using t n by (auto simp: unat_gt_0)
  ultimately have "{x..<x + unat n} \<subseteq> frames" "x \<in> frames" using fr by blast+
  moreover have nH: "(x, unat n) \<notin> H" using a(4) r by simp
  moreover from nH have "(x, unat n) \<notin> set (h0 # hs)" using sub by blast
  ultimately show ?thesis using a c r t by (intro exI [of _ s1] exI [of _ x]) simp
qed

text \<open>A client releases a run after it has written into it.\<close>

lemma client_free:
  assumes "km_rep g s (F - {x..<x + n}) (insert (x, n) H) h0 hs Ss" "{x..<x + n} \<subseteq> F" "(x, n) \<notin> H" "(x, n) \<notin> set (h0 # hs)"
    "\<And>q. q \<notin> frame_addr ` {x..<x + n} \<Longrightarrow> nexts m' q = nexts (km_store s) q"
    "\<And>q. unat q \<notin> run_bytes (x, n) \<Longrightarrow> bytes m' q = bytes (km_store s) q"
  shows "\<exists>s'. free_pages_at (s\<lparr>km_store := m'\<rparr>) (frame_addr x) = Inr s' \<and> km_rep g s' F H h0 hs Ss
    \<and> km_malloc s' = km_malloc s \<and> km_highmem s' = km_highmem s"
proof -
  have "km_rep g (s\<lparr>km_store := m'\<rparr>) (F - {x..<x + n}) (insert (x, n) H) h0 hs Ss"
    using assms(1) ma_rep_client [of g "km_store s" "km_pages s" "km_malloc s" _ _ h0 hs Ss "(x, n)" m'] assms(4-6)
    by (simp add: km_rep_def run_def)
  from free_pages_step [OF this, of n "Some x"] assms(2-4) show ?thesis
    by (auto simp: Un_absorb2 insert_Diff_if)
qed

definition some_block :: "nat \<Rightarrow> nat set \<Rightarrow> bool" where
  "some_block i F \<longleftrightarrow> (\<exists>y. 2 ^ i dvd y \<and> block i y \<subseteq> F)"

lemma first_fit_some:
  assumes "km_rep g s F H h0 hs Ss" "some_block i F'" "F' \<subseteq> F" "i \<le> 10" "n \<le> 2 ^ i"
  shows "\<exists>x. first_fit F n = Some x"
proof -
  obtain A where A: "blocks_ok A" "free_pages A = F" using assms(1) by (auto simp: km_rep_def ma_rep_def pa_rep_def bud_pool_def)
  obtain y where y: "2 ^ i dvd y" "block i y \<subseteq> F" using assms(2,3) by (auto simp: some_block_def)
  then obtain j z where "i \<le> j" "z \<in> A j" using free_run_in_block [OF A(1) assms(4)] A(2) by blast
  then have "n \<le> 2 ^ j \<and> canon F j \<noteq> {}"
    using blocks_canon [OF A(1), of j] A(2) le_trans [OF assms(5) power_increasing [of i j "2 :: nat"]] by auto
  then show ?thesis unfolding first_fit_def by auto
qed

section \<open>The test of the page allocator\<close>

text \<open>The answers to the requests of the test are determined by the free pages.\<close>

definition picks :: "nat set \<Rightarrow> nat option list" where
  "picks F =
     (let r0 = first_fit F 1; F1 = F - taken 1 r0;
          r1 = first_fit F1 2; F2 = F1 - taken 2 r1;
          r2 = first_fit F2 3; F3 = F2 - taken 3 r2;
          r3 = first_fit F3 2; F4 = (F3 - taken 2 r3) \<union> taken 2 r1;
          r4 = first_fit F4 2
      in [r0, r1, r2, r3, r4])"

lemma page_alloc_calls_step:
  assumes rep: "km_rep g s F H h0 hs Ss"
  shows "\<exists>s' r0 r1 r2 r3 r4 F'. page_alloc_calls s = Inr (s', map ptr_of (picks F)) \<and> picks F = [r0, r1, r2, r3, r4]
    \<and> km_rep g s' F' (H \<union> held 1 r0 \<union> held 3 r2 \<union> held 2 r3 \<union> held 2 r4) h0 hs Ss
    \<and> F = F' \<union> taken 1 r0 \<union> taken 3 r2 \<union> taken 2 r3 \<union> taken 2 r4
    \<and> sorted_wrt (\<lambda>A B. A \<inter> B = {}) [F', taken 1 r0, taken 3 r2, taken 2 r3, taken 2 r4]
    \<and> sorted_wrt (\<lambda>A B. A \<inter> B = {}) [H, held 1 r0, held 3 r2, held 2 r3, held 2 r4]
    \<and> km_malloc s' = km_malloc s \<and> km_highmem s' = km_highmem s
    \<and> (some_block 2 (F - (taken 1 r0 \<union> taken 2 r1 \<union> taken 3 r2 \<union> taken 2 r3)) \<longrightarrow> None \<notin> {r0, r2, r3, r4})"
proof -
  have u: "unat (1 :: u32) = 1" "unat (2 :: u32) = 2" "unat (3 :: u32) = 3" by simp_all
  define r0 F1 where "r0 = first_fit F 1" and "F1 = F - taken 1 r0"
  define r1 F2 where "r1 = first_fit F1 2" and "F2 = F1 - taken 2 r1"
  define r2 F3 where "r2 = first_fit F2 3" and "F3 = F2 - taken 3 r2"
  define r3 F4 where "r3 = first_fit F3 2" and "F4 = (F3 - taken 2 r3) \<union> taken 2 r1"
  define r4 where "r4 = first_fit F4 2"
  have picks: "picks F = [r0, r1, r2, r3, r4]"
    unfolding picks_def Let_def r0_def F1_def r1_def F2_def r2_def F3_def r3_def F4_def r4_def by simp
  have sub: "set (h0 # hs) \<subseteq> H" using rep by (simp add: km_rep_def ma_rep_def)
  obtain s1 where 1: "alloc_pages s 1 = Inr (s1, ptr_of r0)" "km_rep g s1 F1 (H \<union> held 1 r0) h0 hs Ss"
    "taken 1 r0 \<subseteq> F" "held 1 r0 \<inter> H = {}" "km_malloc s1 = km_malloc s" "km_highmem s1 = km_highmem s"
    using alloc_pages_step [OF rep, of 1] unfolding u r0_def F1_def by auto
  obtain s2 where 2: "alloc_pages s1 2 = Inr (s2, ptr_of r1)" "km_rep g s2 F2 (H \<union> held 1 r0 \<union> held 2 r1) h0 hs Ss"
    "taken 2 r1 \<subseteq> F1" "held 2 r1 \<inter> (H \<union> held 1 r0) = {}" "km_malloc s2 = km_malloc s1" "km_highmem s2 = km_highmem s1"
    using alloc_pages_step [OF 1(2), of 2] unfolding u r1_def F2_def by auto
  obtain s3 where 3: "alloc_pages s2 3 = Inr (s3, ptr_of r2)" "km_rep g s3 F3 (H \<union> held 1 r0 \<union> held 2 r1 \<union> held 3 r2) h0 hs Ss"
    "taken 3 r2 \<subseteq> F2" "held 3 r2 \<inter> (H \<union> held 1 r0 \<union> held 2 r1) = {}" "km_malloc s3 = km_malloc s2" "km_highmem s3 = km_highmem s2"
    using alloc_pages_step [OF 2(2), of 3] unfolding u r2_def F3_def by auto
  let ?H4 = "H \<union> held 1 r0 \<union> held 2 r1 \<union> held 3 r2 \<union> held 2 r3"
  obtain s4 where 4: "alloc_pages s3 2 = Inr (s4, ptr_of r3)" "km_rep g s4 (F3 - taken 2 r3) ?H4 h0 hs Ss"
    "taken 2 r3 \<subseteq> F3" "held 2 r3 \<inter> (H \<union> held 1 r0 \<union> held 2 r1 \<union> held 3 r2) = {}" "km_malloc s4 = km_malloc s3" "km_highmem s4 = km_highmem s3"
    using alloc_pages_step [OF 3(2), of 2] unfolding u r3_def by auto
  have "held 2 r1 \<subseteq> ?H4" "held 2 r1 \<inter> set (h0 # hs) = {}" using sub 2(4) by blast+
  then obtain s5 where 5: "free_pages_at s4 (ptr_of r1) = Inr s5" "km_rep g s5 F4 (?H4 - held 2 r1) h0 hs Ss"
    "km_malloc s5 = km_malloc s4" "km_highmem s5 = km_highmem s4"
    using free_pages_step [OF 4(2)] unfolding F4_def by blast
  have H5: "?H4 - held 2 r1 = H \<union> held 1 r0 \<union> held 3 r2 \<union> held 2 r3" using 2(4) 3(4) 4(4) by blast
  obtain s6 where 6: "alloc_pages s5 2 = Inr (s6, ptr_of r4)"
    "km_rep g s6 (F4 - taken 2 r4) (H \<union> held 1 r0 \<union> held 3 r2 \<union> held 2 r3 \<union> held 2 r4) h0 hs Ss"
    "taken 2 r4 \<subseteq> F4" "held 2 r4 \<inter> (H \<union> held 1 r0 \<union> held 3 r2 \<union> held 2 r3) = {}" "km_malloc s6 = km_malloc s5" "km_highmem s6 = km_highmem s5"
    using alloc_pages_step [OF 5(2) [unfolded H5], of 2] unfolding u r4_def by auto
  have "page_alloc_calls s = Inr (s6, map ptr_of (picks F))"
    using 1(1) 2(1) 3(1) 4(1) 5(1) 6(1) by (simp add: page_alloc_calls_def picks)
  moreover have "F = (F4 - taken 2 r4) \<union> taken 1 r0 \<union> taken 3 r2 \<union> taken 2 r3 \<union> taken 2 r4"
    using 1(3) 2(3) 3(3) 4(3) 6(3) unfolding F1_def F2_def F3_def F4_def by blast
  moreover have "sorted_wrt (\<lambda>A B. A \<inter> B = {}) [F4 - taken 2 r4, taken 1 r0, taken 3 r2, taken 2 r3, taken 2 r4]"
    unfolding sorted_wrt.simps list.set ball_simps using 1(3) 2(3) 3(3) 4(3) 6(3) unfolding F1_def F2_def F3_def F4_def
    by (intro conjI TrueI) blast+
  moreover have "sorted_wrt (\<lambda>A B. A \<inter> B = {}) [H, held 1 r0, held 3 r2, held 2 r3, held 2 r4]"
    using 1(4) 3(4) 4(4) 6(4) by (simp add: Int_Un_distrib Int_commute)
  moreover have "None \<notin> {r0, r2, r3, r4}" if b: "some_block 2 (F - (taken 1 r0 \<union> taken 2 r1 \<union> taken 3 r2 \<union> taken 2 r3))" (is "some_block 2 ?F")
  proof -
    have s: "?F \<subseteq> F" "?F \<subseteq> F2" "?F \<subseteq> F3" "?F \<subseteq> F4" unfolding F1_def F2_def F3_def F4_def by blast+
    have "\<exists>x. r0 = Some x" "\<exists>x. r2 = Some x" "\<exists>x. r3 = Some x" "\<exists>x. r4 = Some x"
      unfolding r0_def r2_def r3_def r4_def
      by (rule first_fit_some [OF rep b s(1)] first_fit_some [OF 2(2) b s(2)] first_fit_some [OF 3(2) b s(3)] first_fit_some [OF 5(2) b s(4)]; simp)+
    then show ?thesis by auto
  qed
  ultimately show ?thesis using picks 1(5,6) 2(5,6) 3(5,6) 4(5,6) 5(3,4) 6(2,5,6) by (metis (no_types))
qed

lemma page_alloc_test_step:
  assumes rep: "km_rep g s F H h0 hs Ss"
  shows "\<exists>s' r0 r1 r2 r3 r4 F'. page_alloc_test s = Inr s' \<and> picks F = [r0, r1, r2, r3, r4]
    \<and> km_rep g s' F' (H \<union> held 1 r0 \<union> held 3 r2 \<union> held 2 r3 \<union> held 2 r4) h0 hs Ss
    \<and> F = F' \<union> taken 1 r0 \<union> taken 3 r2 \<union> taken 2 r3 \<union> taken 2 r4
    \<and> sorted_wrt (\<lambda>A B. A \<inter> B = {}) [F', taken 1 r0, taken 3 r2, taken 2 r3, taken 2 r4]
    \<and> (some_block 2 (F - (taken 1 r0 \<union> taken 2 r1 \<union> taken 3 r2 \<union> taken 2 r3)) \<longrightarrow> None \<notin> {r0, r2, r3, r4})
    \<and> km_malloc s' = km_malloc s \<and> km_highmem s' = km_highmem s"
proof -
  have sub: "set (h0 # hs) \<subseteq> H" using rep by (simp add: km_rep_def ma_rep_def)
  obtain s1 r0 r1 r2 r3 r4 F1 where c: "page_alloc_calls s = Inr (s1, map ptr_of (picks F))" "picks F = [r0, r1, r2, r3, r4]"
    "km_rep g s1 F1 (H \<union> held 1 r0 \<union> held 3 r2 \<union> held 2 r3 \<union> held 2 r4) h0 hs Ss"
    "F = F1 \<union> taken 1 r0 \<union> taken 3 r2 \<union> taken 2 r3 \<union> taken 2 r4"
    "sorted_wrt (\<lambda>A B. A \<inter> B = {}) [H, held 1 r0, held 3 r2, held 2 r3, held 2 r4]"
    "km_malloc s1 = km_malloc s" "km_highmem s1 = km_highmem s"
    using page_alloc_calls_step [OF rep] by blast
  have dj: "H \<inter> held 1 r0 = {}" "H \<inter> held 3 r2 = {}" "H \<inter> held 2 r3 = {}" "H \<inter> held 2 r4 = {}" "held 1 r0 \<inter> held 3 r2 = {}"
    "held 1 r0 \<inter> held 2 r3 = {}" "held 1 r0 \<inter> held 2 r4 = {}" "held 3 r2 \<inter> held 2 r3 = {}" "held 3 r2 \<inter> held 2 r4 = {}"
    "held 2 r3 \<inter> held 2 r4 = {}" using c(5) by simp_all
  let ?H1 = "H \<union> held 3 r2 \<union> held 2 r3 \<union> held 2 r4" and ?H2 = "H \<union> held 2 r3 \<union> held 2 r4" and ?H3 = "H \<union> held 2 r4"
  have "held 1 r0 \<inter> set (h0 # hs) = {}" "(H \<union> held 1 r0 \<union> held 3 r2 \<union> held 2 r3 \<union> held 2 r4) - held 1 r0 = ?H1" using sub dj by blast+
  then obtain s2 where 2: "free_pages_at s1 (ptr_of r0) = Inr s2" "km_rep g s2 (F1 \<union> taken 1 r0) ?H1 h0 hs Ss"
    "km_malloc s2 = km_malloc s1" "km_highmem s2 = km_highmem s1"
    using free_pages_step [OF c(3), of 1 r0] by (metis (no_types, lifting) Un_upper1 Un_upper2 le_supI1)
  have "held 3 r2 \<inter> set (h0 # hs) = {}" "?H1 - held 3 r2 = ?H2" using sub dj by blast+
  then obtain s3 where 3: "free_pages_at s2 (ptr_of r2) = Inr s3" "km_rep g s3 (F1 \<union> taken 1 r0 \<union> taken 3 r2) ?H2 h0 hs Ss"
    "km_malloc s3 = km_malloc s2" "km_highmem s3 = km_highmem s2"
    using free_pages_step [OF 2(2), of 3 r2] by (metis (no_types, lifting) Un_upper1 Un_upper2 le_supI1)
  have "held 2 r3 \<inter> set (h0 # hs) = {}" "?H2 - held 2 r3 = ?H3" using sub dj by blast+
  then obtain s4 where 4: "free_pages_at s3 (ptr_of r3) = Inr s4" "km_rep g s4 (F1 \<union> taken 1 r0 \<union> taken 3 r2 \<union> taken 2 r3) ?H3 h0 hs Ss"
    "km_malloc s4 = km_malloc s3" "km_highmem s4 = km_highmem s3"
    using free_pages_step [OF 3(2), of 2 r3] by (metis (no_types, lifting) Un_upper1 Un_upper2 le_supI1)
  have "held 2 r4 \<inter> set (h0 # hs) = {}" "?H3 - held 2 r4 = H" using sub dj by blast+
  then obtain s5 where 5: "free_pages_at s4 (ptr_of r4) = Inr s5" "km_rep g s5 F H h0 hs Ss"
    "km_malloc s5 = km_malloc s4" "km_highmem s5 = km_highmem s4"
    using free_pages_step [OF 4(2), of 2 r4] c(4) by (metis (no_types, lifting) Un_upper2)
  obtain s6 F2 where 6: "page_alloc_calls s5 = Inr (s6, map ptr_of (picks F))"
    "km_rep g s6 F2 (H \<union> held 1 r0 \<union> held 3 r2 \<union> held 2 r3 \<union> held 2 r4) h0 hs Ss"
    "F = F2 \<union> taken 1 r0 \<union> taken 3 r2 \<union> taken 2 r3 \<union> taken 2 r4" "km_malloc s6 = km_malloc s5" "km_highmem s6 = km_highmem s5"
    "sorted_wrt (\<lambda>A B. A \<inter> B = {}) [F2, taken 1 r0, taken 3 r2, taken 2 r3, taken 2 r4]"
    "some_block 2 (F - (taken 1 r0 \<union> taken 2 r1 \<union> taken 3 r2 \<union> taken 2 r3)) \<longrightarrow> None \<notin> {r0, r2, r3, r4}"
    using page_alloc_calls_step [OF 5(2)] unfolding c(2) list.inject by blast
  have "page_alloc_test s = Inr s6"
    using c(1,2) 2(1) 3(1) 4(1) 5(1) 6(1) by (simp add: page_alloc_test_def ost_assert_def numeral_nat)
  then show ?thesis using c(2,6,7) 2(3,4) 3(3,4) 4(3,4) 5(3,4) 6(2-7) by (metis (no_types))
qed

section \<open>The tests of the free list\<close>

definition fl_state :: "nat set \<Rightarrow> store \<Rightarrow> nat \<Rightarrow> bool \<Rightarrow> nat list \<Rightarrow> store \<times> free_list \<Rightarrow> bool" where
  "fl_state T m0 order nosquash ns = (\<lambda>(m, fl). fl_rep m fl ns \<and> fl_order fl = order \<and> fl_disable_squashing fl = nosquash
     \<and> set ns \<subseteq> T \<and> same_outside T m0 m)"

lemma assert_put_step:
  assumes "fl_state T m0 order nosquash ns x" "y \<in> T" "T \<subseteq> frames" "y \<notin> set ns" "order < 19"
    and "put_pages order nosquash y ns = (ns', r)" "set ns' \<subseteq> T"
  shows "\<exists>x'. assert_put (frame_addr y) (ptr_of r) x = Inr x' \<and> fl_state T m0 order nosquash ns' x'"
proof -
  obtain m fl where x: "x = (m, fl)" by (cases x)
  have fl: "fl_rep m fl ns" "fl_order fl = order" "fl_disable_squashing fl = nosquash" "set ns \<subseteq> T" "same_outside T m0 m"
    using assms(1) by (simp_all add: x fl_state_def)
  have "y \<in> frames" using assms(2,3) by blast
  then obtain m' fl' where put: "fl_put m fl (frame_addr y) = Inr (m', fl', ptr_of r)" "fl_rep m' fl' ns'" "fl_order fl' = order"
    "fl_disable_squashing fl' = nosquash" "same_outside (insert y (set ns)) m m'"
    using fl_put_refines [OF fl(1) _ assms(4)] assms(5,6) fl(2,3) by (auto simp: put_ok_def)
  have "same_outside T m m'" using same_outside_mono [OF put(5)] fl(4) assms(2) by simp
  then have "same_outside T m0 m'" using same_outside_trans [OF fl(5), of T m'] by simp
  then show ?thesis using put assms(7) by (simp add: x assert_put_def ost_assert_def fl_state_def)
qed

lemma assert_get_step:
  "fl_state T m0 order nosquash (n # ns) x \<Longrightarrow> \<exists>x'. assert_get (frame_addr n) x = Inr x' \<and> fl_state T m0 order nosquash ns x'"
  "fl_state T m0 order nosquash [] x \<Longrightarrow> assert_get nullptr x = Inr x"
proof -
  obtain m fl where x: "x = (m, fl)" by (cases x)
  show "\<exists>x'. assert_get (frame_addr n) x = Inr x' \<and> fl_state T m0 order nosquash ns x'" if st: "fl_state T m0 order nosquash (n # ns) x"
  proof -
    obtain m' fl' where g: "fl_get m fl = Inr (m', fl', frame_addr n)" "fl_rep m' fl' ns" "fl_order fl' = fl_order fl"
      "fl_disable_squashing fl' = fl_disable_squashing fl" "same_outside {n} m m'"
      using fl_get_Cons [of m fl n ns] st by (auto simp: x fl_state_def)
    have "same_outside T m m'" using same_outside_mono [OF g(5)] st by (simp add: x fl_state_def)
    then have "same_outside T m0 m'" using same_outside_trans [of T m0 m T m'] st by (simp add: x fl_state_def)
    then show ?thesis using g st by (simp add: x assert_get_def ost_assert_def fl_state_def)
  qed
  show "assert_get nullptr x = Inr x" if "fl_state T m0 order nosquash [] x"
    using that fl_get_Nil [of m fl] by (simp add: x fl_state_def assert_get_def ost_assert_def)
qed

lemma align_up_frame:
  assumes "2 ^ k dvd x" "x < max_frame" "k \<le> 7"
  shows "align_up (PAGE_SIZE * 2 ^ k) (frame_addr x) = frame_addr x"
proof -
  have p: "PAGE_SIZE * 2 ^ k = (2 :: u32) ^ (12 + k)" by (simp add: PAGE_SIZE_def power_add)
  have "(2::nat) ^ (12 + k) dvd x * 4096" using assms(1) by (simp add: power_add mult_dvd_mono mult.commute [of x])
  then have "unat (frame_addr x) mod 2 ^ (12 + k) = 0" using unat_frame_addr [OF assms(2)] by simp
  then show ?thesis using unat_align_up_round [of "12 + k" "frame_addr x"] assms(3) unfolding p by (simp add: u32_eq_iff_unat)
qed

lemma free_list_test_step:
  assumes rep: "km_rep g s F H h0 hs Ss" and y: "128 dvd y" "{y..<y + 128} \<subseteq> F"
    and body: "\<And>x m0 st. 128 dvd x \<Longrightarrow> {x..<x + 128} \<subseteq> frames \<Longrightarrow> fl_state {x..<x + 128} m0 order nosquash [] st
      \<Longrightarrow> \<exists>st' ns. body (frame_addr x) st = Inr st' \<and> fl_state {x..<x + 128} m0 order nosquash ns st'"
  shows "\<exists>s'. free_list_test order nosquash body s = Inr s' \<and> km_rep g s' F H h0 hs Ss
    \<and> km_malloc s' = km_malloc s \<and> km_highmem s' = km_highmem s"
proof -
  have u: "unat (128 :: u32) = 128" by simp
  have "block 7 y \<subseteq> F" using y(2) by (simp add: block_def)
  then obtain s1 x where a: "alloc_pages s 128 = Inr (s1, frame_addr x)" "km_rep g s1 (F - {x..<x + 128}) (insert (x, 128) H) h0 hs Ss"
    "{x..<x + 128} \<subseteq> F" "{x..<x + 128} \<subseteq> frames" "x \<in> frames" "(x, 128) \<notin> H" "(x, 128) \<notin> set (h0 # hs)" "aligned_for 128 x"
    "km_malloc s1 = km_malloc s" "km_highmem s1 = km_highmem s"
    using alloc_pages_some [OF rep, of 128 7 y] y(1) unfolding u by auto
  have al: "128 dvd x" using taken_aligned [of 7 x] a(8) by simp
  let ?fl = "free_list_empty\<lparr>fl_list := nullptr, fl_order := order, fl_disable_squashing := nosquash\<rparr>"
  have fl: "fl_rep m ?fl []" for m by (simp add: fl_rep_Nil_iff free_list_empty_def)
  then have ini: "fl_initialize (km_store s1) free_list_empty order nosquash = Inr (?fl, True)"
    using fl_rep_sane [OF fl] by (simp add: fl_initialize_def Let_def)
  have "fl_state {x..<x + 128} (km_store s1) order nosquash [] (km_store s1, ?fl)" using fl by (simp add: fl_state_def)
  from body [OF al a(4) this] obtain m' fl' where b: "body (frame_addr x) (km_store s1, ?fl) = Inr (m', fl')"
    "same_outside {x..<x + 128} (km_store s1) m'" by (auto simp: fl_state_def)
  obtain s' where "free_pages_at (s1\<lparr>km_store := m'\<rparr>) (frame_addr x) = Inr s'" "km_rep g s' F H h0 hs Ss"
    "km_malloc s' = km_malloc s1" "km_highmem s' = km_highmem s1"
    using client_free [OF a(2,3,6,7), of m'] b(2) by (auto simp: same_outside_def)
  then show ?thesis
    using a(1,9,10) ini b(1) frame_addr_null [OF a(5)] by (simp add: free_list_test_def ost_assert_def)
qed

lemma frame_addr_next: "frame_addr x + PAGE_SIZE = frame_addr (x + 1)" "frame_addr x + PAGE_SIZE * 8 = frame_addr (x + 8)"
  using frame_addr_add [of x 1] frame_addr_add [of x 8] by simp_all

lemma align_up_frames:
  assumes "128 dvd x" "x < max_frame"
  shows "align_up (PAGE_SIZE * 2) (frame_addr x) = frame_addr x" "align_up (PAGE_SIZE * 16) (frame_addr x) = frame_addr x"
proof -
  have "2 dvd x" "16 dvd x" using assms(1) by (auto elim!: dvd_trans [rotated])
  then show "align_up (PAGE_SIZE * 2) (frame_addr x) = frame_addr x" "align_up (PAGE_SIZE * 16) (frame_addr x) = frame_addr x"
    using align_up_frame [of 1 x] align_up_frame [of 4 x] assms(2) by simp_all
qed

lemma small_even_body_step:
  assumes "128 dvd x" "{x..<x + 128} \<subseteq> frames" "fl_state {x..<x + 128} m0 0 False [] st"
  shows "\<exists>st'. small_even_body (frame_addr x) st = Inr st' \<and> fl_state {x..<x + 128} m0 0 False [] st'"
proof -
  let ?T = "{x..<x + 128}"
  have e: "even x" "x < max_frame" using assms(1,2) by (auto simp: subset_iff)
  obtain s1 where 1: "assert_put (frame_addr x) nullptr st = Inr s1" "fl_state ?T m0 0 False [x] s1"
    using assert_put_step [OF assms(3) _ assms(2), of x "[x]" None] by (auto simp: put_pages_def)
  obtain s2 where 2: "assert_put (frame_addr (x + 1)) (frame_addr x) s1 = Inr s2" "fl_state ?T m0 0 False [] s2"
    using assert_put_step [OF 1(2) _ assms(2), of "x + 1" "[]" "Some x"] e by (auto simp: put_pages_def)
  obtain s3 where 3: "assert_put (frame_addr (x + 1 + 1)) nullptr s2 = Inr s3" "fl_state ?T m0 0 False [x + 1 + 1] s3"
    using assert_put_step [OF 2(2) _ assms(2), of "x + 1 + 1" "[x + 1 + 1]" None] by (auto simp: put_pages_def)
  obtain s4 where 4: "assert_get (frame_addr (x + 1 + 1)) s3 = Inr s4" "fl_state ?T m0 0 False [] s4"
    using assert_get_step(1) [OF 3(2)] by blast
  show ?thesis unfolding small_even_body_def Let_def align_up_frames [OF assms(1) e(2)] frame_addr_next
    using 1(1) 2(1) 3(1) 4 assert_get_step(2) [OF 4(2)] by simp
qed

lemma small_odd_body_step:
  assumes "128 dvd x" "{x..<x + 128} \<subseteq> frames" "fl_state {x..<x + 128} m0 0 False [] st"
  shows "\<exists>st'. small_odd_body (frame_addr x) st = Inr st' \<and> fl_state {x..<x + 128} m0 0 False [] st'"
proof -
  let ?T = "{x..<x + 128}"
  have e: "even x" "x < max_frame" using assms(1,2) by (auto simp: subset_iff)
  obtain s1 where 1: "assert_put (frame_addr (x + 1)) nullptr st = Inr s1" "fl_state ?T m0 0 False [x + 1] s1"
    using assert_put_step [OF assms(3) _ assms(2), of "x + 1" "[x + 1]" None] by (auto simp: put_pages_def)
  obtain s2 where 2: "assert_put (frame_addr (x + 1 + 1)) nullptr s1 = Inr s2" "fl_state ?T m0 0 False [x + 1, x + 1 + 1] s2"
    using assert_put_step [OF 1(2) _ assms(2), of "x + 1 + 1" "[x + 1, x + 1 + 1]" None] e by (auto simp: put_pages_def)
  obtain s3 where 3: "assert_put (frame_addr (x + 1 + 1 + 1)) (frame_addr (x + 1 + 1)) s2 = Inr s3" "fl_state ?T m0 0 False [x + 1] s3"
    using assert_put_step [OF 2(2) _ assms(2), of "x + 1 + 1 + 1" "[x + 1]" "Some (x + 1 + 1)"] e by (auto simp: put_pages_def)
  show ?thesis unfolding small_odd_body_def Let_def align_up_frames [OF assms(1) e(2)] frame_addr_next
    using 1(1) 2(1) 3(1) assert_get_step(1) [OF 3(2)] by simp
qed

lemma high_puts_step:
  assumes "k < 112" "{x..<x + 128} \<subseteq> frames" "fl_state {x..<x + 128} m0 3 True [] st"
  shows "\<exists>s1 s2 s3. assert_put (frame_addr (x + k)) nullptr st = Inr s1 \<and> assert_put (frame_addr (x + k + 8)) nullptr s1 = Inr s2
    \<and> assert_put (frame_addr (x + k + 8 + 8)) nullptr s2 = Inr s3 \<and> fl_state {x..<x + 128} m0 3 True [x + k, x + k + 8, x + k + 8 + 8] s3"
proof -
  let ?T = "{x..<x + 128}" and ?x = "x + k"
  obtain s1 where 1: "assert_put (frame_addr ?x) nullptr st = Inr s1" "fl_state ?T m0 3 True [?x] s1"
    using assert_put_step [OF assms(3) _ assms(2), of ?x "[?x]" None] assms(1) by (auto simp: put_pages_def)
  obtain s2 where 2: "assert_put (frame_addr (?x + 8)) nullptr s1 = Inr s2" "fl_state ?T m0 3 True [?x, ?x + 8] s2"
    using assert_put_step [OF 1(2) _ assms(2), of "?x + 8" "[?x, ?x + 8]" None] assms(1) by (auto simp: put_pages_def)
  obtain s3 where 3: "assert_put (frame_addr (?x + 8 + 8)) nullptr s2 = Inr s3" "fl_state ?T m0 3 True [?x, ?x + 8, ?x + 8 + 8] s3"
    using assert_put_step [OF 2(2) _ assms(2), of "?x + 8 + 8" "[?x, ?x + 8, ?x + 8 + 8]" None] assms(1) by (auto simp: put_pages_def)
  show ?thesis using 1(1) 2(1) 3 by blast
qed

lemma high_even_body_step:
  assumes "128 dvd x" "{x..<x + 128} \<subseteq> frames" "fl_state {x..<x + 128} m0 3 True [] st"
  shows "\<exists>st' ns. high_even_body (frame_addr x) st = Inr st' \<and> fl_state {x..<x + 128} m0 3 True ns st'"
proof -
  have e: "x < max_frame" using assms(2) by (auto simp: subset_iff)
  obtain s1 s2 m fl where p: "assert_put (frame_addr x) nullptr st = Inr s1" "assert_put (frame_addr (x + 8)) nullptr s1 = Inr s2"
    "assert_put (frame_addr (x + 8 + 8)) nullptr s2 = Inr (m, fl)" "fl_state {x..<x + 128} m0 3 True [x, x + 8, x + 8 + 8] (m, fl)"
    using high_puts_step [of 0 x m0 st] assms(2,3) by auto
  from assert_get_step(1) [OF p(4)] show ?thesis
    unfolding high_even_body_def Let_def align_up_frames [OF assms(1) e] frame_addr_next
    using p(1-3) by (auto simp: assert_get_def bindE_eq_Inr_iff ost_assert_def split: if_splits)
qed

lemma high_odd_body_step:
  assumes "128 dvd x" "{x..<x + 128} \<subseteq> frames" "fl_state {x..<x + 128} m0 3 True [] st"
  shows "\<exists>st' ns. high_odd_body (frame_addr x) st = Inr st' \<and> fl_state {x..<x + 128} m0 3 True ns st'"
proof -
  let ?T = "{x..<x + 128}"
  have e: "x < max_frame" using assms(2) by (auto simp: subset_iff)
  obtain s1 s2 s3 where p: "assert_put (frame_addr (x + 8)) nullptr st = Inr s1" "assert_put (frame_addr (x + 8 + 8)) nullptr s1 = Inr s2"
    "assert_put (frame_addr (x + 8 + 8 + 8)) nullptr s2 = Inr s3" "fl_state ?T m0 3 True [x + 8, x + 8 + 8, x + 8 + 8 + 8] s3"
    using high_puts_step [of 8 x m0 st] assms(2,3) by auto
  obtain s4 where 4: "assert_get (frame_addr (x + 8)) s3 = Inr s4" "fl_state ?T m0 3 True [x + 8 + 8, x + 8 + 8 + 8] s4"
    using assert_get_step(1) [OF p(4)] by blast
  obtain s5 where 5: "assert_get (frame_addr (x + 8 + 8)) s4 = Inr s5" "fl_state ?T m0 3 True [x + 8 + 8 + 8] s5"
    using assert_get_step(1) [OF 4(2)] by blast
  obtain s6 where 6: "assert_get (frame_addr (x + 8 + 8 + 8)) s5 = Inr s6" "fl_state ?T m0 3 True [] s6"
    using assert_get_step(1) [OF 5(2)] by blast
  have "high_odd_body (frame_addr x) st = Inr s6"
    unfolding high_odd_body_def Let_def align_up_frames [OF assms(1) e] frame_addr_next
    using p(1-3) 4(1) 5(1) 6(1) assert_get_step(2) [OF 6(2)] by simp
  then show ?thesis using 6(2) by blast
qed

text \<open>A test passes on every state of memory with enough free pages, and leaves the free pages as they were.\<close>

definition passes :: "(kernel_memory \<Rightarrow> kernel_memory result) \<Rightarrow> (nat set \<Rightarrow> bool) \<Rightarrow> bool" where
  "passes test enough \<longleftrightarrow> (\<forall>g s F H h0 hs Ss. km_rep g s F H h0 hs Ss \<longrightarrow> enough F
     \<longrightarrow> (\<exists>s'. test s = Inr s' \<and> km_rep g s' F H h0 hs Ss \<and> km_malloc s' = km_malloc s \<and> km_highmem s' = km_highmem s))"

lemma passes_free_list:
  assumes "\<And>x m0 st. 128 dvd x \<Longrightarrow> {x..<x + 128} \<subseteq> frames \<Longrightarrow> fl_state {x..<x + 128} m0 order nosquash [] st
      \<Longrightarrow> \<exists>st' ns. body (frame_addr x) st = Inr st' \<and> fl_state {x..<x + 128} m0 order nosquash ns st'"
  shows "passes (free_list_test order nosquash body) (some_block 7)"
  using free_list_test_step [OF _ _ _ assms] unfolding passes_def some_block_def block_def by fastforce

lemma free_list_tests_pass:
  "passes free_list_small_even (some_block 7)" "passes free_list_small_odd (some_block 7)"
  "passes free_list_high_even (some_block 7)" "passes free_list_high_odd (some_block 7)"
proof -
  show "passes free_list_small_even (some_block 7)" unfolding free_list_small_even_def
    using small_even_body_step by (intro passes_free_list) blast
  show "passes free_list_small_odd (some_block 7)" unfolding free_list_small_odd_def
    using small_odd_body_step by (intro passes_free_list) blast
  show "passes free_list_high_even (some_block 7)" unfolding free_list_high_even_def
    by (rule passes_free_list) (rule high_even_body_step)
  show "passes free_list_high_odd (some_block 7)" unfolding free_list_high_odd_def
    by (rule passes_free_list) (rule high_odd_body_step)
qed

section \<open>The tests of the slab and of the bit array\<close>

lemma slab_alloc_step:
  assumes "slab_rep m sl S" "i < unat (sl_nelems sl)" "i \<notin> S" "\<forall>j<i. j \<in> S"
  shows "\<exists>m'. slab_allocate m sl = (m', slab_ptr sl i) \<and> slab_rep m' sl (insert i S)
    \<and> nexts m' = nexts m \<and> (\<forall>p. unat p \<notin> slab_map_bytes sl \<longrightarrow> bytes m' p = bytes m p)"
proof -
  have "S \<noteq> {..<unat (sl_nelems sl)}" using assms(2,3) by blast
  then obtain k m' where k: "k \<notin> S" "\<forall>j<k. j \<in> S" "slab_allocate m sl = (m', slab_ptr sl k)" "slab_rep m' sl (insert k S)"
    "nexts m' = nexts m" "\<forall>p. unat p \<notin> slab_map_bytes sl \<longrightarrow> bytes m' p = bytes m p"
    using slab_allocate_rep [OF assms(1)] by auto
  then have "k = i" using assms(3,4) by (metis linorder_neqE_nat)
  then show ?thesis using k by blast
qed

lemma slab_calls_step:
  assumes rep: "slab_rep m sl {}" and n: "unat (sl_nelems sl) = 10"
  shows "\<exists>m0 m1 m2 m3 m4 m5. slab_allocate m sl = (m0, slab_ptr sl 0) \<and> slab_allocate m0 sl = (m1, slab_ptr sl 1)
    \<and> slab_allocate m1 sl = (m2, slab_ptr sl 2) \<and> slab_allocate m2 sl = (m3, slab_ptr sl 3)
    \<and> slab_deallocate m3 sl (slab_ptr sl 2) = Inr m4 \<and> slab_allocate m4 sl = (m5, slab_ptr sl 2)
    \<and> nexts m5 = nexts m \<and> (\<forall>p. unat p \<notin> slab_map_bytes sl \<longrightarrow> bytes m5 p = bytes m p)"
proof -
  have lt: "(0::nat) < unat (sl_nelems sl)" "1 < unat (sl_nelems sl)" "2 < unat (sl_nelems sl)" "3 < unat (sl_nelems sl)" using n by simp_all
  obtain m0 where 0: "slab_allocate m sl = (m0, slab_ptr sl 0)" "slab_rep m0 sl {0}" "nexts m0 = nexts m"
    "\<forall>p. unat p \<notin> slab_map_bytes sl \<longrightarrow> bytes m0 p = bytes m p"
    using slab_alloc_step [OF rep lt(1)] by auto
  obtain m1 where 1: "slab_allocate m0 sl = (m1, slab_ptr sl 1)" "slab_rep m1 sl {1, 0}" "nexts m1 = nexts m0"
    "\<forall>p. unat p \<notin> slab_map_bytes sl \<longrightarrow> bytes m1 p = bytes m0 p"
    using slab_alloc_step [OF 0(2) lt(2)] by auto
  have 2: "\<forall>j<2. j \<in> {1, 0 :: nat}" "\<forall>j<3. j \<in> {2, 1, 0 :: nat}" "\<forall>j<2. j \<in> {3, 1, 0 :: nat}" by auto
  obtain m2 where 3: "slab_allocate m1 sl = (m2, slab_ptr sl 2)" "slab_rep m2 sl {2, 1, 0}" "nexts m2 = nexts m1"
    "\<forall>p. unat p \<notin> slab_map_bytes sl \<longrightarrow> bytes m2 p = bytes m1 p"
    using slab_alloc_step [OF 1(2) lt(3) _ 2(1)] by auto
  obtain m3 where 4: "slab_allocate m2 sl = (m3, slab_ptr sl 3)" "slab_rep m3 sl {3, 2, 1, 0}" "nexts m3 = nexts m2"
    "\<forall>p. unat p \<notin> slab_map_bytes sl \<longrightarrow> bytes m3 p = bytes m2 p"
    using slab_alloc_step [OF 3(2) lt(4) _ 2(2)] by auto
  have "{3, 2, 1, 0} - {2} = {3, 1, 0 :: nat}" by auto
  then obtain m4 where 5: "slab_deallocate m3 sl (slab_ptr sl 2) = Inr m4" "slab_rep m4 sl {3, 1, 0}" "nexts m4 = nexts m3"
    "\<forall>p. unat p \<notin> slab_map_bytes sl \<longrightarrow> bytes m4 p = bytes m3 p"
    using slab_deallocate_rep [OF 4(2), of 2] by auto
  obtain m5 where 6: "slab_allocate m4 sl = (m5, slab_ptr sl 2)" "nexts m5 = nexts m4"
    "\<forall>p. unat p \<notin> slab_map_bytes sl \<longrightarrow> bytes m5 p = bytes m4 p"
    using slab_alloc_step [OF 5(2) lt(3) _ 2(3)] by auto
  show ?thesis using 0 1 3 4 5 6 by (metis (no_types, lifting))
qed

lemma slab_initialize_ma:
  assumes rep: "ma_rep g m pa ma F H h0 hs Ss"
    and pa: "pa_rep g m' pa' F' (insert h H)" and h: "h \<notin> set (h0 # hs)"
    and by': "\<And>p. p \<notin> map_bytes g \<and> unat p \<notin> run_bytes h \<Longrightarrow> bytes m' p = bytes m p"
  shows "ma_rep g m' pa' ma F' (insert h H) h0 hs Ss"
proof -
  note D = ma_repD [OF rep]
  have held: "held_ok g F' (insert h H)" using pa by (simp add: pa_rep_def)
  have "slab_rep m' (ma_chain ma ! k) (Ss ! k)" if k: "k < length (ma_chain ma)" for k
  proof (rule slab_rep_cong [OF D(7) [OF k]])
    fix p :: ptr
    assume "unat p \<in> slab_map_bytes (ma_chain ma ! k)"
    then have p: "unat p \<in> run_bytes (hs ! k)" using D(10) [OF k] by (auto simp: slab_bytes_def)
    moreover have "hs ! k \<noteq> h" using D(11) [OF k] h by auto
    ultimately have "unat p \<notin> run_bytes h" using run_bytes_disjoint [OF held, of "hs ! k" h] D(11) [OF k] by blast
    then show "bytes m' p = bytes m p" using by' [of p] map_bytes_not_run [OF D(2), of "hs ! k" p] D(11) [OF k] p by blast
  qed
  moreover have "set (h0 # hs) \<subseteq> insert h H" using rep by (auto simp: ma_rep_def)
  ultimately show ?thesis using rep pa by (simp add: ma_rep_def chain_ok_def)
qed

lemma slab_test_passes: "passes slab_test (some_block 0)"
  unfolding passes_def
proof (intro allI impI)
  fix g s F H h0 hs Ss
  assume rep: "km_rep g s F H h0 hs Ss" and F: "some_block 0 F"
  have ma: "ma_rep g (km_store s) (km_pages s) (km_malloc s) F H h0 hs Ss" using rep by (simp add: km_rep_def)
  have sub: "set (h0 # hs) \<subseteq> H" using ma by (simp add: ma_rep_def)
  note D = ma_repD [OF ma]
  have u: "unat (4 :: u32) = 4" "unat (10 :: u32) = 10" "slab_page_count 4 10 = 1" by (simp_all add: slab_page_count_def)
  obtain m pa sl ok where i: "slab_initialize (km_store s) (km_pages s) slab_default 4 10 = Inr (m, pa, sl, ok)"
    and r: "if ok then \<exists>h. pa_rep g m pa (F - run h) (insert h H) \<and> run h \<subseteq> F \<and> 0 < snd h
          \<and> slab_rep m sl {} \<and> sl_elem_size sl = 4 \<and> sl_nelems sl = 10
          \<and> aligned_for (snd h) (fst h) \<and> snd h = 1 \<and> sl_area sl = frame_addr (fst h) \<and> slab_bytes sl \<subseteq> run_bytes h
          \<and> (\<forall>p. p \<notin> map_bytes g \<and> unat p \<notin> run_bytes h \<longrightarrow> bytes m p = bytes (km_store s) p)
        else pa_rep g m pa F H \<and> (\<forall>i x. i \<le> 10 \<and> 1 \<le> (2::nat) ^ i \<and> 2 ^ i dvd x \<longrightarrow> \<not> block i x \<subseteq> F)"
    using slab_initialize_rep [OF D(1), of 4 10 slab_default] unfolding u by auto
  have ok using r F by (cases ok) (auto simp: some_block_def)
  then obtain h where h: "pa_rep g m pa (F - run h) (insert h H)" "run h \<subseteq> F" "snd h = 1" "slab_rep m sl {}" "sl_elem_size sl = 4"
    "sl_nelems sl = 10" "sl_area sl = frame_addr (fst h)" "slab_bytes sl \<subseteq> run_bytes h"
    and hb: "\<And>p. p \<notin> map_bytes g \<and> unat p \<notin> run_bytes h \<Longrightarrow> bytes m p = bytes (km_store s) p" using r by auto
  have ini: "slab_is_initialized sl" using i \<open>ok\<close> by (auto simp: slab_initialize_def slab_is_initialized_def Let_def bindE_eq_Inr_iff split: if_splits prod.splits)
  have hx: "h = (fst h, 1)" "run h = {fst h..<fst h + 1}" using h(3) by (cases h, simp add: run_def)+
  have nH: "h \<notin> H"
  proof
    assume "h \<in> H"
    then have "run h \<inter> F = {}" using D(2) by (simp add: held_ok_def)
    then show False using h(2) hx(2) by auto
  qed
  then have nh: "h \<notin> set (h0 # hs)" using sub by blast
  have ma1: "ma_rep g m pa (km_malloc s) (F - run h) (insert h H) h0 hs Ss" by (rule slab_initialize_ma [OF ma h(1) nh hb])
  have n10: "unat (sl_nelems sl) = 10" using h(6) by simp
  obtain m0 m1 m2 m3 m4 m5 where c: "slab_allocate m sl = (m0, slab_ptr sl 0)" "slab_allocate m0 sl = (m1, slab_ptr sl 1)"
    "slab_allocate m1 sl = (m2, slab_ptr sl 2)" "slab_allocate m2 sl = (m3, slab_ptr sl 3)"
    "slab_deallocate m3 sl (slab_ptr sl 2) = Inr m4" "slab_allocate m4 sl = (m5, slab_ptr sl 2)"
    "nexts m5 = nexts m" "\<forall>p. unat p \<notin> slab_map_bytes sl \<longrightarrow> bytes m5 p = bytes m p"
    using slab_calls_step [OF h(4) n10] by blast
  have "bytes m5 q = bytes m q" if "unat q \<notin> run_bytes h" for q
    using c(8) that h(8) by (auto simp: slab_bytes_def)
  then have ma5: "ma_rep g m5 pa (km_malloc s) (F - run h) (insert h H) h0 hs Ss"
    using ma_rep_client [OF ma1 _ nh, of m5] c(7) by simp
  let ?s = "s\<lparr>km_store := m5, km_pages := pa\<rparr>"
  have "km_rep g ?s (F - run h) (insert h H) h0 hs Ss" using ma5 by (simp add: km_rep_def)
  then obtain s' where f: "free_pages_at ?s (frame_addr (fst h)) = Inr s'" "km_rep g s' (F - run h \<union> {fst h..<fst h + 1}) (insert h H - {h}) h0 hs Ss"
    "km_malloc s' = km_malloc s" "km_highmem s' = km_highmem s"
    using free_pages_step [of g ?s "F - run h" "insert h H" h0 hs Ss 1 "Some (fst h)"] nh hx(1) by auto
  have "F - run h \<union> {fst h..<fst h + 1} = F" "insert h H - {h} = H" using h(2) hx(2) nH by auto
  moreover have "slab_test s = Inr s'"
  proof -
    obtain m6 pa6 where d: "pa_deallocate m5 pa (frame_addr (fst h)) = Inr (m6, pa6)" "s' = s\<lparr>km_store := m6, km_pages := pa6\<rparr>"
      using f(1) by (auto simp: free_pages_at_def bindE_eq_Inr_iff)
    have sp: "slab_ptr sl 1 = slab_ptr sl 0 + 4" "slab_ptr sl 2 = slab_ptr sl 1 + 4" "slab_ptr sl 3 = slab_ptr sl 2 + 4"
      using h(5) by (simp_all add: slab_ptr_def)
    show ?thesis using i c ini d sp h(7)
      by (simp add: slab_test_def slab_construct_def slab_destroy_def ost_assert_def)
  qed
  ultimately show "\<exists>s'. slab_test s = Inr s' \<and> km_rep g s' F H h0 hs Ss \<and> km_malloc s' = km_malloc s \<and> km_highmem s' = km_highmem s"
    using f by auto
qed

lemma fold_ba_set:
  assumes "n \<le> 4294967296" "k < n"
  shows "ba_get (fold (\<lambda>i m. ba_set m a (of_nat i) (f i)) [0..<n] m) a (of_nat k) = f k"
  using assms
proof (induction n)
  case (Suc n)
  have "(of_nat n :: u32) = of_nat k \<longleftrightarrow> n = k" using Suc.prems by (auto simp: u32_eq_iff_unat unat_of_nat_u32)
  then show ?case using Suc by (auto simp: ba.get_put)
qed simp

lemma fold_ba_set_nexts: "nexts (fold (\<lambda>i m. ba_set m a (of_nat i) (f i)) [0..<n] m) = nexts m"
  by (induction n) simp_all

lemma fold_ba_set_other:
  "(\<And>i. i < n \<Longrightarrow> q \<noteq> ba_byte a (of_nat i)) \<Longrightarrow> bytes (fold (\<lambda>i m. ba_set m a (of_nat i) (f i)) [0..<n] m) q = bytes m q"
proof (induction n)
  case (Suc n)
  have "q \<noteq> ba_byte a (of_nat n)" using Suc.prems [of n] by simp
  note ba_set_bytes_other [OF this]
  then show ?case using Suc.IH Suc.prems by simp
qed simp

lemma bit_array_test_passes: "passes bit_array_test (some_block 0)"
  unfolding passes_def
proof (intro allI impI)
  fix g s F H h0 hs Ss
  assume rep: "km_rep g s F H h0 hs Ss" and F: "some_block 0 F"
  have u: "unat (1 :: u32) = 1" by simp
  obtain y where "block 0 y \<subseteq> F" using F by (auto simp: some_block_def)
  then obtain s1 x where a: "alloc_pages s 1 = Inr (s1, frame_addr x)" "km_rep g s1 (F - {x..<x + 1}) (insert (x, 1) H) h0 hs Ss"
    "{x..<x + 1} \<subseteq> F" "x \<in> frames" "(x, 1) \<notin> H" "(x, 1) \<notin> set (h0 # hs)" "km_malloc s1 = km_malloc s" "km_highmem s1 = km_highmem s"
    using alloc_pages_some [OF rep, of 1 0 y] unfolding u by auto
  obtain m ba where i: "ba_initialize (km_store s1) (frame_addr x) 10 = (m, ba)" by fastforce
  then have ba: "ba = \<lparr>ba_size = 10, ba_data = frame_addr x\<rparr>" and m: "m = fst (ba_initialize (km_store s1) (frame_addr x) 10)"
    using ba_initialize_array [of "km_store s1" "frame_addr x" 10] by auto
  define m1 where "m1 = fold (\<lambda>idx m. ba_set m ba (of_nat idx) (odd idx)) [0..<10] m"
  have ok: "\<not> (\<exists>idx\<in>set [0..<10]. ba_get m1 ba (of_nat idx) \<noteq> odd idx)" using fold_ba_set [of 10 _ ba odd m] by (simp add: m1_def)
  have ux: "unat (frame_addr x) = x * 4096" using a(4) by (simp add: unat_frame_addr)
  have small: "unat (frame_addr x + of_nat k) = x * 4096 + k" if "k < 4096" for k
    using a(4) that by (simp add: unat_add_u32 ux unat_of_nat_u32)
  have by1: "bytes m1 q = bytes (km_store s1) q" if q: "unat q \<notin> run_bytes (x, 1)" for q
  proof -
    have "q \<noteq> ba_byte ba (of_nat k)" if "k < 10" for k
    proof -
      have "(of_nat k :: u32) div 8 = of_nat (k div 8)" using that by (simp add: u32_eq_iff_unat unat_div_u32 unat_of_nat_u32)
      then have "ba_byte ba (of_nat k) = frame_addr x + of_nat (k div 8)" by (simp add: ba_byte_def ba)
      moreover have "unat (frame_addr x + of_nat (k div 8)) = x * 4096 + k div 8" using that by (intro small) simp
      ultimately show ?thesis using that q by (auto simp: run_bytes_def)
    qed
    then have "bytes m1 q = bytes m q" unfolding m1_def by (rule fold_ba_set_other)
    moreover have "\<not> (\<exists>k < (unat (10 :: u32) + 7) div 8. q = frame_addr x + of_nat k)"
      using q small by (auto simp: run_bytes_def)
    ultimately show ?thesis using ba_initialize_bytes [of 10 "km_store s1" "frame_addr x" q] unfolding m by auto
  qed
  have nx1: "nexts m1 = nexts (km_store s1)"
  proof -
    have "nexts m1 = nexts m" unfolding m1_def by (rule fold_ba_set_nexts)
    then show ?thesis by (simp add: m)
  qed
  obtain s' where f: "free_pages_at (s1\<lparr>km_store := m1\<rparr>) (frame_addr x) = Inr s'" "km_rep g s' F H h0 hs Ss"
    "km_malloc s' = km_malloc s1" "km_highmem s' = km_highmem s1"
    using client_free [OF a(2,3,5,6), of m1] by1 nx1 by auto
  then have "bit_array_test s = Inr s'"
    using a(1) i ok frame_addr_null [OF a(4)] by (simp add: bit_array_test_def flip: m1_def)
  then show "\<exists>s'. bit_array_test s = Inr s' \<and> km_rep g s' F H h0 hs Ss \<and> km_malloc s' = km_malloc s \<and> km_highmem s' = km_highmem s"
    using f a(7,8) by auto
qed

section \<open>The test of the buddy allocator\<close>

text \<open>Single pages come out in an order that depends on the free pages alone.\<close>

primrec single_picks :: "nat \<Rightarrow> nat set \<Rightarrow> nat list" where
  "single_picks 0 F = []"
| "single_picks (Suc n) F = (case first_fit F 1 of None \<Rightarrow> [] | Some x \<Rightarrow> x # single_picks n (F - {x}))"

definition page_blk :: "nat \<Rightarrow> pblk" where
  "page_blk x = \<lparr>blk_ptr = frame_addr x, blk_size = 1\<rparr>"

lemma single_get:
  assumes "bud_pool m b F" "F \<noteq> {}"
  shows "\<exists>m' b' x. first_fit F 1 = Some x \<and> bud_get m b 1 = Inr (m', b', page_blk x) \<and> bud_pool m' b' (F - {x}) \<and> x \<in> F
    \<and> same_outside F m m'"
proof -
  have u: "unat (1 :: u32) = 1" by simp
  obtain m' b' blk where g: "bud_get m b 1 = Inr (m', b', blk)" "same_outside F m m'"
    and r: "if blk_ptr blk = nullptr then bud_pool m' b' F \<and> (\<forall>i x. i \<le> 10 \<and> 1 \<le> (2::nat) ^ i \<and> 2 ^ i dvd x \<longrightarrow> \<not> block i x \<subseteq> F)
       else \<exists>x. blk = \<lparr>blk_ptr = frame_addr x, blk_size = 1\<rparr> \<and> x \<in> frames
         \<and> {x..<x + 1} \<subseteq> F \<and> aligned_for 1 x \<and> bud_pool m' b' (F - {x..<x + 1})"
    using bud.pool_get [OF assms(1), of 1] unfolding u by auto
  obtain y where y: "y \<in> F" using assms(2) by blast
  have "blk_ptr blk \<noteq> nullptr"
  proof
    assume "blk_ptr blk = nullptr"
    then have "\<forall>i x. i \<le> 10 \<and> 1 \<le> (2::nat) ^ i \<and> 2 ^ i dvd x \<longrightarrow> \<not> block i x \<subseteq> F" using r by simp
    from this [rule_format, of 0 y] show False using y by (simp add: block_def)
  qed
  then obtain x where x: "blk = \<lparr>blk_ptr = frame_addr x, blk_size = 1\<rparr>" "x \<in> frames" "x \<in> F" "bud_pool m' b' (F - {x})"
    using r by auto
  have "blk = blk_of 1 (first_fit F 1)" using bud.pool_choice [OF assms(1) _ g(1)] unfolding u by simp
  then obtain z where z: "first_fit F 1 = Some z" "frame_addr z = frame_addr x"
    using x(1) frame_addr_null [OF x(2)] by (auto simp: blk_of_def split: option.splits)
  have "z = x" using first_fit_frames [OF z(1)] x(2) z(2) by (simp add: u32_eq_iff_unat unat_frame_addr)
  then show ?thesis using g x z(1) by (auto simp: page_blk_def)
qed

lemma page_blk_not_null: "x \<in> frames \<Longrightarrow> blk_ptr (page_blk x) \<noteq> nullptr"
  by (simp add: page_blk_def frame_addr_null)

lemma buddy_get_all_step:
  assumes "bud_pool m b F" "n \<le> card F" "finite F"
  shows "\<exists>m' b'. buddy_get_all n (m, b) = Inr ((m', b'), map page_blk (single_picks n F)) \<and> bud_pool m' b' (F - set (single_picks n F))
    \<and> same_outside F m m' \<and> distinct (single_picks n F) \<and> set (single_picks n F) \<subseteq> F"
  using assms
proof (induction n arbitrary: m b F)
  case (Suc n)
  then have "F \<noteq> {}" by auto
  then obtain m1 b1 x where x: "first_fit F 1 = Some x" "bud_get m b 1 = Inr (m1, b1, page_blk x)" "bud_pool m1 b1 (F - {x})" "x \<in> F"
    "same_outside F m m1" using single_get [OF Suc.prems(1)] by blast
  have "n \<le> card (F - {x})" using Suc.prems(2,3) x(4) by simp
  then obtain m2 b2 where 2: "buddy_get_all n (m1, b1) = Inr ((m2, b2), map page_blk (single_picks n (F - {x})))"
    "bud_pool m2 b2 (F - {x} - set (single_picks n (F - {x})))" "same_outside (F - {x}) m1 m2"
    "distinct (single_picks n (F - {x}))" "set (single_picks n (F - {x})) \<subseteq> F - {x}"
    using Suc.IH [OF x(3)] Suc.prems(3) by blast
  have "same_outside F m m2" using same_outside_trans [OF x(5) 2(3)] by (rule same_outside_mono) auto
  moreover have "x \<in> frames" using bud_pool_frames [OF Suc.prems(1)] x(4) by blast
  then have "buddy_get_all (Suc n) (m, b) = Inr ((m2, b2), map page_blk (single_picks (Suc n) F))"
    using x(1,2) 2(1) page_blk_not_null by (simp add: ost_assert_def)
  moreover have "F - {x} - set (single_picks n (F - {x})) = F - set (single_picks (Suc n) F)" using x(1) by auto
  moreover have "distinct (single_picks (Suc n) F) \<and> set (single_picks (Suc n) F) \<subseteq> F" using x(1,4) 2(4,5) by auto
  ultimately show ?case using 2(2) by metis
qed simp

lemma buddy_compare_all_step:
  assumes "bud_pool m b F" "n \<le> card F" "finite F"
  shows "\<exists>m' b'. buddy_compare_all (map page_blk (single_picks n F)) (m, b) = Inr (m', b') \<and> same_outside F m m'"
  using assms
proof (induction n arbitrary: m b F)
  case (Suc n)
  then have "F \<noteq> {}" by auto
  then obtain m1 b1 x where x: "first_fit F 1 = Some x" "bud_get m b 1 = Inr (m1, b1, page_blk x)" "bud_pool m1 b1 (F - {x})" "x \<in> F"
    "same_outside F m m1" using single_get [OF Suc.prems(1)] by blast
  have "n \<le> card (F - {x})" using Suc.prems(2,3) x(4) by simp
  then obtain m2 b2 where 2: "buddy_compare_all (map page_blk (single_picks n (F - {x}))) (m1, b1) = Inr (m2, b2)" "same_outside (F - {x}) m1 m2"
    using Suc.IH [OF x(3)] Suc.prems(3) by blast
  have "same_outside F m m2" using same_outside_trans [OF x(5) 2(2)] by (rule same_outside_mono) auto
  then show ?case using x(1,2) 2(1) by (simp add: ost_assert_def)
qed simp

lemma buddy_put_all_step:
  assumes "bud_pool m b F" "distinct xs" "set xs \<inter> F = {}" "set xs \<subseteq> frames"
  shows "\<exists>m' b'. buddy_put_all (map page_blk xs) (m, b) = Inr (m', b') \<and> bud_pool m' b' (F \<union> set xs) \<and> same_outside (F \<union> set xs) m m'"
  using assms
proof (induction xs arbitrary: m b F)
  case (Cons x xs)
  have "0 < x" "x + 1 \<le> max_frame" "{x..<x + 1} \<inter> F = {}" using Cons.prems(3,4) by auto
  then obtain m1 b1 where 1: "bud_put m b (page_blk x) = Inr (m1, b1)" "bud_pool m1 b1 (F \<union> {x})" "same_outside (F \<union> {x}) m m1"
    using bud.pool_put [OF Cons.prems(1), of x 1] by (auto simp: page_blk_def)
  obtain m2 b2 where 2: "buddy_put_all (map page_blk xs) (m1, b1) = Inr (m2, b2)" "bud_pool m2 b2 (F \<union> {x} \<union> set xs)"
    "same_outside (F \<union> {x} \<union> set xs) m1 m2"
    using Cons.IH [OF 1(2)] Cons.prems(2-4) by auto
  have "same_outside (F \<union> set (x # xs)) m m2" using same_outside_trans [OF 1(3) 2(3)] by (rule same_outside_mono) auto
  then show ?case using 1(1) 2(1,2) by (auto simp: Un_insert_right)
qed simp

lemma buddy_rounds_step:
  assumes "bud_pool m b R" "n \<le> card R" "finite R"
  shows "\<exists>x1 pages x2 m' b'. buddy_get_all n (m, b) = Inr (x1, pages) \<and> buddy_put_all pages x1 = Inr x2
    \<and> buddy_compare_all pages x2 = Inr (m', b') \<and> same_outside R m m'"
proof -
  let ?xs = "single_picks n R"
  obtain m2 b2 where 2: "buddy_get_all n (m, b) = Inr ((m2, b2), map page_blk ?xs)" "bud_pool m2 b2 (R - set ?xs)"
    "same_outside R m m2" "distinct ?xs" "set ?xs \<subseteq> R"
    using buddy_get_all_step [OF assms] by blast
  have R: "R - set ?xs \<union> set ?xs = R" "set ?xs \<inter> (R - set ?xs) = {}" "set ?xs \<subseteq> frames"
    using 2(5) bud_pool_frames [OF assms(1)] by blast+
  obtain m3 b3 where 3: "buddy_put_all (map page_blk ?xs) (m2, b2) = Inr (m3, b3)" "bud_pool m3 b3 R" "same_outside R m2 m3"
    using buddy_put_all_step [OF 2(2,4) R(2,3)] unfolding R(1) by blast
  obtain m4 b4 where 4: "buddy_compare_all (map page_blk ?xs) (m3, b3) = Inr (m4, b4)" "same_outside R m3 m4"
    using buddy_compare_all_step [OF 3(2) assms(2,3)] by blast
  have "same_outside R m m4" using same_outside_trans [OF same_outside_trans [OF 2(3) 3(3)] 4(2)] by simp
  then show ?thesis using 2(1) 3(1) 4(1) by blast
qed

lemma buddy_test_passes: "passes buddy_test (some_block 10)"
  unfolding passes_def
proof (intro allI impI)
  fix g s F H h0 hs Ss
  assume rep: "km_rep g s F H h0 hs Ss" and F: "some_block 10 F"
  have u: "unat (1023 :: u32) = 1023" by simp
  obtain y where "block 10 y \<subseteq> F" "2 ^ 10 dvd y" using F by (auto simp: some_block_def)
  then obtain s1 x where a: "alloc_pages s 1023 = Inr (s1, frame_addr x)" "km_rep g s1 (F - {x..<x + 1023}) (insert (x, 1023) H) h0 hs Ss"
    "{x..<x + 1023} \<subseteq> F" "{x..<x + 1023} \<subseteq> frames" "x \<in> frames" "(x, 1023) \<notin> H" "(x, 1023) \<notin> set (h0 # hs)"
    "km_malloc s1 = km_malloc s" "km_highmem s1 = km_highmem s"
    using alloc_pages_some [OF rep, of 1023 10 y] unfolding u by auto
  let ?R = "{x..<x + 1023}" and ?m = "km_store s1" and ?blk = "\<lparr>blk_ptr = frame_addr x, blk_size = 1023\<rparr>"
  define region where "region = mr_set_end (mr_set_begin \<lparr>mr_begin = nullptr, mr_end = nullptr\<rparr> (frame_addr x)) (frame_addr x + PAGE_SIZE * 1023)"
  have "x + 1022 \<in> frames" using a(4) by (rule subsetD) simp
  then have "x + 1023 \<le> max_frame" "0 < x" using a(5) by simp_all
  then obtain m1 b1 where 1: "bud_put ?m (bud_fresh region) ?blk = Inr (m1, b1)" "bud_pool m1 b1 ?R" "same_outside ?R ?m m1"
    using bud.pool_put [OF bud_fresh_pool [of ?m region], of x 1023] by auto
  obtain x1 pages x2 m4 b4 where 2: "buddy_get_all 800 (m1, b1) = Inr (x1, pages)" "buddy_put_all pages x1 = Inr x2"
    "buddy_compare_all pages x2 = Inr (m4, b4)" "same_outside ?R m1 m4"
    using buddy_rounds_step [OF 1(2), of 800] by auto
  have "same_outside ?R ?m m4" using same_outside_trans [OF 1(3) 2(4)] by simp
  then obtain s' where f: "free_pages_at (s1\<lparr>km_store := m4\<rparr>) (frame_addr x) = Inr s'" "km_rep g s' F H h0 hs Ss"
    "km_malloc s' = km_malloc s1" "km_highmem s' = km_highmem s1"
    using client_free [OF a(2,3,6,7), of m4] by (auto simp: same_outside_def)
  have n: "frame_addr x \<noteq> nullptr" using frame_addr_null [OF a(5)] .
  have "800 + 223 = (1023 :: u32)" by simp
  then have "buddy_test s = Inr s'" unfolding buddy_test_def
    using a(1) 1(1) 2(1-3) f(1) n by (simp only: bindE_simps prod.case ost_assert_def Let_def bud_initialize_fresh simp_thms if_False flip: region_def)
  then show "\<exists>s'. buddy_test s = Inr s' \<and> km_rep g s' F H h0 hs Ss \<and> km_malloc s' = km_malloc s \<and> km_highmem s' = km_highmem s"
    using f a(8,9) by auto
qed

section \<open>The test of the heap\<close>

lemma ma_allocate_null:
  assumes rep: "ma_rep g m pa ma F H h0 hs Ss" and n: "n \<noteq> 0" "unat n \<le> 4294963200"
    and al: "ma_allocate m pa ma n = Inr (m', pa', nullptr)" and i: "i \<le> 10" "(unat n + 4095) div 4096 \<le> 2 ^ i" "2 ^ i dvd x"
  shows "\<not> block i x \<subseteq> F"
proof -
  note D = ma_repD [OF rep]
  define k where "k = align_up PAGE_SIZE n div PAGE_SIZE"
  have uk: "unat k = (unat n + 4095) div 4096"
    using unat_align_up_div [of 12 n] n by (simp add: k_def PAGE_SIZE_pow2 add.commute)
  have "0 < unat n" using n(1) by (simp add: unat_gt_0)
  then have "0 < unat k" unfolding uk by (simp add: div_greater_zero_iff)
  then have k0: "k \<noteq> 0" "unat k \<le> 2 ^ 31" using n(2) uk by auto
  have l: "unat (ma_chain_length ma) = length (ma_chain ma)" "length (ma_chain ma) < 2 ^ 16" and ini: "ma_assert_initialized ma = Inr ()"
    using rep by (auto simp: ma_rep_def ma_assert_initialized_def)
  have "ma_try m ma (ma_first_slab ma n) = Inr (m, nullptr)"
    using ma_try_rep [OF rep ma_first_slab_large(1) [OF l n(2)], unfolded of_nat_unat_u32] al ini slab_ptr_not_null [OF D(8)]
    by (fastforce simp: ma_allocate_def)
  then have "pa_allocate m pa k = Inr (m', pa', nullptr)" using al ini by (simp add: ma_allocate_def k_def)
  then have "\<forall>i x. i \<le> 10 \<and> unat k \<le> 2 ^ i \<and> 2 ^ i dvd x \<longrightarrow> \<not> block i x \<subseteq> F"
    using pa_allocate_rep [OF D(1) k0] by auto
  then show ?thesis using i uk by metis
qed

text \<open>A block that is allocated and given back leaves the heap as it was.\<close>

lemma kmalloc_kfree_step:
  assumes rep: "km_rep g s F H h0 hs Ss" and n: "n \<noteq> 0" "unat n < 12288" and F: "some_block 2 F"
  shows "\<exists>s1 p s2. kmalloc s n = Inr (s1, p) \<and> p \<noteq> nullptr \<and> kfree s1 p = Inr s2 \<and> km_rep g s2 F H h0 hs Ss
    \<and> km_malloc s2 = km_malloc s \<and> km_highmem s2 = km_highmem s"
proof -
  let ?ma = "km_malloc s"
  have ma: "ma_rep g (km_store s) (km_pages s) ?ma F H h0 hs Ss" using rep by (simp add: km_rep_def)
  note D = ma_repD [OF ma]
  have sub: "set (h0 # hs) \<subseteq> H" using ma by (simp add: ma_rep_def)
  have n': "unat n \<le> 4294963200" using n(2) by simp
  obtain m p pa where al: "ma_allocate (km_store s) (km_pages s) ?ma n = Inr (m, pa, p)"
    and res: "(\<exists>j i. j < length (ma_chain ?ma) \<and> i \<notin> Ss ! j \<and> i < unat (sl_nelems (ma_chain ?ma ! j))
          \<and> p = slab_ptr (ma_chain ?ma ! j) i \<and> unat n \<le> unat (sl_elem_size (ma_chain ?ma ! j))
          \<and> ma_rep g m pa ?ma F H h0 hs (Ss[j := insert i (Ss ! j)]))
      \<or> (\<exists>h. h \<notin> H \<and> run h \<subseteq> F \<and> p = frame_addr (fst h) \<and> unat n \<le> snd h * 4096
          \<and> ma_rep g m pa ?ma (F - run h) (insert h H) h0 hs Ss)
      \<or> (n = 0 \<and> p = zero_size_page \<or> p = nullptr) \<and> ma_rep g m pa ?ma F H h0 hs Ss"
    using ma_allocate_rep [OF ma n'] by blast
  have nn: "p \<noteq> nullptr"
  proof
    assume "p = nullptr"
    moreover obtain y where "2 ^ 2 dvd y" "block 2 y \<subseteq> F" using F by (auto simp: some_block_def)
    moreover have "(unat n + 4095) div 4096 \<le> 2 ^ 2" using n(2) by simp
    ultimately show False using ma_allocate_null [OF ma n(1) n', of m pa 2 y] al by simp
  qed
  have "\<exists>m2 pa2. ma_deallocate m pa ?ma p = Inr (m2, pa2) \<and> ma_rep g m2 pa2 ?ma F H h0 hs Ss"
    using res
  proof (elim disjE exE conjE)
    fix j i
    assume j: "j < length (ma_chain ?ma)" "i \<notin> Ss ! j" "p = slab_ptr (ma_chain ?ma ! j) i"
      and rep': "ma_rep g m pa ?ma F H h0 hs (Ss[j := insert i (Ss ! j)])"
    have "(Ss[j := insert i (Ss ! j)])[j := (Ss[j := insert i (Ss ! j)]) ! j - {i}] = Ss" using j(1,2) D(6) by simp
    then show ?thesis using ma_deallocate_elem [OF rep' j(1), of i] j D(6) by auto
  next
    fix h assume h: "h \<notin> H" "run h \<subseteq> F" "p = frame_addr (fst h)" and rep': "ma_rep g m pa ?ma (F - run h) (insert h H) h0 hs Ss"
    have "F - run h \<union> run h = F" "insert h H - {h} = H" "h \<notin> set (h0 # hs)" using h(1,2) sub by auto
    then show ?thesis using ma_deallocate_run [OF rep', of h] h(3) by auto
  qed (use n(1) nn in auto)
  then obtain m2 pa2 where d: "ma_deallocate m pa ?ma p = Inr (m2, pa2)" "ma_rep g m2 pa2 ?ma F H h0 hs Ss" by blast
  show ?thesis using al nn d by (simp add: kmalloc_def kfree_def km_rep_def)
qed

lemma mallocator_loop_step:
  assumes "km_rep g s F H h0 hs Ss" "c \<noteq> 0" "some_block 2 F"
  shows "\<exists>s'. mallocator_loop c s = Inr s' \<and> km_rep g s' F H h0 hs Ss \<and> km_malloc s' = km_malloc s \<and> km_highmem s' = km_highmem s"
  using assms
proof (induction "12288 - unat c" arbitrary: c s rule: less_induct)
  case less
  show ?case
  proof (cases "c < PAGE_SIZE * 3")
    case True
    then have c: "unat c < 12288" by (simp add: word_less_nat_alt PAGE_SIZE_def)
    obtain s1 p s2 where 1: "kmalloc s c = Inr (s1, p)" "p \<noteq> nullptr" "kfree s1 p = Inr s2" "km_rep g s2 F H h0 hs Ss"
      "km_malloc s2 = km_malloc s" "km_highmem s2 = km_highmem s"
      using kmalloc_kfree_step [OF less.prems(1,2) c less.prems(3)] by blast
    have "unat (c + 8) = unat c + 8" using c by (simp add: unat_add_u32)
    then have "c + 8 \<noteq> 0" "12288 - unat (c + 8) < 12288 - unat c" using c by (auto simp: u32_eq_iff_unat)
    then show ?thesis
      using less.hyps [of "c + 8" s2] 1 less.prems(3) True by (subst mallocator_loop.simps) (simp add: ost_assert_def)
  next
    case False
    then show ?thesis using less.prems(1) by (subst mallocator_loop.simps) simp
  qed
qed

lemma mallocator_test_passes: "passes mallocator_test (some_block 2)"
  unfolding passes_def mallocator_test_def using mallocator_loop_step by fastforce

section \<open>All tests\<close>

text \<open>The tests in the order of the source; the linker may put them in any other.\<close>

definition ost_tests :: "(kernel_memory \<Rightarrow> kernel_memory result) list" where
  "ost_tests = [page_alloc_test, slab_test, free_list_small_even, free_list_small_odd, free_list_high_even, free_list_high_odd,
     buddy_test, mallocator_test, bit_array_test]"

lemma some_block_mono: "i \<le> j \<Longrightarrow> some_block j F \<Longrightarrow> some_block i F"
proof -
  assume le: "i \<le> j" and "some_block j F"
  then obtain y where y: "2 ^ j dvd y" "block j y \<subseteq> F" by (auto simp: some_block_def)
  have "block i y \<subseteq> block j y" using le by (auto simp: block_def power_increasing intro: less_le_trans)
  moreover have "2 ^ i dvd y" using y(1) le_imp_power_dvd [OF le, of "2 :: nat"] dvd_trans by blast
  ultimately show ?thesis using y(2) by (auto simp: some_block_def)
qed

lemma ost_run_append: "ost_run (xs @ ys) s = bindE (ost_run xs s) (ost_run ys)"
  by (induction xs arbitrary: s) (auto intro: bindE_ext)

lemma ost_run_passes:
  assumes "\<And>test. test \<in> set tests \<Longrightarrow> passes test (some_block 10)" "some_block 10 F" "km_rep g s F H h0 hs Ss"
  shows "\<exists>s'. ost_run tests s = Inr s' \<and> km_rep g s' F H h0 hs Ss \<and> km_malloc s' = km_malloc s \<and> km_highmem s' = km_highmem s"
  using assms(1,3)
proof (induction tests arbitrary: s)
  case (Cons test tests)
  then obtain s1 where 1: "test s = Inr s1" "km_rep g s1 F H h0 hs Ss" "km_malloc s1 = km_malloc s" "km_highmem s1 = km_highmem s"
    using assms(2) unfolding passes_def by (metis list.set_intros(1))
  then show ?case using Cons.IH [OF _ 1(2)] Cons.prems(1) by auto
qed simp

lemma passes_mono: "passes test (some_block i) \<Longrightarrow> i \<le> j \<Longrightarrow> passes test (some_block j)"
  using some_block_mono unfolding passes_def by blast

lemma other_tests_pass: "test \<in> set (tl ost_tests) \<Longrightarrow> passes test (some_block 10)"
  using free_list_tests_pass slab_test_passes buddy_test_passes mallocator_test_passes bit_array_test_passes
  by (auto simp: ost_tests_def intro: passes_mono)

text \<open>A few pages that are taken leave most of the large blocks.\<close>

lemma some_block_left:
  assumes "finite T" "card T < card (groups 10 F)"
  shows "some_block 10 (F - T)"
proof -
  let ?B = "(\<lambda>x. x div 2 ^ 10) ` T"
  have "card ?B < card (groups 10 F)" using card_image_le [OF assms(1), of "\<lambda>x. x div 2 ^ 10"] assms(2) by simp
  then have "\<not> groups 10 F \<subseteq> ?B" using card_mono [of ?B "groups 10 F"] assms(1) by fastforce
  then obtain q where q: "q \<in> groups 10 F" "q \<notin> ?B" by blast
  have "x div 2 ^ 10 = q" if "x \<in> block 10 (2 ^ 10 * q)" for x using that by (auto simp: block_def)
  then have "block 10 (2 ^ 10 * q) \<inter> T = {}" using q(2) by blast
  then show ?thesis using q(1) unfolding some_block_def groups_def by (intro exI [of _ "2 ^ 10 * q"]) auto
qed

lemma card_taken: "finite (taken n r)" "card (taken n r) \<le> n" "r \<noteq> None \<Longrightarrow> card (taken n r) = n"
  by (cases r; simp)+

lemma page_alloc_test_leaks:
  assumes rep: "km_rep g s F H h0 hs Ss" and big: "9 \<le> card (groups 10 F)"
  shows "\<exists>s' F' H'. page_alloc_test s = Inr s' \<and> km_rep g s' F' H' h0 hs Ss \<and> F' \<subseteq> F \<and> card (F - F') = 8 \<and> some_block 10 F'
    \<and> H \<subseteq> H' \<and> km_malloc s' = km_malloc s \<and> km_highmem s' = km_highmem s"
proof -
  obtain s' r0 r1 r2 r3 r4 F' where p: "page_alloc_test s = Inr s'"
    "km_rep g s' F' (H \<union> held 1 r0 \<union> held 3 r2 \<union> held 2 r3 \<union> held 2 r4) h0 hs Ss"
    "F = F' \<union> taken 1 r0 \<union> taken 3 r2 \<union> taken 2 r3 \<union> taken 2 r4"
    and dj: "sorted_wrt (\<lambda>A B. A \<inter> B = {}) [F', taken 1 r0, taken 3 r2, taken 2 r3, taken 2 r4]"
    and some: "some_block 2 (F - (taken 1 r0 \<union> taken 2 r1 \<union> taken 3 r2 \<union> taken 2 r3)) \<longrightarrow> None \<notin> {r0, r2, r3, r4}"
    and km: "km_malloc s' = km_malloc s" "km_highmem s' = km_highmem s"
    using page_alloc_test_step [OF rep] by blast
  have le: "card (A \<union> B) \<le> a + b" if "card A \<le> a" "card B \<le> b" for A B :: "nat set" and a b
    using card_Un_le [of A B] that by linarith
  have "card (taken 1 r0 \<union> taken 2 r1 \<union> taken 3 r2 \<union> taken 2 r3) \<le> 1 + 2 + 3 + 2" by (intro le card_taken)
  then have "some_block 10 (F - (taken 1 r0 \<union> taken 2 r1 \<union> taken 3 r2 \<union> taken 2 r3))"
    using big by (intro some_block_left) (simp_all add: card_taken(1))
  then have "None \<notin> {r0, r2, r3, r4}" using some some_block_mono [of 2 10] by simp
  then have c: "card (taken 1 r0) = 1" "card (taken 3 r2) = 3" "card (taken 2 r3) = 2" "card (taken 2 r4) = 2" by (metis card_taken(3) insertCI)+
  let ?T = "taken 1 r0 \<union> taken 3 r2 \<union> taken 2 r3 \<union> taken 2 r4"
  have dj': "F' \<inter> taken 1 r0 = {}" "F' \<inter> taken 3 r2 = {}" "F' \<inter> taken 2 r3 = {}" "F' \<inter> taken 2 r4 = {}"
    "taken 1 r0 \<inter> taken 3 r2 = {}" "(taken 1 r0 \<union> taken 3 r2) \<inter> taken 2 r3 = {}" "(taken 1 r0 \<union> taken 3 r2 \<union> taken 2 r3) \<inter> taken 2 r4 = {}"
    using dj by (simp_all add: Int_Un_distrib2)
  have T: "F - F' = ?T" "F' = F - ?T" unfolding p(3) using dj'(1-4) by blast+
  have "card ?T = 8"
    using c dj'(5-7) by (simp only: card_Un_disjoint card_taken(1) finite_Un simp_thms)
  moreover have "finite ?T" by (simp add: card_taken(1))
  ultimately have "some_block 10 F'" unfolding T(2) using big by (intro some_block_left) simp_all
  then show ?thesis using p(1,2) \<open>card ?T = 8\<close> T(1) km p(3) by (intro exI [of _ s'] exI [of _ F']) auto
qed

text \<open>The tests in any order.\<close>

lemma ost_run_leaks:
  assumes rep: "km_rep g s0 F H h0 hs Ss" and big: "9 \<le> card (groups 10 F)" and tests: "mset tests = mset ost_tests"
  shows "\<exists>s' F' H'. ost_run tests s0 = Inr s' \<and> km_rep g s' F' H' h0 hs Ss \<and> km_malloc s' = km_malloc s0
    \<and> F' \<subseteq> F \<and> card (F - F') = 8 \<and> some_block 10 F'"
proof -
  have "page_alloc_test \<in> set tests" using mset_eq_setD [OF tests] by (simp add: ost_tests_def)
  then obtain xs ys where sp: "tests = xs @ page_alloc_test # ys" by (meson split_list)
  have "mset (xs @ ys) = mset (tl ost_tests)" using tests by (simp add: sp ost_tests_def)
  then have "set (xs @ ys) = set (tl ost_tests)" by (rule mset_eq_setD)
  then have pass: "passes test (some_block 10)" if "test \<in> set xs \<union> set ys" for test using other_tests_pass that by auto
  have "some_block 10 F" using some_block_left [of "{}" F] big by simp
  then obtain s1 where 1: "ost_run xs s0 = Inr s1" "km_rep g s1 F H h0 hs Ss" "km_malloc s1 = km_malloc s0"
    using ost_run_passes [OF _ _ rep, of xs] pass by blast
  obtain s2 F' H' where 2: "page_alloc_test s1 = Inr s2" "km_rep g s2 F' H' h0 hs Ss" "F' \<subseteq> F" "card (F - F') = 8" "some_block 10 F'"
    "km_malloc s2 = km_malloc s1"
    using page_alloc_test_leaks [OF 1(2) big] by blast
  obtain s3 where 3: "ost_run ys s2 = Inr s3" "km_rep g s3 F' H' h0 hs Ss" "km_malloc s3 = km_malloc s2"
    using ost_run_passes [OF _ 2(5,2), of ys] pass by blast
  have "ost_run tests s0 = Inr s3" using 1(1) 2(1) 3(1) by (simp add: sp ost_run_append)
  then show ?thesis using 3(2,3) 2(3-6) 1(3) by metis
qed

section \<open>Properties\<close>

text \<open>
  C12: the self tests of the memory subsystem pass, in whatever order the linker puts them, on every machine on which the
  memory subsystem comes up with 43 free aligned blocks of 1024 pages behind the kernel image. They leave the
  heap as it was, but for eight pages that \<^verbatim>\<open>PageAlloc\<close> does not give back.
\<close>

theorem self_tests_pass:
  assumes "is_meminfo_valid bi" and "unat (high_memory bi) < 2 ^ 21 - 1024"
    and "unat (kobj_end k) \<le> 4294963200" and "geometry_ok (boot_geometry bi k)"
    and "0 < sz" "unat sz \<le> 2 ^ 14"
    and "34 + 9 \<le> card (groups 10 {gf (boot_geometry bi k)..<ge (boot_geometry bi k)})"
    and "mset tests = mset ost_tests"
  shows "\<exists>s0 F h0 hs s' F' H'. memory_init m bi k sz = Inr s0
    \<and> km_rep (boot_geometry bi k) s0 F (insert h0 (set hs)) h0 hs (replicate 33 {})
    \<and> ost_run tests s0 = Inr s' \<and> km_rep (boot_geometry bi k) s' F' H' h0 hs (replicate 33 {})
    \<and> km_malloc s' = km_malloc s0 \<and> F' \<subseteq> F \<and> card (F - F') = 8"
proof -
  let ?g = "boot_geometry bi k" and ?Ss = "replicate 33 {}"
  obtain s0 F h0 hs where ini: "memory_init m bi k sz = Inr s0" and big: "9 \<le> card (groups 10 F)"
    and rep: "km_rep ?g s0 F (insert h0 (set hs)) h0 hs ?Ss"
    using memory_init_rep [OF assms(1-7), of m] by auto
  then show ?thesis using ost_run_leaks [OF rep big assms(8)] by metis
qed

theorem self_tests_pass_witness:
  "\<exists>s0 s'. memory_init store_zero example_boot example_image 28 = Inr s0 \<and> ost_run ost_tests s0 = Inr s' \<and> km_malloc s' = km_malloc s0"
  using self_tests_pass [OF example_conditions(1-4) _ _ example_conditions(6), of 28 ost_tests store_zero] by auto

end
