(* ===== verification/Boot_Memory.thy ===== *)
theory Boot_Memory
  imports Self_Tests
begin

text \<open>
  What the start of the kernel needs of the memory subsystem: the objects that it allocates fit into the slabs, and the
  stacks of its first tasks into the pages that the self tests leave.
\<close>

section \<open>Small objects\<close>

text \<open>
  The heap during the start: \<open>F\<close> are the free pages, \<open>U\<close> the bytes in use, and at most \<open>c\<close> elements of the last slab
  of the chain are in use.
\<close>

definition boot_heap :: "geometry \<Rightarrow> kernel_memory \<Rightarrow> nat set \<Rightarrow> nat set \<Rightarrow> nat \<Rightarrow> bool" where
  "boot_heap g s F U c \<longleftrightarrow> (\<exists>H h0 hs Ss. km_rep g s F H h0 hs Ss \<and> U = \<Union> (ma_live (km_malloc s) H h0 hs Ss)
     \<and> length (ma_chain (km_malloc s)) = 33 \<and> sl_nelems (ma_chain (km_malloc s) ! 32) = 2048 \<and> card (Ss ! 32) \<le> c)"

lemma boot_heapE:
  assumes "boot_heap g s F U c"
  obtains H h0 hs Ss where "km_rep g s F H h0 hs Ss" "U = \<Union> (ma_live (km_malloc s) H h0 hs Ss)"
    "length (ma_chain (km_malloc s)) = 33" "sl_nelems (ma_chain (km_malloc s) ! 32) = 2048" "card (Ss ! 32) \<le> c"
  using assms unfolding boot_heap_def by blast

lemma boot_heapI:
  "km_rep g s F H h0 hs Ss \<Longrightarrow> length (ma_chain (km_malloc s)) = 33 \<Longrightarrow> sl_nelems (ma_chain (km_malloc s) ! 32) = 2048
   \<Longrightarrow> card (Ss ! 32) \<le> c \<Longrightarrow> boot_heap g s F (\<Union> (ma_live (km_malloc s) H h0 hs Ss)) c"
  unfolding boot_heap_def by blast

lemma boot_heap_frames: "boot_heap g s F U c \<Longrightarrow> F \<subseteq> frames"
  using bud_pool_frames by (auto simp: boot_heap_def km_rep_def ma_rep_def pa_rep_def)

text \<open>Blocks in use are behind the bit array of the page allocator.\<close>

lemma boot_heap_above:
  assumes "boot_heap g s F U c" "a \<in> U"
  shows "gf g * 4096 \<le> a"
proof -
  obtain H h0 hs Ss where rep: "km_rep g s F H h0 hs Ss" "U = \<Union> (ma_live (km_malloc s) H h0 hs Ss)" by (rule boot_heapE [OF assms(1)])
  have ma: "ma_rep g (km_store s) (km_pages s) (km_malloc s) F H h0 hs Ss" using rep(1) by (simp add: km_rep_def)
  obtain h where h: "h \<in> H" "a \<in> run_bytes h"
    using assms(2) elem_in_run(2) [OF ma] ma_repD(11) [OF ma] unfolding rep(2) ma_live_def by blast
  have "gf g * 4096 \<le> fst h * 4096" using run_bounds(2) [OF ma_repD(2) [OF ma], of "fst h" "snd h"] h(1) by simp
  then show ?thesis using h(2) by (auto simp: run_bytes_def)
qed

text \<open>An element of a slab that is taken.\<close>

lemma boot_heap_elem:
  assumes rep: "km_rep g s F H h0 hs Ss" and len: "length (ma_chain (km_malloc s)) = 33" "sl_nelems (ma_chain (km_malloc s) ! 32) = 2048"
    and c: "card (Ss ! 32) \<le> c" and j: "j < 33" "i \<notin> Ss ! j" "i < unat (sl_nelems (ma_chain (km_malloc s) ! j))"
    and new: "ma_rep g m (km_pages s) (km_malloc s) F H h0 hs (Ss[j := insert i (Ss ! j)])"
  defines "U \<equiv> \<Union> (ma_live (km_malloc s) H h0 hs Ss)" and "p \<equiv> slab_ptr (ma_chain (km_malloc s) ! j) i"
  shows "p \<noteq> nullptr" "\<exists>U'. boot_heap g (s\<lparr>km_store := m\<rparr>) F U' (Suc c) \<and> U \<subseteq> U' \<and> unat p \<in> U' - U"
proof -
  let ?ma = "km_malloc s" and ?Ss = "Ss[j := insert i (Ss ! j)]"
  have ma: "ma_rep g (km_store s) (km_pages s) ?ma F H h0 hs Ss" using rep by (simp add: km_rep_def)
  note D = ma_repD [OF ma]
  have j': "j < length (ma_chain ?ma)" using j(1) len by simp
  show "p \<noteq> nullptr" unfolding p_def by (rule slab_ptr_not_null [OF D(8) [OF j'] j(3)])
  have live: "ma_live ?ma H h0 hs ?Ss = insert (slab_elem (ma_chain ?ma ! j) i) (ma_live ?ma H h0 hs Ss)"
    by (rule ma_live_insert_elem [OF j' D(6)])
  have "0 < unat (sl_elem_size (ma_chain ?ma ! j))" using D(8) [OF j'] by (simp add: slab_shape_def word_less_nat_alt)
  then have p: "unat p \<in> slab_elem (ma_chain ?ma ! j) i" using slab_elem_start [OF D(8) [OF j'] j(3)] by (simp add: p_def)
  have "card (?Ss ! 32) \<le> Suc c"
    using c D(6) len(1) by (cases "j = 32"; cases "finite (Ss ! 32)") (simp_all add: card_insert_if)
  then have "boot_heap g (s\<lparr>km_store := m\<rparr>) F (\<Union> (ma_live (km_malloc (s\<lparr>km_store := m\<rparr>)) H h0 hs ?Ss)) (Suc c)"
    using new len by (intro boot_heapI) (simp_all add: km_rep_def)
  moreover have "unat p \<notin> U" using ma_live_disjoint_elem [OF ma j' j(3,2)] p unfolding U_def by blast
  ultimately show "\<exists>U'. boot_heap g (s\<lparr>km_store := m\<rparr>) F U' (Suc c) \<and> U \<subseteq> U' \<and> unat p \<in> U' - U"
    using p unfolding U_def by (intro exI [of _ "\<Union> (ma_live ?ma H h0 hs ?Ss)"]) (auto simp: live)
qed

text \<open>The first slab for an object of at most 512 bytes.\<close>

lemma first_slab_small:
  assumes "unat (ma_chain_length ma) = 33" "unat n \<le> 512"
  shows "unat (ma_first_slab ma n) \<le> 32"
proof (cases "n \<le> 8")
  case False
  have "unat (align_up 16 n div 16) = (unat n + 15) div 16"
    using unat_align_up_div [of 4 n] assms(2) by (simp add: add.commute)
  moreover have "(unat n + 15) div 16 \<le> 32" using assms(2) by simp
  ultimately show ?thesis using False assms(1) by (auto simp: ma_first_slab_def Let_def word_le_nat_alt)
qed (simp add: ma_first_slab_def)

lemma unat_2048: "unat (2048 :: u32) = 2048"
  by simp

lemma kmalloc_small:
  assumes heap: "boot_heap g s F U c" and c: "c < 2048" and n: "unat n \<le> 512"
  shows "\<exists>s' p U'. kmalloc s n = Inr (s', p) \<and> p \<noteq> nullptr \<and> boot_heap g s' F U' (Suc c) \<and> U \<subseteq> U' \<and> unat p \<in> U' - U"
proof -
  from heap obtain H h0 hs Ss where rep: "km_rep g s F H h0 hs Ss" and U: "U = \<Union> (ma_live (km_malloc s) H h0 hs Ss)"
    and len: "length (ma_chain (km_malloc s)) = 33" "sl_nelems (ma_chain (km_malloc s) ! 32) = 2048" and card: "card (Ss ! 32) \<le> c"
    by (rule boot_heapE)
  let ?ma = "km_malloc s"
  have ma: "ma_rep g (km_store s) (km_pages s) ?ma F H h0 hs Ss" using rep by (simp add: km_rep_def)
  have l: "unat (ma_chain_length ?ma) = 33" and ini: "ma_assert_initialized ?ma = Inr ()"
    using ma len by (auto simp: ma_rep_def ma_assert_initialized_def)
  have first: "unat (ma_first_slab ?ma n) \<le> 32" by (rule first_slab_small [OF l n])
  from first have le: "unat (ma_first_slab ?ma n) \<le> 33" by simp
  have "card (Ss ! 32) \<noteq> card {..<2048 :: nat}" using card c unfolding card_lessThan by linarith
  then have full: "Ss ! 32 \<noteq> {..<2048}" by metis
  then have "\<not> (\<forall>j. unat (ma_first_slab ?ma n) \<le> j \<and> j < 33 \<longrightarrow> Ss ! j = {..<unat (sl_nelems (ma_chain ?ma ! j))})"
    using first len(2) full by (intro notI, elim allE [of _ 32]) (simp add: unat_2048)
  then obtain j i m where j: "j < 33" "i \<notin> Ss ! j" "i < unat (sl_nelems (ma_chain ?ma ! j))"
    and al: "ma_try (km_store s) ?ma (ma_first_slab ?ma n) = Inr (m, slab_ptr (ma_chain ?ma ! j) i)"
    and new: "ma_rep g m (km_pages s) ?ma F H h0 hs (Ss[j := insert i (Ss ! j)])"
    using ma_try_rep [OF ma, of "unat (ma_first_slab ?ma n)", unfolded len(1) of_nat_unat_u32] le by blast
  note e = boot_heap_elem [OF rep len card j new]
  have "kmalloc s n = Inr (s\<lparr>km_store := m\<rparr>, slab_ptr (ma_chain ?ma ! j) i)"
    using al ini e(1) by (simp add: kmalloc_def ma_allocate_def)
  then show ?thesis using e unfolding U by blast
qed

section \<open>Pages\<close>

lemma boot_heap_pages:
  assumes heap: "boot_heap g s F U c" and n: "n \<noteq> 0" and i: "i \<le> 10" "unat n \<le> 2 ^ i" and F: "some_block i F"
  shows "\<exists>s' x U'. alloc_pages s n = Inr (s', frame_addr x) \<and> boot_heap g s' (F - {x..<x + unat n}) U' c \<and> U \<subseteq> U' \<and> x \<in> frames
    \<and> {x..<x + unat n} \<subseteq> F \<and> aligned_for (unat n) x"
proof -
  from heap obtain H h0 hs Ss where rep: "km_rep g s F H h0 hs Ss" and U: "U = \<Union> (ma_live (km_malloc s) H h0 hs Ss)"
    and len: "length (ma_chain (km_malloc s)) = 33" "sl_nelems (ma_chain (km_malloc s) ! 32) = 2048" and card: "card (Ss ! 32) \<le> c"
    by (rule boot_heapE)
  obtain y where y: "2 ^ i dvd y" "block i y \<subseteq> F" using F by (auto simp: some_block_def)
  obtain s' x where a: "alloc_pages s n = Inr (s', frame_addr x)" "km_rep g s' (F - {x..<x + unat n}) (insert (x, unat n) H) h0 hs Ss"
    "x \<in> frames" "{x..<x + unat n} \<subseteq> F" "aligned_for (unat n) x" "km_malloc s' = km_malloc s"
    using alloc_pages_some [OF rep n i y] by blast
  have "ma_live (km_malloc s) H h0 hs Ss \<subseteq> ma_live (km_malloc s') (insert (x, unat n) H) h0 hs Ss" by (auto simp: a(6) ma_live_def)
  moreover have "boot_heap g s' (F - {x..<x + unat n}) (\<Union> (ma_live (km_malloc s') (insert (x, unat n) H) h0 hs Ss)) c"
    using a(2) len card by (intro boot_heapI) (simp_all only: a(6))
  ultimately show ?thesis using a unfolding U by blast
qed

text \<open>An object of up to a page comes from a slab, or takes a page.\<close>

lemma kmalloc_page:
  assumes heap: "boot_heap g s F U c" and n: "n \<noteq> 0" "unat n \<le> 4096" and F: "Suc d \<le> card (groups 10 F)"
  shows "\<exists>s' p F' U'. kmalloc s n = Inr (s', p) \<and> p \<noteq> nullptr \<and> boot_heap g s' F' U' (Suc c) \<and> d \<le> card (groups 10 F')"
proof -
  from heap obtain H h0 hs Ss where rep: "km_rep g s F H h0 hs Ss" and U: "U = \<Union> (ma_live (km_malloc s) H h0 hs Ss)"
    and len: "length (ma_chain (km_malloc s)) = 33" "sl_nelems (ma_chain (km_malloc s) ! 32) = 2048" and card: "card (Ss ! 32) \<le> c"
    by (rule boot_heapE)
  let ?ma = "km_malloc s" and ?k = "unat (ma_first_slab (km_malloc s) n)"
  have ma: "ma_rep g (km_store s) (km_pages s) ?ma F H h0 hs Ss" using rep by (simp add: km_rep_def)
  have l: "unat (ma_chain_length ?ma) = length (ma_chain ?ma)" "length (ma_chain ?ma) < 2 ^ 16" and ini: "ma_assert_initialized ?ma = Inr ()"
    using ma by (auto simp: ma_rep_def ma_assert_initialized_def)
  have "unat n \<le> 4294963200" using n(2) by simp
  then have le: "?k \<le> 33" using ma_first_slab_large(1) [OF l] len(1) by simp
  from ma_try_rep [OF ma, of ?k, unfolded len(1) of_nat_unat_u32, OF le]
  show ?thesis
  proof (elim disjE exE conjE)
    fix j i m
    assume j: "j < 33" "i \<notin> Ss ! j" "i < unat (sl_nelems (ma_chain ?ma ! j))"
      and al: "ma_try (km_store s) ?ma (ma_first_slab ?ma n) = Inr (m, slab_ptr (ma_chain ?ma ! j) i)"
      and new: "ma_rep g m (km_pages s) ?ma F H h0 hs (Ss[j := insert i (Ss ! j)])"
    note e = boot_heap_elem [OF rep len card j new]
    have "kmalloc s n = Inr (s\<lparr>km_store := m\<rparr>, slab_ptr (ma_chain ?ma ! j) i)"
      using al ini e(1) by (simp add: kmalloc_def ma_allocate_def)
    then show ?thesis using e F by (metis Suc_leD)
  next
    assume "ma_try (km_store s) ?ma (ma_first_slab ?ma n) = Inr (km_store s, nullptr)"
    then have al: "kmalloc s n = alloc_pages s (align_up PAGE_SIZE n div PAGE_SIZE)"
      using ini by (simp add: kmalloc_def alloc_pages_def ma_allocate_def)
    have "unat (align_up PAGE_SIZE n div PAGE_SIZE) = (unat n + 4095) div 4096"
      using unat_align_up_div [of 12 n] n by (simp add: PAGE_SIZE_pow2 add.commute)
    moreover have "0 < unat n" using n(1) by (simp add: unat_gt_0)
    then have "(unat n + 4095) div 4096 = 1" using n(2) by (intro div_nat_eqI) auto
    ultimately have one: "align_up PAGE_SIZE n div PAGE_SIZE = 1" by (simp add: u32_eq_iff_unat)
    have "some_block 0 F" using F some_block_left [of "{}" F] some_block_mono [of 0 10 F] by simp
    then obtain s' x U' where a: "alloc_pages s 1 = Inr (s', frame_addr x)" "boot_heap g s' (F - run (x, 1)) U' c" "x \<in> frames" "aligned_for 1 x"
      using boot_heap_pages [OF heap, of 1 0] by (auto simp: run_def)
    have "boot_heap g s' (F - run (x, 1)) U' (Suc c)" using a(2) le_SucI unfolding boot_heap_def by blast
    moreover have "d \<le> card (groups 10 (F - run (x, 1)))"
      using groups_left [of "(x, 1)" 10 F d] a(4) boot_heap_frames [OF heap] F by simp
    ultimately show ?thesis using al one a(1) frame_addr_null [OF a(3)] by auto
  qed
qed

section \<open>The self tests and the stacks\<close>

lemma ost_run_boot:
  assumes heap: "boot_heap g s F U c" and F: "9 \<le> card (groups 10 F)" and tests: "mset tests = mset ost_tests"
  shows "\<exists>s' F' U'. ost_run tests s = Inr s' \<and> boot_heap g s' F' U' c \<and> some_block 10 F'"
proof -
  from heap obtain H h0 hs Ss where rep: "km_rep g s F H h0 hs Ss"
    and len: "length (ma_chain (km_malloc s)) = 33" "sl_nelems (ma_chain (km_malloc s) ! 32) = 2048" and card: "card (Ss ! 32) \<le> c"
    by (rule boot_heapE)
  obtain s' F' H' where r: "ost_run tests s = Inr s'" "km_rep g s' F' H' h0 hs Ss" "km_malloc s' = km_malloc s" "some_block 10 F'"
    using ost_run_leaks [OF rep F tests] by blast
  then have "boot_heap g s' F' (\<Union> (ma_live (km_malloc s') H' h0 hs Ss)) c" using len card by (intro boot_heapI) simp_all
  then show ?thesis using r by blast
qed

text \<open>A large block has room for 64 stacks, and a stack takes one of the places.\<close>

lemma stack_places:
  assumes "some_block 10 F" "F \<subseteq> frames"
  shows "64 \<le> card (groups 4 F)"
proof -
  obtain y where y: "2 ^ 10 dvd y" "block 10 y \<subseteq> F" using assms(1) by (auto simp: some_block_def)
  have "16 dvd y" using y(1) dvd_trans [of 16 1024 y] by simp
  then have z: "y = 16 * (y div 16)" by simp
  have "block 4 (2 ^ 4 * q) \<subseteq> block 10 y" if "q \<in> {y div 16..<y div 16 + 64}" for q
    using that by (subst z) (simp add: block_def)
  then have "{y div 16..<y div 16 + 64} \<subseteq> groups 4 F" using y(2) unfolding groups_def by blast
  from card_mono [OF groups_finite [OF assms(2)] this] show ?thesis by simp
qed

lemma stack_block: "0 < card (groups 4 F) \<Longrightarrow> some_block 4 F"
proof -
  assume "0 < card (groups 4 F)"
  then have "groups 4 F \<noteq> {}" by auto
  then obtain q where "q \<in> groups 4 F" by (auto simp only: ex_in_conv [symmetric])
  then show ?thesis unfolding some_block_def groups_def by (intro exI [of _ "2 ^ 4 * q"]) simp
qed

lemma stack_taken:
  assumes "aligned_for 16 x" "F \<subseteq> frames" "Suc d \<le> card (groups 4 F)"
  shows "d \<le> card (groups 4 (F - {x..<x + 16}))"
proof -
  obtain i :: nat where i: "16 \<le> (2 :: nat) ^ i" "2 ^ i dvd x" using assms(1) by (auto simp: aligned_for_def)
  have "(2 :: nat) ^ 4 \<le> 2 ^ i" using i(1) by simp
  then have "4 \<le> i" using power_le_imp_le_exp [of "2 :: nat" 4 i] by simp
  then have "2 ^ 4 dvd x" using i(2) le_imp_power_dvd [of 4 i "2 :: nat"] dvd_trans by blast
  then have x: "block 4 (2 ^ 4 * (x div 16)) = {x..<x + 16}" by (simp add: block_def)
  have "groups 4 F - {x div 16} \<subseteq> groups 4 (F - {x..<x + 16})"
    using groups_disjoint [of _ "x div 16" 4, unfolded x] by (auto simp: groups_def)
  then have "card (groups 4 F - {x div 16}) \<le> card (groups 4 (F - {x..<x + 16}))"
    using groups_finite [of "F - {x..<x + 16}" 4] assms(2) by (intro card_mono) auto
  then show ?thesis using assms(3) card_Diff_singleton_if [of "groups 4 F" "x div 16"] by (auto split: if_splits)
qed

end
