(* ===== verification/Keyboard.thy ===== *)
theory Keyboard
  imports Kernel_Prelude
begin

text \<open>
  \<^verbatim>\<open>devices/include/bolgenos-ng/keyboard.hpp\<close>, \<^verbatim>\<open>devices/src/keyboard.cpp\<close> and
  \<^verbatim>\<open>devices/ps2/src/ps2_keyboard_sm.{hpp,cpp}\<close>: the state machine that turns the bytes of scan code
  set 2 into characters on the console. Characters that are printed and bytes that are reported as
  unexpected are collected in the state. The loop of \<^verbatim>\<open>handle_byte\<close> runs until a state reports that it
  is done; a run that never ends is \<^const>\<open>None\<close>.
\<close>

section \<open>Definitions\<close>

datatype (plugins only: size) kb_key
  = kb_key_none | kb_key_f1 | kb_key_f2 | kb_key_f3 | kb_key_f4 | kb_key_f5 | kb_key_f6
  | kb_key_f7 | kb_key_f8 | kb_key_f9 | kb_key_f10 | kb_key_f11 | kb_key_f12 | kb_key_tab
  | kb_key_backspace | kb_key_lalt | kb_key_lshift | kb_key_lctrl | kb_key_ralt | kb_key_rshift
  | kb_key_rctrl | kb_key_back_tick | kb_key_0 | kb_key_1 | kb_key_2 | kb_key_3 | kb_key_4
  | kb_key_5 | kb_key_6 | kb_key_7 | kb_key_8 | kb_key_9 | kb_key_a | kb_key_b | kb_key_c
  | kb_key_d | kb_key_e | kb_key_f | kb_key_g | kb_key_h | kb_key_i | kb_key_j | kb_key_k
  | kb_key_l | kb_key_m | kb_key_n | kb_key_o | kb_key_p | kb_key_q | kb_key_r | kb_key_s
  | kb_key_t | kb_key_u | kb_key_v | kb_key_w | kb_key_x | kb_key_y | kb_key_z | kb_key_space
  | kb_key_comma | kb_key_dot | kb_key_slash | kb_key_semicolon | kb_key_minus | kb_key_apos
  | kb_key_sqbracketl | kb_key_equal | kb_key_enter | kb_key_sqbracketr | kb_key_backslash
  | kb_key_num_0 | kb_key_num_1 | kb_key_num_2 | kb_key_num_3 | kb_key_num_4 | kb_key_num_5
  | kb_key_num_6 | kb_key_num_7 | kb_key_num_8 | kb_key_num_9 | kb_key_num_dot
  | kb_key_num_plus | kb_key_num_minus | kb_key_num_star | kb_key_num_slash | kb_key_num_enter
  | kb_key_escape | kb_key_capslock | kb_key_numlock | kb_key_scrolllock | kb_key_acpi_sleep
  | kb_key_acpi_power | kb_key_acpi_wake | kb_key_cursor_up | kb_key_cursor_down
  | kb_key_cursor_right | kb_key_cursor_left | kb_key_mm_www_search | kb_key_mm_prev_track
  | kb_key_mm_www_fav | kb_key_mm_www_refresh | kb_key_mm_voldown | kb_key_mm_mute
  | kb_key_mm_www_stop | kb_key_mm_calc | kb_key_mm_www_forward | kb_key_mm_vol_up
  | kb_key_mm_playpause | kb_key_mm_www_back | kb_key_mm_www_home | kb_key_mm_stop
  | kb_key_mm_mycomp | kb_key_mm_email | kb_key_mm_next_track | kb_key_mm_select | kb_key_end
  | kb_key_home | kb_key_page_down | kb_key_page_up | kb_key_lgui | kb_key_rgui | kb_key_apps
  | kb_key_insert | kb_key_delete | kb_key_print_screen | kb_key_pause

text \<open>The keys in the order of the enumeration.\<close>

definition kb_keys :: "kb_key list" where
  "kb_keys = [
     kb_key_none, kb_key_f1, kb_key_f2, kb_key_f3, kb_key_f4, kb_key_f5, kb_key_f6, kb_key_f7,
     kb_key_f8, kb_key_f9, kb_key_f10, kb_key_f11, kb_key_f12, kb_key_tab, kb_key_backspace,
     kb_key_lalt, kb_key_lshift, kb_key_lctrl, kb_key_ralt, kb_key_rshift, kb_key_rctrl,
     kb_key_back_tick, kb_key_0, kb_key_1, kb_key_2, kb_key_3, kb_key_4, kb_key_5, kb_key_6,
     kb_key_7, kb_key_8, kb_key_9, kb_key_a, kb_key_b, kb_key_c, kb_key_d, kb_key_e, kb_key_f,
     kb_key_g, kb_key_h, kb_key_i, kb_key_j, kb_key_k, kb_key_l, kb_key_m, kb_key_n, kb_key_o,
     kb_key_p, kb_key_q, kb_key_r, kb_key_s, kb_key_t, kb_key_u, kb_key_v, kb_key_w, kb_key_x,
     kb_key_y, kb_key_z, kb_key_space, kb_key_comma, kb_key_dot, kb_key_slash,
     kb_key_semicolon, kb_key_minus, kb_key_apos, kb_key_sqbracketl, kb_key_equal,
     kb_key_enter, kb_key_sqbracketr, kb_key_backslash, kb_key_num_0, kb_key_num_1,
     kb_key_num_2, kb_key_num_3, kb_key_num_4, kb_key_num_5, kb_key_num_6, kb_key_num_7,
     kb_key_num_8, kb_key_num_9, kb_key_num_dot, kb_key_num_plus, kb_key_num_minus,
     kb_key_num_star, kb_key_num_slash, kb_key_num_enter, kb_key_escape, kb_key_capslock,
     kb_key_numlock, kb_key_scrolllock, kb_key_acpi_sleep, kb_key_acpi_power, kb_key_acpi_wake,
     kb_key_cursor_up, kb_key_cursor_down, kb_key_cursor_right, kb_key_cursor_left,
     kb_key_mm_www_search, kb_key_mm_prev_track, kb_key_mm_www_fav, kb_key_mm_www_refresh,
     kb_key_mm_voldown, kb_key_mm_mute, kb_key_mm_www_stop, kb_key_mm_calc,
     kb_key_mm_www_forward, kb_key_mm_vol_up, kb_key_mm_playpause, kb_key_mm_www_back,
     kb_key_mm_www_home, kb_key_mm_stop, kb_key_mm_mycomp, kb_key_mm_email,
     kb_key_mm_next_track, kb_key_mm_select, kb_key_end, kb_key_home, kb_key_page_down,
     kb_key_page_up, kb_key_lgui, kb_key_rgui, kb_key_apps, kb_key_insert, kb_key_delete,
     kb_key_print_screen, kb_key_pause]"

definition kb_key_value :: "kb_key \<Rightarrow> nat" where
  "kb_key_value key = length (takeWhile (\<lambda>k. k \<noteq> key) kb_keys)"

definition is_letter :: "kb_key \<Rightarrow> bool" where
  "is_letter key \<longleftrightarrow> kb_key_value kb_key_a \<le> kb_key_value key \<and> kb_key_value key \<le> kb_key_value kb_key_z"

definition is_digit :: "kb_key \<Rightarrow> bool" where
  "is_digit key \<longleftrightarrow> kb_key_value kb_key_0 \<le> kb_key_value key \<and> kb_key_value key \<le> kb_key_value kb_key_9"

text \<open>The null character stands for keys that print nothing.\<close>

definition to_printable_key :: "kb_key \<Rightarrow> char" where
  "to_printable_key key =
    (if is_letter key then char_of (of_char (CHR ''a'') + (kb_key_value key - kb_key_value kb_key_a))
     else if is_digit key then char_of (of_char (CHR ''0'') + (kb_key_value key - kb_key_value kb_key_0))
     else if key = kb_key_space then CHR '' ''
     else if key = kb_key_back_tick then CHR 0x60
     else if key = kb_key_comma then CHR '',''
     else if key = kb_key_dot then CHR ''.''
     else if key = kb_key_slash then CHR ''/''
     else if key = kb_key_semicolon then CHR '';''
     else if key = kb_key_minus then CHR ''-''
     else if key = kb_key_apos then CHR 0x27
     else if key = kb_key_sqbracketl then CHR ''[''
     else if key = kb_key_equal then CHR ''=''
     else if key = kb_key_enter then CHR 0x0A
     else if key = kb_key_sqbracketr then CHR '']''
     else if key = kb_key_backslash then CHR 0x5C
     else CHR 0x00)"

definition apply_lshift :: "char \<Rightarrow> char" where
  "apply_lshift symbol =
    (if of_char (CHR ''a'') \<le> (of_char symbol :: nat) \<and> of_char symbol \<le> (of_char (CHR ''z'') :: nat)
     then char_of (of_char (CHR ''A'') + (of_char symbol - of_char (CHR ''a'') :: nat))
     else if symbol = CHR ''0'' then CHR '')''
     else if symbol = CHR ''1'' then CHR ''!''
     else if symbol = CHR ''2'' then CHR ''@''
     else if symbol = CHR ''3'' then CHR ''#''
     else if symbol = CHR ''4'' then CHR ''$''
     else if symbol = CHR ''5'' then CHR ''%''
     else if symbol = CHR ''6'' then CHR ''^''
     else if symbol = CHR ''7'' then CHR ''&''
     else if symbol = CHR ''8'' then CHR ''*''
     else if symbol = CHR ''9'' then CHR ''(''
     else if symbol = CHR 0x60 then CHR ''~''
     else if symbol = CHR '','' then CHR ''<''
     else if symbol = CHR ''.'' then CHR ''>''
     else if symbol = CHR ''/'' then CHR ''?''
     else if symbol = CHR '';'' then CHR '':''
     else if symbol = CHR ''-'' then CHR ''_''
     else if symbol = CHR 0x27 then CHR 0x22
     else if symbol = CHR ''['' then CHR ''{''
     else if symbol = CHR '']'' then CHR ''}''
     else if symbol = CHR ''='' then CHR ''+''
     else if symbol = CHR 0x5C then CHR ''|''
     else symbol)"

definition codeset2_1b_translation_table :: "kb_key list" where
  "codeset2_1b_translation_table = [
     kb_key_none, kb_key_f9, kb_key_none, kb_key_f5,
     kb_key_f3, kb_key_f1, kb_key_f2, kb_key_f12,
     kb_key_none, kb_key_f10, kb_key_f8, kb_key_f6,
     kb_key_none, kb_key_tab, kb_key_back_tick, kb_key_none,
     kb_key_none, kb_key_lalt, kb_key_lshift, kb_key_none,
     kb_key_lctrl, kb_key_q, kb_key_1, kb_key_none,
     kb_key_none, kb_key_none, kb_key_z, kb_key_s,
     kb_key_a, kb_key_w, kb_key_2, kb_key_none,
     kb_key_none, kb_key_c, kb_key_x, kb_key_d,
     kb_key_e, kb_key_4, kb_key_3, kb_key_none,
     kb_key_none, kb_key_space, kb_key_v, kb_key_f,
     kb_key_t, kb_key_r, kb_key_5, kb_key_none,
     kb_key_none, kb_key_n, kb_key_b, kb_key_h,
     kb_key_g, kb_key_y, kb_key_6, kb_key_none,
     kb_key_none, kb_key_none, kb_key_m, kb_key_j,
     kb_key_u, kb_key_7, kb_key_8, kb_key_none,
     kb_key_none, kb_key_comma, kb_key_k, kb_key_i,
     kb_key_o, kb_key_0, kb_key_9, kb_key_none,
     kb_key_none, kb_key_dot, kb_key_slash, kb_key_l,
     kb_key_semicolon, kb_key_p, kb_key_minus, kb_key_none,
     kb_key_none, kb_key_none, kb_key_apos, kb_key_none,
     kb_key_sqbracketl, kb_key_equal, kb_key_none, kb_key_none,
     kb_key_capslock, kb_key_rshift, kb_key_enter, kb_key_sqbracketr,
     kb_key_none, kb_key_backslash, kb_key_none, kb_key_none,
     kb_key_none, kb_key_none, kb_key_none, kb_key_none,
     kb_key_none, kb_key_none, kb_key_backspace, kb_key_none,
     kb_key_none, kb_key_num_1, kb_key_none, kb_key_num_4,
     kb_key_num_7, kb_key_none, kb_key_none, kb_key_none,
     kb_key_num_0, kb_key_num_dot, kb_key_num_2, kb_key_num_5,
     kb_key_num_6, kb_key_num_8, kb_key_escape, kb_key_numlock,
     kb_key_f11, kb_key_num_plus, kb_key_num_3, kb_key_num_minus,
     kb_key_num_star, kb_key_num_9, kb_key_scrolllock, kb_key_none,
     kb_key_none, kb_key_none, kb_key_none, kb_key_f7,
     kb_key_none, kb_key_none, kb_key_none, kb_key_none,
     kb_key_none, kb_key_none, kb_key_none, kb_key_none,
     kb_key_none, kb_key_none, kb_key_none, kb_key_none,
     kb_key_none, kb_key_none, kb_key_none, kb_key_none,
     kb_key_none, kb_key_none, kb_key_none, kb_key_none,
     kb_key_none, kb_key_none, kb_key_none, kb_key_none,
     kb_key_none, kb_key_none, kb_key_none, kb_key_none,
     kb_key_none, kb_key_none, kb_key_none, kb_key_none,
     kb_key_none, kb_key_none, kb_key_none, kb_key_none,
     kb_key_none, kb_key_none, kb_key_none, kb_key_none,
     kb_key_none, kb_key_none, kb_key_none, kb_key_none,
     kb_key_none, kb_key_none, kb_key_none, kb_key_none,
     kb_key_none, kb_key_none, kb_key_none, kb_key_none,
     kb_key_none, kb_key_none, kb_key_none, kb_key_none,
     kb_key_none, kb_key_none, kb_key_none, kb_key_none,
     kb_key_none, kb_key_none, kb_key_none, kb_key_none,
     kb_key_none, kb_key_none, kb_key_none, kb_key_none,
     kb_key_none, kb_key_none, kb_key_none, kb_key_none,
     kb_key_none, kb_key_none, kb_key_none, kb_key_none,
     kb_key_none, kb_key_none, kb_key_none, kb_key_none,
     kb_key_none, kb_key_none, kb_key_none, kb_key_none,
     kb_key_none, kb_key_none, kb_key_none, kb_key_none,
     kb_key_none, kb_key_none, kb_key_none, kb_key_none,
     kb_key_none, kb_key_none, kb_key_none, kb_key_none,
     kb_key_none, kb_key_none, kb_key_none, kb_key_none,
     kb_key_none, kb_key_none, kb_key_none, kb_key_none,
     kb_key_none, kb_key_none, kb_key_none, kb_key_none,
     kb_key_none, kb_key_none, kb_key_none, kb_key_none,
     kb_key_none, kb_key_none, kb_key_none, kb_key_none,
     kb_key_none, kb_key_none, kb_key_none, kb_key_none,
     kb_key_none, kb_key_none, kb_key_none, kb_key_none]"

definition codeset2_1b_release_byte :: u8 where
  "codeset2_1b_release_byte = 0xf0"

definition translate :: "u8 \<Rightarrow> kb_key" where
  "translate byte = codeset2_1b_translation_table ! unat byte"

datatype handle_status = hs_done | hs_cont

datatype kbd_state = st_wait | st_error | st_one_byte_key_pressed | st_one_byte_key_released | st_print

record kbd_machine =
  kbd_st :: kbd_state
  kbd_pressed :: "kb_key \<Rightarrow> bool"
  kbd_out :: string
  kbd_unexpected :: "u8 list"

definition kbd_initial :: kbd_machine where
  "kbd_initial = \<lparr>kbd_st = st_wait, kbd_pressed = (\<lambda>_. False), kbd_out = [], kbd_unexpected = []\<rparr>"

definition wait_handle_byte :: "kbd_machine \<Rightarrow> u8 \<Rightarrow> kbd_machine \<times> handle_status" where
  "wait_handle_byte s byte =
     (if byte = codeset2_1b_release_byte then (s\<lparr>kbd_st := st_one_byte_key_released\<rparr>, hs_cont)
      else if translate byte \<noteq> kb_key_none then (s\<lparr>kbd_st := st_one_byte_key_pressed\<rparr>, hs_cont)
      else (s\<lparr>kbd_st := st_error\<rparr>, hs_cont))"

definition pressed_handle_byte :: "kbd_machine \<Rightarrow> u8 \<Rightarrow> kbd_machine \<times> handle_status" where
  "pressed_handle_byte s byte =
     (let key = translate byte
      in if key \<noteq> kb_key_none
         then if \<not> kbd_pressed s key
              then (s\<lparr>kbd_pressed := (kbd_pressed s)(key := True), kbd_st := st_print\<rparr>, hs_cont)
              else (s\<lparr>kbd_st := st_wait\<rparr>, hs_cont)
         else (s, hs_cont))"

definition released_handle_byte :: "kbd_machine \<Rightarrow> u8 \<Rightarrow> kbd_machine \<times> handle_status" where
  "released_handle_byte s byte =
     (if byte = codeset2_1b_release_byte then (s\<lparr>kbd_st := st_one_byte_key_released\<rparr>, hs_done)
      else let key = translate byte
      in if key \<noteq> kb_key_none
         then (s\<lparr>kbd_pressed := (kbd_pressed s)(key := False), kbd_st := st_wait\<rparr>, hs_done)
         else (s\<lparr>kbd_st := st_error\<rparr>, hs_cont))"

definition print_key :: "bool \<Rightarrow> kb_key \<Rightarrow> kbd_machine \<Rightarrow> kbd_machine" where
  "print_key lshift key s =
     (if kbd_pressed s key \<and> to_printable_key key \<noteq> CHR 0x00
      then s\<lparr>kbd_out := kbd_out s @ [if lshift then apply_lshift (to_printable_key key) else to_printable_key key],
             kbd_pressed := (kbd_pressed s)(key := False)\<rparr>
      else s)"

definition print_handle_byte :: "kbd_machine \<Rightarrow> u8 \<Rightarrow> kbd_machine \<times> handle_status" where
  "print_handle_byte s byte =
     ((fold (print_key (kbd_pressed s kb_key_lshift)) kb_keys s)\<lparr>kbd_st := st_wait\<rparr>, hs_done)"

definition error_handle_byte :: "kbd_machine \<Rightarrow> u8 \<Rightarrow> kbd_machine \<times> handle_status" where
  "error_handle_byte s byte =
     (s\<lparr>kbd_unexpected := kbd_unexpected s @ [byte], kbd_st := st_wait\<rparr>, hs_done)"

definition state_handle_byte :: "kbd_machine \<Rightarrow> u8 \<Rightarrow> kbd_machine \<times> handle_status" where
  "state_handle_byte s byte =
     (case kbd_st s of
        st_wait \<Rightarrow> wait_handle_byte s byte
      | st_error \<Rightarrow> error_handle_byte s byte
      | st_one_byte_key_pressed \<Rightarrow> pressed_handle_byte s byte
      | st_one_byte_key_released \<Rightarrow> released_handle_byte s byte
      | st_print \<Rightarrow> print_handle_byte s byte)"

partial_function (option) kbd_handle_byte :: "u8 \<Rightarrow> kbd_machine \<Rightarrow> kbd_machine option" where
  "kbd_handle_byte byte s =
     (case state_handle_byte s byte of
        (s', hs_done) \<Rightarrow> Some s'
      | (s', hs_cont) \<Rightarrow> kbd_handle_byte byte s')"

text \<open>A stream of bytes, one interrupt for each.\<close>

fun kbd_feed :: "u8 list \<Rightarrow> kbd_machine \<Rightarrow> kbd_machine option" where
  "kbd_feed [] s = Some s"
| "kbd_feed (b # bs) s = (case kbd_handle_byte b s of None \<Rightarrow> None | Some s' \<Rightarrow> kbd_feed bs s')"


section \<open>The keys\<close>

lemma kb_keys_all: "set kb_keys = UNIV"
proof -
  have "k \<in> set kb_keys" for k unfolding kb_keys_def by (cases k) simp_all
  then show ?thesis by auto
qed

lemma kb_keys_distinct: "distinct kb_keys"
  by (simp add: kb_keys_def)

lemma table_length: "length codeset2_1b_translation_table = 256"
  by (simp add: codeset2_1b_translation_table_def)

lemma lshift_not_printable: "to_printable_key kb_key_lshift = CHR 0x00"
  by (simp add: to_printable_key_def is_letter_def is_digit_def kb_key_value_def kb_keys_def)

lemma none_not_printable: "to_printable_key kb_key_none = CHR 0x00"
  by (simp add: to_printable_key_def is_letter_def is_digit_def kb_key_value_def kb_keys_def)


lemma release_byte_no_key: "translate codeset2_1b_release_byte = kb_key_none"
  by (simp add: translate_def codeset2_1b_release_byte_def codeset2_1b_translation_table_def)

lemma key_not_release_byte: "translate b \<noteq> kb_key_none \<Longrightarrow> b \<noteq> codeset2_1b_release_byte"
  using release_byte_no_key by auto

section \<open>One byte\<close>

lemmas handlers = state_handle_byte_def wait_handle_byte_def pressed_handle_byte_def
  released_handle_byte_def print_handle_byte_def error_handle_byte_def

lemma wait_release_byte:
  assumes "kbd_st s = st_wait"
  shows "kbd_handle_byte codeset2_1b_release_byte s = Some (s\<lparr>kbd_st := st_one_byte_key_released\<rparr>)"
  using assms by (subst kbd_handle_byte.simps, subst kbd_handle_byte.simps) (simp add: handlers)

lemma wait_unknown_byte:
  assumes "kbd_st s = st_wait" and "translate b = kb_key_none" and "b \<noteq> codeset2_1b_release_byte"
  shows "kbd_handle_byte b s = Some (s\<lparr>kbd_unexpected := kbd_unexpected s @ [b], kbd_st := st_wait\<rparr>)"
  using assms by (subst kbd_handle_byte.simps, subst kbd_handle_byte.simps) (simp add: handlers)

lemma wait_key_byte:
  assumes "kbd_st s = st_wait" and "translate b \<noteq> kb_key_none" and "\<not> kbd_pressed s (translate b)"
  defines "s1 \<equiv> s\<lparr>kbd_pressed := (kbd_pressed s)(translate b := True), kbd_st := st_print\<rparr>"
  shows "kbd_handle_byte b s =
    Some ((fold (print_key (kbd_pressed s1 kb_key_lshift)) kb_keys s1)\<lparr>kbd_st := st_wait\<rparr>)"
  using assms(1-3) key_not_release_byte [OF assms(2)]
  by (subst kbd_handle_byte.simps, subst kbd_handle_byte.simps, subst kbd_handle_byte.simps)
     (simp add: handlers s1_def)

lemma released_byte:
  assumes "kbd_st s = st_one_byte_key_released"
  shows "kbd_handle_byte b s = Some
    (if b = codeset2_1b_release_byte then s
     else if translate b \<noteq> kb_key_none
     then s\<lparr>kbd_pressed := (kbd_pressed s)(translate b := False), kbd_st := st_wait\<rparr>
     else s\<lparr>kbd_unexpected := kbd_unexpected s @ [b], kbd_st := st_wait\<rparr>)"
  using assms by (subst kbd_handle_byte.simps, subst kbd_handle_byte.simps) (simp add: handlers)

text \<open>The make code of a key that is held sends the machine round and round.\<close>

lemma held_key_loops:
  assumes "kbd_handle_byte b s = Some s'"
  shows "\<not> (translate b \<noteq> kb_key_none \<and> kbd_pressed s (translate b) \<and> kbd_st s \<in> {st_wait, st_one_byte_key_pressed})"
proof (rule kbd_handle_byte.raw_induct [OF _ assms])
  fix f b s s'
  assume IH: "\<And>b s s'. f b s = Some s' \<Longrightarrow>
      \<not> (translate b \<noteq> kb_key_none \<and> kbd_pressed s (translate b) \<and> kbd_st s \<in> {st_wait, st_one_byte_key_pressed})"
    and body: "(case state_handle_byte s b of (s', hs_done) \<Rightarrow> Some s' | (s', hs_cont) \<Rightarrow> f b s') = Some s'"
  show "\<not> (translate b \<noteq> kb_key_none \<and> kbd_pressed s (translate b) \<and> kbd_st s \<in> {st_wait, st_one_byte_key_pressed})"
  proof
    assume loop: "translate b \<noteq> kb_key_none \<and> kbd_pressed s (translate b) \<and> kbd_st s \<in> {st_wait, st_one_byte_key_pressed}"
    then have "\<exists>s1. state_handle_byte s b = (s1, hs_cont) \<and> kbd_pressed s1 (translate b) \<and> kbd_st s1 \<in> {st_wait, st_one_byte_key_pressed}"
      using key_not_release_byte [of b] by (auto simp: handlers)
    then obtain s1 where s1: "state_handle_byte s b = (s1, hs_cont)" "kbd_pressed s1 (translate b)"
      "kbd_st s1 \<in> {st_wait, st_one_byte_key_pressed}" by blast
    then have "f b s1 = Some s'" using body by simp
    from IH [OF this] show False using s1 loop by blast
  qed
qed

lemma wait_held_key:
  assumes "kbd_st s = st_wait" and "translate b \<noteq> kb_key_none" and "kbd_pressed s (translate b)"
  shows "kbd_handle_byte b s = None"
  using held_key_loops [of b s] assms by (cases "kbd_handle_byte b s") auto

section \<open>Printing\<close>

lemma fold_print_none:
  "(\<And>k. k \<in> set ks \<Longrightarrow> kbd_pressed s k \<Longrightarrow> to_printable_key k = CHR 0x00) \<Longrightarrow> fold (print_key l) ks s = s"
  by (induction ks) (auto simp: print_key_def)

lemma fold_print_one:
  assumes "k \<in> set ks" and "distinct ks"
    and "\<And>j. j \<in> set ks \<Longrightarrow> j \<noteq> k \<Longrightarrow> kbd_pressed s j \<Longrightarrow> to_printable_key j = CHR 0x00"
  shows "fold (print_key l) ks s = print_key l k s"
proof -
  obtain as bs where ks: "ks = as @ k # bs" using assms(1) by (meson split_list)
  have "fold (print_key l) as s = s" using assms ks by (intro fold_print_none) auto
  moreover have "fold (print_key l) bs (print_key l k s) = print_key l k s"
    using assms ks by (intro fold_print_none) (auto simp: print_key_def split: if_splits)
  ultimately show ?thesis using ks by simp
qed

text \<open>Between bytes no key that prints is recorded as pressed.\<close>

definition kbd_settled :: "kbd_machine \<Rightarrow> bool" where
  "kbd_settled s \<longleftrightarrow> kbd_st s \<in> {st_wait, st_one_byte_key_released}
     \<and> (\<forall>k. kbd_pressed s k \<longrightarrow> to_printable_key k = CHR 0x00)"

definition key_symbol :: "bool \<Rightarrow> kb_key \<Rightarrow> char" where
  "key_symbol lshift k = (if lshift then apply_lshift (to_printable_key k) else to_printable_key k)"

lemma wait_new_key:
  assumes "kbd_st s = st_wait" and "kbd_settled s" and k: "translate b = k" "k \<noteq> kb_key_none" "\<not> kbd_pressed s k"
  shows "kbd_handle_byte b s = Some
    (if to_printable_key k \<noteq> CHR 0x00 then s\<lparr>kbd_out := kbd_out s @ [key_symbol (kbd_pressed s kb_key_lshift) k]\<rparr>
     else s\<lparr>kbd_pressed := (kbd_pressed s)(k := True)\<rparr>)"
proof -
  let ?s1 = "s\<lparr>kbd_pressed := (kbd_pressed s)(k := True), kbd_st := st_print\<rparr>"
  have "fold (print_key (kbd_pressed ?s1 kb_key_lshift)) kb_keys ?s1 = print_key (kbd_pressed ?s1 kb_key_lshift) k ?s1"
    using assms(2) by (intro fold_print_one) (auto simp: kb_keys_all kb_keys_distinct kbd_settled_def)
  moreover have "(kbd_pressed s)(k := False) = kbd_pressed s" using k(3) by (simp add: fun_upd_idem)
  moreover have "to_printable_key k \<noteq> CHR 0x00 \<Longrightarrow> k \<noteq> kb_key_lshift" using lshift_not_printable by auto
  ultimately show ?thesis
    using wait_key_byte [OF assms(1), of b] k assms(1)
    by (cases s) (auto simp: print_key_def key_symbol_def fun_upd_idem)
qed


section \<open>Text\<close>

text \<open>
  What a user does: keys go down and up, named by their scan codes. What should appear: every
  printable key types its symbol when it goes down, shifted while the left shift key is down.
\<close>

datatype key_event = Make u8 | Break u8

fun wire :: "key_event \<Rightarrow> u8 list" where
  "wire (Make c) = [c]"
| "wire (Break c) = [codeset2_1b_release_byte, c]"

fun typed :: "kb_key set \<Rightarrow> key_event list \<Rightarrow> string" where
  "typed held [] = []"
| "typed held (Make c # es) =
     (if to_printable_key (translate c) \<noteq> CHR 0x00
      then key_symbol (kb_key_lshift \<in> held) (translate c) # typed held es
      else typed (insert (translate c) held) es)"
| "typed held (Break c # es) = typed (held - {translate c}) es"

text \<open>Known scan codes, and no repetition of the make code of a key that is down and prints nothing.\<close>

fun playable :: "kb_key set \<Rightarrow> key_event list \<Rightarrow> bool" where
  "playable held [] \<longleftrightarrow> True"
| "playable held (Make c # es) \<longleftrightarrow> translate c \<noteq> kb_key_none \<and> translate c \<notin> held
     \<and> playable (if to_printable_key (translate c) \<noteq> CHR 0x00 then held else insert (translate c) held) es"
| "playable held (Break c # es) \<longleftrightarrow> translate c \<noteq> kb_key_none \<and> playable (held - {translate c}) es"

lemma kbd_feed_append:
  "kbd_feed (as @ bs) s = (case kbd_feed as s of None \<Rightarrow> None | Some s' \<Rightarrow> kbd_feed bs s')"
  by (induction as arbitrary: s) (auto split: option.splits)

lemma kbd_feed_typed:
  assumes "playable {k. kbd_pressed s k} es" and "kbd_settled s" and "kbd_st s = st_wait"
  shows "\<exists>s'. kbd_feed (concat (map wire es)) s = Some s' \<and> kbd_out s' = kbd_out s @ typed {k. kbd_pressed s k} es
    \<and> kbd_settled s' \<and> kbd_st s' = st_wait \<and> kbd_unexpected s' = kbd_unexpected s"
  using assms
proof (induction es arbitrary: s)
  case (Cons e es)
  show ?case
  proof (cases e)
    case (Make c)
    let ?k = "translate c"
    let ?s = "if to_printable_key ?k \<noteq> CHR 0x00
       then s\<lparr>kbd_out := kbd_out s @ [key_symbol (kbd_pressed s kb_key_lshift) ?k]\<rparr>
       else s\<lparr>kbd_pressed := (kbd_pressed s)(?k := True)\<rparr>"
    have h: "kbd_handle_byte c s = Some ?s"
      using wait_new_key [OF Cons.prems(3,2) refl] Cons.prems(1) Make by simp
    have st: "kbd_settled ?s" "kbd_st ?s = st_wait" using Cons.prems by (auto simp: kbd_settled_def)
    have held: "{k. kbd_pressed ?s k} = (if to_printable_key ?k \<noteq> CHR 0x00 then {k. kbd_pressed s k} else insert ?k {k. kbd_pressed s k})"
      by auto
    have pl: "playable {k. kbd_pressed ?s k} es" using Cons.prems(1) Make unfolding held by simp
    from Cons.IH [OF pl st] show ?thesis using h Make unfolding held by (auto split: if_splits)
  next
    case (Break c)
    let ?s1 = "s\<lparr>kbd_st := st_one_byte_key_released\<rparr>"
    let ?s = "s\<lparr>kbd_pressed := (kbd_pressed s)(translate c := False), kbd_st := st_wait\<rparr>"
    have c: "translate c \<noteq> kb_key_none" using Cons.prems(1) Break by simp
    have "kbd_handle_byte c ?s1 = Some ?s" using released_byte [of ?s1 c] c key_not_release_byte [OF c] by simp
    then have h: "kbd_feed (wire e) s = Some ?s" using wait_release_byte [OF Cons.prems(3)] Break by simp
    have st: "kbd_settled ?s" "kbd_st ?s = st_wait" using Cons.prems by (auto simp: kbd_settled_def)
    have held: "{k. kbd_pressed ?s k} = {k. kbd_pressed s k} - {translate c}" by auto
    have pl: "playable {k. kbd_pressed ?s k} es" using Cons.prems(1) Break unfolding held by simp
    have feed: "kbd_feed (concat (map wire (e # es))) s = kbd_feed (concat (map wire es)) ?s"
      using h by (simp add: kbd_feed_append)
    from Cons.IH [OF pl st] show ?thesis unfolding feed held by (simp add: Break)
  qed
qed simp

lemma kbd_settled_keep:
  assumes "kbd_settled s" and "kbd_handle_byte b s = Some s'"
  shows "kbd_settled s'"
proof (cases "kbd_st s = st_wait")
  case True
  consider "b = codeset2_1b_release_byte" | "b \<noteq> codeset2_1b_release_byte" "translate b = kb_key_none"
    | "translate b \<noteq> kb_key_none" "\<not> kbd_pressed s (translate b)"
    | "translate b \<noteq> kb_key_none" "kbd_pressed s (translate b)" by blast
  then show ?thesis
  proof cases
    case 1
    then show ?thesis using assms wait_release_byte [OF True] by (auto simp: kbd_settled_def)
  next
    case 2
    then show ?thesis using assms wait_unknown_byte [OF True] by (auto simp: kbd_settled_def)
  next
    case 3
    then show ?thesis using assms wait_new_key [OF True assms(1) refl 3] True by (auto simp: kbd_settled_def split: if_splits)
  next
    case 4
    then show ?thesis using assms(2) wait_held_key [OF True 4] by simp
  qed
next
  case False
  then have "kbd_st s = st_one_byte_key_released" using assms(1) by (simp add: kbd_settled_def)
  then show ?thesis using assms released_byte [of s b] by (auto simp: kbd_settled_def split: if_splits)
qed

lemma kbd_feed_settled: "kbd_feed bs s = Some s' \<Longrightarrow> kbd_settled s \<Longrightarrow> kbd_settled s'"
  by (induction bs arbitrary: s) (auto split: option.splits dest: kbd_settled_keep)

section \<open>Properties\<close>

text \<open>
  C14: what the user types is what is printed. For every sequence of key presses and releases in
  which no held non-printing key repeats, the keyboard driver handles all bytes, reports none of
  them as unexpected and prints exactly the symbols of the printable keys that went down, with the
  upper-case or shifted symbol while the left shift key was down.
\<close>

theorem keyboard_prints_typed:
  assumes "playable {} es"
  shows "\<exists>s. kbd_feed (concat (map wire es)) kbd_initial = Some s \<and> kbd_out s = typed {} es
    \<and> kbd_unexpected s = [] \<and> kbd_st s = st_wait"
proof -
  have "kbd_settled kbd_initial" "kbd_st kbd_initial = st_wait" "{k. kbd_pressed kbd_initial k} = {}"
    by (simp_all add: kbd_settled_def kbd_initial_def)
  then show ?thesis using kbd_feed_typed [of kbd_initial es] assms by (auto simp: kbd_initial_def)
qed


lemmas key_codes = translate_def codeset2_1b_translation_table_def to_printable_key_def is_letter_def
  is_digit_def kb_key_value_def kb_keys_def apply_lshift_def char_of_def bit_Suc_0_iff

theorem keyboard_prints_typed_witness:
  "\<exists>s. kbd_feed [0x12, 0x33, 0xf0, 0x33, 0xf0, 0x12, 0x43, 0xf0, 0x43] kbd_initial = Some s \<and> kbd_out s = ''Hi''"
proof -
  let ?es = "[Make 0x12, Make 0x33, Break 0x33, Break 0x12, Make 0x43, Break 0x43]"
  have "translate 0x12 = kb_key_lshift" "translate 0x33 = kb_key_h" "translate 0x43 = kb_key_i"
    by (simp_all add: translate_def codeset2_1b_translation_table_def)
  moreover have "to_printable_key kb_key_h = CHR ''h''" "to_printable_key kb_key_i = CHR ''i''" "apply_lshift (CHR ''h'') = CHR ''H''"
    by (simp_all add: key_codes)
  ultimately have pl: "playable {} ?es" and ty: "typed {} ?es = ''Hi''"
    using lshift_not_printable by (simp_all add: key_symbol_def)
  have "concat (map wire ?es) = [0x12, 0x33, 0xf0, 0x33, 0xf0, 0x12, 0x43, 0xf0, 0x43]"
    by (simp add: codeset2_1b_release_byte_def)
  then show ?thesis using keyboard_prints_typed [OF pl] unfolding ty by metis
qed

text \<open>
  C32: whatever bytes have been handled, the driver returns from the next byte unless it is the make
  code of a key that is held and prints nothing, in which case \<^verbatim>\<open>handle_byte\<close> never returns. The
  keyboard repeats the make code of a key that is held down, so holding the shift key hangs the
  interrupt handler.
\<close>

theorem keyboard_hangs_exactly:
  assumes "kbd_feed bs kbd_initial = Some s"
  shows "kbd_handle_byte b s = None \<longleftrightarrow>
    kbd_st s = st_wait \<and> translate b \<noteq> kb_key_none \<and> kbd_pressed s (translate b) \<and> to_printable_key (translate b) = CHR 0x00"
proof -
  have "kbd_settled kbd_initial" by (simp add: kbd_settled_def kbd_initial_def)
  then have set: "kbd_settled s" using kbd_feed_settled [OF assms] by blast
  show ?thesis
  proof (cases "kbd_st s = st_wait")
    case True
    then show ?thesis
      using wait_held_key [OF True, of b] wait_new_key [OF True set refl, of b] wait_unknown_byte [OF True, of b]
        wait_release_byte [OF True] set release_byte_no_key
      by (cases "b = codeset2_1b_release_byte"; cases "translate b = kb_key_none"; cases "kbd_pressed s (translate b)")
         (auto simp: kbd_settled_def)
  next
    case False
    then have "kbd_st s = st_one_byte_key_released" using set by (simp add: kbd_settled_def)
    then show ?thesis using released_byte [of s b] by simp
  qed
qed

theorem keyboard_hangs_exactly_witness:
  "\<exists>s. kbd_feed [0x12] kbd_initial = Some s \<and> kbd_handle_byte 0x12 s = None"
proof -
  let ?s = "kbd_initial\<lparr>kbd_pressed := (\<lambda>_. False)(kb_key_lshift := True)\<rparr>"
  have lshift: "translate 0x12 = kb_key_lshift" by (simp add: translate_def codeset2_1b_translation_table_def)
  have "kbd_settled kbd_initial" "kbd_st kbd_initial = st_wait" by (simp_all add: kbd_settled_def kbd_initial_def)
  then have "kbd_handle_byte 0x12 kbd_initial = Some ?s"
    using wait_new_key [of kbd_initial, OF _ _ lshift] lshift_not_printable by (simp add: kbd_initial_def)
  then have "kbd_feed [0x12] kbd_initial = Some ?s" by simp
  then show ?thesis
    using keyboard_hangs_exactly [of "[0x12]" ?s] lshift lshift_not_printable by (simp add: kbd_initial_def)
qed

end
