(* ===== verification/Out_Stream.thy ===== *)
theory Out_Stream
  imports Kernel_Prelude
begin

text \<open>
  Formatted output: \<^verbatim>\<open>libkernelcxx/src/streambuf.cpp\<close>, \<^verbatim>\<open>ostream.cpp\<close>, \<^verbatim>\<open>ext/snprintf_stream.cpp\<close> and
  \<^verbatim>\<open>ext/scoped_format_guard.cpp\<close>.

  A stream buffer is an object with two virtual functions. It is modelled by these two functions on
  the state \<open>'s\<close> that lies behind the buffer (a device, a block of memory). What the functions return
  beside the new state is dropped by every caller. A C string is given by its characters.
\<close>

section \<open>Stream buffers\<close>

record 's streambuf =
  sb_overflow :: "char \<Rightarrow> 's \<Rightarrow> 's result"
  sb_xsputn :: "string \<Rightarrow> 's \<Rightarrow> 's result"

definition sputc :: "'s streambuf \<Rightarrow> char \<Rightarrow> 's \<Rightarrow> 's result" where
  "sputc sb c s = sb_overflow sb c s"

definition sputn :: "'s streambuf \<Rightarrow> string \<Rightarrow> 's \<Rightarrow> 's result" where
  "sputn sb str s = sb_xsputn sb str s"

section \<open>Output streams\<close>

definition fmt_dec :: u32 where
  "fmt_dec = push_bit 0 1"

definition fmt_hex :: u32 where
  "fmt_hex = push_bit 1 1"

definition fmt_basefield :: u32 where
  "fmt_basefield = fmt_dec OR fmt_hex"

record 's ostream =
  os_streambuf :: "'s streambuf option"
  os_format :: u32
  os_width :: u32
  os_fillch :: char

definition ostream_construct :: "'s streambuf option \<Rightarrow> 's ostream" where
  "ostream_construct sb = \<lparr>os_streambuf = sb, os_format = fmt_dec, os_width = 0, os_fillch = CHR '' ''\<rparr>"

definition os_put :: "'s ostream \<Rightarrow> char \<Rightarrow> 's \<Rightarrow> 's result" where
  "os_put os c s = (case os_streambuf os of None \<Rightarrow> Inr s | Some sb \<Rightarrow> sputc sb c s)"

definition os_write :: "'s ostream \<Rightarrow> string \<Rightarrow> 's \<Rightarrow> 's result" where
  "os_write os str s = (case os_streambuf os of None \<Rightarrow> Inr s | Some sb \<Rightarrow> sputn sb str s)"

function fill_field :: "'s ostream \<Rightarrow> u32 \<Rightarrow> u32 \<Rightarrow> 's \<Rightarrow> 's result" where
  "fill_field os width already_have s =
     (if width > already_have then bindE (os_put os (os_fillch os) s) (fill_field os (width - 1) already_have)
      else Inr s)"
  by pat_completeness auto
termination
proof (relation "measure (\<lambda>(os, width, have, s). unat width)")
  fix os :: "'s ostream" and width already_have :: u32 and s
  assume "already_have < width"
  then have "width \<noteq> 0" by auto
  then show "((os, width - 1, already_have, s), os, width, already_have, s') \<in> measure (\<lambda>(os, width, have, s). unat width)" for s s' :: 's
    by (simp add: measure_unat)
qed simp

primrec put_all :: "'s ostream \<Rightarrow> string \<Rightarrow> 's \<Rightarrow> 's result" where
  "put_all os [] s = Inr s"
| "put_all os (c # str) s = bindE (os_put os c s) (put_all os str)"

definition shl_char :: "'s ostream \<Rightarrow> char \<Rightarrow> 's \<Rightarrow> 's result" where
  "shl_char os c s = bindE (fill_field os (os_width os) 1 s) (os_put os c)"

definition shl_string :: "'s ostream \<Rightarrow> string \<Rightarrow> 's \<Rightarrow> 's result" where
  "shl_string os str s = bindE (fill_field os (os_width os) (of_nat (length str)) s) (put_all os str)"

definition shl_bool :: "'s ostream \<Rightarrow> bool \<Rightarrow> 's \<Rightarrow> 's result" where
  "shl_bool os v s = (if v then shl_string os ''true'' s else shl_string os ''false'' s)"

definition setf :: "u32 \<Rightarrow> 's ostream \<Rightarrow> 's ostream \<times> u32" where
  "setf fl os = (os\<lparr>os_format := os_format os OR fl\<rparr>, os_format os)"

definition setf_masked :: "u32 \<Rightarrow> u32 \<Rightarrow> 's ostream \<Rightarrow> 's ostream \<times> u32" where
  "setf_masked fl m os = (os\<lparr>os_format := (os_format os AND NOT m) OR fl\<rparr>, os_format os)"

definition set_width :: "u32 \<Rightarrow> 's ostream \<Rightarrow> 's ostream \<times> u32" where
  "set_width wide os = (os\<lparr>os_width := wide\<rparr>, os_width os)"

definition set_fill :: "char \<Rightarrow> 's ostream \<Rightarrow> 's ostream \<times> char" where
  "set_fill fillch os = (os\<lparr>os_fillch := fillch\<rparr>, os_fillch os)"

definition copyfmt :: "'t ostream \<Rightarrow> 's ostream \<Rightarrow> 's ostream" where
  "copyfmt other os = os\<lparr>os_fillch := os_fillch other, os_format := os_format other, os_width := os_width other\<rparr>"

definition rdbuf :: "'s streambuf option \<Rightarrow> 's ostream \<Rightarrow> 's ostream \<times> 's streambuf option" where
  "rdbuf sb os = (os\<lparr>os_streambuf := sb\<rparr>, os_streambuf os)"

definition manip_dec :: "'s ostream \<Rightarrow> 's ostream" where
  "manip_dec os = fst (setf_masked fmt_dec fmt_basefield os)"

definition manip_hex :: "'s ostream \<Rightarrow> 's ostream" where
  "manip_hex os = fst (setf_masked fmt_hex fmt_basefield os)"

definition endl :: "'s ostream \<Rightarrow> 's \<Rightarrow> 's result" where
  "endl os s = os_put os (CHR 0x0A) s"

section \<open>Numbers\<close>

datatype int_type = t_uchar | t_short | t_ushort | t_int | t_uint | t_long | t_ulong

definition type_bits :: "int_type \<Rightarrow> nat" where
  "type_bits t = (case t of t_uchar \<Rightarrow> 8 | t_short \<Rightarrow> 16 | t_ushort \<Rightarrow> 16 | _ \<Rightarrow> 32)"

definition type_signed :: "int_type \<Rightarrow> bool" where
  "type_signed t \<longleftrightarrow> t \<in> {t_short, t_int, t_long}"

definition in_range :: "int_type \<Rightarrow> int \<Rightarrow> bool" where
  "in_range t v \<longleftrightarrow> (if type_signed t then - (2 ^ (type_bits t - 1)) \<le> v \<and> v < 2 ^ (type_bits t - 1)
     else 0 \<le> v \<and> v < 2 ^ type_bits t)"

text \<open>The unsigned value of the same width, the remainder modulo a power of two.\<close>

definition to_unsigned :: "int_type \<Rightarrow> int \<Rightarrow> nat" where
  "to_unsigned t v = nat (v mod 2 ^ type_bits t)"

definition MAX_DEC_LENGTH :: nat where
  "MAX_DEC_LENGTH = 20 + 1"

definition to_printable :: "nat \<Rightarrow> char" where
  "to_printable digit = (if digit < 10 then char_of (48 + digit) else char_of (97 + digit - 10))"

function digits_loop :: "bool \<Rightarrow> nat \<Rightarrow> string \<Rightarrow> string" where
  "digits_loop hexadecimal v buffer =
     (let base = (if hexadecimal then 16 else 10)
      in if v \<noteq> 0 then digits_loop hexadecimal (v div base) (buffer @ [to_printable (v mod base)]) else buffer)"
  by pat_completeness auto
termination
  by (relation "measure (\<lambda>(h, v, b). v)") auto

declare digits_loop.simps [simp del] fill_field.simps [simp del]

text \<open>The buffer holds the digits from the last to the first. The last loop reads it backwards.\<close>

definition digit_buffer :: "u32 \<Rightarrow> int_type \<Rightarrow> int \<Rightarrow> string" where
  "digit_buffer format t v =
     (let basefield = format AND fmt_basefield;
          hexadecimal = (basefield = fmt_hex);
          unsigned_value = (if hexadecimal then to_unsigned t v
                            else if v \<ge> 0 then to_unsigned t v else to_unsigned t (0 - v));
          buffer = digits_loop hexadecimal unsigned_value [];
          buffer = (if length buffer = 0 then buffer @ [CHR ''0''] else buffer)
      in if basefield = fmt_dec \<and> v < 0 then buffer @ [CHR ''-''] else buffer)"

fun put_backwards :: "'s ostream \<Rightarrow> string \<Rightarrow> nat \<Rightarrow> 's \<Rightarrow> 's result" where
  "put_backwards os buffer 0 s = Inl Undef"
| "put_backwards os buffer (Suc digits) s =
     bindE (os_put os (buffer ! digits) s) (\<lambda>s1. if digits \<noteq> 0 then put_backwards os buffer digits s1 else Inr s1)"

definition show_numerical_value :: "'s ostream \<Rightarrow> int_type \<Rightarrow> int \<Rightarrow> 's \<Rightarrow> 's result" where
  "show_numerical_value os t v s =
     (let buffer = digit_buffer (os_format os) t v; digits = length buffer
      in if digits > MAX_DEC_LENGTH then Inl Undef
         else bindE (fill_field os (os_width os) (of_nat digits) s) (put_backwards os buffer digits))"

definition shl_pointer :: "'s ostream \<Rightarrow> ptr \<Rightarrow> 's \<Rightarrow> 's result" where
  "shl_pointer os p s = show_numerical_value os t_uint (uint p) s"

section \<open>Guarding the format of a stream\<close>

text \<open>The guard is built at the begin of a scope and restores the format at its end.\<close>

definition guard_construct :: "'s ostream \<Rightarrow> 's ostream" where
  "guard_construct guarded = copyfmt guarded (ostream_construct None)"

definition guard_destruct :: "'s ostream \<Rightarrow> 's ostream \<Rightarrow> 's ostream" where
  "guard_destruct backup guarded = copyfmt backup guarded"

section \<open>Streams to a block of memory\<close>

text \<open>Positions count from the begin of the block.\<close>

record snprintf_buf =
  sn_mem :: "nat \<Rightarrow> char"
  sn_buf :: nat
  sn_last :: nat

definition sn_construct :: "nat \<Rightarrow> (nat \<Rightarrow> char) \<Rightarrow> snprintf_buf" where
  "sn_construct max_len mem =
     \<lparr>sn_mem = mem(0 := CHR 0x00), sn_buf = 0, sn_last = (if max_len = 0 then 0 else max_len - 1)\<rparr>"

definition sn_overflow :: "char \<Rightarrow> snprintf_buf \<Rightarrow> snprintf_buf result" where
  "sn_overflow c b =
     (if sn_buf b = sn_last b then Inr b
      else Inr (b\<lparr>sn_mem := (sn_mem b)(sn_buf b := c, sn_buf b + 1 := CHR 0x00), sn_buf := sn_buf b + 1\<rparr>))"

primrec sn_copy :: "string \<Rightarrow> snprintf_buf \<Rightarrow> snprintf_buf" where
  "sn_copy [] b = b"
| "sn_copy (c # str) b =
     (if sn_buf b \<noteq> sn_last b
      then sn_copy str (b\<lparr>sn_mem := (sn_mem b)(sn_buf b := c), sn_buf := sn_buf b + 1\<rparr>) else b)"

definition sn_xsputn :: "string \<Rightarrow> snprintf_buf \<Rightarrow> snprintf_buf result" where
  "sn_xsputn str b =
     (if sn_buf b = sn_last b then Inr b
      else let b1 = sn_copy str b in Inr (b1\<lparr>sn_mem := (sn_mem b1)(sn_buf b1 := CHR 0x00)\<rparr>))"

definition snprintf_streambuf :: "snprintf_buf streambuf" where
  "snprintf_streambuf = \<lparr>sb_overflow = sn_overflow, sb_xsputn = sn_xsputn\<rparr>"

definition snprintf_stream :: "snprintf_buf ostream" where
  "snprintf_stream = ostream_construct (Some snprintf_streambuf)"

section \<open>What a buffer promises\<close>

text \<open>Characters given to a buffer one after the other.\<close>

primrec push :: "'s streambuf \<Rightarrow> string \<Rightarrow> 's \<Rightarrow> 's result" where
  "push sb [] s = Inr s"
| "push sb (c # str) s = bindE (sb_overflow sb c s) (push sb str)"

lemma push_append: "push sb (xs @ ys) s = bindE (push sb xs s) (push sb ys)"
  by (induction xs arbitrary: s) (auto intro: bindE_ext)

lemma push_single [simp]: "push sb [c] s = sb_overflow sb c s"
  by (cases "sb_overflow sb c s") simp_all

text \<open>A buffer writes a block of characters as it writes the characters one by one.\<close>

locale stream_target =
  fixes sb :: "'s streambuf" and sb_inv :: "'s \<Rightarrow> bool"
  assumes overflow_inv: "sb_inv s \<Longrightarrow> sb_overflow sb c s = Inr s' \<Longrightarrow> sb_inv s'"
    and xsputn_push: "sb_inv s \<Longrightarrow> sb_xsputn sb str s = push sb str s"
begin

lemma push_inv: "sb_inv s \<Longrightarrow> push sb str s = Inr s' \<Longrightarrow> sb_inv s'"
  by (induction str arbitrary: s) (auto simp: bindE_eq_Inr_iff dest: overflow_inv)

lemma write_put_all:
  assumes "os_streambuf os = Some sb" "sb_inv s"
  shows "os_write os str s = put_all os str s"
proof -
  have "put_all os str s = push sb str s" for s
    using assms(1) by (induction str arbitrary: s) (auto simp: os_put_def sputc_def intro: bindE_ext)
  then show ?thesis using assms by (simp add: os_write_def sputn_def xsputn_push)
qed

end

section \<open>Output operations emit a text\<close>

definition emit :: "'s ostream \<Rightarrow> string \<Rightarrow> 's \<Rightarrow> 's result" where
  "emit os str s = (case os_streambuf os of None \<Rightarrow> Inr s | Some sb \<Rightarrow> push sb str s)"

definition padding :: "'s ostream \<Rightarrow> string \<Rightarrow> string" where
  "padding os str = replicate (unat (os_width os) - length str) (os_fillch os)"

lemma emit_simps [simp]:
  "emit os [] s = Inr s" "emit os [c] s = os_put os c s"
  by (simp_all add: emit_def os_put_def sputc_def del: push.simps(2) split: option.splits)

lemma emit_append: "emit os (xs @ ys) s = bindE (emit os xs s) (emit os ys)"
  by (cases "os_streambuf os") (auto simp: emit_def push_append intro: bindE_ext)

lemma emit_Cons: "emit os (c # str) s = bindE (os_put os c s) (emit os str)"
  using emit_append [of os "[c]" str s] by simp

lemma emit_Nil_fun [simp]: "emit os [] = Inr"
  by (rule ext) simp

lemma put_all_emit: "put_all os str = emit os str"
proof
  show "put_all os str s = emit os str s" for s
    by (induction str arbitrary: s) (auto simp: emit_Cons intro: bindE_ext)
qed

lemma fill_field_emit: "fill_field os w got s = emit os (replicate (unat w - unat got) (os_fillch os)) s"
proof (induction "unat w - unat got" arbitrary: w s)
  case 0
  then show ?case by (subst fill_field.simps) (simp add: word_less_nat_alt)
next
  case (Suc k)
  then have "got < w" "w \<noteq> 0" by (auto simp: word_less_nat_alt)
  moreover have "unat (w - 1) = unat w - 1" using \<open>w \<noteq> 0\<close> by (simp add: unat_minus_one)
  moreover have "k = unat (w - 1) - unat got" using Suc.hyps(2) calculation(3) by simp
  moreover have "replicate (unat w - unat got) (os_fillch os) = os_fillch os # replicate k (os_fillch os)"
    using Suc.hyps(2) by (metis replicate_Suc)
  ultimately show ?case using Suc.hyps(1) [of "w - 1"] by (subst fill_field.simps) (auto simp: emit_Cons intro: bindE_ext)
qed

lemma shl_string_emit:
  "length str < 4294967296 \<Longrightarrow> shl_string os str s = emit os (padding os str @ str) s"
  by (simp add: shl_string_def fill_field_emit put_all_emit emit_append padding_def unat_of_nat_u32)

lemma put_backwards_emit:
  "n \<noteq> 0 \<Longrightarrow> n \<le> length buffer \<Longrightarrow> put_backwards os buffer n s = emit os (rev (take n buffer)) s"
proof (induction n arbitrary: s)
  case (Suc n)
  then have "rev (take (Suc n) buffer) = buffer ! n # rev (take n buffer)" by (simp add: take_Suc_conv_app_nth)
  then show ?case using Suc by (cases "n = 0") (auto simp: emit_Cons intro: bindE_ext)
qed simp


section \<open>The text of a number\<close>

definition digit_value :: "char \<Rightarrow> nat" where
  "digit_value c = (if of_char c < (97 :: nat) then of_char c - 48 else of_char c - 87)"

definition read_digits :: "nat \<Rightarrow> string \<Rightarrow> nat" where
  "read_digits base str = foldl (\<lambda>v c. v * base + digit_value c) 0 str"

definition read_number :: "nat \<Rightarrow> string \<Rightarrow> int" where
  "read_number base str = (case str of CHR ''-'' # ds \<Rightarrow> - int (read_digits base ds) | _ \<Rightarrow> int (read_digits base str))"

lemma digit_value_to_printable: "d < 16 \<Longrightarrow> digit_value (to_printable d) = d"
  by (auto simp: digit_value_def to_printable_def)

lemma to_printable_no_sign: "d < 16 \<Longrightarrow> to_printable d \<noteq> CHR ''-''"
proof
  assume d: "d < 16" and eq: "to_printable d = CHR ''-''"
  have "of_char (to_printable d) = (45 :: nat)" unfolding eq by simp
  then show False using d by (auto simp: to_printable_def split: if_splits)
qed

abbreviation base_of :: "bool \<Rightarrow> nat" where
  "base_of h \<equiv> (if h then 16 else 10)"

lemma read_digits_snoc: "read_digits base (xs @ [c]) = read_digits base xs * base + digit_value c"
  by (simp add: read_digits_def)

text \<open>The loop appends the digits of the value to the buffer, each of them a digit of the base.\<close>

lemma digits_loop_reads:
  "\<exists>ds. digits_loop h v buf = buf @ ds \<and> read_digits (base_of h) (rev ds) = v
    \<and> (\<forall>c\<in>set ds. c \<noteq> CHR ''-'') \<and> v < base_of h ^ length ds \<and> (v \<noteq> 0 \<longrightarrow> base_of h ^ (length ds - 1) \<le> v)
    \<and> (ds = [] \<longleftrightarrow> v = 0)"
proof (induction h v buf rule: digits_loop.induct)
  case (1 h v buf)
  let ?b = "base_of h"
  show ?case
  proof (cases "v = 0")
    case True
    then show ?thesis by (subst digits_loop.simps) (simp add: read_digits_def)
  next
    case False
    have b: "1 < ?b" by simp
    have "v mod ?b < ?b" "?b \<le> 16" by simp_all
    then have m: "v mod ?b < 16" by (rule less_le_trans)
    obtain ds where ds: "digits_loop h (v div ?b) (buf @ [to_printable (v mod ?b)]) = (buf @ [to_printable (v mod ?b)]) @ ds"
      "read_digits ?b (rev ds) = v div ?b" "\<forall>c\<in>set ds. c \<noteq> CHR ''-''" "v div ?b < ?b ^ length ds"
      "v div ?b \<noteq> 0 \<longrightarrow> ?b ^ (length ds - 1) \<le> v div ?b" "ds = [] \<longleftrightarrow> v div ?b = 0"
      using 1 [OF refl False] by (elim exE conjE) (rule that)
    let ?ds = "to_printable (v mod ?b) # ds"
    have "digits_loop h v buf = buf @ ?ds"
      using ds(1) False by (subst digits_loop.simps) (simp add: Let_def)
    moreover have "read_digits ?b (rev ?ds) = v"
      using ds(2) m by (simp only: rev.simps read_digits_snoc digit_value_to_printable div_mult_mod_eq)
    moreover have "\<forall>c\<in>set ?ds. c \<noteq> CHR ''-''" using ds(3) to_printable_no_sign [OF m] by simp
    moreover have "v < ?b ^ length ?ds"
      using ds(4) b by (simp add: div_less_iff_less_mult mult.commute)
    moreover have "?b ^ (length ?ds - 1) \<le> v"
    proof (cases "v div ?b = 0")
      case True
      then show ?thesis using ds(6) False by simp
    next
      case nz: False
      then have "length ds \<noteq> 0" using ds(6) by simp
      then have "?b ^ length ds = ?b ^ (length ds - 1) * ?b" by (metis Suc_pred' not_gr_zero power_Suc2)
      also have "\<dots> \<le> (v div ?b) * ?b" using ds(5) nz by (intro mult_right_mono) auto
      also have "\<dots> \<le> v" by (rule div_times_less_eq_dividend)
      finally show ?thesis by simp
    qed
    ultimately show ?thesis using False by (intro exI [of _ ?ds] conjI) simp_all
  qed
qed

text \<open>The value that the digits stand for.\<close>

lemma to_unsigned_range:
  assumes "in_range t v"
  shows "to_unsigned t v < 4294967296" "to_unsigned t (0 - v) < 4294967296"
    "0 \<le> v \<Longrightarrow> int (to_unsigned t v) = v" "v < 0 \<Longrightarrow> int (to_unsigned t (0 - v)) = - v"
    "int (to_unsigned t v) = v mod 2 ^ type_bits t"
  using assms by (cases t; simp add: to_unsigned_def in_range_def type_signed_def type_bits_def nat_less_iff)+

lemma digit_count:
  assumes "base_of h ^ (n - 1) \<le> v" "v < 4294967296"
  shows "n \<le> 10"
proof (rule ccontr)
  assume "\<not> n \<le> 10"
  then have "(10::nat) ^ 10 \<le> base_of h ^ 10" "base_of h ^ 10 \<le> base_of h ^ (n - 1)"
    by (intro power_mono power_increasing; simp)+
  then have "(10::nat) ^ 10 \<le> v" using assms(1) by linarith
  then show False using assms(2) by simp
qed

definition in_hex :: "u32 \<Rightarrow> bool" where
  "in_hex format \<longleftrightarrow> format AND fmt_basefield = fmt_hex"

definition base_set :: "u32 \<Rightarrow> bool" where
  "base_set format \<longleftrightarrow> format AND fmt_basefield \<in> {fmt_dec, fmt_hex}"

lemma digits_nonempty:
  fixes h :: bool
  assumes "v < 4294967296"
  defines "d \<equiv> (let b = digits_loop h v [] in if length b = 0 then b @ [CHR ''0''] else b)"
  shows "read_digits (base_of h) (rev d) = v \<and> d \<noteq> [] \<and> (\<forall>c\<in>set d. c \<noteq> CHR ''-'') \<and> length d \<le> 10"
proof -
  obtain ds where ds: "digits_loop h v [] = ds" "read_digits (base_of h) (rev ds) = v" "\<forall>c\<in>set ds. c \<noteq> CHR ''-''"
    "v \<noteq> 0 \<longrightarrow> base_of h ^ (length ds - 1) \<le> v" "ds = [] \<longleftrightarrow> v = 0"
    using digits_loop_reads [of h v "[]"] by (elim exE conjE) (rule that; simp only: append_Nil)
  show ?thesis
  proof (cases "v = 0")
    case True
    then have "d = ''0''" using ds(1,5) by (simp add: d_def Let_def)
    then show ?thesis using True by (simp add: read_digits_def digit_value_def)
  next
    case False
    then have "d = ds" using ds(1,5) by (simp add: d_def Let_def)
    moreover have "length ds \<le> 10" using digit_count [of h "length ds" v] ds(4) False assms(1) by blast
    ultimately show ?thesis using ds False by simp
  qed
qed

lemma read_number_unsigned:
  assumes "d \<noteq> []" "\<forall>c\<in>set d. c \<noteq> CHR ''-''"
  shows "read_number base (rev d) = int (read_digits base (rev d))"
proof -
  obtain c cs where c: "rev d = c # cs" using assms(1) by (cases "rev d") auto
  then have "c \<in> set (rev d)" by simp
  then have "c \<noteq> CHR ''-''" using assms(2) by auto
  then show ?thesis unfolding c by (simp add: read_number_def split: char.splits bool.splits)
qed

lemma digit_buffer_reads:
  fixes format :: u32 and t :: int_type and v :: int
  assumes "in_range t v" "base_set format"
  defines "text \<equiv> rev (digit_buffer format t v)"
  shows "read_number (base_of (in_hex format)) text = (if in_hex format then v mod 2 ^ type_bits t else v)"
    "text \<noteq> []" "length text \<le> 11"
proof -
  define u where "u = (if in_hex format \<or> v \<ge> 0 then to_unsigned t v else to_unsigned t (0 - v))"
  define d where "d = (let b = digits_loop (in_hex format) u [] in if length b = 0 then b @ [CHR ''0''] else b)"
  have "u < 4294967296" using to_unsigned_range [OF assms(1)] by (simp add: u_def)
  from digits_nonempty [OF this, of "in_hex format"]
  have d: "read_digits (base_of (in_hex format)) (rev d) = u" "d \<noteq> []" "\<forall>c\<in>set d. c \<noteq> CHR ''-''" "length d \<le> 10"
    unfolding d_def by blast+
  have sgn: "\<not> in_hex format \<longleftrightarrow> format AND fmt_basefield = fmt_dec"
    using assms(2) by (auto simp: in_hex_def base_set_def fmt_dec_def fmt_hex_def)
  have tx: "text = rev (if \<not> in_hex format \<and> v < 0 then d @ [CHR ''-''] else d)"
    using sgn unfolding text_def digit_buffer_def Let_def d_def u_def in_hex_def by (auto simp: fmt_dec_def fmt_hex_def)
  show "text \<noteq> []" "length text \<le> 11" using d(2,4) by (auto simp: tx)
  show "read_number (base_of (in_hex format)) text = (if in_hex format then v mod 2 ^ type_bits t else v)"
  proof (cases "\<not> in_hex format \<and> v < 0")
    case True
    then have "read_number (base_of (in_hex format)) text = - int u" using d(1) by (simp add: tx read_number_def)
    then show ?thesis using True to_unsigned_range(4) [OF assms(1)] by (simp add: u_def)
  next
    case False
    then have "read_number (base_of (in_hex format)) text = int u"
      using read_number_unsigned [OF d(2,3)] d(1) by (auto simp: tx)
    then show ?thesis using False to_unsigned_range(3,5) [OF assms(1)] by (auto simp: u_def)
  qed
qed

lemma show_numerical_value_emit:
  fixes os :: "'s ostream" and t :: int_type and v :: int
  assumes "in_range t v" "base_set (os_format os)"
  defines "text \<equiv> rev (digit_buffer (os_format os) t v)"
  shows "show_numerical_value os t v s = emit os (padding os text @ text) s"
proof -
  have b: "text \<noteq> []" "length text \<le> 11" using digit_buffer_reads(2,3) [OF assms(1,2)] by (simp_all add: text_def)
  let ?b = "digit_buffer (os_format os) t v"
  have "length ?b = length text" by (simp add: text_def)
  moreover have "put_backwards os ?b (length ?b) s = emit os text s" for s
    using put_backwards_emit [of "length ?b" ?b os s] b by (simp add: text_def)
  ultimately show ?thesis
    using b unfolding show_numerical_value_def Let_def
    by (auto simp: MAX_DEC_LENGTH_def fill_field_emit emit_append padding_def unat_of_nat_u32 intro: bindE_ext)
qed

section \<open>The buffer of a block of memory\<close>

definition sn_inv :: "snprintf_buf \<Rightarrow> bool" where
  "sn_inv b \<longleftrightarrow> sn_buf b \<le> sn_last b \<and> sn_mem b (sn_buf b) = CHR 0x00"

definition sn_terminate :: "snprintf_buf \<Rightarrow> snprintf_buf" where
  "sn_terminate b = b\<lparr>sn_mem := (sn_mem b)(sn_buf b := CHR 0x00)\<rparr>"

lemma sn_overflow_inv: "sn_inv b \<Longrightarrow> sn_overflow c b = Inr b' \<Longrightarrow> sn_inv b'"
  by (auto simp: sn_inv_def sn_overflow_def split: if_splits)

lemma sn_copy_at_cursor:
  "sn_terminate (sn_copy str (b\<lparr>sn_mem := (sn_mem b)(sn_buf b := x)\<rparr>)) = sn_terminate (sn_copy str b)"
  by (cases str) (simp_all add: sn_terminate_def)

lemma sn_push_copy: "sn_inv b \<Longrightarrow> push snprintf_streambuf str b = Inr (sn_terminate (sn_copy str b))"
proof (induction str arbitrary: b)
  case Nil
  then show ?case using fun_upd_triv [of "sn_mem b" "sn_buf b"] by (simp add: sn_terminate_def sn_inv_def)
next
  case (Cons c str)
  show ?case
  proof (cases "sn_buf b = sn_last b")
    case True
    then have "push snprintf_streambuf (c # str) b = Inr (sn_terminate (sn_copy str b))"
      using Cons by (simp add: snprintf_streambuf_def sn_overflow_def)
    moreover have "sn_copy str b = b" using True by (cases str) simp_all
    ultimately show ?thesis using True by simp
  next
    case False
    let ?b1 = "b\<lparr>sn_mem := (sn_mem b)(sn_buf b := c), sn_buf := sn_buf b + 1\<rparr>"
    let ?b2 = "?b1\<lparr>sn_mem := (sn_mem ?b1)(sn_buf ?b1 := CHR 0x00)\<rparr>"
    have o: "sn_overflow c b = Inr ?b2" using False by (simp add: sn_overflow_def)
    then have "push snprintf_streambuf str ?b2 = Inr (sn_terminate (sn_copy str ?b2))"
      using Cons.IH sn_overflow_inv [OF Cons.prems] by blast
    then show ?thesis using o False sn_copy_at_cursor [of str ?b1 "CHR 0x00"] by (simp add: snprintf_streambuf_def)
  qed
qed

interpretation snb: stream_target snprintf_streambuf sn_inv
proof
  show "sn_inv s'" if "sn_inv s" "sb_overflow snprintf_streambuf c s = Inr s'" for s c s'
    using that sn_overflow_inv by (simp add: snprintf_streambuf_def)
  show "sb_xsputn snprintf_streambuf str s = push snprintf_streambuf str s" if "sn_inv s" for s str
  proof (cases "sn_buf s = sn_last s")
    case True
    then have "sn_copy str s = s" by (cases str) simp_all
    then have "sn_terminate (sn_copy str s) = s"
      using that fun_upd_triv [of "sn_mem s" "sn_buf s"] by (simp add: sn_terminate_def sn_inv_def)
    then show ?thesis unfolding sn_push_copy [OF that] using True by (simp add: snprintf_streambuf_def sn_xsputn_def)
  next
    case False
    then show ?thesis
      unfolding sn_push_copy [OF that] by (simp add: snprintf_streambuf_def sn_xsputn_def sn_terminate_def Let_def)
  qed
qed

lemma sn_copy_mem:
  fixes b :: snprintf_buf and str :: string
  assumes "sn_buf b \<le> sn_last b"
  defines "k \<equiv> min (length str) (sn_last b - sn_buf b)"
  shows "sn_copy str b = b\<lparr>sn_buf := sn_buf b + k,
      sn_mem := \<lambda>i. if sn_buf b \<le> i \<and> i < sn_buf b + k then str ! (i - sn_buf b) else sn_mem b i\<rparr>"
  using assms(1) unfolding k_def
proof (induction str arbitrary: b)
  case Nil
  have "(\<lambda>i. if sn_buf b \<le> i \<and> i < sn_buf b then [] ! (i - sn_buf b) else sn_mem b i) = sn_mem b" by (auto intro!: ext)
  then show ?case by simp
next
  case (Cons c str)
  show ?case
  proof (cases "sn_buf b = sn_last b")
    case True
    have "(\<lambda>i. if sn_buf b \<le> i \<and> i < sn_buf b then (c # str) ! (i - sn_buf b) else sn_mem b i) = sn_mem b" by (auto intro!: ext)
    then show ?thesis using True by simp
  next
    case False
    let ?b1 = "b\<lparr>sn_mem := (sn_mem b)(sn_buf b := c), sn_buf := sn_buf b + 1\<rparr>"
    have "sn_copy (c # str) b = sn_copy str ?b1" using False by simp
    also have "\<dots> = ?b1\<lparr>sn_buf := sn_buf ?b1 + min (length str) (sn_last ?b1 - sn_buf ?b1),
      sn_mem := \<lambda>i. if sn_buf ?b1 \<le> i \<and> i < sn_buf ?b1 + min (length str) (sn_last ?b1 - sn_buf ?b1)
        then str ! (i - sn_buf ?b1) else sn_mem ?b1 i\<rparr>"
      using Cons.prems False by (intro Cons.IH) simp
    also have "\<dots> = b\<lparr>sn_buf := sn_buf b + min (length (c # str)) (sn_last b - sn_buf b),
      sn_mem := \<lambda>i. if sn_buf b \<le> i \<and> i < sn_buf b + min (length (c # str)) (sn_last b - sn_buf b)
        then (c # str) ! (i - sn_buf b) else sn_mem b i\<rparr>"
      using Cons.prems False by (auto simp: fun_eq_iff nth_Cons' min_def)
    finally show ?thesis .
  qed
qed

section \<open>Properties\<close>



text \<open>
  C33: a stream over a block of \<open>n\<close> bytes keeps the first \<open>n - 1\<close> characters of what is written to it,
  always terminated, and writes nothing behind the block, whether the characters come one by one or
  as a block.
\<close>

theorem snprintf_truncates:
  assumes "0 < n"
  shows "\<exists>b. emit snprintf_stream str (sn_construct n mem) = Inr b \<and> os_write snprintf_stream str (sn_construct n mem) = Inr b
    \<and> (\<forall>i<min (length str) (n - 1). sn_mem b i = str ! i) \<and> sn_mem b (min (length str) (n - 1)) = CHR 0x00
    \<and> (\<forall>i>min (length str) (n - 1). sn_mem b i = mem i)"
proof -
  let ?b = "sn_construct n mem"
  have inv: "sn_inv ?b" by (simp add: sn_inv_def sn_construct_def)
  have buf: "os_streambuf snprintf_stream = Some snprintf_streambuf" by (simp add: snprintf_stream_def ostream_construct_def)
  have e: "emit snprintf_stream str ?b = Inr (sn_terminate (sn_copy str ?b))"
    using sn_push_copy [OF inv, of str] buf by (simp add: emit_def)
  have w: "os_write snprintf_stream str ?b = emit snprintf_stream str ?b"
    using snb.write_put_all [OF buf inv] by (simp add: put_all_emit)
  have "sn_copy str ?b = ?b\<lparr>sn_buf := min (length str) (n - 1),
      sn_mem := \<lambda>i. if i < min (length str) (n - 1) then str ! i else sn_mem ?b i\<rparr>"
    using sn_copy_mem [of ?b str] assms by (simp add: sn_construct_def cong del: if_weak_cong)
  then show ?thesis using e w by (auto simp: sn_terminate_def sn_construct_def)
qed

theorem snprintf_truncates_witness:
  "\<exists>b. emit snprintf_stream ''abc'' (sn_construct 3 (\<lambda>_. CHR ''x'')) = Inr b \<and> sn_mem b 1 = CHR ''b'' \<and> sn_mem b 2 = CHR 0x00
    \<and> sn_mem b 3 = CHR ''x''"
  using snprintf_truncates [of 3 "''abc''" "\<lambda>_. CHR ''x''"] by (auto simp: numeral_2_eq_2)

text \<open>
  A format guard gives a stream back its base, width and fill character at the end of the scope,
  whatever the manipulators did to it, and leaves it on the buffer that it has.
\<close>

theorem format_guard_restores:
  "guard_destruct (guard_construct os) os' = os\<lparr>os_streambuf := os_streambuf os'\<rparr>"
  by (simp add: guard_destruct_def guard_construct_def copyfmt_def)

end
