(* ===== verification/Out_Chain.thy ===== *)
theory Out_Chain
  imports Out_Stream
begin

text \<open>
  Chains of output operators, \<^verbatim>\<open>out << a << b << ...\<close>, as the kernel's own types print themselves, and the format
  guard of \<^verbatim>\<open>ext/scoped_format_guard.hpp\<close> that they keep meanwhile.
\<close>

section \<open>Definitions\<close>

text \<open>What a chain of output operators sends to a stream. Manipulators change the stream.\<close>

datatype out_item = O_str string | O_char char | O_u32 u32 | O_u16 u16 | O_ptr ptr
  | O_setw u32 | O_setfill char | O_dec | O_hex | O_endl

definition out_one :: "out_item \<Rightarrow> 's ostream \<times> 's \<Rightarrow> ('s ostream \<times> 's) result" where
  "out_one i = (\<lambda>(os, s). case i of
     O_str str \<Rightarrow> bindE (shl_string os str s) (\<lambda>s1. Inr (os, s1))
   | O_char c \<Rightarrow> bindE (shl_char os c s) (\<lambda>s1. Inr (os, s1))
   | O_u32 v \<Rightarrow> bindE (show_numerical_value os t_uint (uint v) s) (\<lambda>s1. Inr (os, s1))
   | O_u16 v \<Rightarrow> bindE (show_numerical_value os t_ushort (uint v) s) (\<lambda>s1. Inr (os, s1))
   | O_ptr p \<Rightarrow> bindE (shl_pointer os p s) (\<lambda>s1. Inr (os, s1))
   | O_setw n \<Rightarrow> Inr (fst (set_width n os), s)
   | O_setfill c \<Rightarrow> Inr (fst (set_fill c os), s)
   | O_dec \<Rightarrow> Inr (manip_dec os, s)
   | O_hex \<Rightarrow> Inr (manip_hex os, s)
   | O_endl \<Rightarrow> bindE (endl os s) (\<lambda>s1. Inr (os, s1)))"

primrec out_items :: "out_item list \<Rightarrow> 's ostream \<times> 's \<Rightarrow> ('s ostream \<times> 's) result" where
  "out_items [] x = Inr x"
| "out_items (i # is) x = bindE (out_one i x) (out_items is)"

text \<open>The output operators keep a format guard while they print.\<close>

definition guarded :: "('s ostream \<times> 's \<Rightarrow> ('s ostream \<times> 's) result) \<Rightarrow> 's ostream \<times> 's \<Rightarrow> ('s ostream \<times> 's) result" where
  "guarded f x = bindE (f x) (\<lambda>(os1, s1). Inr (guard_destruct (guard_construct (fst x)) os1, s1))"

section \<open>The text of a chain of output operators\<close>

primrec item_text :: "'s ostream \<Rightarrow> out_item \<Rightarrow> string" where
  "item_text os (O_str str) = padding os str @ str"
| "item_text os (O_char c) = padding os [c] @ [c]"
| "item_text os (O_u32 v) = (let t = rev (digit_buffer (os_format os) t_uint (uint v)) in padding os t @ t)"
| "item_text os (O_u16 v) = (let t = rev (digit_buffer (os_format os) t_ushort (uint v)) in padding os t @ t)"
| "item_text os (O_ptr v) = (let t = rev (digit_buffer (os_format os) t_uint (uint v)) in padding os t @ t)"
| "item_text os (O_setw n) = []"
| "item_text os (O_setfill c) = []"
| "item_text os O_dec = []"
| "item_text os O_hex = []"
| "item_text os O_endl = [CHR 0x0A]"

primrec item_stream :: "'s ostream \<Rightarrow> out_item \<Rightarrow> 's ostream" where
  "item_stream os (O_str str) = os"
| "item_stream os (O_char c) = os"
| "item_stream os (O_u32 v) = os"
| "item_stream os (O_u16 v) = os"
| "item_stream os (O_ptr v) = os"
| "item_stream os (O_setw n) = os\<lparr>os_width := n\<rparr>"
| "item_stream os (O_setfill c) = os\<lparr>os_fillch := c\<rparr>"
| "item_stream os O_dec = manip_dec os"
| "item_stream os O_hex = manip_hex os"
| "item_stream os O_endl = os"

primrec item_ok :: "'s ostream \<Rightarrow> out_item \<Rightarrow> bool" where
  "item_ok os (O_str str) \<longleftrightarrow> length str < 4294967296"
| "item_ok os (O_char c) \<longleftrightarrow> True"
| "item_ok os (O_u32 v) \<longleftrightarrow> base_set (os_format os)"
| "item_ok os (O_u16 v) \<longleftrightarrow> base_set (os_format os)"
| "item_ok os (O_ptr v) \<longleftrightarrow> base_set (os_format os)"
| "item_ok os (O_setw n) \<longleftrightarrow> True"
| "item_ok os (O_setfill c) \<longleftrightarrow> True"
| "item_ok os O_dec \<longleftrightarrow> True"
| "item_ok os O_hex \<longleftrightarrow> True"
| "item_ok os O_endl \<longleftrightarrow> True"

primrec items_text :: "'s ostream \<Rightarrow> out_item list \<Rightarrow> string" where
  "items_text os [] = []"
| "items_text os (i # is) = item_text os i @ items_text (item_stream os i) is"

primrec items_ok :: "'s ostream \<Rightarrow> out_item list \<Rightarrow> bool" where
  "items_ok os [] \<longleftrightarrow> True"
| "items_ok os (i # is) \<longleftrightarrow> item_ok os i \<and> items_ok (item_stream os i) is"

lemma uint_in_range: "in_range t_uint (uint (v :: u32))" "in_range t_ushort (uint (w :: u16))"
  using uint_lt2p [of v] uint_lt2p [of w] by (simp_all add: in_range_def type_signed_def type_bits_def)

lemma emit_buffer: "os_streambuf os' = os_streambuf os \<Longrightarrow> emit os' = emit os"
  by (rule ext)+ (simp add: emit_def)

lemma item_stream_buffer [simp]: "os_streambuf (item_stream os i) = os_streambuf os"
  by (cases i) (simp_all add: manip_hex_def manip_dec_def setf_masked_def)

lemma out_one_emit:
  assumes "item_ok os i"
  shows "out_one i (os, s) = bindE (emit os (item_text os i) s) (\<lambda>s1. Inr (item_stream os i, s1))"
proof -
  have "shl_char os c s = emit os (padding os [c] @ [c]) s" for c
    by (auto simp: shl_char_def fill_field_emit emit_append padding_def intro!: bindE_ext)
  then show ?thesis
    using assms uint_in_range
    by (cases i) (simp_all add: out_one_def shl_string_emit show_numerical_value_emit shl_pointer_def endl_def
        set_width_def set_fill_def Let_def)
qed

lemma out_items_emit:
  "items_ok os is \<Longrightarrow> out_items is (os, s)
    = bindE (emit os (items_text os is) s) (\<lambda>s1. Inr (fold (\<lambda>i os. item_stream os i) is os, s1))"
proof (induction "is" arbitrary: os s)
  case (Cons i "is")
  have "emit (item_stream os i) = emit os" by (rule emit_buffer) simp
  then show ?case using Cons by (auto simp: out_one_emit emit_append intro: bindE_ext)
qed simp

lemma fold_stream_buffer: "os_streambuf (fold (\<lambda>i os. item_stream os i) is os) = os_streambuf os"
  by (induction "is" arbitrary: os) simp_all

lemma guarded_items:
  assumes "items_ok os is"
  shows "guarded (out_items is) (os, s) = bindE (emit os (items_text os is) s) (\<lambda>s1. Inr (os, s1))"
  using assms fold_stream_buffer [of "is" os]
  by (auto simp: guarded_def out_items_emit guard_destruct_def guard_construct_def copyfmt_def intro!: bindE_ext)

text \<open>A field of eight characters with a number in hexadecimal.\<close>

definition hex_field :: "char \<Rightarrow> int_type \<Rightarrow> int \<Rightarrow> string" where
  "hex_field fill t v = (let d = rev (digit_buffer fmt_hex t v) in replicate (8 - length d) fill @ d)"

lemma hex_format: "((f AND NOT fmt_basefield) OR fmt_hex) AND fmt_basefield = fmt_hex" for f :: u32
  by (rule bit_eqI) (auto simp: fmt_basefield_def fmt_hex_def fmt_dec_def bit_simps)

lemma dec_format: "((f AND NOT fmt_basefield) OR fmt_dec) AND fmt_basefield = fmt_dec" for f :: u32
  by (rule bit_eqI) (auto simp: fmt_basefield_def fmt_hex_def fmt_dec_def bit_simps)

end
