(* ===== verification/Interrupts.thy ===== *)
theory Interrupts
  imports Out_Chain
begin

text \<open>
  Interrupts: the interrupt flag and the locks on it (\<^verbatim>\<open>x86/src/irq.cpp\<close>, \<^verbatim>\<open>threading\<close>), the interrupt
  controller (\<^verbatim>\<open>devices/interrupt_controller\<close>), the manager of the handlers (\<^verbatim>\<open>x86/src/irq.cpp\<close>), the
  exception handlers (\<^verbatim>\<open>x86/src/traps.cpp\<close>) and the printing of interrupt frames.

  The lists of handlers are functional lists, which the forward list refines. A handler is given by its
  effect on the state \<open>'w\<close> of the rest of the system.
\<close>

section \<open>The interrupt flag\<close>

text \<open>The flag of the processor and the copy of it that the kernel keeps in \<^verbatim>\<open>interrupts_enabled\<close>.\<close>

record irq_flag =
  cpu_if :: bool
  interrupts_enabled :: bool

definition irq_is_enabled :: "irq_flag \<Rightarrow> bool result" where
  "irq_is_enabled c =
     (if cpu_if c \<noteq> interrupts_enabled c then Inl (Panic ''irq enabled state not synced'')
      else Inr (interrupts_enabled c))"

definition irq_enable :: "irq_flag \<Rightarrow> irq_flag" where
  "irq_enable c = c\<lparr>interrupts_enabled := True, cpu_if := True\<rparr>"

definition irq_disable :: "irq_flag \<Rightarrow> irq_flag \<times> bool" where
  "irq_disable c = (c\<lparr>cpu_if := False, interrupts_enabled := False\<rparr>, interrupts_enabled c)"

text \<open>\<^verbatim>\<open>RecursiveIrqLocker\<close>: the lock is the flag \<^verbatim>\<open>_enable_on_unlock\<close>.\<close>

definition irq_lock :: "irq_flag \<Rightarrow> irq_flag \<times> bool" where
  "irq_lock c = irq_disable c"

definition irq_unlock :: "bool \<Rightarrow> irq_flag \<Rightarrow> irq_flag" where
  "irq_unlock enable_on_unlock c = (if enable_on_unlock then irq_enable c else c)"

text \<open>A guard object takes a lock when it is constructed and releases it when it goes out of scope.\<close>

definition lock_guard :: "('c \<Rightarrow> 'c \<times> 'k) \<Rightarrow> ('k \<Rightarrow> 'c \<Rightarrow> 'c) \<Rightarrow> ('c \<times> 'a \<Rightarrow> 'c \<times> 'a) \<Rightarrow> 'c \<times> 'a \<Rightarrow> 'c \<times> 'a" where
  "lock_guard lock unlock body = (\<lambda>(c, x).
     let (c1, k) = lock c;
         (c2, x2) = body (c1, x)
     in (unlock k c2, x2))"

definition recursive_irq_guard :: "(irq_flag \<times> 'a \<Rightarrow> irq_flag \<times> 'a) \<Rightarrow> irq_flag \<times> 'a \<Rightarrow> irq_flag \<times> 'a" where
  "recursive_irq_guard = lock_guard irq_lock irq_unlock"

definition with_irq_lock :: "(irq_flag \<times> 'a \<Rightarrow> irq_flag \<times> 'a) \<Rightarrow> irq_flag \<times> 'a \<Rightarrow> irq_flag \<times> 'a" where
  "with_irq_lock f s =
     (let (c1, en) = irq_lock (fst s);
          s2 = f (c1, snd s)
      in (irq_unlock en (fst s2), snd s2))"

section \<open>The interrupt controller\<close>

definition master_comm :: u16 where "master_comm = 0x20 + 0"
definition master_data :: u16 where "master_data = 0x20 + 1"
definition slave_comm :: u16 where "slave_comm = 0xa0 + 0"
definition slave_data :: u16 where "slave_data = 0xa0 + 1"

definition icw_1 :: u8 where "icw_1 = 0x11"
definition icw_3_master :: u8 where "icw_3_master = 0x4"
definition icw_3_slave :: u8 where "icw_3_slave = 0x2"
definition icw_4_8086 :: u8 where "icw_4_8086 = 0x1"
definition cmd_end_of_interrupt :: u8 where "cmd_end_of_interrupt = 0x20"

record pic =
  pic_initialized :: bool
  pic_outs :: "(u16 \<times> u8) list"

definition pic_construct :: pic where
  "pic_construct = \<lparr>pic_initialized = False, pic_outs = []\<rparr>"

definition pic_outb :: "u16 \<Rightarrow> u8 \<Rightarrow> pic \<Rightarrow> pic" where
  "pic_outb port byte p = p\<lparr>pic_outs := pic_outs p @ [(port, byte)]\<rparr>"

definition min_irq_vector :: int where
  "min_irq_vector = 0x20"

definition end_of_interrupt :: "u8 \<Rightarrow> pic \<Rightarrow> pic" where
  "end_of_interrupt vector p =
     (let p1 = (if uint vector > 8 + 0x20 then pic_outb slave_comm cmd_end_of_interrupt p else p)
      in pic_outb master_comm cmd_end_of_interrupt p1)"

definition initialize_controller :: "pic \<Rightarrow> pic result" where
  "initialize_controller p =
     (if pic_initialized p then Inl (Panic ''Attempt to initialize PIC8259 twice!'')
      else
        let p = pic_outb master_comm icw_1 p;
            p = pic_outb slave_comm icw_1 p;
            p = pic_outb master_data 0x20 p;
            p = pic_outb slave_data 0x28 p;
            p = pic_outb master_data icw_3_master p;
            p = pic_outb slave_data icw_3_slave p;
            p = pic_outb master_data icw_4_8086 p;
            p = pic_outb slave_data icw_4_8086 p;
            p = pic_outb master_data 0x00 p
        in Inr (p\<lparr>pic_initialized := True\<rparr>))"

section \<open>The manager of the handlers\<close>

datatype irq_status = IRQ_NONE | IRQ_HANDLED

type_synonym 'w irq_handler = "u8 \<Rightarrow> 'w \<Rightarrow> ('w \<times> irq_status) result"
type_synonym ('f, 'w) exception_handler = "'f \<Rightarrow> 'w \<Rightarrow> 'w result"

datatype exception =
  divide_by_zero | debug_exception | breakpoint | overflow_exception | bound_range_exceeded | invalid_opcode
  | device_not_available | double_fault | invalid_tss | segment_not_present | stack_segment_fault
  | general_protection_fault | page_fault | x87_fp_exception | alignment_error | machine_check_error
  | simd_fp_exception | virtualization_exception | security_exception

definition exception_value :: "exception \<Rightarrow> u8" where
  "exception_value e = (case e of
     divide_by_zero \<Rightarrow> 0 | debug_exception \<Rightarrow> 1 | breakpoint \<Rightarrow> 3 | overflow_exception \<Rightarrow> 4
   | bound_range_exceeded \<Rightarrow> 5 | invalid_opcode \<Rightarrow> 6 | device_not_available \<Rightarrow> 7 | double_fault \<Rightarrow> 8
   | invalid_tss \<Rightarrow> 10 | segment_not_present \<Rightarrow> 11 | stack_segment_fault \<Rightarrow> 12 | general_protection_fault \<Rightarrow> 13
   | page_fault \<Rightarrow> 14 | x87_fp_exception \<Rightarrow> 16 | alignment_error \<Rightarrow> 17 | machine_check_error \<Rightarrow> 18
   | simd_fp_exception \<Rightarrow> 19 | virtualization_exception \<Rightarrow> 20 | security_exception \<Rightarrow> 30)"

definition exception_max :: u8 where
  "exception_max = 0x20"

record ('f, 'w) int_manager =
  irq_handlers :: "u8 \<Rightarrow> 'w irq_handler list"
  exceptions_handlers :: "u8 \<Rightarrow> ('f, 'w) exception_handler list"

definition int_manager_construct :: "('f, 'w) int_manager" where
  "int_manager_construct = \<lparr>irq_handlers = \<lambda>_. [], exceptions_handlers = \<lambda>_. []\<rparr>"

text \<open>The allocation of a list node may fail.\<close>

definition add_irq_handler :: "bool \<Rightarrow> u8 \<Rightarrow> 'w irq_handler \<Rightarrow> ('f, 'w) int_manager \<Rightarrow> ('f, 'w) int_manager result" where
  "add_irq_handler allocated vector h m =
     (if \<not> allocated then Inl (Panic ''failed to register interrupt handler'')
      else Inr (m\<lparr>irq_handlers := (irq_handlers m)(vector := h # irq_handlers m vector)\<rparr>))"

definition add_exception_handler ::
  "bool \<Rightarrow> u8 \<Rightarrow> ('f, 'w) exception_handler \<Rightarrow> ('f, 'w) int_manager \<Rightarrow> ('f, 'w) int_manager result" where
  "add_exception_handler allocated e h m =
     (if \<not> allocated then Inl (Panic ''failed to register exception handler'')
      else Inr (m\<lparr>exceptions_handlers := (exceptions_handlers m)(e := h # exceptions_handlers m e)\<rparr>))"

definition is_exception :: "u8 \<Rightarrow> bool" where
  "is_exception vector \<longleftrightarrow> vector < exception_max"

primrec run_exception_handlers :: "('f, 'w) exception_handler list \<Rightarrow> 'f \<Rightarrow> 'w \<Rightarrow> 'w result" where
  "run_exception_handlers [] frame w = Inr w"
| "run_exception_handlers (h # hs) frame w = bindE (h frame w) (run_exception_handlers hs frame)"

definition dispatch_exception :: "('f, 'w) int_manager \<Rightarrow> u8 \<Rightarrow> 'f \<Rightarrow> 'w \<Rightarrow> ('w \<times> irq_status) result" where
  "dispatch_exception m e frame w =
     (let hs = exceptions_handlers m e
      in if hs = [] then Inr (w, IRQ_NONE)
         else bindE (run_exception_handlers hs frame w) (\<lambda>w1. Inr (w1, IRQ_HANDLED)))"

primrec find_irq_handler :: "'w irq_handler list \<Rightarrow> u8 \<Rightarrow> 'w \<Rightarrow> ('w \<times> irq_status) result" where
  "find_irq_handler [] vector w = Inr (w, IRQ_NONE)"
| "find_irq_handler (h # hs) vector w =
     bindE (h vector w) (\<lambda>(w1, st). if st = IRQ_HANDLED then Inr (w1, IRQ_HANDLED) else find_irq_handler hs vector w1)"

definition dispatch_interrupt :: "('f, 'w) int_manager \<Rightarrow> u8 \<Rightarrow> 'w \<Rightarrow> ('w \<times> irq_status) result" where
  "dispatch_interrupt m vector w = find_irq_handler (irq_handlers m vector) vector w"

text \<open>The state that an interrupt acts on, with the vectors that were logged as unhandled.\<close>

record 'w int_state =
  is_pic :: pic
  is_unhandled :: "u8 list"
  is_world :: 'w

definition handle_irq :: "('f, 'w) int_manager \<Rightarrow> u8 \<Rightarrow> 'f \<Rightarrow> 'w int_state \<Rightarrow> 'w int_state result" where
  "handle_irq m vector frame s =
     bindE (if is_exception vector then dispatch_exception m vector frame (is_world s)
            else dispatch_interrupt m vector (is_world s)) (\<lambda>(w1, st).
       let s1 = s\<lparr>is_world := w1\<rparr>;
           s2 = (if st \<noteq> IRQ_HANDLED then s1\<lparr>is_unhandled := is_unhandled s1 @ [vector]\<rparr> else s1)
       in Inr (s2\<lparr>is_pic := end_of_interrupt vector (is_pic s2)\<rparr>))"

text \<open>\<^verbatim>\<open>c_irq_dispatcher_\<close>: nothing happens before a global handler is set.\<close>

definition irq_dispatcher :: "('f, 'w) int_manager option \<Rightarrow> u8 \<Rightarrow> 'f \<Rightarrow> 'w int_state \<Rightarrow> 'w int_state result" where
  "irq_dispatcher handler vector frame s =
     (case handler of None \<Rightarrow> Inr s | Some m \<Rightarrow> handle_irq m vector frame s)"

section \<open>Exceptions\<close>

text \<open>
  The handlers print their message, the frame and a backtrace, and then panic. What is printed is
  lost with the state.
\<close>

definition printing_errcode_handler :: "string \<Rightarrow> ('f, 'w) exception_handler" where
  "printing_errcode_handler msg frame w = Inl (Panic ''Forbidden exception in kernel code!'')"

definition printing_no_errcode_handler :: "string \<Rightarrow> ('f, 'w) exception_handler" where
  "printing_no_errcode_handler msg frame w = Inl (Panic ''Forbidden exception in kernel mode!'')"

definition traps :: "(exception \<times> bool \<times> string) list" where
  "traps =
     [(divide_by_zero, False, ''Division by zero''), (debug_exception, False, ''Debug exception''),
      (breakpoint, False, ''Breakpoint''), (overflow_exception, False, ''Overflow''),
      (bound_range_exceeded, False, ''Bound range exceeded''), (invalid_opcode, False, ''Invalid opcode''),
      (device_not_available, False, ''Device not available''),
      (invalid_tss, True, ''Invalid TSS''), (segment_not_present, True, ''MemorySegmentDescriptor not present''),
      (stack_segment_fault, True, ''Stack segment fault''), (general_protection_fault, True, ''General protection fault''),
      (page_fault, True, ''Page fault''), (x87_fp_exception, False, ''x87 FPU exception''),
      (alignment_error, True, ''Alignment error''), (machine_check_error, False, ''Machine check error''),
      (simd_fp_exception, False, ''SIMD exception''), (virtualization_exception, False, ''Virtualization error''),
      (security_exception, True, ''Security exception'')]"

definition install_trap :: "exception \<times> bool \<times> string \<Rightarrow> ('f, 'w) int_manager \<Rightarrow> ('f, 'w) int_manager result" where
  "install_trap t m =
     (let (e, errcode, msg) = t
      in add_exception_handler True (exception_value e)
           (if errcode then printing_errcode_handler msg else printing_no_errcode_handler msg) m)"

primrec install_traps_from :: "(exception \<times> bool \<times> string) list \<Rightarrow> ('f, 'w) int_manager \<Rightarrow> ('f, 'w) int_manager result" where
  "install_traps_from [] m = Inr m"
| "install_traps_from (t # ts) m = bindE (install_trap t m) (install_traps_from ts)"

definition install_traps :: "('f, 'w) int_manager \<Rightarrow> ('f, 'w) int_manager result" where
  "install_traps m = install_traps_from traps m"

definition int_manager_init :: "('f, 'w) int_manager result" where
  "int_manager_init = install_traps int_manager_construct"

section \<open>Printing of frames\<close>

record registers_dump =
  reg_edi :: u32
  reg_esi :: u32
  reg_ebp :: ptr
  reg_esp :: ptr
  reg_ebx :: u32
  reg_edx :: u32
  reg_ecx :: u32
  reg_eax :: u32

record execution_info_dump =
  exe_eip :: ptr
  exe_cs :: u16
  exe_eflags :: u32

record int_frame_error =
  fe_regs :: registers_dump
  fe_error_code :: u32
  fe_exe :: execution_info_dump

record int_frame_noerror =
  fn_regs :: registers_dump
  fn_exe :: execution_info_dump

definition shl_registers :: "registers_dump \<Rightarrow> 's ostream \<times> 's \<Rightarrow> ('s ostream \<times> 's) result" where
  "shl_registers regs = guarded (out_items
     [O_setw 0, O_hex, O_setfill (CHR '' ''),
      O_str '' eax = '', O_setw 8, O_setfill (CHR ''0''), O_u32 (reg_eax regs), O_setfill (CHR '' ''), O_setw 0, O_char (CHR '' ''),
      O_str '' ebx = '', O_setw 8, O_u32 (reg_ebx regs), O_setw 0, O_char (CHR '' ''),
      O_str '' ecx = '', O_setw 8, O_u32 (reg_ecx regs), O_setw 0, O_char (CHR '' ''),
      O_str '' edx = '', O_setw 8, O_u32 (reg_edx regs), O_setw 0, O_char (CHR '' ''),
      O_endl,
      O_str '' esi = '', O_setw 8, O_u32 (reg_esi regs), O_setw 0, O_char (CHR '' ''),
      O_str '' edi = '', O_setw 8, O_u32 (reg_edi regs), O_setw 0, O_char (CHR '' ''),
      O_str '' ebp = '', O_setw 8, O_ptr (reg_ebp regs), O_setw 0, O_char (CHR '' ''),
      O_str '' esp = '', O_setw 8, O_ptr (reg_esp regs), O_setw 0, O_char (CHR '' '')])"

definition shl_execution_info :: "execution_info_dump \<Rightarrow> 's ostream \<times> 's \<Rightarrow> ('s ostream \<times> 's) result" where
  "shl_execution_info exe = guarded (out_items
     [O_setw 0, O_hex,
      O_str ''eflg = '', O_setw 8, O_u32 (exe_eflags exe), O_setw 0, O_char (CHR '' ''),
      O_str ''  cs = '', O_setw 8, O_u16 (exe_cs exe), O_setw 0, O_char (CHR '' ''),
      O_str '' eip = '', O_setw 8, O_ptr (exe_eip exe), O_setw 0])"

definition shl_frame_error :: "int_frame_error \<Rightarrow> 's ostream \<times> 's \<Rightarrow> ('s ostream \<times> 's) result" where
  "shl_frame_error frame = guarded (\<lambda>x.
     bindE (out_items [O_hex, O_setw 0, O_str '' err = '', O_setw 8, O_u32 (fe_error_code frame), O_endl] x) (\<lambda>x1.
     bindE (shl_execution_info (fe_exe frame) x1) (\<lambda>x2.
     bindE (out_items [O_endl] x2) (shl_registers (fe_regs frame)))))"

definition shl_frame_noerror :: "int_frame_noerror \<Rightarrow> 's ostream \<times> 's \<Rightarrow> ('s ostream \<times> 's) result" where
  "shl_frame_noerror frame = guarded (\<lambda>x.
     bindE (out_items [O_setw 0, O_hex] x) (\<lambda>x1.
     bindE (shl_execution_info (fn_exe frame) x1) (\<lambda>x2.
     bindE (out_items [O_endl] x2) (shl_registers (fn_regs frame)))))"

section \<open>The locks\<close>

abbreviation irq_off :: irq_flag where
  "irq_off \<equiv> \<lparr>cpu_if = False, interrupts_enabled = False\<rparr>"

lemma with_irq_lock_body:
  "f (irq_off, x) = (irq_off, y) \<Longrightarrow> with_irq_lock f (c, x)
    = (if interrupts_enabled c then \<lparr>cpu_if = True, interrupts_enabled = True\<rparr> else irq_off, y)"
  by (cases c) (simp add: with_irq_lock_def irq_lock_def irq_disable_def irq_unlock_def irq_enable_def Let_def)

lemma recursive_irq_guard_eq: "recursive_irq_guard = with_irq_lock"
  by (rule ext)+ (simp add: recursive_irq_guard_def lock_guard_def with_irq_lock_def case_prod_unfold Let_def)

lemma with_irq_lock_nested:
  "f (irq_off, x) = (irq_off, y) \<Longrightarrow> (with_irq_lock ^^ n) f (irq_off, x) = (irq_off, y)"
  by (induction n) (simp_all add: with_irq_lock_body)

section \<open>Dispatching\<close>

text \<open>The handlers decline an interrupt one after the other.\<close>

primrec all_decline :: "'w irq_handler list \<Rightarrow> u8 \<Rightarrow> 'w \<Rightarrow> 'w \<Rightarrow> bool" where
  "all_decline [] vector w w' \<longleftrightarrow> w' = w"
| "all_decline (h # hs) vector w w' \<longleftrightarrow> (\<exists>w1. h vector w = Inr (w1, IRQ_NONE) \<and> all_decline hs vector w1 w')"

lemma find_irq_handler_decline: "all_decline hs vector w w' \<Longrightarrow> find_irq_handler (hs @ hs') vector w = find_irq_handler hs' vector w'"
  by (induction hs arbitrary: w) auto

lemma add_exception_handlers:
  "install_traps_from ts m = Inr (m\<lparr>exceptions_handlers := \<lambda>v.
     map (\<lambda>(e, errcode, msg). if errcode then printing_errcode_handler msg else printing_no_errcode_handler msg)
       (rev (filter (\<lambda>(e, errcode, msg). exception_value e = v) ts)) @ exceptions_handlers m v\<rparr>)"
proof (induction ts arbitrary: m)
  case (Cons t ts)
  obtain e errcode msg where t: "t = (e, errcode, msg)" by (cases t)
  show ?case unfolding t install_traps_from.simps
    by (simp add: install_trap_def add_exception_handler_def Cons.IH fun_eq_iff)
qed simp

definition registers_text :: "registers_dump \<Rightarrow> string" where
  "registers_text regs =
     '' eax = '' @ hex_field (CHR ''0'') t_uint (uint (reg_eax regs)) @ '' ''
     @ '' ebx = '' @ hex_field (CHR '' '') t_uint (uint (reg_ebx regs)) @ '' ''
     @ '' ecx = '' @ hex_field (CHR '' '') t_uint (uint (reg_ecx regs)) @ '' ''
     @ '' edx = '' @ hex_field (CHR '' '') t_uint (uint (reg_edx regs)) @ '' '' @ [CHR 0x0A]
     @ '' esi = '' @ hex_field (CHR '' '') t_uint (uint (reg_esi regs)) @ '' ''
     @ '' edi = '' @ hex_field (CHR '' '') t_uint (uint (reg_edi regs)) @ '' ''
     @ '' ebp = '' @ hex_field (CHR '' '') t_uint (uint (reg_ebp regs)) @ '' ''
     @ '' esp = '' @ hex_field (CHR '' '') t_uint (uint (reg_esp regs)) @ '' ''"


lemma digit_buffer_hex: "digit_buffer ((f AND NOT fmt_basefield) OR fmt_hex) t v = digit_buffer fmt_hex t v"
proof -
  have "fmt_hex AND fmt_basefield = fmt_hex" by (simp add: fmt_basefield_def fmt_hex_def fmt_dec_def)
  then show ?thesis by (simp add: digit_buffer_def hex_format)
qed

lemma base_set_hex: "base_set ((f AND NOT fmt_basefield) OR fmt_hex)"
  by (simp add: base_set_def hex_format)

section \<open>Properties\<close>



text \<open>
  An interrupt gate clears the flag of the processor and not the copy of it in the kernel. A lock that
  is taken and released in an interrupt handler therefore turns the interrupts on in the handler, and a
  query of the flag there panics.
\<close>

theorem irq_lock_in_handler:
  "with_irq_lock (\<lambda>s. s) (\<lparr>cpu_if = False, interrupts_enabled = True\<rparr>, x) = (\<lparr>cpu_if = True, interrupts_enabled = True\<rparr>, x)
    \<and> irq_is_enabled \<lparr>cpu_if = False, interrupts_enabled = True\<rparr> = Inl (Panic ''irq enabled state not synced'')"
  by (simp add: with_irq_lock_body irq_is_enabled_def)

text \<open>
  C16: an interrupt runs the handlers of its vector, the last registered first, up to the first one that
  handles it. It is logged if none does. In both cases the controller gets an end of interrupt.
\<close>

theorem interrupt_dispatched:
  assumes "\<not> is_exception vector" "all_decline declining vector (is_world s) w1"
    and "irq_handlers m vector = declining @ rest"
    and "rest = [] \<or> (\<exists>h hs. rest = h # hs \<and> h vector w1 = Inr (w2, IRQ_HANDLED))"
  shows "handle_irq m vector frame s = Inr (if rest = []
      then s\<lparr>is_world := w1, is_unhandled := is_unhandled s @ [vector], is_pic := end_of_interrupt vector (is_pic s)\<rparr>
      else s\<lparr>is_world := w2, is_pic := end_of_interrupt vector (is_pic s)\<rparr>)"
  using assms by (auto simp: handle_irq_def dispatch_interrupt_def find_irq_handler_decline Let_def)

theorem interrupt_dispatched_witness:
  "handle_irq \<lparr>irq_handlers = (\<lambda>_. [\<lambda>v w. Inr (w + 1, IRQ_NONE), \<lambda>v w. Inr (w + 10, IRQ_HANDLED), \<lambda>v w. Inl Undef]),
      exceptions_handlers = \<lambda>_. []\<rparr> 0x29 () \<lparr>is_pic = pic_construct, is_unhandled = [], is_world = (0 :: nat)\<rparr>
    = Inr \<lparr>is_pic = \<lparr>pic_initialized = False, pic_outs = [(0xa0, 0x20), (0x20, 0x20)]\<rparr>, is_unhandled = [], is_world = 11\<rparr>"
proof -
  let ?m = "\<lparr>irq_handlers = (\<lambda>_. [\<lambda>v w. Inr (w + 1, IRQ_NONE), \<lambda>v w. Inr (w + 10, IRQ_HANDLED), \<lambda>v w. Inl Undef]),
      exceptions_handlers = \<lambda>_. []\<rparr> :: (unit, nat) int_manager"
  have "\<not> is_exception 0x29" by (simp add: is_exception_def exception_max_def)
  then show ?thesis
    using interrupt_dispatched [of "0x29" "[\<lambda>v w. Inr (w + 1, IRQ_NONE)]" "\<lparr>is_pic = pic_construct, is_unhandled = [], is_world = 0\<rparr>"
        1 ?m "[\<lambda>v w. Inr (w + 10, IRQ_HANDLED), \<lambda>v w. Inl Undef]" 11 "()"]
    by (simp add: end_of_interrupt_def pic_construct_def pic_outb_def slave_comm_def master_comm_def cmd_end_of_interrupt_def Let_def)
qed


text \<open>
  The controller is set up with the lines of the slave at the vectors from 0x28 on, but the slave gets an
  end of interrupt only for vectors above 0x28. The first line of the slave never gets one.
\<close>

theorem slave_end_of_interrupt:
  "(\<exists>p. initialize_controller pic_construct = Inr p \<and> (slave_data, 0x28) \<in> set (pic_outs p)
     \<and> initialize_controller p = Inl (Panic ''Attempt to initialize PIC8259 twice!''))
    \<and> pic_outs (end_of_interrupt vector q) = pic_outs q @ (if vector \<le> 0x28 then [] else [(slave_comm, 0x20)]) @ [(master_comm, 0x20)]"
  by (auto simp: initialize_controller_def pic_construct_def pic_outb_def end_of_interrupt_def cmd_end_of_interrupt_def
      word_le_def Let_def)

text \<open>
  A register dump is printed as the eight registers in fields of eight hexadecimal digits, and the
  stream keeps the format it had.
\<close>

theorem registers_printed:
  "shl_registers regs (os, s) = bindE (emit os (registers_text regs) s) (\<lambda>s1. Inr (os, s1))"
  unfolding shl_registers_def
  by (subst guarded_items)
     (simp_all add: manip_hex_def setf_masked_def base_set_hex digit_buffer_hex registers_text_def hex_field_def padding_def Let_def)

end
