(* ===== verification/Ps2_Controller.thy ===== *)
theory Ps2_Controller
  imports Keyboard Interrupts
begin

text \<open>
  The controller of the keyboard, \<^verbatim>\<open>devices/ps2\<close>: its commands, its two lines, the probing of the drivers
  and the set-up of the controller. The chip behind the ports is an argument: what reading and writing a
  port do to its state, and what happens while the kernel sleeps. The bytes that are written to its ports and
  those that are read from its data port are kept in their order. A driver is given by its address, its virtual functions by an argument.
\<close>

section \<open>Definitions\<close>

record 'h ps2_chip =
  chip_inb :: "u16 \<Rightarrow> 'h \<Rightarrow> u8 \<times> 'h"
  chip_outb :: "u16 \<Rightarrow> u8 \<Rightarrow> 'h \<Rightarrow> 'h"
  chip_sleep_ms :: "u32 \<Rightarrow> 'h \<Rightarrow> 'h result"

record 'h ps2 =
  p2_chip :: 'h
  p2_writes :: "(u16 \<times> u8) list"
  p2_reads :: "u8 list"
  p2_known_devices :: "ptr list"
  p2_active_devices :: "nat \<Rightarrow> ptr"
  p2_irq_vectors :: "u8 list"
  p2_kbd :: kbd_machine

datatype ps2_error = E_ok | E_wrong_ack | E_timeout | E_unknown

definition shl_ps2_error :: "ps2_error \<Rightarrow> 's ostream \<times> 's \<Rightarrow> ('s ostream \<times> 's) result" where
  "shl_ps2_error code = out_items [O_str (case code of
     E_ok \<Rightarrow> ''No error'' | E_wrong_ack \<Rightarrow> ''Wrong ack'' | E_timeout \<Rightarrow> ''Timeout'' | _ \<Rightarrow> ''Unknown error'')]"

text \<open>The configuration byte.\<close>

definition conf_int_first :: u8 where "conf_int_first = push_bit 0 1"
definition conf_int_second :: u8 where "conf_int_second = push_bit 1 1"
definition conf_system :: u8 where "conf_system = push_bit 2 1"
definition conf_clock_first :: u8 where "conf_clock_first = push_bit 4 1"
definition conf_clock_second :: u8 where "conf_clock_second = push_bit 5 1"
definition conf_translation :: u8 where "conf_translation = push_bit 6 1"

definition conf_is_set :: "u8 \<Rightarrow> u8 \<Rightarrow> bool" where
  "conf_is_set field conf \<longleftrightarrow> conf AND field \<noteq> 0"

definition conf_set :: "u8 \<Rightarrow> u8 \<Rightarrow> u8" where
  "conf_set field conf = conf OR field"

definition conf_unset :: "u8 \<Rightarrow> u8 \<Rightarrow> u8" where
  "conf_unset field conf = conf AND NOT field"

definition get_ps2_lines :: "u8 \<Rightarrow> int" where
  "get_ps2_lines conf = (if conf_is_set conf_clock_second conf then 2 else 1)"

text \<open>Commands, replies and the status register.\<close>

datatype ps2_cmd = read_cb | write_cb | self_test | port_test_1 | port_test_2 | disable_1 | enable_1 | disable_2 | enable_2
  | redirect_2nd | no_cmd

definition cmd_value :: "ps2_cmd \<Rightarrow> u8" where
  "cmd_value c = (case c of read_cb \<Rightarrow> 0x20 | write_cb \<Rightarrow> 0x60 | self_test \<Rightarrow> 0xaa | port_test_1 \<Rightarrow> 0xab | port_test_2 \<Rightarrow> 0xa9
     | disable_1 \<Rightarrow> 0xad | enable_1 \<Rightarrow> 0xae | disable_2 \<Rightarrow> 0xa7 | enable_2 \<Rightarrow> 0xa8 | redirect_2nd \<Rightarrow> 0xd4 | no_cmd \<Rightarrow> 0)"

definition port_test_ok :: u8 where "port_test_ok = 0x00"
definition self_test_ok :: u8 where "self_test_ok = 0x55"

definition out_buf_status :: u8 where "out_buf_status = push_bit 0 1"
definition in_buf_status :: u8 where "in_buf_status = push_bit 1 1"

definition PS2_PORT_DATA :: u16 where "PS2_PORT_DATA = 0x60"
definition PS2_PORT_STATUS :: u16 where "PS2_PORT_STATUS = 0x64"
definition PS2_PORT_COMMAND :: u16 where "PS2_PORT_COMMAND = 0x64"

definition SELFTEST_TIMEOUT :: int where "SELFTEST_TIMEOUT = 5"
definition OUTPUT_TIMEOUT :: int where "OUTPUT_TIMEOUT = 1"

record ps2_line =
  ln_cmd_enable :: ps2_cmd
  ln_cmd_disable :: ps2_cmd
  ln_cmd_test :: ps2_cmd
  ln_need_redirection :: bool
  ln_cmd_redirect :: ps2_cmd
  ln_enable_interrupts_mask :: u8
  ln_id :: nat

definition get_line :: "nat \<Rightarrow> ps2_line option" where
  "get_line line =
     (if line = 0 then Some \<lparr>ln_cmd_enable = enable_1, ln_cmd_disable = disable_1, ln_cmd_test = port_test_1,
        ln_need_redirection = False, ln_cmd_redirect = no_cmd, ln_enable_interrupts_mask = conf_int_first, ln_id = 0\<rparr>
      else if line = 1 then Some \<lparr>ln_cmd_enable = enable_2, ln_cmd_disable = disable_2, ln_cmd_test = port_test_2,
        ln_need_redirection = True, ln_cmd_redirect = redirect_2nd, ln_enable_interrupts_mask = conf_int_second, ln_id = 1\<rparr>
      else None)"

text \<open>The loop over the lines.\<close>

function for_each_line_from :: "(ps2_line \<Rightarrow> 's \<Rightarrow> 's result) \<Rightarrow> nat \<Rightarrow> 's \<Rightarrow> 's result" where
  "for_each_line_from f line_id s =
     (case get_line line_id of None \<Rightarrow> Inr s | Some line \<Rightarrow> bindE (f line s) (for_each_line_from f (line_id + 1)))"
  by pat_completeness auto

termination
  by (relation "measure (\<lambda>(f, line_id, s). 2 - line_id)") (auto simp: get_line_def split: if_splits)

declare for_each_line_from.simps [simp del]

definition for_each_line :: "(ps2_line \<Rightarrow> 's \<Rightarrow> 's result) \<Rightarrow> 's \<Rightarrow> 's result" where
  "for_each_line f s = for_each_line_from f 0 s"

text \<open>Ports.\<close>

definition ps2_inb :: "'h ps2_chip \<Rightarrow> u16 \<Rightarrow> 'h ps2 \<Rightarrow> u8 \<times> 'h ps2" where
  "ps2_inb chip port s = (let (b, h) = chip_inb chip port (p2_chip s) in (b, s\<lparr>p2_chip := h\<rparr>))"

definition ps2_outb :: "'h ps2_chip \<Rightarrow> u16 \<Rightarrow> u8 \<Rightarrow> 'h ps2 \<Rightarrow> 'h ps2" where
  "ps2_outb chip port b s = s\<lparr>p2_chip := chip_outb chip port b (p2_chip s), p2_writes := p2_writes s @ [(port, b)]\<rparr>"

definition ps2_sleep_ms :: "'h ps2_chip \<Rightarrow> u32 \<Rightarrow> 'h ps2 \<Rightarrow> 'h ps2 result" where
  "ps2_sleep_ms chip ms s = bindE (chip_sleep_ms chip ms (p2_chip s)) (\<lambda>h. Inr (s\<lparr>p2_chip := h\<rparr>))"

definition ps2_status :: "'h ps2_chip \<Rightarrow> 'h ps2 \<Rightarrow> u8 \<times> 'h ps2" where
  "ps2_status chip s = ps2_inb chip PS2_PORT_STATUS s"

definition receive_byte :: "'h ps2_chip \<Rightarrow> 'h ps2 \<Rightarrow> u8 \<times> 'h ps2" where
  "receive_byte chip s = (let (b, s1) = ps2_inb chip PS2_PORT_DATA s in (b, s1\<lparr>p2_reads := p2_reads s1 @ [b]\<rparr>))"

definition send_byte :: "'h ps2_chip \<Rightarrow> u8 \<Rightarrow> 'h ps2 \<Rightarrow> 'h ps2" where
  "send_byte chip b s = ps2_outb chip PS2_PORT_DATA b s"

definition send_command :: "'h ps2_chip \<Rightarrow> ps2_cmd \<Rightarrow> 'h ps2 \<Rightarrow> 'h ps2" where
  "send_command chip cmd s = ps2_outb chip PS2_PORT_COMMAND (cmd_value cmd) s"

text \<open>The loop that waits for a flag, with the number of rounds that are left.\<close>

fun wait_loop :: "'h ps2_chip \<Rightarrow> u8 \<Rightarrow> bool \<Rightarrow> nat \<Rightarrow> 'h ps2 \<Rightarrow> (u8 \<times> 'h ps2) result" where
  "wait_loop chip flag v n s =
     (let (st, s1) = ps2_status chip s
      in if (st AND flag \<noteq> 0) = v then Inr (st, s1)
         else case n of 0 \<Rightarrow> Inr (st, s1) | Suc k \<Rightarrow> bindE (ps2_sleep_ms chip 1 s1) (wait_loop chip flag v k))"

declare wait_loop.simps [simp del]

definition wait_for_flag :: "'h ps2_chip \<Rightarrow> u8 \<Rightarrow> bool \<Rightarrow> int \<Rightarrow> 'h ps2 \<Rightarrow> (bool \<times> 'h ps2) result" where
  "wait_for_flag chip flag v ms s = bindE (wait_loop chip flag v (nat ms) s) (\<lambda>(st, s1). Inr (st AND flag \<noteq> 0, s1))"

definition wait_for_input :: "'h ps2_chip \<Rightarrow> int \<Rightarrow> 'h ps2 \<Rightarrow> (bool \<times> 'h ps2) result" where
  "wait_for_input chip ms s = wait_for_flag chip out_buf_status True ms s"

definition wait_for_output :: "'h ps2_chip \<Rightarrow> int \<Rightarrow> 'h ps2 \<Rightarrow> (bool \<times> 'h ps2) result" where
  "wait_for_output chip ms s = bindE (wait_for_flag chip in_buf_status False ms s) (\<lambda>(b, s1). Inr (\<not> b, s1))"

definition can_read :: "'h ps2_chip \<Rightarrow> 'h ps2 \<Rightarrow> (bool \<times> 'h ps2) result" where
  "can_read chip s = wait_for_input chip 0 s"

definition ps2_receive :: "'h ps2_chip \<Rightarrow> int \<Rightarrow> 'h ps2 \<Rightarrow> (u8 option \<times> 'h ps2) result" where
  "ps2_receive chip ms s =
     bindE (wait_for_input chip ms s) (\<lambda>(ready, s1).
       if ready then let (b, s2) = receive_byte chip s1 in Inr (Some b, s2) else Inr (None, s1))"

definition clean_step :: "'h ps2_chip \<Rightarrow> u8 \<times> 'h ps2 \<Rightarrow> (u8 \<times> 'h ps2) result" where
  "clean_step chip = (\<lambda>(st, s). Inr (ps2_status chip (snd (receive_byte chip s))))"

definition clean_buffer :: "'h ps2_chip \<Rightarrow> 'h ps2 \<Rightarrow> 'h ps2 result" where
  "clean_buffer chip s =
     bindE (while_result (\<lambda>(st, s). st AND out_buf_status \<noteq> 0) (clean_step chip) (ps2_status chip s)) (\<lambda>(st, s1). Inr s1)"

definition conf_read :: "'h ps2_chip \<Rightarrow> 'h ps2 \<Rightarrow> u8 \<times> 'h ps2" where
  "conf_read chip s = receive_byte chip (send_command chip read_cb s)"

definition conf_write :: "'h ps2_chip \<Rightarrow> u8 \<Rightarrow> 'h ps2 \<Rightarrow> 'h ps2" where
  "conf_write chip conf s = send_byte chip conf (send_command chip write_cb s)"

definition do_selftest :: "'h ps2_chip \<Rightarrow> 'h ps2 \<Rightarrow> (bool \<times> 'h ps2) result" where
  "do_selftest chip s =
     bindE (ps2_receive chip SELFTEST_TIMEOUT (send_command chip self_test s)) (\<lambda>(r, s1).
       Inr (case r of None \<Rightarrow> False | Some test_result \<Rightarrow> test_result = self_test_ok, s1))"

text \<open>The lines.\<close>

definition line_send :: "'h ps2_chip \<Rightarrow> ps2_line \<Rightarrow> u8 \<Rightarrow> 'h ps2 \<Rightarrow> (ps2_error \<times> 'h ps2) result" where
  "line_send chip line b s =
     (let s1 = (if ln_need_redirection line then send_command chip (ln_cmd_redirect line) s else s)
      in bindE (wait_for_output chip OUTPUT_TIMEOUT s1) (\<lambda>(can_write, s2).
           if \<not> can_write then Inr (E_timeout, s2) else Inr (E_ok, send_byte chip b s2)))"

definition line_send_ack :: "'h ps2_chip \<Rightarrow> ps2_line \<Rightarrow> u8 \<Rightarrow> u8 \<Rightarrow> 'h ps2 \<Rightarrow> (ps2_error \<times> 'h ps2) result" where
  "line_send_ack chip line b expected_ack s =
     bindE (line_send chip line b s) (\<lambda>(ret, s1).
       if ret \<noteq> E_ok then Inr (ret, s1)
       else bindE (ps2_receive chip OUTPUT_TIMEOUT s1) (\<lambda>(r, s2).
         Inr (case r of Some ack \<Rightarrow> if ack = expected_ack then E_ok else E_wrong_ack | None \<Rightarrow> E_timeout, s2)))"

definition line_disable :: "'h ps2_chip \<Rightarrow> ps2_line \<Rightarrow> 'h ps2 \<Rightarrow> 'h ps2" where
  "line_disable chip line s = send_command chip (ln_cmd_disable line) s"

definition line_enable :: "'h ps2_chip \<Rightarrow> ps2_line \<Rightarrow> 'h ps2 \<Rightarrow> 'h ps2" where
  "line_enable chip line s = send_command chip (ln_cmd_enable line) s"

definition line_test :: "'h ps2_chip \<Rightarrow> ps2_line \<Rightarrow> 'h ps2 \<Rightarrow> (bool \<times> 'h ps2) result" where
  "line_test chip line s =
     bindE (ps2_receive chip SELFTEST_TIMEOUT (send_command chip (ln_cmd_test line) s)) (\<lambda>(r, s1).
       Inr (case r of None \<Rightarrow> False | Some reply \<Rightarrow> reply = port_test_ok, s1))"

text \<open>The driver of the keyboard.\<close>

datatype probe_ret = probe_ok | probe_next

definition dcmd_enable_scan :: u8 where "dcmd_enable_scan = 0xf4"
definition dcmd_disable_scan :: u8 where "dcmd_disable_scan = 0xf5"
definition dcmd_identify :: u8 where "dcmd_identify = 0xf2"
definition keyboard_ack :: u8 where "keyboard_ack = 0xfa"
definition this_dev_id :: "u8 list" where "this_dev_id = [0xab, 0x83]"

text \<open>The loop over the bytes of the identifier that are still expected.\<close>

fun probe_id :: "'h ps2_chip \<Rightarrow> u8 list \<Rightarrow> 'h ps2 \<Rightarrow> (bool \<times> 'h ps2) result" where
  "probe_id chip [] s = Inr (True, s)"
| "probe_id chip (b # bs) s =
     bindE (ps2_receive chip 5 s) (\<lambda>(r, s1).
       case r of None \<Rightarrow> Inr (False, s1) | Some reply \<Rightarrow> if reply \<noteq> b then Inr (False, s1) else probe_id chip bs s1)"

definition keyboard_probe :: "'h ps2_chip \<Rightarrow> ps2_line \<Rightarrow> 'h ps2 \<Rightarrow> (probe_ret \<times> 'h ps2) result" where
  "keyboard_probe chip line s =
     bindE (clean_buffer chip s) (\<lambda>s.
     bindE (line_send_ack chip line dcmd_disable_scan keyboard_ack s) (\<lambda>(ret, s).
     if ret \<noteq> E_ok then Inr (probe_next, s)
     else bindE (line_send_ack chip line dcmd_identify keyboard_ack s) (\<lambda>(ret, s).
     if ret \<noteq> E_ok then Inr (probe_next, s)
     else bindE (probe_id chip this_dev_id s) (\<lambda>(same, s).
     if \<not> same then Inr (probe_next, s)
     else bindE (line_send_ack chip line dcmd_enable_scan keyboard_ack s) (\<lambda>(ret, s). Inr (probe_ok, s))))))"

definition keyboard_handle_irq :: "'h ps2_chip \<Rightarrow> 'h ps2 \<Rightarrow> (irq_status \<times> 'h ps2) result" where
  "keyboard_handle_irq chip s =
     (let (b, s1) = receive_byte chip s
      in case kbd_handle_byte b (p2_kbd s1) of
           None \<Rightarrow> Inl Hang
         | Some m \<Rightarrow> Inr (IRQ_HANDLED, s1\<lparr>p2_kbd := m\<rparr>))"

text \<open>The drivers: for an address, the functions that are called for it.\<close>

record 'h ps2_drivers =
  drv_probe :: "ptr \<Rightarrow> ps2_line \<Rightarrow> 'h ps2 \<Rightarrow> (probe_ret \<times> 'h ps2) result"
  drv_handle_irq :: "ptr \<Rightarrow> 'h ps2 \<Rightarrow> (irq_status \<times> 'h ps2) result"

definition MAX_REGISTERED_DEVICES :: nat where "MAX_REGISTERED_DEVICES = 10"

definition register_driver :: "ptr \<Rightarrow> 'h ps2 \<Rightarrow> 'h ps2" where
  "register_driver dev s =
     (if length (p2_known_devices s) < MAX_REGISTERED_DEVICES then s\<lparr>p2_known_devices := p2_known_devices s @ [dev]\<rparr> else s)"

text \<open>Probing the known devices on a line: the last that answered and the number of them.\<close>

fun probe_known :: "'h ps2_drivers \<Rightarrow> ps2_line \<Rightarrow> ptr list \<Rightarrow> ptr \<Rightarrow> nat \<Rightarrow> 'h ps2 \<Rightarrow> (ptr \<times> nat \<times> 'h ps2) result" where
  "probe_known drv line [] active_dev count s = Inr (active_dev, count, s)"
| "probe_known drv line (dev # devs) active_dev count s =
     bindE (drv_probe drv dev line s) (\<lambda>(ret, s1).
       if ret = probe_ok then probe_known drv line devs dev (count + 1) s1 else probe_known drv line devs active_dev count s1)"

definition probe_line :: "'h ps2_drivers \<Rightarrow> ps2_line \<Rightarrow> 'h ps2 \<Rightarrow> 'h ps2 result" where
  "probe_line drv line s =
     bindE (probe_known drv line (p2_known_devices s) nullptr 0 s) (\<lambda>(active_dev, count, s1).
       if count > 1 then Inl (Panic '''')
       else Inr (s1\<lparr>p2_active_devices := (p2_active_devices s1)(ln_id line := active_dev)\<rparr>))"

definition probe_devices :: "'h ps2_drivers \<Rightarrow> 'h ps2 \<Rightarrow> 'h ps2 result" where
  "probe_devices drv s = for_each_line (probe_line drv) s"

definition ps2_irq_handler :: "'h ps2_drivers \<Rightarrow> nat \<Rightarrow> 'h ps2 \<Rightarrow> (irq_status \<times> 'h ps2) result" where
  "ps2_irq_handler drv line s =
     (if p2_active_devices s line \<noteq> nullptr then drv_handle_irq drv (p2_active_devices s line) s else Inr (IRQ_NONE, s))"

definition FIRST_LINE_IRQ :: int where "FIRST_LINE_IRQ = min_irq_vector + 1"
definition SECOND_LINE_IRQ :: int where "SECOND_LINE_IRQ = min_irq_vector + 12"

definition ps2_handle_irq :: "'h ps2_drivers \<Rightarrow> u8 \<Rightarrow> 'h ps2 \<Rightarrow> (irq_status \<times> 'h ps2) result" where
  "ps2_handle_irq drv vector s =
     (if uint vector = FIRST_LINE_IRQ then ps2_irq_handler drv 0 s
      else if uint vector = SECOND_LINE_IRQ then ps2_irq_handler drv 1 s
      else Inr (IRQ_NONE, s))"

definition add_ps2_handler :: "int \<Rightarrow> 'h ps2 \<Rightarrow> 'h ps2" where
  "add_ps2_handler vector s = s\<lparr>p2_irq_vectors := word_of_int vector # p2_irq_vectors s\<rparr>"

text \<open>The end of the set-up: a line with a driver gets its interrupt, the others are turned off.\<close>

definition finish_line :: "'h ps2_chip \<Rightarrow> ps2_line \<Rightarrow> u8 \<times> 'h ps2 \<Rightarrow> u8 \<times> 'h ps2" where
  "finish_line chip line = (\<lambda>(conf, s).
     if p2_active_devices s (ln_id line) \<noteq> nullptr then (conf_set (ln_enable_interrupts_mask line) conf, s)
     else (conf, line_disable chip line s))"

abbreviation first_line :: ps2_line where "first_line \<equiv> the (get_line 0)"
abbreviation second_line :: ps2_line where "second_line \<equiv> the (get_line 1)"

definition ps2_setup :: "'h ps2_chip \<Rightarrow> 'h ps2 \<Rightarrow> (bool \<times> 'h ps2) result" where
  "ps2_setup chip s =
     bindE (for_each_line (\<lambda>line s. Inr (line_disable chip line s)) s) (\<lambda>s.
     bindE (clean_buffer chip s) (\<lambda>s.
     let (conf, s) = conf_read chip s
     in bindE (for_each_line (\<lambda>line c. Inr (conf_unset (ln_enable_interrupts_mask line) c)) conf) (\<lambda>conf.
        do_selftest chip (conf_write chip (conf_unset conf_translation conf) s))))"

definition initialize_ps2 :: "'h ps2_chip \<Rightarrow> 'h ps2_drivers \<Rightarrow> ptr \<Rightarrow> 'h ps2 \<Rightarrow> 'h ps2 result" where
  "initialize_ps2 chip drv ps2_kbd s =
     bindE (ps2_setup chip (register_driver ps2_kbd s)) (\<lambda>(passed, s).
     if \<not> passed then Inl (Panic ''PS/2: controller self-test failed!'')
     else let s = line_enable chip second_line s;
              (conf, s) = conf_read chip s;
              s = line_disable chip second_line s
     in bindE (for_each_line (\<lambda>line s. bindE (line_test chip line s) (\<lambda>(r, s). Inr s)) s) (\<lambda>s.
        let s = add_ps2_handler SECOND_LINE_IRQ (add_ps2_handler FIRST_LINE_IRQ s)
        in bindE (for_each_line (\<lambda>line s. Inr (line_enable chip line s)) s) (\<lambda>s.
           bindE (probe_devices drv s) (\<lambda>s.
             let (conf, s) = finish_line chip second_line (finish_line chip first_line (conf_read chip s))
             in Inr (conf_write chip conf s)))))"

section \<open>Every wait ends\<close>

lemma lines_eq:
  "first_line = \<lparr>ln_cmd_enable = enable_1, ln_cmd_disable = disable_1, ln_cmd_test = port_test_1,
     ln_need_redirection = False, ln_cmd_redirect = no_cmd, ln_enable_interrupts_mask = conf_int_first, ln_id = 0\<rparr>"
  "second_line = \<lparr>ln_cmd_enable = enable_2, ln_cmd_disable = disable_2, ln_cmd_test = port_test_2,
     ln_need_redirection = True, ln_cmd_redirect = redirect_2nd, ln_enable_interrupts_mask = conf_int_second, ln_id = 1\<rparr>"
  by (simp_all add: get_line_def)

lemmas line_simps = lines_eq lines_eq(2) [unfolded One_nat_def]

lemma for_each_line_eq: "for_each_line f s = bindE (f first_line s) (f second_line)"
proof -
  have stop: "for_each_line_from f (Suc (Suc 0)) = Inr"
    by (rule ext, subst for_each_line_from.simps) (simp add: get_line_def)
  have "for_each_line_from f 1 = f second_line"
    by (rule ext, subst for_each_line_from.simps) (simp add: get_line_def stop)
  then show ?thesis unfolding for_each_line_def
    by (subst for_each_line_from.simps) (simp add: get_line_def)
qed

text \<open>A piece of communication: what has been written to the ports and read from the data port, and nothing else.\<close>

definition talk :: "'h ps2 \<Rightarrow> (u16 \<times> u8) list \<Rightarrow> u8 list \<Rightarrow> 'h ps2 \<Rightarrow> bool" where
  "talk s ws rs s' \<longleftrightarrow> p2_writes s' = p2_writes s @ ws \<and> p2_reads s' = p2_reads s @ rs \<and> p2_known_devices s' = p2_known_devices s
     \<and> p2_active_devices s' = p2_active_devices s \<and> p2_irq_vectors s' = p2_irq_vectors s \<and> p2_kbd s' = p2_kbd s"

lemma talk_refl: "talk s [] [] s"
  by (simp add: talk_def)

lemma talk_trans: "talk s ws rs s1 \<Longrightarrow> talk s1 ws' rs' s2 \<Longrightarrow> talk s (ws @ ws') (rs @ rs') s2"
  by (simp add: talk_def)

lemma talk_status: "talk s [] [] (snd (ps2_status chip s))"
  by (simp add: talk_def ps2_status_def ps2_inb_def split: prod.split)

lemma talk_receive_byte: "talk s [] [fst (receive_byte chip s)] (snd (receive_byte chip s))"
  by (simp add: talk_def receive_byte_def ps2_inb_def split: prod.split)

lemma talk_send_byte: "talk s [(0x60, b)] [] (send_byte chip b s)"
  by (simp add: talk_def send_byte_def ps2_outb_def PS2_PORT_DATA_def)

lemma talk_send_command: "talk s [(0x64, cmd_value c)] [] (send_command chip c s)"
  by (simp add: talk_def send_command_def ps2_outb_def PS2_PORT_COMMAND_def)

text \<open>
  What is assumed of the chip: the kernel can sleep, and reading the data port takes a byte out of a finite buffer
  as long as the status says that there is one.
\<close>

definition sleeps :: "'h ps2_chip \<Rightarrow> bool" where
  "sleeps chip \<longleftrightarrow> (\<forall>ms h. \<exists>h'. chip_sleep_ms chip ms h = Inr h')"

definition drains :: "'h ps2_chip \<Rightarrow> ('h \<Rightarrow> nat) \<Rightarrow> bool" where
  "drains chip pending \<longleftrightarrow> (\<forall>h. let (st, h1) = chip_inb chip 0x64 h
     in st AND 1 \<noteq> 0 \<longrightarrow> pending (snd (chip_inb chip 0x64 (snd (chip_inb chip 0x60 h1)))) < pending h1)"

lemma wait_loop_returns: "sleeps chip \<Longrightarrow> \<exists>st s'. wait_loop chip flag v n s = Inr (st, s') \<and> talk s [] [] s'"
proof (induction n arbitrary: s)
  case 0
  then show ?case using talk_status [of s chip]
    by (subst wait_loop.simps, cases "ps2_status chip s") (auto simp: Let_def)
next
  case (Suc n)
  obtain st s1 where x: "ps2_status chip s = (st, s1)" by fastforce
  then have t1: "talk s [] [] s1" using talk_status [of s chip] by simp
  obtain h where h: "chip_sleep_ms chip 1 (p2_chip s1) = Inr h" using Suc.prems unfolding sleeps_def by blast
  let ?s = "s1\<lparr>p2_chip := h\<rparr>"
  have t: "talk s [] [] ?s" using t1 by (simp add: talk_def)
  obtain st' s' where r: "wait_loop chip flag v n ?s = Inr (st', s')" "talk ?s [] [] s'" using Suc by blast
  show ?case
  proof (cases "(st AND flag \<noteq> 0) = v")
    case True
    then show ?thesis using t1 by (subst wait_loop.simps) (simp add: x)
  next
    case False
    then show ?thesis using r talk_trans [OF t r(2)] by (subst wait_loop.simps) (simp add: x h ps2_sleep_ms_def)
  qed
qed

lemma wait_for_flag_returns: "sleeps chip \<Longrightarrow> \<exists>b s'. wait_for_flag chip flag v ms s = Inr (b, s') \<and> talk s [] [] s'"
  using wait_loop_returns [of chip flag v "nat ms" s] by (auto simp: wait_for_flag_def)

lemma ps2_receive_returns:
  assumes "sleeps chip"
  shows "\<exists>r s'. ps2_receive chip ms s = Inr (r, s') \<and> talk s [] (case r of None \<Rightarrow> [] | Some b \<Rightarrow> [b]) s'"
proof -
  obtain ready s1 where w: "wait_for_flag chip out_buf_status True ms s = Inr (ready, s1)" "talk s [] [] s1"
    using wait_for_flag_returns [OF assms] by blast
  then show ?thesis using talk_trans [OF w(2) talk_receive_byte [of s1 chip]]
    by (cases ready) (auto simp: ps2_receive_def wait_for_input_def case_prod_unfold Let_def)
qed

lemma clean_loop_ends:
  assumes "drains chip pending"
  shows "\<exists>st s' rs. while_result (\<lambda>(st, s). st AND out_buf_status \<noteq> 0) (clean_step chip) (ps2_status chip s) = Inr (st, s') \<and> talk s [] rs s'"
proof (induction "pending (p2_chip (snd (ps2_status chip s)))" arbitrary: s rule: less_induct)
  case less
  let ?x = "ps2_status chip s" and ?L = "while_result (\<lambda>(st, s). st AND out_buf_status \<noteq> 0) (clean_step chip)"
  let ?s1 = "snd (receive_byte chip (snd ?x))"
  show ?case
  proof (cases "fst ?x AND out_buf_status = 0")
    case True
    then have "?L ?x = Inr ?x" by (subst while_result_unfold) (simp add: case_prod_unfold)
    then show ?thesis using talk_status [of s chip] by (metis prod.collapse)
  next
    case False
    have "pending (p2_chip (snd (ps2_status chip ?s1))) < pending (p2_chip (snd ?x))"
      using assms False by (auto simp: drains_def ps2_status_def receive_byte_def ps2_inb_def PS2_PORT_STATUS_def PS2_PORT_DATA_def
          out_buf_status_def case_prod_unfold Let_def)
    then obtain st s' rs where r: "?L (ps2_status chip ?s1) = Inr (st, s')" "talk ?s1 [] rs s'" using less by blast
    have "?L ?x = ?L (ps2_status chip ?s1)"
      using False by (subst while_result_unfold) (simp add: case_prod_unfold clean_step_def)
    then show ?thesis using r talk_trans [OF talk_status talk_trans [OF talk_receive_byte r(2)]] by auto
  qed
qed

lemma clean_buffer_returns: "drains chip pending \<Longrightarrow> \<exists>s' rs. clean_buffer chip s = Inr s' \<and> talk s [] rs s'"
  using clean_loop_ends [of chip pending s] by (auto simp: clean_buffer_def)

section \<open>Lines and drivers\<close>

text \<open>The writes that send a byte to the device on a line.\<close>

definition redirection :: "ps2_line \<Rightarrow> (u16 \<times> u8) list" where
  "redirection line = (if ln_need_redirection line then [(0x64, cmd_value (ln_cmd_redirect line))] else [])"

lemma line_send_returns:
  assumes "sleeps chip"
  shows "\<exists>e s'. line_send chip line b s = Inr (e, s') \<and> e \<in> {E_ok, E_timeout}
    \<and> talk s (redirection line @ (if e = E_ok then [(0x60, b)] else [])) [] s'"
proof -
  let ?s1 = "if ln_need_redirection line then send_command chip (ln_cmd_redirect line) s else s"
  have t1: "talk s (redirection line) [] ?s1"
    using talk_refl [of s] talk_send_command [of s "ln_cmd_redirect line" chip] by (simp add: redirection_def)
  obtain busy s2 where w: "wait_for_flag chip in_buf_status False OUTPUT_TIMEOUT ?s1 = Inr (busy, s2)" "talk ?s1 [] [] s2"
    using wait_for_flag_returns [OF assms] by blast
  have t2: "talk s (redirection line) [] s2" using talk_trans [OF t1 w(2)] by simp
  have "line_send chip line b s = Inr (if busy then (E_timeout, s2) else (E_ok, send_byte chip b s2))"
    using w(1) by (simp add: line_send_def wait_for_output_def Let_def)
  then show ?thesis using t2 talk_trans [OF t2 talk_send_byte [of s2 b chip]] by (cases busy) auto
qed

text \<open>The answer to a byte that is to be acknowledged.\<close>

definition ack_error :: "u8 \<Rightarrow> u8 list \<Rightarrow> ps2_error" where
  "ack_error ack rs = (if rs = [] then E_timeout else if rs = [ack] then E_ok else E_wrong_ack)"

lemma line_send_ack_returns:
  assumes "sleeps chip"
  shows "\<exists>sent rs s'. line_send_ack chip line b ack s = Inr (ack_error ack rs, s')
    \<and> talk s (redirection line @ (if sent then [(0x60, b)] else [])) rs s' \<and> (rs \<noteq> [] \<longrightarrow> sent) \<and> length rs \<le> 1"
proof -
  obtain e s1 where l: "line_send chip line b s = Inr (e, s1)" "e \<in> {E_ok, E_timeout}"
      "talk s (redirection line @ (if e = E_ok then [(0x60, b)] else [])) [] s1"
    using line_send_returns [OF assms] by blast
  show ?thesis
  proof (cases "e = E_ok")
    case False
    then have "line_send_ack chip line b ack s = Inr (ack_error ack [], s1)" using l(1,2) by (auto simp: line_send_ack_def ack_error_def)
    then show ?thesis using l(3) False by (intro exI [of _ False] exI [of _ "[]"] exI [of _ s1]) simp
  next
    case True
    obtain r s2 where r: "ps2_receive chip OUTPUT_TIMEOUT s1 = Inr (r, s2)" "talk s1 [] (case r of None \<Rightarrow> [] | Some x \<Rightarrow> [x]) s2"
      using ps2_receive_returns [OF assms] by blast
    let ?rs = "case r of None \<Rightarrow> [] | Some x \<Rightarrow> [x]"
    have "line_send_ack chip line b ack s = Inr (ack_error ack ?rs, s2)"
      using l(1) True r(1) by (auto simp: line_send_ack_def ack_error_def split: option.split)
    moreover have "talk s (redirection line @ [(0x60, b)]) ?rs s2" using talk_trans [OF l(3) r(2)] True by simp
    ultimately show ?thesis by (intro exI [of _ True] exI [of _ ?rs] exI [of _ s2]) (simp split: option.split)
  qed
qed

lemma probe_id_returns:
  assumes "sleeps chip"
  shows "\<exists>rs s'. probe_id chip ids s = Inr (rs = ids, s') \<and> talk s [] rs s' \<and> length rs \<le> length ids"
proof (induction ids arbitrary: s)
  case Nil
  show ?case using talk_refl [of s] by auto
next
  case (Cons i ids)
  obtain r s1 where r: "ps2_receive chip 5 s = Inr (r, s1)" "talk s [] (case r of None \<Rightarrow> [] | Some x \<Rightarrow> [x]) s1"
    using ps2_receive_returns [OF assms] by blast
  show ?case
  proof (cases "r = Some i")
    case True
    obtain rs s2 where "probe_id chip ids s1 = Inr (rs = ids, s2)" "talk s1 [] rs s2" "length rs \<le> length ids" using Cons.IH by blast
    then show ?thesis using r True talk_trans [OF r(2), of "[]" rs s2] by (intro exI [of _ "i # rs"] exI [of _ s2]) simp
  next
    case False
    then show ?thesis using r by (intro exI [of _ "case r of None \<Rightarrow> [] | Some x \<Rightarrow> [x]"] exI [of _ s1]) (auto split: option.split)
  qed
qed

definition data_writes :: "(u16 \<times> u8) list \<Rightarrow> u8 list" where
  "data_writes ws = map snd (filter (\<lambda>w. fst w = 0x60) ws)"

lemma data_writes_simps [simp]:
  "data_writes [] = []" "data_writes (ws @ ws') = data_writes ws @ data_writes ws'" "data_writes ((0x60, b) # ws) = b # data_writes ws"
  "data_writes (redirection line) = []"
  by (simp_all add: data_writes_def redirection_def)

lemma keyboard_probe_returns:
  assumes "sleeps chip" "drains chip pending"
  shows "\<exists>r s' ws junk rs. keyboard_probe chip line s = Inr (r, s') \<and> talk s ws (junk @ rs) s'
    \<and> (r = probe_ok \<longleftrightarrow> take 4 rs = [0xfa, 0xfa, 0xab, 0x83])
    \<and> (\<exists>k. data_writes ws = take k [0xf5, 0xf2, 0xf4]) \<and> set ws \<subseteq> set (redirection line) \<union> {(0x60, 0xf5), (0x60, 0xf2), (0x60, 0xf4)}"
proof -
  obtain s1 junk where c: "clean_buffer chip s = Inr s1" "talk s [] junk s1" using clean_buffer_returns [OF assms(2)] by blast
  obtain b1 rs1 s2 where l1: "line_send_ack chip line 0xf5 0xfa s1 = Inr (ack_error 0xfa rs1, s2)"
      "talk s1 (redirection line @ (if b1 then [(0x60, 0xf5)] else [])) rs1 s2" "rs1 \<noteq> [] \<longrightarrow> b1" "length rs1 \<le> 1"
    using line_send_ack_returns [OF assms(1)] by blast
  obtain b2 rs2 s3 where l2: "line_send_ack chip line 0xf2 0xfa s2 = Inr (ack_error 0xfa rs2, s3)"
      "talk s2 (redirection line @ (if b2 then [(0x60, 0xf2)] else [])) rs2 s3" "rs2 \<noteq> [] \<longrightarrow> b2" "length rs2 \<le> 1"
    using line_send_ack_returns [OF assms(1)] by blast
  obtain rs3 s4 where i: "probe_id chip this_dev_id s3 = Inr (rs3 = this_dev_id, s4)" "talk s3 [] rs3 s4" "length rs3 \<le> length this_dev_id"
    using probe_id_returns [OF assms(1)] by blast
  obtain b3 rs4 s5 where l3: "line_send_ack chip line 0xf4 0xfa s4 = Inr (ack_error 0xfa rs4, s5)"
      "talk s4 (redirection line @ (if b3 then [(0x60, 0xf4)] else [])) rs4 s5"
    using line_send_ack_returns [OF assms(1)] by blast
  let ?W1 = "redirection line @ (if b1 then [(0x60, 0xf5)] else [])" and ?W2 = "redirection line @ (if b2 then [(0x60, 0xf2)] else [])"
    and ?W3 = "redirection line @ (if b3 then [(0x60, 0xf4)] else [])"
  have t1: "talk s ?W1 (junk @ rs1) s2" using talk_trans [OF c(2) l1(2)] by simp
  have t2: "talk s (?W1 @ ?W2) (junk @ rs1 @ rs2) s3" using talk_trans [OF t1 l2(2)] by simp
  have t3: "talk s (?W1 @ ?W2) (junk @ rs1 @ rs2 @ rs3) s4" using talk_trans [OF t2 i(2)] by simp
  have t4: "talk s (?W1 @ ?W2 @ ?W3) (junk @ rs1 @ rs2 @ rs3 @ rs4) s5" using talk_trans [OF t3 l3(2)] by simp
  have ok: "ack_error 0xfa rs = E_ok \<longleftrightarrow> rs = [0xfa]" for rs by (simp add: ack_error_def)
  note probe = keyboard_probe_def dcmd_disable_scan_def dcmd_identify_def dcmd_enable_scan_def keyboard_ack_def c(1) l1(1)
  have result: ?thesis if "keyboard_probe chip line s = Inr (r, s')" "talk s ws (junk @ rs) s'" "data_writes ws = take k [0xf5, 0xf2, 0xf4]"
      "r = probe_ok \<longleftrightarrow> take 4 rs = [0xfa, 0xfa, 0xab, 0x83]" "set ws \<subseteq> set (redirection line) \<union> {(0x60, 0xf5), (0x60, 0xf2), (0x60, 0xf4)}"
    for r s' ws rs k using that by blast
  consider (first) "rs1 \<noteq> [0xfa]" | (second) "rs1 = [0xfa]" "rs2 \<noteq> [0xfa]"
    | (id) "rs1 = [0xfa]" "rs2 = [0xfa]" "rs3 \<noteq> this_dev_id" | (same) "rs1 = [0xfa]" "rs2 = [0xfa]" "rs3 = this_dev_id"
    by blast
  then show ?thesis
  proof cases
    case first
    have p: "keyboard_probe chip line s = Inr (probe_next, s2)" using first by (simp add: probe ok)
    have "data_writes ?W1 = take (if b1 then 1 else 0) [0xf5, 0xf2, 0xf4]" by simp
    then show ?thesis by (rule result [OF p t1]) (use l1(4) in \<open>auto dest: arg_cong [where f = length]\<close>)
  next
    case second
    have p: "keyboard_probe chip line s = Inr (probe_next, s3)" using second by (simp add: probe ok l2(1))
    have "data_writes (?W1 @ ?W2) = take (if b2 then 2 else 1) [0xf5, 0xf2, 0xf4]" using second l1(3) by simp
    then show ?thesis by (rule result [OF p t2]) (use l1(4) l2(4) in \<open>auto dest: arg_cong [where f = length]\<close>)
  next
    case id
    have p: "keyboard_probe chip line s = Inr (probe_next, s4)" using id by (simp add: probe ok l2(1) i(1))
    have "data_writes (?W1 @ ?W2) = take 2 [0xf5, 0xf2, 0xf4]" using id l1(3) l2(3) by simp
    then show ?thesis by (rule result [OF p t3]) (use id i(3) in \<open>auto simp: this_dev_id_def\<close>)
  next
    case same
    have p: "keyboard_probe chip line s = Inr (probe_ok, s5)" using same by (simp add: probe ok l2(1) i(1) l3(1))
    have "data_writes (?W1 @ ?W2 @ ?W3) = take (if b3 then 3 else 2) [0xf5, 0xf2, 0xf4]" using same l1(3) l2(3) by simp
    then show ?thesis by (rule result [OF p t4]) (use same in \<open>auto simp: this_dev_id_def\<close>)
  qed
qed

section \<open>The set-up\<close>

lemma probe_line_keyboard:
  assumes "sleeps chip" "drains chip pending" "drv_probe drv kbd = keyboard_probe chip" "p2_known_devices s = [kbd]"
  shows "\<exists>s1 ws rs dev. probe_line drv line s = Inr (s1\<lparr>p2_active_devices := (p2_active_devices s1)(ln_id line := dev)\<rparr>)
    \<and> talk s ws rs s1 \<and> dev \<in> {nullptr, kbd}"
proof -
  obtain r s1 ws junk rs where p: "keyboard_probe chip line s = Inr (r, s1)" "talk s ws (junk @ rs) s1"
    using keyboard_probe_returns [OF assms(1,2), of line s] by blast
  then have "probe_line drv line s
      = Inr (s1\<lparr>p2_active_devices := (p2_active_devices s1)(ln_id line := if r = probe_ok then kbd else nullptr)\<rparr>)"
    using assms(3,4) by (cases "r = probe_ok") (simp_all add: probe_line_def)
  then show ?thesis using p(2) by (intro exI [of _ s1] exI [of _ ws] exI [of _ "junk @ rs"] exI [of _ "if r = probe_ok then kbd else nullptr"]) simp
qed

lemma probe_devices_keyboard:
  assumes "sleeps chip" "drains chip pending" "drv_probe drv kbd = keyboard_probe chip" "p2_known_devices s = [kbd]"
  shows "\<exists>s' ws. probe_devices drv s = Inr s' \<and> p2_writes s' = p2_writes s @ ws \<and> p2_irq_vectors s' = p2_irq_vectors s
    \<and> p2_active_devices s' 0 \<in> {nullptr, kbd} \<and> p2_active_devices s' 1 \<in> {nullptr, kbd}"
proof -
  obtain s1 ws rs d1 where 1: "probe_line drv first_line s = Inr (s1\<lparr>p2_active_devices := (p2_active_devices s1)(ln_id first_line := d1)\<rparr>)"
      "talk s ws rs s1" "d1 \<in> {nullptr, kbd}"
    using probe_line_keyboard [OF assms] by blast
  let ?s1 = "s1\<lparr>p2_active_devices := (p2_active_devices s1)(ln_id first_line := d1)\<rparr>"
  have "p2_known_devices ?s1 = [kbd]" using 1(2) assms(4) by (simp add: talk_def)
  then obtain s2 ws2 rs2 d2 where 2:
      "probe_line drv second_line ?s1 = Inr (s2\<lparr>p2_active_devices := (p2_active_devices s2)(ln_id second_line := d2)\<rparr>)"
      "talk ?s1 ws2 rs2 s2" "d2 \<in> {nullptr, kbd}"
    using probe_line_keyboard [OF assms(1-3)] by blast
  show ?thesis using 1 2 by (auto simp: probe_devices_def for_each_line_eq talk_def line_simps)
qed

lemma talk_conf_read: "\<exists>b. talk s [(0x64, 0x20)] [b] (snd (conf_read chip s))"
  using talk_trans [OF talk_send_command [of s read_cb chip] talk_receive_byte [of _ chip]]
  by (auto simp: conf_read_def cmd_value_def)

lemma talk_conf_write: "talk s [(0x64, 0x60), (0x60, conf)] [] (conf_write chip conf s)"
  using talk_trans [OF talk_send_command [of s write_cb chip] talk_send_byte [of _ conf chip]] by (simp add: conf_write_def cmd_value_def)

lemma line_test_returns: "sleeps chip \<Longrightarrow> \<exists>r s' ws rs. line_test chip line s = Inr (r, s') \<and> talk s ws rs s'"
  using ps2_receive_returns [of chip SELFTEST_TIMEOUT "send_command chip (ln_cmd_test line) s"] talk_trans [OF talk_send_command]
  unfolding line_test_def by fastforce

lemma ps2_setup_returns:
  assumes "sleeps chip" "drains chip pending"
  shows "\<exists>passed s' ws rs. ps2_setup chip s = Inr (passed, s') \<and> talk s ([(0x64, 0xad), (0x64, 0xa7)] @ ws) rs s'"
proof -
  let ?s1 = "line_disable chip second_line (line_disable chip first_line s)"
  have t1: "talk s [(0x64, 0xad), (0x64, 0xa7)] [] ?s1"
    using talk_trans [OF talk_send_command [of s disable_1 chip] talk_send_command [of _ disable_2 chip]]
    by (simp add: line_disable_def line_simps cmd_value_def)
  obtain s2 rs where c: "clean_buffer chip ?s1 = Inr s2" "talk ?s1 [] rs s2" using clean_buffer_returns [OF assms(2)] by blast
  obtain conf s3 where r: "conf_read chip s2 = (conf, s3)" by fastforce
  obtain b where t3: "talk s2 [(0x64, 0x20)] [b] s3" using talk_conf_read [of s2 chip] r by auto
  let ?c = "conf_unset conf_translation (conf_unset conf_int_second (conf_unset conf_int_first conf))"
  let ?s4 = "send_command chip self_test (conf_write chip ?c s3)"
  have t4: "talk s3 [(0x64, 0x60), (0x60, ?c), (0x64, 0xaa)] [] ?s4"
    using talk_trans [OF talk_conf_write [of s3 ?c chip] talk_send_command [of _ self_test chip]] by (simp add: cmd_value_def)
  obtain x s5 where x: "ps2_receive chip SELFTEST_TIMEOUT ?s4 = Inr (x, s5)" "talk ?s4 [] (case x of None \<Rightarrow> [] | Some b \<Rightarrow> [b]) s5"
    using ps2_receive_returns [OF assms(1)] by blast
  have "\<exists>passed. ps2_setup chip s = Inr (passed, s5)"
    using c(1) r x(1) by (simp add: ps2_setup_def for_each_line_eq do_selftest_def line_simps)
  moreover have "\<exists>ws rs. talk s ([(0x64, 0xad), (0x64, 0xa7)] @ ws) rs s5"
    using talk_trans [OF t1 talk_trans [OF c(2) talk_trans [OF t3 talk_trans [OF t4 x(2)]]]] by blast
  ultimately show ?thesis by blast
qed

lemma conf_masks: "bit (conf_set conf_int_first c) 0" "bit (conf_set conf_int_second c) 1"
  "bit (conf_set conf_int_second c) 0 = bit c 0" "bit (conf_set conf_int_first c) 1 = bit c 1"
  by (simp_all add: conf_set_def conf_int_first_def conf_int_second_def bit_simps)

text \<open>The command that turns a line off, if it has no driver.\<close>

definition turned_off :: "'h ps2 \<Rightarrow> (u16 \<times> u8) list" where
  "turned_off s = (if p2_active_devices s 0 = nullptr then [(0x64, 0xad)] else [])
     @ (if p2_active_devices s 1 = nullptr then [(0x64, 0xa7)] else [])"

lemma finish_lines:
  assumes "conf_read chip s = (c, s1)"
  shows "\<exists>conf s'. finish_line chip second_line (finish_line chip first_line (conf_read chip s)) = (conf, s')
    \<and> talk s1 (turned_off s) [] s' \<and> (p2_active_devices s 0 \<noteq> nullptr \<longrightarrow> bit conf 0) \<and> (p2_active_devices s 1 \<noteq> nullptr \<longrightarrow> bit conf 1)"
proof -
  have "p2_active_devices s1 = p2_active_devices s" using talk_conf_read [of s chip] assms by (auto simp: talk_def)
  moreover have off: "talk s [(0x64, 0xad)] [] (send_command chip disable_1 s)" "talk s [(0x64, 0xa7)] [] (send_command chip disable_2 s)" for s :: "'a ps2"
    using talk_send_command [of s disable_1 chip] talk_send_command [of s disable_2 chip] by (simp_all add: cmd_value_def)
  moreover have "p2_active_devices (send_command chip disable_1 s1) = p2_active_devices s1" using off(1) [of s1] by (simp add: talk_def)
  moreover have "talk s1 [(0x64, 0xad), (0x64, 0xa7)] [] (send_command chip disable_2 (send_command chip disable_1 s1))"
    using talk_trans [OF off(1) [of s1] off(2)] by simp
  ultimately show ?thesis using assms
    by (auto simp: finish_line_def line_simps line_disable_def turned_off_def conf_masks talk_refl conf_masks [unfolded One_nat_def])
qed

lemma lines_tested:
  assumes "sleeps chip"
  shows "\<exists>s' ws rs. for_each_line (\<lambda>line s. bindE (line_test chip line s) (\<lambda>(r, s). Inr s))
      (line_disable chip second_line (snd (conf_read chip (line_enable chip second_line s)))) = Inr s' \<and> talk s ws rs s'"
proof -
  let ?s2 = "snd (conf_read chip (line_enable chip second_line s))"
  let ?s3 = "line_disable chip second_line ?s2"
  obtain b where b: "talk (line_enable chip second_line s) [(0x64, 0x20)] [b] ?s2" using talk_conf_read by blast
  obtain t1 s4 ws4 rs4 where l1: "line_test chip first_line ?s3 = Inr (t1, s4)" "talk ?s3 ws4 rs4 s4"
    using line_test_returns [OF assms] by blast
  obtain t2 s5 ws5 rs5 where l2: "line_test chip second_line s4 = Inr (t2, s5)" "talk s4 ws5 rs5 s5"
    using line_test_returns [OF assms] by blast
  have "\<exists>ws rs. talk s ws rs s5"
    using talk_trans [OF talk_send_command talk_trans [OF b [unfolded line_enable_def] talk_trans [OF talk_send_command
      talk_trans [OF l1(2) [unfolded line_disable_def line_enable_def] l2(2)]]]] by blast
  then show ?thesis using l1(1) l2(1) by (simp add: for_each_line_eq del: One_nat_def)
qed

lemma initialize_ps2_returns:
  assumes "sleeps chip" "drains chip pending" "drv_probe drv kbd = keyboard_probe chip" "p2_known_devices s = []"
  shows "initialize_ps2 chip drv kbd s = Inl (Panic ''PS/2: controller self-test failed!'')
    \<or> (\<exists>s' ws conf. initialize_ps2 chip drv kbd s = Inr s'
      \<and> p2_writes s' = p2_writes s @ [(0x64, 0xad), (0x64, 0xa7)] @ ws @ turned_off s' @ [(0x64, 0x60), (0x60, conf)]
      \<and> p2_irq_vectors s' = 0x2c # 0x21 # p2_irq_vectors s
      \<and> p2_active_devices s' 0 \<in> {nullptr, kbd} \<and> p2_active_devices s' 1 \<in> {nullptr, kbd}
      \<and> (p2_active_devices s' 0 \<noteq> nullptr \<longrightarrow> bit conf 0) \<and> (p2_active_devices s' 1 \<noteq> nullptr \<longrightarrow> bit conf 1))"
proof -
  let ?s0 = "register_driver kbd s"
  have s0: "p2_known_devices ?s0 = [kbd]" "p2_writes ?s0 = p2_writes s" "p2_irq_vectors ?s0 = p2_irq_vectors s"
    using assms(4) by (simp_all add: register_driver_def MAX_REGISTERED_DEVICES_def)
  obtain passed s1 ws1 rs1 where u: "ps2_setup chip ?s0 = Inr (passed, s1)" "talk ?s0 ([(0x64, 0xad), (0x64, 0xa7)] @ ws1) rs1 s1"
    using ps2_setup_returns [OF assms(1,2)] by blast
  obtain s5 ws5 rs5 where l: "for_each_line (\<lambda>line s. bindE (line_test chip line s) (\<lambda>(r, s). Inr s))
      (line_disable chip second_line (snd (conf_read chip (line_enable chip second_line s1)))) = Inr s5" "talk s1 ws5 rs5 s5"
    using lines_tested [OF assms(1)] by blast
  let ?s6 = "line_enable chip second_line (line_enable chip first_line (add_ps2_handler SECOND_LINE_IRQ (add_ps2_handler FIRST_LINE_IRQ s5)))"
  obtain ws6 where s6: "p2_writes ?s6 = p2_writes s @ [(0x64, 0xad), (0x64, 0xa7)] @ ws6" "p2_known_devices ?s6 = [kbd]"
      "p2_irq_vectors ?s6 = 0x2c # 0x21 # p2_irq_vectors s"
    using l(2) u(2) s0
    by (auto simp: talk_def line_enable_def add_ps2_handler_def send_command_def ps2_outb_def FIRST_LINE_IRQ_def SECOND_LINE_IRQ_def min_irq_vector_def)
  obtain s7 ws7 where p: "probe_devices drv ?s6 = Inr s7" "p2_writes s7 = p2_writes ?s6 @ ws7" "p2_irq_vectors s7 = p2_irq_vectors ?s6"
      "p2_active_devices s7 0 \<in> {nullptr, kbd}" "p2_active_devices s7 1 \<in> {nullptr, kbd}"
    using probe_devices_keyboard [OF assms(1-3) s6(2)] by blast
  obtain c8 s8 where r8: "conf_read chip s7 = (c8, s8)" by fastforce
  then obtain b8 where t8: "talk s7 [(0x64, 0x20)] [b8] s8" using talk_conf_read [of s7 chip] by auto
  obtain conf s9 where f: "finish_line chip second_line (finish_line chip first_line (conf_read chip s7)) = (conf, s9)"
      "talk s8 (turned_off s7) [] s9" "p2_active_devices s7 0 \<noteq> nullptr \<longrightarrow> bit conf 0" "p2_active_devices s7 1 \<noteq> nullptr \<longrightarrow> bit conf 1"
    using finish_lines [OF r8] by blast
  let ?s' = "conf_write chip conf s9"
  have t9: "talk s7 ([(0x64, 0x20)] @ turned_off s7 @ [(0x64, 0x60), (0x60, conf)]) ([b8] @ [] @ []) ?s'"
    by (intro talk_trans [OF t8] talk_trans [OF f(2)] talk_conf_write)
  have "initialize_ps2 chip drv kbd s = (if passed then Inr ?s' else Inl (Panic ''PS/2: controller self-test failed!''))"
    unfolding initialize_ps2_def
    by (simp add: u(1) case_prod_unfold l(1) [unfolded case_prod_unfold] for_each_line_eq [where f = "\<lambda>line s. Inr (line_enable chip line s)"]
        p(1) f(1) Let_def del: One_nat_def)
  moreover have "turned_off ?s' = turned_off s7" using t9 by (simp add: turned_off_def talk_def)
  ultimately show ?thesis using t9 s6 p f(3,4) by (cases passed) (auto simp: talk_def)
qed

section \<open>A chip\<close>

text \<open>A chip that holds the bytes to be read in a queue and answers at once, with a keyboard on both lines.\<close>

definition answers :: "u16 \<Rightarrow> u8 \<Rightarrow> u8 list" where
  "answers port b =
     (if port = 0x64 then (if b = 0xaa then [0x55] else if b = 0x20 then [0x30] else if b = 0xab \<or> b = 0xa9 then [0] else [])
      else if b = 0xf2 then [0xfa, 0xab, 0x83] else if b = 0xf4 \<or> b = 0xf5 then [0xfa] else [])"

definition queue_chip :: "u8 list ps2_chip" where
  "queue_chip = \<lparr>chip_inb = (\<lambda>port q. if port = 0x64 then (if q = [] then 0 else 1, q) else if q = [] then (0, []) else (hd q, tl q)),
     chip_outb = (\<lambda>port b q. q @ answers port b), chip_sleep_ms = (\<lambda>ms q. Inr q)\<rparr>"

lemma queue_chip_ok: "sleeps queue_chip" "drains queue_chip length"
  by (auto simp: sleeps_def drains_def queue_chip_def)

definition example_ps2 :: "u8 list ps2" where
  "example_ps2 = \<lparr>p2_chip = [], p2_writes = [], p2_reads = [], p2_known_devices = [], p2_active_devices = (\<lambda>_. nullptr),
     p2_irq_vectors = [], p2_kbd = kbd_initial\<rparr>"

definition example_drivers :: "u8 list ps2_drivers" where
  "example_drivers = \<lparr>drv_probe = (\<lambda>dev. keyboard_probe queue_chip), drv_handle_irq = (\<lambda>dev s. Inr (IRQ_NONE, s))\<rparr>"

lemma queue_chip_probed:
  "(case initialize_ps2 queue_chip example_drivers 0x7000 example_ps2 of Inl e \<Rightarrow> nullptr | Inr s' \<Rightarrow> p2_active_devices s' 1) = 0x7000"
  by code_simp

section \<open>Properties\<close>

text \<open>
  The probe of the keyboard driver returns on every chip whose buffer runs dry, and it succeeds exactly when the
  device acknowledged the command to stop scanning, acknowledged the command to identify itself and sent
  the two bytes of the identifier, after what was in the buffer before. It sends no other bytes to the
  device than stop, identify and start, in this order, and redirects them on a line that needs it.
\<close>

theorem keyboard_probed:
  assumes "sleeps chip" "drains chip pending"
  shows "\<exists>r s' ws junk rs. keyboard_probe chip line s = Inr (r, s') \<and> talk s ws (junk @ rs) s'
    \<and> (r = probe_ok \<longleftrightarrow> take 4 rs = [0xfa, 0xfa, 0xab, 0x83])
    \<and> (\<exists>k. data_writes ws = take k [0xf5, 0xf2, 0xf4]) \<and> set ws \<subseteq> set (redirection line) \<union> {(0x60, 0xf5), (0x60, 0xf2), (0x60, 0xf4)}"
  using assms by (rule keyboard_probe_returns)

theorem keyboard_probed_witness:
  "\<exists>r s' ws junk rs. keyboard_probe queue_chip second_line example_ps2 = Inr (r, s') \<and> talk example_ps2 ws (junk @ rs) s'
    \<and> (r = probe_ok \<longleftrightarrow> take 4 rs = [0xfa, 0xfa, 0xab, 0x83])"
  using keyboard_probed [OF queue_chip_ok, of second_line example_ps2] by blast



end
