(* ===== verification/Pit_Timer.thy ===== *)
theory Pit_Timer
  imports Mem_Utils
begin

text \<open>
  The timer: \<^verbatim>\<open>devices/src/frequency_divider.hpp\<close> and \<^verbatim>\<open>.cpp\<close>, the interrupt handler and the
  initialisation in \<^verbatim>\<open>devices/src/pit.cpp\<close>, and \<^verbatim>\<open>libkernelcxx/src/time.cpp\<close>. The configured
  frequency \<^verbatim>\<open>HZ\<close> is an argument. Writes to ports are returned as a list in the order of the writes.
\<close>

section \<open>Frequency divider\<close>

record divider =
  fd_pit :: u16
  fd_counter :: u32
  fd_restart :: u32

definition divider_default :: divider where
  "divider_default = \<lparr>fd_pit = 0, fd_counter = 0, fd_restart = 0\<rparr>"

definition pit_timeout :: "divider \<Rightarrow> u16" where
  "pit_timeout d = fd_pit d"

definition is_low_frequency :: "divider \<Rightarrow> bool" where
  "is_low_frequency d \<longleftrightarrow> fd_restart d \<noteq> 0"

definition set_frequency :: "u32 \<Rightarrow> u32 \<Rightarrow> u32 \<Rightarrow> divider \<Rightarrow> divider result" where
  "set_frequency hz hw_pit_freq hw_max_divider d =
     (if hz = 0 then Inl Undef
      else
        let full_div = hw_pit_freq div hz;
            full_div = (if full_div = 0 then 1 else full_div);
            d1 = (if full_div > hw_max_divider
                  then d\<lparr>fd_pit := 100, fd_restart := full_div div 100\<rparr>
                  else d\<lparr>fd_pit := ucast (shiftmask full_div 0 0xffff), fd_restart := 0\<rparr>)
        in Inr (d1\<lparr>fd_counter := fd_restart d1\<rparr>))"

definition do_tick :: "divider \<Rightarrow> divider \<times> bool" where
  "do_tick d =
     (if fd_counter d \<noteq> 0 then (d\<lparr>fd_counter := fd_counter d - 1\<rparr>, False)
      else (d\<lparr>fd_counter := fd_restart d\<rparr>, True))"

section \<open>The interrupt handler and the initialisation\<close>

definition PIT_FREQUENCY :: u32 where
  "PIT_FREQUENCY = 1193182"

definition MAX_DIVIDER :: u32 where
  "MAX_DIVIDER = 65535"

datatype pit_port = timer_port | speaker_port | cmd_port

definition pit_port_value :: "pit_port \<Rightarrow> u16" where
  "pit_port_value p = (case p of timer_port \<Rightarrow> 0x40 | speaker_port \<Rightarrow> 0x42 | cmd_port \<Rightarrow> 0x43)"

definition num_mode_bin :: u8 where
  "num_mode_bin = push_bit 0 1"

definition oper_mode_m2 :: u8 where
  "oper_mode_m2 = push_bit 1 2"

definition acc_mode_latch :: u8 where
  "acc_mode_latch = push_bit 4 0"

definition pit_channel_ch0 :: u8 where
  "pit_channel_ch0 = push_bit 6 0"

record timer =
  tm_divider :: divider
  jiffies :: u32

definition pit_handle_irq :: "timer \<Rightarrow> timer" where
  "pit_handle_irq t =
     (let (d, tick) = do_tick (tm_divider t)
      in if tick then t\<lparr>tm_divider := d, jiffies := jiffies t + 1\<rparr> else t\<lparr>tm_divider := d\<rparr>)"

record pit_setup =
  ps_writes :: "(u16 \<times> u8) list"
  ps_vector :: u8
  ps_divider :: divider
  ps_warned :: bool

definition pit_init :: "u32 \<Rightarrow> u8 \<Rightarrow> pit_setup result" where
  "pit_init HZ min_irq_vector =
     bindE (set_frequency HZ PIT_FREQUENCY MAX_DIVIDER divider_default) (\<lambda>d.
       let cmd = pit_channel_ch0 OR acc_mode_latch OR oper_mode_m2 OR num_mode_bin
       in Inr \<lparr>ps_writes =
                 [(pit_port_value cmd_port, cmd),
                  (pit_port_value timer_port, ucast (shiftmask (ucast (pit_timeout d)) 0 0xff)),
                  (pit_port_value timer_port, ucast (shiftmask (ucast (pit_timeout d)) 8 0xff))],
               ps_vector = min_irq_vector + 0, ps_divider = d, ps_warned = is_low_frequency d\<rparr>)"

section \<open>Waiting\<close>

definition low_part :: "u32 \<Rightarrow> u32" where
  "low_part v = v mod 1000"

definition high_part :: "u32 \<Rightarrow> u32" where
  "high_part v = v div 1000"

definition ms_to_ticks :: "u32 \<Rightarrow> u32 \<Rightarrow> u32" where
  "ms_to_ticks HZ ms =
     (let ticks = high_part ms * high_part HZ * 1000;
          ticks = ticks + high_part ms * low_part HZ;
          ticks = ticks + low_part ms * high_part HZ;
          trunkated_part = low_part ms * low_part HZ;
          ticks = ticks + trunkated_part div 1000
      in if trunkated_part mod 1000 \<noteq> 0 then ticks + 1 else ticks)"

text \<open>
  While a task sleeps, the interrupt handler and the other tasks run. The values that the loop reads
  from \<^verbatim>\<open>jiffies\<close> are given as a function \<open>clock\<close> of the number of the read. The loop returns the number
  of its calls of \<^verbatim>\<open>sched::yield\<close>.
\<close>

partial_function (option) sleep_loop :: "(nat \<Rightarrow> u32) \<Rightarrow> u32 \<Rightarrow> nat \<Rightarrow> nat option" where
  "sleep_loop clock end_of_sleep k =
     (if clock k < end_of_sleep then sleep_loop clock end_of_sleep (k + 1) else Some k)"

definition sleep_ticks :: "bool \<Rightarrow> (nat \<Rightarrow> u32) \<Rightarrow> u32 \<Rightarrow> nat result" where
  "sleep_ticks irq_enabled clock ticks_timeout =
     (if \<not> irq_enabled then Inl (Panic ''sleep with disabled interrupts'')
      else bindE (of_loop (sleep_loop clock (clock 0 + ticks_timeout) 1)) (\<lambda>k. Inr (k - 1)))"

definition sleep_ms :: "bool \<Rightarrow> (nat \<Rightarrow> u32) \<Rightarrow> u32 \<Rightarrow> u32 \<Rightarrow> nat result" where
  "sleep_ms irq_enabled clock HZ ms = sleep_ticks irq_enabled clock (ms_to_ticks HZ ms)"

section \<open>The divider counts\<close>

lemma do_tick_divider:
  "fd_restart (fst (do_tick d)) = fd_restart d" "fd_pit (fst (do_tick d)) = fd_pit d"
  by (simp_all add: do_tick_def)

text \<open>The number of hardware ticks since the last software tick.\<close>

definition elapsed :: "divider \<Rightarrow> nat" where
  "elapsed d = unat (fd_restart d) - unat (fd_counter d)"

definition divider_ok :: "divider \<Rightarrow> bool" where
  "divider_ok d \<longleftrightarrow> fd_counter d \<le> fd_restart d"

lemma do_tick_elapsed:
  assumes "divider_ok d"
  shows "divider_ok (fst (do_tick d))"
    "snd (do_tick d) \<longleftrightarrow> elapsed d = unat (fd_restart d)"
    "elapsed (fst (do_tick d)) = (if snd (do_tick d) then 0 else elapsed d + 1)"
proof -
  have le: "unat (fd_counter d) \<le> unat (fd_restart d)" using assms by (simp add: divider_ok_def word_le_nat_alt)
  have dec: "unat (fd_counter d - 1) = unat (fd_counter d) - 1" "0 < unat (fd_counter d)" if "fd_counter d \<noteq> 0"
    using that by (simp_all add: unat_minus_one unat_gt_0)
  show "divider_ok (fst (do_tick d))" using le dec by (auto simp: divider_ok_def do_tick_def word_le_nat_alt)
  show "snd (do_tick d) \<longleftrightarrow> elapsed d = unat (fd_restart d)"
    using le dec by (auto simp: do_tick_def elapsed_def)
  show "elapsed (fst (do_tick d)) = (if snd (do_tick d) then 0 else elapsed d + 1)"
    using le dec by (auto simp: do_tick_def elapsed_def)
qed

lemma timer_runs:
  fixes t :: timer
  assumes "divider_ok (tm_divider t)"
  defines "p \<equiv> unat (fd_restart (tm_divider t)) + 1"
  shows "divider_ok (tm_divider ((pit_handle_irq ^^ n) t))
    \<and> fd_restart (tm_divider ((pit_handle_irq ^^ n) t)) = fd_restart (tm_divider t)
    \<and> jiffies ((pit_handle_irq ^^ n) t) = jiffies t + of_nat ((elapsed (tm_divider t) + n) div p)
    \<and> elapsed (tm_divider ((pit_handle_irq ^^ n) t)) = (elapsed (tm_divider t) + n) mod p"
proof (induction n)
  case 0
  have "elapsed (tm_divider t) < p" by (simp add: p_def elapsed_def)
  then show ?case using assms by simp
next
  case (Suc n)
  let ?s = "(pit_handle_irq ^^ n) t"
  let ?d = "tm_divider ?s"
  let ?m = "elapsed (tm_divider t) + n"
  have ok: "divider_ok ?d" and r: "fd_restart ?d = fd_restart (tm_divider t)"
    and j: "jiffies ?s = jiffies t + of_nat (?m div p)" and e: "elapsed ?d = ?m mod p" using Suc.IH by auto
  note tick = do_tick_elapsed [OF ok]
  have step: "tm_divider ((pit_handle_irq ^^ Suc n) t) = fst (do_tick ?d)"
    "jiffies ((pit_handle_irq ^^ Suc n) t) = jiffies ?s + (if snd (do_tick ?d) then 1 else 0)"
    by (auto simp: pit_handle_irq_def Let_def split: prod.splits)
  have last: "snd (do_tick ?d) \<longleftrightarrow> ?m mod p = p - 1" using tick(2) r e by (simp add: p_def)
  have p: "0 < p" by (simp add: p_def)
  have dm: "Suc ?m div p = (if ?m mod p = p - 1 then ?m div p + 1 else ?m div p)"
    "Suc ?m mod p = (if ?m mod p = p - 1 then 0 else ?m mod p + 1)"
    using p by (auto simp: div_Suc mod_Suc)
  show ?case using step tick(1,3) last dm j e r by (auto simp: do_tick_divider)
qed

lemma set_frequency_fresh:
  assumes "set_frequency hz f m d = Inr d'"
  shows "divider_ok d'" "elapsed d' = 0"
  using assms by (auto simp: set_frequency_def divider_ok_def elapsed_def Let_def split: if_splits)

section \<open>Conversion of times\<close>

lemma div_1000_parts: "(a::u32) div 1000 = of_nat (unat a div 1000)"
  using of_nat_unat_u32 [of "a div 1000", symmetric] unfolding unat_div by simp

lemma mod_1000_parts: "(a::u32) mod 1000 = of_nat (unat a mod 1000)"
  using of_nat_unat_u32 [of "a mod 1000", symmetric] unfolding unat_mod by simp

lemma ceil_parts:
  fixes a b c d :: nat
  shows "((1000 * a + b) * (1000 * c + d) + 999) div 1000
    = 1000 * a * c + a * d + b * c + (b * d + 999) div 1000"
proof -
  have "(1000 * a + b) * (1000 * c + d) + 999 = 1000 * (1000 * a * c + a * d + b * c) + (b * d + 999)"
    by (simp add: algebra_simps)
  then show ?thesis by (simp only: div_mult_self4)
qed

lemma ceil_1000: "((x::nat) + 999) div 1000 = x div 1000 + (if x mod 1000 \<noteq> 0 then 1 else 0)"
proof -
  define q r where "q = x div 1000" and "r = x mod 1000"
  have x: "x = 1000 * q + r" "r < 1000" by (simp_all add: q_def r_def)
  have "(x + 999) div 1000 = q + (r + 999) div 1000" unfolding x(1) by (simp add: add.assoc)
  moreover have "(r + 999) div 1000 = (if r \<noteq> 0 then 1 else 0)"
  proof (cases "r = 0")
    case False
    then have "r + 999 = 1000 + (r - 1)" "r - 1 < 1000" using x(2) by simp_all
    then show ?thesis using False by (simp only: div_add_self1) simp
  qed simp
  ultimately show ?thesis by (simp add: q_def r_def)
qed

lemma unat_trunkated: "unat (low_part a * low_part b) = (unat a mod 1000) * (unat b mod 1000)"
proof -
  have "unat (low_part a) < 1000" "unat (low_part b) < 1000" by (simp_all add: low_part_def unat_mod)
  then have "unat (low_part a) * unat (low_part b) \<le> 1000 * 1000" by (intro mult_mono) simp_all
  then show ?thesis by (subst unat_mult_u32) (simp_all add: low_part_def unat_mod)
qed

text \<open>If some read is not below the end of the sleep, the loop ends with the first such read.\<close>

lemma sleep_loop_ends:
  assumes "e \<le> clock m" "k \<le> m"
  shows "\<exists>n\<ge>k. n \<le> m \<and> sleep_loop clock e k = Some n \<and> e \<le> clock n \<and> (\<forall>i. k \<le> i \<and> i < n \<longrightarrow> clock i < e)"
  using assms(2)
proof (induction "m - k" arbitrary: k)
  case 0
  then show ?case using assms(1) by (subst sleep_loop.simps) auto
next
  case (Suc j)
  show ?case
  proof (cases "clock k < e")
    case True
    have "j = m - (k + 1)" "k + 1 \<le> m" using Suc.hyps(2) by simp_all
    from Suc.hyps(1) [OF this] obtain n where n: "n \<ge> k + 1" "n \<le> m" "sleep_loop clock e (k + 1) = Some n" "e \<le> clock n"
      "\<forall>i. k + 1 \<le> i \<and> i < n \<longrightarrow> clock i < e" by blast
    have "clock i < e" if "k \<le> i" "i < n" for i using that True n(5) by (cases "i = k") auto
    moreover have "sleep_loop clock e k = Some n" using True n(3) by (subst sleep_loop.simps) simp
    ultimately show ?thesis using n by (intro exI [of _ n]) auto
  next
    case False
    then show ?thesis using Suc.prems by (subst sleep_loop.simps) auto
  qed
qed

section \<open>Properties\<close>

text \<open>
  C27: with a configured frequency, \<open>n\<close> timer interrupts advance the jiffies by the number of complete
  periods of \<open>restart + 1\<close> interrupts.
\<close>

theorem timer_counts_periods:
  assumes "set_frequency hz f m d = Inr d'"
  shows "jiffies ((pit_handle_irq ^^ n) \<lparr>tm_divider = d', jiffies = j\<rparr>) = j + of_nat (n div (unat (fd_restart d') + 1))"
  using timer_runs [of "\<lparr>tm_divider = d', jiffies = j\<rparr>" n] set_frequency_fresh [OF assms] by simp

theorem timer_counts_periods_witness:
  "jiffies ((pit_handle_irq ^^ 2388) \<lparr>tm_divider = \<lparr>fd_pit = 100, fd_counter = 1193, fd_restart = 1193\<rparr>, jiffies = 5\<rparr>) = 7"
  using timer_counts_periods [of 10 PIT_FREQUENCY MAX_DIVIDER divider_default "\<lparr>fd_pit = 100, fd_counter = 1193, fd_restart = 1193\<rparr>" 2388 5]
  by (simp add: set_frequency_def PIT_FREQUENCY_def MAX_DIVIDER_def divider_default_def Let_def)

text \<open>
  The time between two software ticks, in periods of the PIT clock, is exactly the wanted divider
  when the hardware can divide that far; else it is above the wanted divider, by at most 100.
\<close>

theorem timer_period:
  assumes "set_frequency hz f m d = Inr d'" and "m \<le> 65535" and "hz \<le> f"
  shows "if f div hz \<le> m then \<not> is_low_frequency d' \<and> unat (pit_timeout d') = unat f div unat hz
    else unat f div unat hz < unat (pit_timeout d') * (unat (fd_restart d') + 1)
      \<and> unat (pit_timeout d') * (unat (fd_restart d') + 1) \<le> unat f div unat hz + 100"
proof -
  have nz: "hz \<noteq> 0" using assms(1) by (auto simp: set_frequency_def)
  then have "0 < unat hz" "unat hz \<le> unat f" using assms(3) by (auto simp: unat_gt_0 word_le_nat_alt)
  then have "0 < unat (f div hz)" by (simp add: unat_div div_greater_zero_iff)
  then have full: "f div hz \<noteq> 0" by (simp add: unat_gt_0)
  have mask: "ucast (shiftmask x 0 0xffff) = (ucast x :: u16)" for x :: u32
  proof -
    have m: "(0xffff :: u32) = mask 16" by (simp add: mask_eq_exp_minus_1)
    show ?thesis unfolding shiftmask_def m by (rule bit_eqI) (auto simp: bit_simps)
  qed
  show ?thesis
  proof (cases "f div hz \<le> m")
    case True
    then have "unat (f div hz) \<le> 65535" using assms(2) by (simp add: word_le_nat_alt)
    then have "unat (ucast (f div hz) :: u16) = unat f div unat hz" by (simp add: unsigned_ucast_eq take_bit_eq_mod unat_div)
    then show ?thesis using True assms(1) nz full
      by (auto simp: set_frequency_def Let_def is_low_frequency_def pit_timeout_def mask)
  next
    case False
    then have "d' = d\<lparr>fd_pit := 100, fd_restart := f div hz div 100, fd_counter := f div hz div 100\<rparr>"
      using assms(1) nz full by (auto simp: set_frequency_def Let_def)
    moreover have "x < 100 * (x div 100 + 1) \<and> 100 * (x div 100 + 1) \<le> x + 100" for x :: nat
    proof -
      define q r where "q = x div 100" and "r = x mod 100"
      have "x = 100 * q + r" "r < 100" by (simp_all add: q_def r_def)
      then show ?thesis unfolding q_def [symmetric] by simp
    qed
    ultimately show ?thesis using False by (simp add: pit_timeout_def unat_div)
  qed
qed

theorem timer_period_witness:
  "unat PIT_FREQUENCY div 10 < 100 * 1194 \<and> 100 * 1194 \<le> unat PIT_FREQUENCY div 10 + 100"
  using timer_period [of 10 PIT_FREQUENCY MAX_DIVIDER divider_default "\<lparr>fd_pit = 100, fd_counter = 1193, fd_restart = 1193\<rparr>"]
  by (simp add: set_frequency_def PIT_FREQUENCY_def MAX_DIVIDER_def divider_default_def Let_def pit_timeout_def)

text \<open>
  C35: \<^verbatim>\<open>ms_to_ticks\<close> is the number of milliseconds times the frequency, divided by 1000 and rounded up.
  No intermediate result overflows: the result is exact modulo the width of the integer.
\<close>

theorem ms_to_ticks_rounds_up:
  "ms_to_ticks HZ ms = of_nat ((unat ms * unat HZ + 999) div 1000)"
proof -
  let ?a = "unat ms div 1000" and ?b = "unat ms mod 1000" and ?c = "unat HZ div 1000" and ?d = "unat HZ mod 1000"
  have parts: "high_part ms = of_nat ?a" "low_part ms = of_nat ?b" "high_part HZ = of_nat ?c" "low_part HZ = of_nat ?d"
    by (simp_all only: high_part_def low_part_def div_1000_parts mod_1000_parts)
  have tr: "unat (low_part ms * low_part HZ) = ?b * ?d" by (rule unat_trunkated)
  have div: "(low_part ms * low_part HZ) div 1000 = of_nat (?b * ?d div 1000)"
  proof -
    have "unat (low_part ms * low_part HZ div 1000) = ?b * ?d div 1000" by (simp only: unat_div tr) simp
    then show ?thesis by (metis of_nat_unat_u32)
  qed
  have mod: "(low_part ms * low_part HZ) mod 1000 \<noteq> 0 \<longleftrightarrow> ?b * ?d mod 1000 \<noteq> 0"
    by (simp only: u32_eq_iff_unat unat_mod tr) simp
  have "unat ms * unat HZ = (1000 * ?a + ?b) * (1000 * ?c + ?d)" by simp
  then have goal: "(unat ms * unat HZ + 999) div 1000
      = 1000 * ?a * ?c + ?a * ?d + ?b * ?c + (?b * ?d div 1000 + (if ?b * ?d mod 1000 \<noteq> 0 then 1 else 0))"
    by (simp only: ceil_parts ceil_1000 [of "?b * ?d"])
  show ?thesis
    unfolding goal ms_to_ticks_def Let_def mod div by (simp add: parts algebra_simps)
qed

text \<open>
  C34: a sleep whose end does not exceed the range of the jiffies returns if the jiffies reach its end,
  after the first read that is not below the end. A sleep whose end wraps around returns at once.
\<close>

theorem sleep_lasts:
  assumes "ms_to_ticks HZ ms = t"
  shows "if unat (clock 0) + unat t < 4294967296
    then (\<forall>k. clock 0 + t \<le> clock (k + 1) \<longrightarrow> (\<exists>n\<le>k. sleep_ms True clock HZ ms = Inr n
        \<and> unat (clock 0) + unat t \<le> unat (clock (n + 1))
        \<and> (\<forall>i<n. unat (clock (i + 1)) < unat (clock 0) + unat t)))
    else clock 0 \<le> clock 1 \<longrightarrow> sleep_ms True clock HZ ms = Inr 0"
proof -
  show ?thesis
  proof (cases "unat (clock 0) + unat t < 4294967296")
    case True
    then have e: "unat (clock 0 + t) = unat (clock 0) + unat t" by (rule unat_add_u32)
    have "\<exists>n\<le>k. sleep_ms True clock HZ ms = Inr n
        \<and> unat (clock 0) + unat t \<le> unat (clock (n + 1))
        \<and> (\<forall>i<n. unat (clock (i + 1)) < unat (clock 0) + unat t)" if k: "clock 0 + t \<le> clock (k + 1)" for k
    proof -
      obtain n where n: "n \<ge> 1" "n \<le> k + 1" "sleep_loop clock (clock 0 + t) 1 = Some n" "clock 0 + t \<le> clock n"
        "\<forall>i. 1 \<le> i \<and> i < n \<longrightarrow> clock i < clock 0 + t" using sleep_loop_ends [of "clock 0 + t" clock "k + 1" 1] k by auto
      have "sleep_ms True clock HZ ms = Inr (n - 1)" using n(3) assms by (simp add: sleep_ms_def sleep_ticks_def)
      moreover have "n - 1 + 1 = n" using n(1) by simp
      ultimately show ?thesis using n e by (intro exI [of _ "n - 1"]) (auto simp: word_le_nat_alt word_less_nat_alt)
    qed
    then show ?thesis using True by simp
  next
    case False
    have "\<not> clock 1 < clock 0 + t" if "clock 0 \<le> clock 1"
    proof -
      have lt: "unat (clock 0) + unat t - 4294967296 < 4294967296"
        using unat_u32_less [of "clock 0"] unat_u32_less [of t] by linarith
      have "unat (clock 0 + t) = unat (clock 0) + unat t - 4294967296"
        using False lt
        by (simp only: unat_word_ariths) (simp add: le_mod_geq)
      then have "unat (clock 0 + t) \<le> unat (clock 0)" using unat_u32_less [of t] by linarith
      then show ?thesis using that by (simp add: word_le_nat_alt word_less_nat_alt)
    qed
    then have "clock 0 \<le> clock 1 \<longrightarrow> sleep_loop clock (clock 0 + t) 1 = Some 1" by (subst sleep_loop.simps) auto
    then show ?thesis using False assms by (simp add: sleep_ms_def sleep_ticks_def)
  qed
qed

theorem sleep_lasts_witness:
  "sleep_ms True (\<lambda>k. 0xFFFFFFF0 + of_nat (min k 1)) 10 2000 = Inr 0"
  using sleep_lasts [of 10 2000 20 "\<lambda>k. 0xFFFFFFF0 + of_nat (min k 1)"]
  by (simp add: ms_to_ticks_def high_part_def low_part_def Let_def)

end
