(* ===== verification/Running_Kernel.thy ===== *)
theory Running_Kernel
  imports Ps2_Controller Pit_Timer
begin

text \<open>
  The interrupts of the running kernel: the dispatcher of \<^verbatim>\<open>x86/src/irq.cpp\<close> together with the handlers
  of \<^verbatim>\<open>devices/src/pit.cpp\<close> and \<^verbatim>\<open>devices/ps2/src/controller.cpp\<close>.
\<close>

section \<open>Interrupts of the running kernel\<close>

text \<open>What the interrupt handlers act on: the timer and the PS/2 controller with its keyboard.\<close>

record 'h world =
  kw_timer :: timer
  kw_ps2 :: "'h ps2"

definition timer_irq_handler :: "'h world irq_handler" where
  "timer_irq_handler vector w = Inr (w\<lparr>kw_timer := pit_handle_irq (kw_timer w)\<rparr>, IRQ_HANDLED)"

definition ps2_controller_handler :: "'h ps2_drivers \<Rightarrow> 'h world irq_handler" where
  "ps2_controller_handler drv vector w =
     bindE (ps2_handle_irq drv vector (kw_ps2 w)) (\<lambda>(st, s). Inr (w\<lparr>kw_ps2 := s\<rparr>, st))"

text \<open>A sequence of interrupts, each with the frame that the processor pushed for it.\<close>

primrec run_irqs :: "('f, 'w) int_manager \<Rightarrow> (u8 \<times> 'f) list \<Rightarrow> 'w int_state \<Rightarrow> 'w int_state result" where
  "run_irqs m [] s = Inr s"
| "run_irqs m (v # vs) s = bindE (handle_irq m (fst v) (snd v) s) (run_irqs m vs)"

text \<open>The manager has the handlers of the timer and of the controller, and no others.\<close>

definition kernel_handlers :: "'h ps2_drivers \<Rightarrow> ('f, 'h world) int_manager \<Rightarrow> bool" where
  "kernel_handlers drv m \<longleftrightarrow> irq_handlers m = (\<lambda>_. [])(0x20 := [timer_irq_handler],
     0x21 := [ps2_controller_handler drv], 0x2c := [ps2_controller_handler drv])"

text \<open>The bytes that the chip gives at the next reads of its data port.\<close>

primrec delivers :: "'h ps2_chip \<Rightarrow> u8 list \<Rightarrow> 'h \<Rightarrow> bool" where
  "delivers chip [] h \<longleftrightarrow> True"
| "delivers chip (b # bs) h \<longleftrightarrow> fst (chip_inb chip PS2_PORT_DATA h) = b \<and> delivers chip bs (snd (chip_inb chip PS2_PORT_DATA h))"

text \<open>A keyboard is active on the first line, nothing on the second.\<close>

definition keyboard_on_first :: "'h ps2_chip \<Rightarrow> 'h ps2_drivers \<Rightarrow> 'h ps2 \<Rightarrow> bool" where
  "keyboard_on_first chip drv s \<longleftrightarrow> p2_active_devices s 0 \<noteq> nullptr
     \<and> drv_handle_irq drv (p2_active_devices s 0) = keyboard_handle_irq chip \<and> p2_active_devices s 1 = nullptr"

lemma keyboard_irq:
  assumes "keyboard_on_first chip drv s" "delivers chip (b # bs) (p2_chip s)" "kbd_handle_byte b (p2_kbd s) = Some k"
  shows "\<exists>s'. ps2_handle_irq drv 0x21 s = Inr (IRQ_HANDLED, s') \<and> p2_kbd s' = k \<and> delivers chip bs (p2_chip s')
    \<and> keyboard_on_first chip drv s'"
proof -
  obtain h where h: "chip_inb chip PS2_PORT_DATA (p2_chip s) = (b, h)" "delivers chip bs h"
    using assms(2) by (cases "chip_inb chip PS2_PORT_DATA (p2_chip s)") simp
  have "ps2_handle_irq drv 0x21 s = keyboard_handle_irq chip s"
    using assms(1) by (simp add: ps2_handle_irq_def FIRST_LINE_IRQ_def min_irq_vector_def ps2_irq_handler_def keyboard_on_first_def)
  then show ?thesis using h assms(1,3)
    by (simp add: keyboard_handle_irq_def receive_byte_def ps2_inb_def keyboard_on_first_def)
qed

lemma second_line_irq: "keyboard_on_first chip drv s \<Longrightarrow> ps2_handle_irq drv 0x2c s = Inr (IRQ_NONE, s)"
  by (simp add: ps2_handle_irq_def FIRST_LINE_IRQ_def SECOND_LINE_IRQ_def min_irq_vector_def ps2_irq_handler_def keyboard_on_first_def)

text \<open>One interrupt of each kind.\<close>

lemma hardware_vector: "0x20 \<le> v \<Longrightarrow> \<not> is_exception v"
  by (simp add: is_exception_def exception_max_def)

lemmas dispatching = handle_irq_def hardware_vector dispatch_interrupt_def kernel_handlers_def Let_def

lemma handle_timer_irq:
  "kernel_handlers drv m \<Longrightarrow> handle_irq m 0x20 f s = Inr (s\<lparr>is_pic := end_of_interrupt 0x20 (is_pic s),
     is_world := (is_world s)\<lparr>kw_timer := pit_handle_irq (kw_timer (is_world s))\<rparr>\<rparr>)"
  by (cases s) (simp add: dispatching timer_irq_handler_def)

lemma handle_keyboard_irq:
  "kernel_handlers drv m \<Longrightarrow> ps2_handle_irq drv 0x21 (kw_ps2 (is_world s)) = Inr (IRQ_HANDLED, p)
   \<Longrightarrow> handle_irq m 0x21 f s = Inr (s\<lparr>is_pic := end_of_interrupt 0x21 (is_pic s), is_world := (is_world s)\<lparr>kw_ps2 := p\<rparr>\<rparr>)"
  by (cases s) (simp add: dispatching ps2_controller_handler_def)

lemma handle_other_irq:
  assumes "kernel_handlers drv m" "keyboard_on_first chip drv (kw_ps2 (is_world s))" "0x20 \<le> v" "v \<noteq> 0x20" "v \<noteq> 0x21"
  shows "handle_irq m v f s = Inr (s\<lparr>is_pic := end_of_interrupt v (is_pic s), is_unhandled := is_unhandled s @ [v]\<rparr>)"
  using assms second_line_irq [OF assms(2)]
  by (cases s; cases "v = 0x2c") (simp_all add: dispatching ps2_controller_handler_def)

lemma run_irqs_typed:
  assumes "kernel_handlers drv m" "\<forall>v \<in> set irqs. 0x20 \<le> fst v"
    and "keyboard_on_first chip drv (kw_ps2 (is_world s))" "delivers chip bs (p2_chip (kw_ps2 (is_world s)))"
    and "kbd_feed bs (p2_kbd (kw_ps2 (is_world s))) = Some k" "length bs = count_list (map fst irqs) 0x21"
  shows "\<exists>s'. run_irqs m irqs s = Inr s' \<and> p2_kbd (kw_ps2 (is_world s')) = k
    \<and> kw_timer (is_world s') = (pit_handle_irq ^^ count_list (map fst irqs) 0x20) (kw_timer (is_world s))
    \<and> is_pic s' = fold end_of_interrupt (map fst irqs) (is_pic s)
    \<and> is_unhandled s' = is_unhandled s @ filter (\<lambda>v. v \<noteq> 0x20 \<and> v \<noteq> 0x21) (map fst irqs)"
  using assms
proof (induction irqs arbitrary: s bs)
  case (Cons v irqs)
  note hyps = Cons.IH [OF Cons.prems(1)]
  consider (timer) "fst v = 0x20" | (keyboard) "fst v = 0x21" | (other) "fst v \<noteq> 0x20" "fst v \<noteq> 0x21" by blast
  then show ?case
  proof cases
    case timer
    then show ?thesis
      using hyps [of "s\<lparr>is_pic := end_of_interrupt 0x20 (is_pic s), is_world := (is_world s)\<lparr>kw_timer := pit_handle_irq (kw_timer (is_world s))\<rparr>\<rparr>" bs]
        Cons.prems by (simp add: handle_timer_irq [OF Cons.prems(1)] funpow_swap1 del: funpow.simps) (simp add: funpow_swap1)
  next
    case keyboard
    then obtain b bs' where bs: "bs = b # bs'" "length bs' = count_list (map fst irqs) 0x21" using Cons.prems(6) by (cases bs) auto
    obtain k1 where k1: "kbd_handle_byte b (p2_kbd (kw_ps2 (is_world s))) = Some k1" "kbd_feed bs' k1 = Some k"
      using Cons.prems(5) bs by (auto split: option.splits)
    obtain p where p: "ps2_handle_irq drv 0x21 (kw_ps2 (is_world s)) = Inr (IRQ_HANDLED, p)" "p2_kbd p = k1"
      "delivers chip bs' (p2_chip p)" "keyboard_on_first chip drv p"
      using keyboard_irq [OF Cons.prems(3) _ k1(1), of bs'] Cons.prems(4) bs by auto
    show ?thesis using hyps [of "s\<lparr>is_pic := end_of_interrupt 0x21 (is_pic s), is_world := (is_world s)\<lparr>kw_ps2 := p\<rparr>\<rparr>" bs'] Cons.prems(2)
      by (simp add: handle_keyboard_irq [OF Cons.prems(1) p(1)] keyboard p bs k1(2))
  next
    case other
    then show ?thesis
      using hyps [of "s\<lparr>is_pic := end_of_interrupt (fst v) (is_pic s), is_unhandled := is_unhandled s @ [fst v]\<rparr>" bs] Cons.prems
      by (simp add: handle_other_irq [OF Cons.prems(1,3) _ other])
  qed
qed auto

section \<open>An example\<close>

definition typing_drivers :: "u8 list ps2_drivers" where
  "typing_drivers = \<lparr>drv_probe = (\<lambda>dev. keyboard_probe queue_chip), drv_handle_irq = (\<lambda>dev. keyboard_handle_irq queue_chip)\<rparr>"

definition typing_manager :: "(unit, u8 list world) int_manager" where
  "typing_manager = int_manager_construct\<lparr>irq_handlers := (\<lambda>_. [])(0x20 := [timer_irq_handler],
     0x21 := [ps2_controller_handler typing_drivers], 0x2c := [ps2_controller_handler typing_drivers])\<rparr>"

definition typing_state :: "u8 list world int_state" where
  "typing_state = \<lparr>is_pic = pic_construct, is_unhandled = [],
     is_world = \<lparr>kw_timer = \<lparr>tm_divider = divider_default, jiffies = 0\<rparr>,
       kw_ps2 = example_ps2\<lparr>p2_chip := [0x33, 0xf0, 0x33], p2_active_devices := \<lambda>n. if n = 0 then 0x7000 else nullptr\<rparr>\<rparr>\<rparr>"

section \<open>Properties\<close>



end
