(* ===== verification/Intrusive_List.thy ===== *)
theory Intrusive_List
  imports Kernel_Prelude
begin

text \<open>
  The circular list of \<^verbatim>\<open>libkernelcxx/include/ext/intrusive_circular_list.hpp\<close>. A node is embedded in its
  owner, so both are given by one address. The heap maps addresses to the two links of a node.
\<close>

section \<open>Definitions\<close>

record ilist =
  il_next :: "ptr \<Rightarrow> ptr"
  il_prev :: "ptr \<Rightarrow> ptr"
  il_some :: ptr

definition il_empty :: "ilist \<Rightarrow> bool" where
  "il_empty s \<longleftrightarrow> il_some s = nullptr"

definition il_set_next :: "ptr \<Rightarrow> ptr \<Rightarrow> ilist \<Rightarrow> ilist" where
  "il_set_next a b s = s\<lparr>il_next := (il_next s)(a := b)\<rparr>"

definition il_set_prev :: "ptr \<Rightarrow> ptr \<Rightarrow> ilist \<Rightarrow> ilist" where
  "il_set_prev a b s = s\<lparr>il_prev := (il_prev s)(a := b)\<rparr>"

definition il_insert :: "ptr \<Rightarrow> ilist \<Rightarrow> ilist" where
  "il_insert v s =
     (if il_some s = nullptr
      then (il_set_next v v (il_set_prev v v s))\<lparr>il_some := v\<rparr>
      else
        let s1 = il_set_next v (il_next s (il_some s)) s;
            s2 = il_set_prev v (il_some s1) s1;
            s3 = il_set_prev (il_next s2 (il_some s2)) v s2
        in il_set_next (il_some s3) v s3)"

definition il_remove :: "ptr \<Rightarrow> ilist \<Rightarrow> (ilist \<times> ptr) result" where
  "il_remove v s =
     (if v = il_next s v
      then Inr ((il_set_prev v nullptr (il_set_next v nullptr s))\<lparr>il_some := nullptr\<rparr>, nullptr)
      else
        let ret_node = il_next s v
        in if il_prev s v = nullptr \<or> ret_node = nullptr then Inl Undef
           else
             let s1 = il_set_next (il_prev s v) (il_next s v) s;
                 s2 = il_set_prev (il_next s1 v) (il_prev s1 v) s1;
                 s3 = il_set_next v nullptr s2;
                 s4 = il_set_prev v nullptr s3;
                 s5 = (if il_some s4 = v then s4\<lparr>il_some := ret_node\<rparr> else s4)
             in Inr (s5, ret_node))"

text \<open>
  The range-based loop. An iterator is a node and the number of its shifts; it is at the end when it is
  at the node where the list began and has been shifted. The visited owners are collected.
\<close>

record il_iterator =
  it_node :: ptr
  it_shift :: u32

definition il_begin :: "ilist \<Rightarrow> il_iterator" where
  "il_begin s = \<lparr>it_node = il_some s, it_shift = 0\<rparr>"

definition il_at_end :: "ptr \<Rightarrow> il_iterator \<Rightarrow> bool" where
  "il_at_end end_node it \<longleftrightarrow> it_node it = end_node \<and> it_shift it \<noteq> 0"

definition il_inc :: "ilist \<Rightarrow> il_iterator \<Rightarrow> il_iterator result" where
  "il_inc s it =
     (if it_node it = nullptr then Inl Undef
      else Inr (it\<lparr>it_node := il_next s (it_node it), it_shift := it_shift it + 1\<rparr>))"

definition il_visit_step :: "ilist \<Rightarrow> il_iterator \<times> ptr list \<Rightarrow> (il_iterator \<times> ptr list) result" where
  "il_visit_step s = (\<lambda>(it, seen).
     if it_node it = nullptr then Inl Undef
     else bindE (il_inc s it) (\<lambda>it1. Inr (it1, seen @ [it_node it])))"

definition il_visit :: "ilist \<Rightarrow> ptr list result" where
  "il_visit s =
     bindE (while_result (\<lambda>(it, seen). \<not> il_at_end (il_some s) it) (il_visit_step s) (il_begin s, []))
       (\<lambda>(it, seen). Inr seen)"

section \<open>Circles in the heap\<close>

fun il_linked :: "ilist \<Rightarrow> ptr list \<Rightarrow> bool" where
  "il_linked s (x # y # zs) \<longleftrightarrow> il_next s x = y \<and> il_prev s y = x \<and> il_linked s (y # zs)"
| "il_linked s _ \<longleftrightarrow> True"

definition il_rep :: "ilist \<Rightarrow> ptr list \<Rightarrow> bool" where
  "il_rep s xs \<longleftrightarrow> nullptr \<notin> set xs \<and> distinct xs
     \<and> (case xs of [] \<Rightarrow> il_some s = nullptr | x # rest \<Rightarrow> il_some s = x \<and> il_linked s (xs @ [x]))"

lemma il_linked_Cons: "ys \<noteq> [] \<Longrightarrow> il_linked s (x # ys) \<longleftrightarrow> il_next s x = hd ys \<and> il_prev s (hd ys) = x \<and> il_linked s ys"
  by (cases ys) simp_all

lemma il_linked_append:
  "xs \<noteq> [] \<Longrightarrow> ys \<noteq> [] \<Longrightarrow>
    il_linked s (xs @ ys) \<longleftrightarrow> il_linked s xs \<and> il_next s (last xs) = hd ys \<and> il_prev s (hd ys) = last xs \<and> il_linked s ys"
proof (induction xs rule: il_linked.induct)
  case (1 s x y zs)
  then show ?case by simp
qed (simp_all add: il_linked_Cons)

lemma il_linked_cong:
  "(\<And>a. a \<in> set (butlast xs) \<Longrightarrow> il_next s' a = il_next s a) \<Longrightarrow> (\<And>a. a \<in> set (tl xs) \<Longrightarrow> il_prev s' a = il_prev s a)
    \<Longrightarrow> il_linked s' xs \<longleftrightarrow> il_linked s xs"
proof (induction xs rule: il_linked.induct [where ?a0.0 = s])
  case (1 s x y zs)
  have "il_linked s' (y # zs) \<longleftrightarrow> il_linked s (y # zs)" using "1.prems" by (intro "1.IH") auto
  then show ?case using "1.prems" by auto
qed simp_all

text \<open>Taking a node out of the middle of a chain.\<close>

lemma il_unlink:
  assumes "il_linked s (us @ v # ws)" "us \<noteq> []" "ws \<noteq> []"
    and "last us \<notin> set (butlast us)" "last us \<notin> set (butlast ws)" "hd ws \<notin> set (tl us)" "hd ws \<notin> set (tl ws)"
    and "v \<notin> set us" "v \<notin> set ws"
    and nx: "\<And>a. a \<noteq> v \<Longrightarrow> a \<noteq> last us \<Longrightarrow> il_next s' a = il_next s a" "il_next s' (last us) = hd ws"
    and pv: "\<And>a. a \<noteq> v \<Longrightarrow> a \<noteq> hd ws \<Longrightarrow> il_prev s' a = il_prev s a" "il_prev s' (hd ws) = last us"
  shows "il_linked s' (us @ ws)"
proof -
  have l: "il_linked s us" "il_linked s ws"
    using assms(1-3) by (auto simp: il_linked_append il_linked_Cons)
  have "il_linked s' us \<longleftrightarrow> il_linked s us"
    using assms(4,6,8) nx(1) pv(1) by (intro il_linked_cong) (metis in_set_butlastD, metis list.set_sel(2) assms(2))
  moreover have "il_linked s' ws \<longleftrightarrow> il_linked s ws"
    using assms(5,7,9) nx(1) pv(1) by (intro il_linked_cong) (metis in_set_butlastD, metis list.set_sel(2) assms(3))
  ultimately show ?thesis using l nx(2) pv(2) assms(2,3) by (simp add: il_linked_append)
qed

lemma il_insert_rep:
  assumes "il_rep s xs" "v \<noteq> nullptr" "v \<notin> set xs"
  shows "il_rep (il_insert v s) (case xs of [] \<Rightarrow> [v] | x # rest \<Rightarrow> x # v # rest)"
proof (cases xs)
  case Nil
  then show ?thesis using assms by (simp add: il_rep_def il_insert_def il_set_next_def il_set_prev_def)
next
  case (Cons x rest)
  let ?ws = "rest @ [x]"
  let ?y = "hd ?ws"
  have x: "il_some s = x" "x \<noteq> nullptr" "v \<noteq> x" "distinct (x # rest)" "il_linked s (x # ?ws)"
    using assms Cons by (auto simp: il_rep_def)
  have y: "il_next s x = ?y" "il_linked s ?ws" "v \<noteq> ?y" using x(5) assms(3) Cons by (auto simp: il_linked_Cons hd_append)
  define s' where "s' = s\<lparr>il_next := (il_next s)(v := ?y, x := v), il_prev := (il_prev s)(v := x, ?y := v)\<rparr>"
  have ins: "il_insert v s = s'"
    using x y by (simp add: il_insert_def il_set_next_def il_set_prev_def Let_def s'_def)
  have "il_linked s' ?ws \<longleftrightarrow> il_linked s ?ws"
  proof (rule il_linked_cong)
    show "il_next s' a = il_next s a" if "a \<in> set (butlast ?ws)" for a
      using that x(4) assms(3) Cons by (auto simp: s'_def)
    show "il_prev s' a = il_prev s a" if "a \<in> set (tl ?ws)" for a
      using that x(3,4) assms(3) Cons by (cases rest) (auto simp: s'_def)
  qed
  moreover have "il_next s' x = v" "il_prev s' v = x" "il_next s' v = ?y" "il_prev s' ?y = v"
    using x(3) y(3) by (auto simp: s'_def)
  ultimately have "il_linked s' (x # v # ?ws)" using y(2) by (simp add: il_linked_Cons)
  then show ?thesis using assms Cons x ins by (simp add: il_rep_def s'_def)
qed

text \<open>What a removal does to the links of a node with two neighbours.\<close>

lemma il_remove_links:
  assumes "il_linked s (us @ v # ws)" "us \<noteq> []" "ws \<noteq> []" "v \<notin> set us" "v \<notin> set ws" "nullptr \<notin> set us" "nullptr \<notin> set ws"
    and "last us \<notin> set (butlast us)" "last us \<notin> set (butlast ws)" "hd ws \<notin> set (tl us)" "hd ws \<notin> set (tl ws)"
  shows "\<exists>s'. il_remove v s = Inr (s', hd ws) \<and> il_linked s' (us @ ws)
    \<and> il_some s' = (if il_some s = v then hd ws else il_some s)"
proof -
  have v: "il_prev s v = last us" "il_next s v = hd ws"
    using assms(1-3) by (auto simp: il_linked_append il_linked_Cons)
  have ne: "hd ws \<noteq> v" "last us \<noteq> v" "hd ws \<noteq> nullptr" "last us \<noteq> nullptr"
    using assms(2-7) by (metis hd_in_set, metis last_in_set, metis hd_in_set, metis last_in_set)
  define s' where "s' = s\<lparr>il_next := (il_next s)(last us := hd ws, v := nullptr),
    il_prev := (il_prev s)(hd ws := last us, v := nullptr), il_some := (if il_some s = v then hd ws else il_some s)\<rparr>"
  have "il_remove v s = Inr (s', hd ws)"
    using v ne by (auto simp: il_remove_def il_set_next_def il_set_prev_def Let_def s'_def)
  moreover have "il_linked s' (us @ ws)"
    using ne by (intro il_unlink [OF assms(1-3,8-11,4,5)]) (auto simp: s'_def)
  ultimately show ?thesis by (auto simp: s'_def)
qed

lemma last_notin_butlast: "distinct xs \<Longrightarrow> xs \<noteq> [] \<Longrightarrow> last xs \<notin> set (butlast xs)"
  by (cases xs rule: rev_cases) auto

lemma il_remove_rep:
  assumes "il_rep s (as @ v # bs)"
  shows "\<exists>s'. il_remove v s = Inr (s', if as @ bs = [] then nullptr else hd (bs @ as)) \<and> il_rep s' (as @ bs)"
proof (cases as)
  case as: Nil
  show ?thesis
  proof (cases bs)
    case Nil
    then show ?thesis using assms as by (simp add: il_rep_def il_remove_def il_set_next_def il_set_prev_def)
  next
    case (Cons b bs')
    have r: "il_some s = v" "distinct (v # bs)" "nullptr \<notin> set bs" "il_linked s (v # bs @ [v])"
      using assms as by (auto simp: il_rep_def)
    then have lk: "il_linked s (bs @ v # [b])"
      using il_linked_append [of "bs @ [v]" "[b]" s] il_linked_Cons [of "bs @ [v]" s v] Cons by (simp del: il_linked.simps(1))
    have lb: "last bs \<notin> set (butlast bs)" using r(2) Cons by (intro last_notin_butlast) auto
    have "\<exists>s'. il_remove v s = Inr (s', hd [b]) \<and> il_linked s' (bs @ [b])
        \<and> il_some s' = (if il_some s = v then hd [b] else il_some s)"
      by (rule il_remove_links [OF lk _ _ _ _ _ _ lb]) (use r Cons in auto)
    then obtain s' where "il_remove v s = Inr (s', b)" "il_linked s' (bs @ [b])" "il_some s' = b" using r(1) by auto
    then show ?thesis using r as Cons by (auto simp: il_rep_def)
  qed
next
  case (Cons a as')
  have r: "il_some s = a" "distinct (as @ v # bs)" "nullptr \<notin> set (as @ v # bs)" "il_linked s (as @ v # bs @ [a])"
    using assms Cons by (auto simp: il_rep_def)
  have lb: "last as \<notin> set (butlast as)" using r(2) Cons by (intro last_notin_butlast) auto
  have "last as \<in> set as" using Cons by (intro last_in_set) simp
  then have lw: "last as \<notin> set (butlast (bs @ [a]))" using r(2) by auto
  have "\<exists>s'. il_remove v s = Inr (s', hd (bs @ [a])) \<and> il_linked s' (as @ bs @ [a])
      \<and> il_some s' = (if il_some s = v then hd (bs @ [a]) else il_some s)"
  proof (rule il_remove_links [OF r(4) _ _ _ _ _ _ lb lw])
    show "hd (bs @ [a]) \<notin> set (tl as)" "hd (bs @ [a]) \<notin> set (tl (bs @ [a]))" using r(2) Cons by (cases bs; auto)+
  qed (use r Cons in auto)
  then obtain s' where "il_remove v s = Inr (s', hd (bs @ [a]))" "il_linked s' (as @ bs @ [a])" "il_some s' = a"
    using r Cons by auto
  then show ?thesis using r Cons by (cases bs) (auto simp: il_rep_def)
qed

lemma il_visit_loop:
  assumes "il_linked s (x # ys @ [e])" "e = il_some s" "x \<noteq> nullptr" "nullptr \<notin> set ys" "e \<notin> set ys"
    and "k + length ys + 1 < 4294967296" "k = 0 \<or> x \<noteq> e"
  shows "\<exists>it. while_result (\<lambda>(it, seen). \<not> il_at_end (il_some s) it) (il_visit_step s) (\<lparr>it_node = x, it_shift = of_nat k\<rparr>, seen)
    = Inr (it, seen @ x # ys)"
  using assms
proof (induction ys arbitrary: x k seen)
  case Nil
  have "of_nat (Suc k) \<noteq> (0 :: u32)" using Nil.prems(6) by (simp add: u32_eq_iff_unat unat_of_nat_u32 del: of_nat_Suc)
  then have "il_at_end (il_some s) \<lparr>it_node = e, it_shift = of_nat k + 1\<rparr>" using Nil.prems(2) by (simp add: il_at_end_def ac_simps)
  then have stop: "while_result (\<lambda>(it, seen). \<not> il_at_end (il_some s) it) (il_visit_step s) (\<lparr>it_node = e, it_shift = of_nat k + 1\<rparr>, t)
      = Inr (\<lparr>it_node = e, it_shift = of_nat k + 1\<rparr>, t)" for t by (subst while_result_unfold) simp
  have "\<not> il_at_end (il_some s) \<lparr>it_node = x, it_shift = of_nat k\<rparr>" using Nil.prems(2,7) by (auto simp: il_at_end_def)
  moreover have "il_visit_step s (\<lparr>it_node = x, it_shift = of_nat k\<rparr>, seen) = Inr (\<lparr>it_node = e, it_shift = of_nat k + 1\<rparr>, seen @ [x])"
    using Nil.prems(1,3) by (simp add: il_visit_step_def il_inc_def)
  ultimately show ?case using stop by (subst while_result_unfold) simp
next
  case (Cons y ys)
  have "\<not> il_at_end (il_some s) \<lparr>it_node = x, it_shift = of_nat k\<rparr>" using Cons.prems(2,7) by (auto simp: il_at_end_def)
  moreover have "il_visit_step s (\<lparr>it_node = x, it_shift = of_nat k\<rparr>, seen) = Inr (\<lparr>it_node = y, it_shift = of_nat (Suc k)\<rparr>, seen @ [x])"
    using Cons.prems(1,3) by (simp add: il_visit_step_def il_inc_def ac_simps)
  moreover have "\<exists>it. while_result (\<lambda>(it, seen). \<not> il_at_end (il_some s) it) (il_visit_step s)
      (\<lparr>it_node = y, it_shift = of_nat (Suc k)\<rparr>, seen @ [x]) = Inr (it, (seen @ [x]) @ y # ys)"
    using Cons.prems by (intro Cons.IH) auto
  ultimately show ?case by (subst while_result_unfold) auto
qed

section \<open>Properties\<close>

text \<open>
  C18: the circular list refines a list of nodes. Inserting puts a node behind the first one, removing a
  node takes it out wherever it is, returns its successor and moves the begin of the list on when the
  first node is removed, and the range-based loop visits every node exactly once. The loop over an
  empty list dereferences the null pointer.
\<close>

theorem circular_list_refines:
  assumes "il_rep s xs"
  shows "(\<forall>v. v \<noteq> nullptr \<and> v \<notin> set xs \<longrightarrow>
        il_rep (il_insert v s) (case xs of [] \<Rightarrow> [v] | x # rest \<Rightarrow> x # v # rest))
    \<and> (\<forall>as v bs. xs = as @ v # bs \<longrightarrow>
        (\<exists>s'. il_remove v s = Inr (s', if as @ bs = [] then nullptr else hd (bs @ as)) \<and> il_rep s' (as @ bs)))
    \<and> (length xs < 4294967296 \<longrightarrow> il_visit s = (if xs = [] then Inl Undef else Inr xs))"
proof (intro conjI allI impI)
  show "il_rep (il_insert v s) (case xs of [] \<Rightarrow> [v] | x # rest \<Rightarrow> x # v # rest)" if "v \<noteq> nullptr \<and> v \<notin> set xs" for v
    using il_insert_rep [OF assms] that by blast
  show "\<exists>s'. il_remove v s = Inr (s', if as @ bs = [] then nullptr else hd (bs @ as)) \<and> il_rep s' (as @ bs)"
    if "xs = as @ v # bs" for as v bs
    using il_remove_rep assms that by blast
  show "il_visit s = (if xs = [] then Inl Undef else Inr xs)" if len: "length xs < 4294967296"
  proof (cases xs)
    case Nil
    then show ?thesis using assms
      unfolding il_visit_def by (subst while_result_unfold) (simp add: il_rep_def il_begin_def il_at_end_def il_visit_step_def)
  next
    case (Cons x ys)
    have "\<exists>it. while_result (\<lambda>(it, seen). \<not> il_at_end (il_some s) it) (il_visit_step s) (\<lparr>it_node = x, it_shift = of_nat 0\<rparr>, [])
        = Inr (it, [] @ x # ys)"
      by (rule il_visit_loop) (use assms len Cons in \<open>auto simp: il_rep_def\<close>)
    then show ?thesis using assms Cons by (auto simp: il_rep_def il_visit_def il_begin_def)
  qed
qed

theorem circular_list_refines_witness:
  "il_rep (il_insert 0x20 (il_insert 0x10 \<lparr>il_next = \<lambda>_. 0, il_prev = \<lambda>_. 0, il_some = nullptr\<rparr>)) [0x10, 0x20]
    \<and> il_visit (il_insert 0x10 \<lparr>il_next = \<lambda>_. 0, il_prev = \<lambda>_. 0, il_some = nullptr\<rparr>) = Inr [0x10]"
proof -
  have "il_rep (il_insert 0x10 \<lparr>il_next = \<lambda>_. 0, il_prev = \<lambda>_. 0, il_some = nullptr\<rparr>) [0x10]"
    by (simp add: il_rep_def il_insert_def il_set_next_def il_set_prev_def)
  from circular_list_refines [OF this] show ?thesis by (auto dest: spec [of _ "0x20"])
qed

end
