(* ===== verification/Scheduler.thy ===== *)
theory Scheduler
  imports Intrusive_List Interrupts
begin

text \<open>
  The cooperative scheduler \<^verbatim>\<open>sched\<close>. The tasks are in the circular list, the finished tasks in a list.
  A switch to a task runs it until it gives the processor back. What a task does in a turn is given by
  its script: the tasks that it creates, and whether it returns from its routine in this turn or yields.
\<close>

section \<open>Definitions\<close>

text \<open>The frame that a new task starts on.\<close>

record new_task_stack =
  nts_ebp2 :: ptr
  nts_flags :: bool
  nts_ebp1 :: ptr
  nts_eip :: ptr
  nts_task :: ptr

record task =
  ti_id :: u32
  ti_exited :: bool
  ti_stack :: ptr
  ti_name :: string
  ti_esp :: ptr
  ti_frame :: new_task_stack

text \<open>A new task: its address, its stack and its name.\<close>

record new_task =
  nt_addr :: ptr
  nt_stack :: ptr
  nt_name :: string

type_synonym turn = "new_task list \<times> bool"

record sched =
  sc_tasks :: ilist
  sc_finished_tasks :: "ptr list"
  sc_scheduler_task :: ptr
  sc_current :: ptr
  sc_task :: "ptr \<Rightarrow> task"
  sc_next_task_id :: u32
  sc_irq :: irq_flag
  sc_script :: "ptr \<Rightarrow> turn list"
  sc_ran :: "ptr list"
  sc_deleted :: "ptr list"
  sc_freed :: "ptr list"

definition stack_pages :: u32 where
  "stack_pages = 16"

definition task_construct :: "new_task \<Rightarrow> u32 \<Rightarrow> ptr \<Rightarrow> task" where
  "task_construct n tid old_eip =
     \<lparr>ti_id = tid, ti_exited = False, ti_stack = nt_stack n, ti_name = take 15 (nt_name n),
      ti_esp = nt_stack n + 4096 * stack_pages,
      ti_frame = \<lparr>nts_ebp2 = 0, nts_flags = False, nts_ebp1 = 0, nts_eip = old_eip, nts_task = 0\<rparr>\<rparr>"

text \<open>How a task prints itself.\<close>

definition shl_task_id :: "u32 \<Rightarrow> 's ostream \<times> 's \<Rightarrow> ('s ostream \<times> 's) result" where
  "shl_task_id tid = guarded (out_items [O_dec, O_u32 tid])"

definition shl_task :: "task \<Rightarrow> 's ostream \<times> 's \<Rightarrow> ('s ostream \<times> 's) result" where
  "shl_task t = guarded (\<lambda>x.
     bindE (out_items [O_str ''Task['', O_str (ti_name t), O_str ''](''] x) (\<lambda>x1.
     bindE (shl_task_id (ti_id t) x1)
       (out_items [O_str '')'', O_str ''{.esp='', O_hex, O_ptr (ti_esp t), O_str '',.stack='', O_ptr (ti_stack t), O_str ''}''])))"

text \<open>The address of \<^verbatim>\<open>Task::start_on_new_frame\<close> is an argument.\<close>

definition sched_create_task :: "ptr \<Rightarrow> new_task \<Rightarrow> sched \<Rightarrow> sched" where
  "sched_create_task entry n s =
     (let t = task_construct n (sc_next_task_id s) 0;
          frame = \<lparr>nts_ebp2 = ti_stack t - 8, nts_flags = cpu_if (sc_irq s), nts_ebp1 = ti_stack t - 8,
                   nts_eip = entry, nts_task = nt_addr n\<rparr>;
          t1 = t\<lparr>ti_esp := ti_esp t - 20, ti_frame := frame\<rparr>
      in s\<lparr>sc_next_task_id := sc_next_task_id s + 1, sc_tasks := il_insert (nt_addr n) (sc_tasks s),
           sc_task := (sc_task s)(nt_addr n := t1)\<rparr>)"

definition should_schedule :: "sched \<Rightarrow> ptr \<Rightarrow> bool" where
  "should_schedule s t \<longleftrightarrow> t \<noteq> sc_scheduler_task s \<and> \<not> ti_exited (sc_task s t)"

text \<open>The part of \<^verbatim>\<open>switch_to\<close> before the switch of the stacks.\<close>

definition switch_out :: "ptr \<Rightarrow> sched \<Rightarrow> sched result" where
  "switch_out t s =
     bindE (irq_is_enabled (sc_irq s)) (\<lambda>en.
       if \<not> en then Inl (Panic ''switching while interrupts are disabled'')
       else Inr (s\<lparr>sc_irq := fst (irq_disable (sc_irq s)), sc_current := t\<rparr>))"

text \<open>The part behind it, when the task that called it runs again.\<close>

definition switch_in :: "sched \<Rightarrow> sched" where
  "switch_in s = s\<lparr>sc_irq := irq_enable (sc_irq s)\<rparr>"

definition sched_yield_out :: "sched \<Rightarrow> sched result" where
  "sched_yield_out s = switch_out (sc_scheduler_task s) s"

definition handle_exit_push :: "ptr \<Rightarrow> sched \<Rightarrow> sched" where
  "handle_exit_push t s =
     (let (c, s1) = with_irq_lock (\<lambda>(c, s). (c, s\<lparr>sc_finished_tasks := t # sc_finished_tasks s\<rparr>)) (sc_irq s, s)
      in s1\<lparr>sc_irq := c\<rparr>)"

definition next_turn :: "sched \<Rightarrow> ptr \<Rightarrow> turn" where
  "next_turn s t = (case sc_script s t of [] \<Rightarrow> ([], False) | x # xs \<Rightarrow> x)"

text \<open>
  A turn of a task: \<^verbatim>\<open>Task::run\<close> at its begin, or its return from the last \<^verbatim>\<open>yield\<close>, turns the interrupts
  on. At the end of its routine a task is marked, handed over to the scheduler, and yields for ever.
\<close>

definition run_turn :: "ptr \<Rightarrow> ptr \<Rightarrow> sched \<Rightarrow> sched result" where
  "run_turn entry t s =
     (let s1 = switch_in s;
          (news, exits) = next_turn s1 t;
          s2 = fold (sched_create_task entry) news
                 (s1\<lparr>sc_script := (sc_script s1)(t := tl (sc_script s1 t)), sc_ran := sc_ran s1 @ [t]\<rparr>)
      in if exits
         then sched_yield_out (handle_exit_push t (s2\<lparr>sc_task := (sc_task s2)(t := (sc_task s2 t)\<lparr>ti_exited := True\<rparr>)\<rparr>))
         else sched_yield_out s2)"

definition switch_to :: "ptr \<Rightarrow> ptr \<Rightarrow> sched \<Rightarrow> sched result" where
  "switch_to entry t s = bindE (switch_out t s) (\<lambda>s1. bindE (run_turn entry t s1) (\<lambda>s2. Inr (switch_in s2)))"

definition sched_set_irq :: "irq_flag \<Rightarrow> sched \<Rightarrow> sched" where
  "sched_set_irq c s = s\<lparr>sc_irq := c\<rparr>"

text \<open>One round of the loop over the tasks.\<close>

definition schedule_step :: "ptr \<Rightarrow> il_iterator \<times> sched \<Rightarrow> (il_iterator \<times> sched) result" where
  "schedule_step entry = (\<lambda>(it, s).
     if it_node it = nullptr then Inl Undef
     else
       bindE (if \<not> should_schedule s (it_node it) then Inr s
              else bindE (switch_to entry (it_node it) (sched_set_irq (irq_enable (sc_irq s)) s)) (\<lambda>s1.
                Inr (sched_set_irq (fst (irq_disable (sc_irq s1))) s1))) (\<lambda>s2.
       bindE (il_inc (sc_tasks s2) it) (\<lambda>it1. Inr (it1, s2))))"

text \<open>The destructor of a task gives its stack back to the page allocator.\<close>

definition task_destroy :: "ptr \<Rightarrow> sched \<Rightarrow> sched" where
  "task_destroy t s = s\<lparr>sc_freed := sc_freed s @ [ti_stack (sc_task s t)],
     sc_task := (sc_task s)(t := (sc_task s t)\<lparr>ti_stack := nullptr\<rparr>), sc_deleted := sc_deleted s @ [t]\<rparr>"

primrec remove_finished :: "ptr list \<Rightarrow> sched \<Rightarrow> sched result" where
  "remove_finished [] s = Inr s"
| "remove_finished (t # ts) s =
     bindE (il_remove t (sc_tasks s)) (\<lambda>(l, r). remove_finished ts (task_destroy t (s\<lparr>sc_tasks := l\<rparr>)))"

definition handle_finished_tasks :: "sched \<Rightarrow> sched result" where
  "handle_finished_tasks s =
     (let (c1, en) = irq_lock (sc_irq s)
      in bindE (remove_finished (sc_finished_tasks s) (sched_set_irq c1 s)) (\<lambda>s1.
           Inr (sched_set_irq (irq_unlock en (sc_irq s1)) (s1\<lparr>sc_finished_tasks := []\<rparr>))))"

definition schedule_round :: "ptr \<Rightarrow> sched \<Rightarrow> sched result" where
  "schedule_round entry s =
     (let s1 = sched_set_irq (fst (irq_disable (sc_irq s))) s
      in bindE (while_result (\<lambda>(it, s). \<not> il_at_end (il_some (sc_tasks s1)) it) (schedule_step entry)
           (il_begin (sc_tasks s1), s1)) (\<lambda>(it, s2).
         bindE (handle_finished_tasks s2) (\<lambda>s3. Inr (sched_set_irq (irq_enable (sc_irq s3)) s3))))"

text \<open>\<^verbatim>\<open>schedule_forever\<close>, for a number of rounds.\<close>

fun schedule_rounds :: "ptr \<Rightarrow> nat \<Rightarrow> sched \<Rightarrow> sched result" where
  "schedule_rounds entry 0 s = Inr s"
| "schedule_rounds entry (Suc k) s = bindE (schedule_round entry s) (schedule_rounds entry k)"

definition schedule_forever :: "ptr \<Rightarrow> nat \<Rightarrow> sched \<Rightarrow> sched result" where
  "schedule_forever entry k s =
     bindE (irq_is_enabled (sc_irq s)) (\<lambda>en.
       if \<not> en then Inl (Panic ''started scheduling with blocked interrupts'') else schedule_rounds entry k s)"

text \<open>The first switch is from the task of the scheduler to itself: it comes back at once.\<close>

definition start_scheduling :: "ptr \<Rightarrow> nat \<Rightarrow> sched \<Rightarrow> sched result" where
  "start_scheduling entry k s =
     bindE (switch_out (sc_scheduler_task s) s) (\<lambda>s1. schedule_forever entry k (switch_in s1))"

definition sched_construct :: "ptr \<Rightarrow> new_task \<Rightarrow> new_task option \<Rightarrow> sched \<Rightarrow> sched result" where
  "sched_construct entry scheduler main s =
     (let (c1, en) = irq_lock (sc_irq s); s = sched_set_irq c1 s
      in case main of
           None \<Rightarrow> Inl (Panic ''no main specified'')
         | Some m \<Rightarrow>
             let s = sched_create_task entry scheduler s;
                 s = s\<lparr>sc_scheduler_task := nt_addr scheduler\<rparr>;
                 s = sched_create_task entry m s;
                 s = s\<lparr>sc_current := sc_scheduler_task s\<rparr>
             in Inr (sched_set_irq (irq_unlock en (sc_irq s)) s))"

section \<open>The invariant\<close>

abbreviation irq_on :: irq_flag where
  "irq_on \<equiv> \<lparr>cpu_if = True, interrupts_enabled = True\<rparr>"

text \<open>The tasks behind the scheduler's own, in the order of the list, and those of them that have exited.\<close>

definition sched_ok :: "ptr list \<Rightarrow> sched \<Rightarrow> bool" where
  "sched_ok ts s \<longleftrightarrow> il_rep (sc_tasks s) (sc_scheduler_task s # ts) \<and> distinct (sc_finished_tasks s)
     \<and> set (sc_finished_tasks s) = {t \<in> set ts. ti_exited (sc_task s t)}"

lemma sched_okD:
  assumes "sched_ok ts s"
  shows "il_some (sc_tasks s) = sc_scheduler_task s" "sc_scheduler_task s \<noteq> nullptr" "nullptr \<notin> set ts"
    "distinct (sc_scheduler_task s # ts)" "il_linked (sc_tasks s) (sc_scheduler_task s # ts @ [sc_scheduler_task s])"
  using assms by (auto simp: sched_ok_def il_rep_def)

lemma sched_create_task_ok:
  assumes "sched_ok ts s" "nt_addr n \<noteq> nullptr" "nt_addr n \<notin> set (sc_scheduler_task s # ts)"
  shows "sched_ok (nt_addr n # ts) (sched_create_task entry n s)"
proof -
  have "il_rep (il_insert (nt_addr n) (sc_tasks s)) (sc_scheduler_task s # nt_addr n # ts)"
    using il_insert_rep [of "sc_tasks s" "sc_scheduler_task s # ts" "nt_addr n"] assms by (simp add: sched_ok_def)
  then show ?thesis using assms
    by (auto simp: sched_ok_def sched_create_task_def task_construct_def Let_def)
qed

lemma sched_create_task_other [simp]:
  "sc_finished_tasks (sched_create_task entry n s) = sc_finished_tasks s"
  "sc_scheduler_task (sched_create_task entry n s) = sc_scheduler_task s"
  "sc_irq (sched_create_task entry n s) = sc_irq s" "sc_ran (sched_create_task entry n s) = sc_ran s"
  "sc_deleted (sched_create_task entry n s) = sc_deleted s" "sc_freed (sched_create_task entry n s) = sc_freed s" "sc_script (sched_create_task entry n s) = sc_script s"
  "t \<noteq> nt_addr n \<Longrightarrow> sc_task (sched_create_task entry n s) t = sc_task s t"
  by (simp_all add: sched_create_task_def Let_def)

lemma fold_create_ok:
  assumes "sched_ok ts s" "distinct (map nt_addr news)" "nullptr \<notin> nt_addr ` set news"
    "nt_addr ` set news \<inter> set (sc_scheduler_task s # ts) = {}"
  shows "sched_ok (rev (map nt_addr news) @ ts) (fold (sched_create_task entry) news s)"
  using assms
proof (induction news arbitrary: s ts)
  case (Cons n news)
  have "sched_ok (nt_addr n # ts) (sched_create_task entry n s)"
    using Cons.prems by (intro sched_create_task_ok) auto
  from Cons.IH [OF this] Cons.prems show ?case by auto
qed simp

lemma fold_create_other [simp]:
  "sc_finished_tasks (fold (sched_create_task entry) news s) = sc_finished_tasks s"
  "sc_scheduler_task (fold (sched_create_task entry) news s) = sc_scheduler_task s"
  "sc_irq (fold (sched_create_task entry) news s) = sc_irq s" "sc_ran (fold (sched_create_task entry) news s) = sc_ran s"
  "sc_deleted (fold (sched_create_task entry) news s) = sc_deleted s"
  "sc_freed (fold (sched_create_task entry) news s) = sc_freed s" "sc_script (fold (sched_create_task entry) news s) = sc_script s"
  by (induction news arbitrary: s) simp_all

lemma fold_create_task: "t \<notin> nt_addr ` set news \<Longrightarrow> sc_task (fold (sched_create_task entry) news s) t = sc_task s t"
  by (induction news arbitrary: s) auto

section \<open>A turn of one task\<close>

abbreviation news_of :: "sched \<Rightarrow> ptr \<Rightarrow> ptr list" where
  "news_of s t \<equiv> map nt_addr (fst (next_turn s t))"

abbreviation exits :: "sched \<Rightarrow> ptr \<Rightarrow> bool" where
  "exits s t \<equiv> snd (next_turn s t)"

text \<open>The addresses of the tasks that the tasks of a list create in their next turns.\<close>

definition created :: "sched \<Rightarrow> ptr list \<Rightarrow> ptr list" where
  "created s ts = concat (map (news_of s) ts)"

lemma created_simps [simp]: "created s [] = []" "created s (t # ts) = news_of s t @ created s ts"
  by (simp_all add: created_def)

lemma next_turn_cong: "sc_script s t = sc_script s' t \<Longrightarrow> next_turn s t = next_turn s' t"
  by (simp add: next_turn_def)

lemma next_turn_irq [simp]:
  "next_turn (s\<lparr>sc_irq := c\<rparr>) t = next_turn s t" "next_turn (s\<lparr>sc_current := u\<rparr>) t = next_turn s t"
  by (simp_all add: next_turn_def)

lemma created_cong: "(\<And>t. t \<in> set ts \<Longrightarrow> next_turn s t = next_turn s' t) \<Longrightarrow> created s ts = created s' ts"
  by (induction ts) simp_all

lemma handle_exit_push_eq: "sc_irq s = irq_on \<Longrightarrow> handle_exit_push t s = s\<lparr>sc_finished_tasks := t # sc_finished_tasks s\<rparr>"
  by (simp add: handle_exit_push_def with_irq_lock_body [where y = "s\<lparr>sc_finished_tasks := t # sc_finished_tasks s\<rparr>"])

lemma switch_out_on: "sc_irq s = irq_on \<Longrightarrow> switch_out t s = Inr (s\<lparr>sc_irq := irq_off, sc_current := t\<rparr>)"
  by (simp add: switch_out_def irq_is_enabled_def irq_disable_def)

definition turn_done :: "ptr \<Rightarrow> ptr \<Rightarrow> sched \<Rightarrow> sched" where
  "turn_done entry t s =
     (let s2 = fold (sched_create_task entry) (fst (next_turn s t))
        (s\<lparr>sc_current := t, sc_irq := irq_on, sc_script := (sc_script s)(t := tl (sc_script s t)), sc_ran := sc_ran s @ [t]\<rparr>);
       s3 = (if exits s t then s2\<lparr>sc_task := (sc_task s2)(t := (sc_task s2 t)\<lparr>ti_exited := True\<rparr>), sc_finished_tasks := t # sc_finished_tasks s2\<rparr>
             else s2)
      in s3\<lparr>sc_current := sc_scheduler_task s, sc_irq := irq_on\<rparr>)"

lemma switch_to_turn_done: "sc_irq s = irq_on \<Longrightarrow> switch_to entry t s = Inr (turn_done entry t s)"
  by (simp add: switch_to_def switch_out_on run_turn_def case_prod_unfold Let_def sched_yield_out_def handle_exit_push_eq
      switch_in_def irq_enable_def turn_done_def)

lemma turn_done_ok:
  assumes "sched_ok ts s" "t \<in> set ts" "t \<notin> set (sc_finished_tasks s)"
    and "distinct (news_of s t)" "nullptr \<notin> set (news_of s t)" "set (news_of s t) \<inter> set (sc_scheduler_task s # ts) = {}"
  shows "sched_ok (rev (news_of s t) @ ts) (turn_done entry t s)"
proof -
  define s1 where "s1 = s\<lparr>sc_current := t, sc_irq := irq_on, sc_script := (sc_script s)(t := tl (sc_script s t)), sc_ran := sc_ran s @ [t]\<rparr>"
  define s2 where "s2 = fold (sched_create_task entry) (fst (next_turn s t)) s1"
  have "sched_ok ts s1" using assms(1) by (simp add: sched_ok_def s1_def)
  then have ok: "sched_ok (rev (news_of s t) @ ts) s2"
    unfolding s2_def using assms(4-6) by (intro fold_create_ok) (auto simp: s1_def)
  have fin: "sc_finished_tasks s2 = sc_finished_tasks s" by (simp add: s2_def s1_def)
  have td: "turn_done entry t s = (if exits s t then s2\<lparr>sc_task := (sc_task s2)(t := (sc_task s2 t)\<lparr>ti_exited := True\<rparr>),
      sc_finished_tasks := t # sc_finished_tasks s2\<rparr> else s2)\<lparr>sc_current := sc_scheduler_task s, sc_irq := irq_on\<rparr>"
    by (simp add: turn_done_def s2_def s1_def Let_def)
  show ?thesis using ok assms(2,3) fin unfolding td sched_ok_def by (cases "exits s t") auto
qed

lemma turn_done_other [simp]:
  "sc_finished_tasks (turn_done entry t s) = (if exits s t then [t] else []) @ sc_finished_tasks s"
  "sc_scheduler_task (turn_done entry t s) = sc_scheduler_task s"
  "sc_irq (turn_done entry t s) = irq_on" "sc_ran (turn_done entry t s) = sc_ran s @ [t]"
  "sc_deleted (turn_done entry t s) = sc_deleted s" "sc_freed (turn_done entry t s) = sc_freed s"
  "sc_script (turn_done entry t s) = (sc_script s)(t := tl (sc_script s t))"
  by (simp_all add: turn_done_def Let_def)

lemma turn_done_stack: "u \<notin> set (news_of s t) \<Longrightarrow> ti_stack (sc_task (turn_done entry t s) u) = ti_stack (sc_task s u)"
  by (auto simp: turn_done_def Let_def fold_create_task)

section \<open>A round\<close>

lemma schedule_step_turn:
  assumes "sc_irq s = irq_off" "t \<noteq> nullptr" "should_schedule s t"
  shows "schedule_step entry (\<lparr>it_node = t, it_shift = k\<rparr>, s)
    = (let s' = (turn_done entry t (sched_set_irq irq_on s))\<lparr>sc_irq := irq_off\<rparr>
       in Inr (\<lparr>it_node = il_next (sc_tasks s') t, it_shift = k + 1\<rparr>, s'))"
  using assms by (simp add: schedule_step_def switch_to_turn_done sched_set_irq_def irq_enable_def irq_disable_def
      il_inc_def Let_def)

lemma sched_ok_next:
  assumes "sched_ok (pre @ t # todo) s"
  shows "il_next (sc_tasks s) t = hd (todo @ [sc_scheduler_task s])"
  using sched_okD(5) [OF assms] il_linked_append [of "sc_scheduler_task s # pre" "t # todo @ [sc_scheduler_task s]" "sc_tasks s"]
  by (auto simp: il_linked_Cons)

text \<open>
  The loop over the tasks that are still to be run. A new task is put behind the scheduler's own, before
  the tasks that have been run, so that the loop does not meet it.
\<close>

abbreviation loop_of :: "ptr \<Rightarrow> ptr \<Rightarrow> il_iterator \<times> sched \<Rightarrow> (il_iterator \<times> sched) result" where
  "loop_of entry e \<equiv> while_result (\<lambda>(it, s). \<not> il_at_end e it) (schedule_step entry)"

lemma round_loop:
  assumes "sched_ok (pre @ todo) s" "sc_irq s = irq_off" "set (sc_finished_tasks s) \<inter> set todo = {}"
    and "distinct (created s todo)" "nullptr \<notin> set (created s todo)"
    and "set (created s todo) \<inter> set (sc_scheduler_task s # pre @ todo) = {}"
    and "0 < k" "k + length todo < 4294967296"
  shows "\<exists>it s'. loop_of entry (sc_scheduler_task s) (\<lparr>it_node = hd (todo @ [sc_scheduler_task s]), it_shift = of_nat k\<rparr>, s) = Inr (it, s')
    \<and> sched_ok (rev (created s todo) @ pre @ todo) s' \<and> sc_irq s' = irq_off
    \<and> sc_scheduler_task s' = sc_scheduler_task s \<and> sc_deleted s' = sc_deleted s \<and> sc_freed s' = sc_freed s
    \<and> (\<forall>u. u \<notin> set (created s todo) \<longrightarrow> ti_stack (sc_task s' u) = ti_stack (sc_task s u))
    \<and> sc_finished_tasks s' = rev (filter (exits s) todo) @ sc_finished_tasks s \<and> sc_ran s' = sc_ran s @ todo
    \<and> sc_script s' = (\<lambda>t. if t \<in> set todo then tl (sc_script s t) else sc_script s t)"
  using assms
proof (induction todo arbitrary: pre s k)
  case Nil
  have "of_nat k \<noteq> (0 :: u32)" using Nil.prems(7,8) by (simp add: u32_eq_iff_unat unat_of_nat_u32)
  then have "il_at_end (sc_scheduler_task s) \<lparr>it_node = sc_scheduler_task s, it_shift = of_nat k\<rparr>" by (simp add: il_at_end_def)
  then have "loop_of entry (sc_scheduler_task s) (\<lparr>it_node = sc_scheduler_task s, it_shift = of_nat k\<rparr>, s)
      = Inr (\<lparr>it_node = sc_scheduler_task s, it_shift = of_nat k\<rparr>, s)"
    by (subst while_result_unfold) simp
  then show ?case using Nil.prems(1,2) by auto
next
  case (Cons t todo)
  define s1 where "s1 = (turn_done entry t (sched_set_irq irq_on s))\<lparr>sc_irq := irq_off\<rparr>"
  define pre1 where "pre1 = rev (news_of s t) @ pre @ [t]"
  have d: "distinct (sc_scheduler_task s # pre @ t # todo)" "t \<noteq> nullptr"
    using sched_okD [OF Cons.prems(1)] by auto
  have nt: "next_turn (sched_set_irq irq_on s) t = next_turn s t" by (simp add: sched_set_irq_def next_turn_def)
  have "sched_ok (pre @ t # todo) (sched_set_irq irq_on s)" using Cons.prems(1) by (simp add: sched_ok_def sched_set_irq_def)
  then have "sched_ok (rev (news_of (sched_set_irq irq_on s) t) @ pre @ t # todo) (turn_done entry t (sched_set_irq irq_on s))"
    using Cons.prems(3-6) by (intro turn_done_ok) (auto simp: sched_set_irq_def)
  then have ok1: "sched_ok (pre1 @ todo) s1" by (simp add: nt s1_def pre1_def sched_ok_def)
  have s1: "sc_irq s1 = irq_off" "sc_scheduler_task s1 = sc_scheduler_task s" "sc_deleted s1 = sc_deleted s"
      "sc_finished_tasks s1 = (if exits s t then [t] else []) @ sc_finished_tasks s" "sc_ran s1 = sc_ran s @ [t]"
      "sc_script s1 = (sc_script s)(t := tl (sc_script s t))" "sc_freed s1 = sc_freed s"
    by (simp_all add: s1_def nt) (simp_all add: sched_set_irq_def)
  have stack: "ti_stack (sc_task s1 u) = ti_stack (sc_task s u)" if "u \<notin> set (news_of s t)" for u
    using that turn_done_stack [of u "sched_set_irq irq_on s" t entry] by (simp add: s1_def nt) (simp add: sched_set_irq_def)
  have same: "next_turn s1 u = next_turn s u" if "u \<in> set todo" for u
    using that d(1) s1(6) by (intro next_turn_cong) auto
  then have cr: "created s1 todo = created s todo" "filter (exits s1) todo = filter (exits s) todo"
    by (auto intro: created_cong filter_cong)
  have sh: "should_schedule s t"
    using Cons.prems(1,3) d(1) by (auto simp: should_schedule_def sched_ok_def)
  have nx: "il_next (sc_tasks s1) t = hd (todo @ [sc_scheduler_task s])"
    using sched_ok_next [of "rev (news_of s t) @ pre" t todo s1] ok1 s1(2) by (simp add: pre1_def)
  have step: "schedule_step entry (\<lparr>it_node = t, it_shift = of_nat k\<rparr>, s)
      = Inr (\<lparr>it_node = hd (todo @ [sc_scheduler_task s]), it_shift = of_nat (Suc k)\<rparr>, s1)"
    by (simp add: schedule_step_turn [OF Cons.prems(2) d(2) sh] s1_def [symmetric] nx ac_simps)
  have "\<not> il_at_end (sc_scheduler_task s) \<lparr>it_node = t, it_shift = of_nat k\<rparr>" using d(1) by (auto simp: il_at_end_def)
  then have "loop_of entry (sc_scheduler_task s) (\<lparr>it_node = t, it_shift = of_nat k\<rparr>, s)
      = loop_of entry (sc_scheduler_task s1) (\<lparr>it_node = hd (todo @ [sc_scheduler_task s1]), it_shift = of_nat (Suc k)\<rparr>, s1)"
    by (subst while_result_unfold) (simp add: step s1(2) del: of_nat_Suc)
  moreover have "\<exists>it s'. loop_of entry (sc_scheduler_task s1) (\<lparr>it_node = hd (todo @ [sc_scheduler_task s1]), it_shift = of_nat (Suc k)\<rparr>, s1) = Inr (it, s')
      \<and> sched_ok (rev (created s1 todo) @ pre1 @ todo) s' \<and> sc_irq s' = irq_off
      \<and> sc_scheduler_task s' = sc_scheduler_task s1 \<and> sc_deleted s' = sc_deleted s1 \<and> sc_freed s' = sc_freed s1
      \<and> (\<forall>u. u \<notin> set (created s1 todo) \<longrightarrow> ti_stack (sc_task s' u) = ti_stack (sc_task s1 u))
      \<and> sc_finished_tasks s' = rev (filter (exits s1) todo) @ sc_finished_tasks s1 \<and> sc_ran s' = sc_ran s1 @ todo
      \<and> sc_script s' = (\<lambda>t. if t \<in> set todo then tl (sc_script s1 t) else sc_script s1 t)"
    using Cons.prems(3-8) d(1) s1 cr ok1 unfolding pre1_def
    by (intro Cons.IH) (auto split: if_splits)
  ultimately show ?case using d(1) by (auto simp: s1 cr pre1_def fun_eq_iff stack)
qed

text \<open>The tasks of a list destroyed one after the other.\<close>

lemma remove_finished_rep:
  assumes "il_rep (sc_tasks s) (x # ts)" "distinct fs" "set fs \<subseteq> set ts"
  shows "\<exists>l. remove_finished fs s = Inr (fold task_destroy fs (s\<lparr>sc_tasks := l\<rparr>))
    \<and> il_rep l (x # filter (\<lambda>t. t \<notin> set fs) ts)"
  using assms
proof (induction fs arbitrary: s ts)
  case Nil
  then show ?case by (intro exI [of _ "sc_tasks s"]) simp
next
  case (Cons f fs)
  obtain as bs where ts: "ts = as @ f # bs" using Cons.prems(3) by (meson list.set_intros(1) split_list subsetD)
  have d: "distinct ts" using Cons.prems(1) by (simp add: il_rep_def)
  obtain l where l: "il_remove f (sc_tasks s) = Inr (l, hd (bs @ x # as))" "il_rep l (x # as @ bs)"
    using il_remove_rep [of "sc_tasks s" "x # as" f bs] Cons.prems(1) ts by auto
  let ?s = "task_destroy f (s\<lparr>sc_tasks := l\<rparr>)"
  have "\<exists>l'. remove_finished fs ?s = Inr (fold task_destroy fs (?s\<lparr>sc_tasks := l'\<rparr>))
      \<and> il_rep l' (x # filter (\<lambda>t. t \<notin> set fs) (as @ bs))"
    using Cons.prems l(2) d ts by (intro Cons.IH) (auto simp: task_destroy_def)
  moreover have "filter (\<lambda>t. t \<notin> set fs) (as @ bs) = filter (\<lambda>t. t \<notin> set (f # fs)) ts"
    using d by (auto simp: ts intro!: filter_cong arg_cong2 [where f = "(@)"])
  moreover have "?s\<lparr>sc_tasks := l'\<rparr> = task_destroy f (s\<lparr>sc_tasks := l'\<rparr>)" for l' by (simp add: task_destroy_def)
  ultimately show ?case using l(1) by auto
qed

lemma fold_task_destroy:
  "distinct fs \<Longrightarrow> fold task_destroy fs s = s\<lparr>sc_freed := sc_freed s @ map (\<lambda>t. ti_stack (sc_task s t)) fs,
     sc_task := (\<lambda>t. if t \<in> set fs then (sc_task s t)\<lparr>ti_stack := nullptr\<rparr> else sc_task s t), sc_deleted := sc_deleted s @ fs\<rparr>"
proof (induction fs arbitrary: s)
  case (Cons f fs)
  then have "map (\<lambda>t. ti_stack (sc_task (task_destroy f s) t)) fs = map (\<lambda>t. ti_stack (sc_task s t)) fs"
    by (auto simp: task_destroy_def)
  with Cons show ?case by (simp add: task_destroy_def fun_eq_iff)
qed simp

lemma handle_finished_tasks_ok:
  assumes "sched_ok ts s" "sc_irq s = irq_off"
  shows "\<exists>l. handle_finished_tasks s = Inr ((fold task_destroy (sc_finished_tasks s) (s\<lparr>sc_tasks := l\<rparr>))\<lparr>sc_finished_tasks := []\<rparr>)
    \<and> il_rep l (sc_scheduler_task s # filter (\<lambda>t. t \<notin> set (sc_finished_tasks s)) ts)"
proof -
  have same: "sched_set_irq (fst (irq_lock (sc_irq s))) s = s"
    using assms(2) by (cases s) (simp add: sched_set_irq_def irq_lock_def irq_disable_def)
  obtain l where l: "remove_finished (sc_finished_tasks s) s = Inr (fold task_destroy (sc_finished_tasks s) (s\<lparr>sc_tasks := l\<rparr>))"
      "il_rep l (sc_scheduler_task s # filter (\<lambda>t. t \<notin> set (sc_finished_tasks s)) ts)"
    using remove_finished_rep [of s "sc_scheduler_task s" ts "sc_finished_tasks s"] assms(1) unfolding sched_ok_def by blast
  have "distinct (sc_finished_tasks s)" using assms(1) by (simp add: sched_ok_def)
  then have "handle_finished_tasks s = Inr ((fold task_destroy (sc_finished_tasks s) (s\<lparr>sc_tasks := l\<rparr>))\<lparr>sc_finished_tasks := []\<rparr>)"
    using assms(2) unfolding handle_finished_tasks_def case_prod_unfold Let_def same l(1)
    by (simp add: irq_unlock_def irq_lock_def irq_disable_def sched_set_irq_def fold_task_destroy)
  then show ?thesis using l(2) by blast
qed

lemma schedule_round_loop:
  assumes "il_some (sc_tasks s) = sc_scheduler_task s" "sc_scheduler_task s \<noteq> nullptr"
  shows "schedule_round entry s =
    (let s1 = s\<lparr>sc_irq := irq_off\<rparr>; x = sc_scheduler_task s
     in bindE (loop_of entry x (\<lparr>it_node = il_next (sc_tasks s) x, it_shift = of_nat 1\<rparr>, s1)) (\<lambda>(it, s2).
          bindE (handle_finished_tasks s2) (\<lambda>s3. Inr (sched_set_irq (irq_enable (sc_irq s3)) s3))))"
proof -
  have "\<not> il_at_end (sc_scheduler_task s) (il_begin (sc_tasks s))" by (simp add: il_at_end_def il_begin_def)
  moreover have "schedule_step entry (il_begin (sc_tasks s), s\<lparr>sc_irq := irq_off\<rparr>)
      = Inr (\<lparr>it_node = il_next (sc_tasks s) (sc_scheduler_task s), it_shift = of_nat 1\<rparr>, s\<lparr>sc_irq := irq_off\<rparr>)"
    using assms by (simp add: schedule_step_def il_begin_def should_schedule_def il_inc_def)
  ultimately have "loop_of entry (sc_scheduler_task s) (il_begin (sc_tasks s), s\<lparr>sc_irq := irq_off\<rparr>)
      = loop_of entry (sc_scheduler_task s) (\<lparr>it_node = il_next (sc_tasks s) (sc_scheduler_task s), it_shift = of_nat 1\<rparr>, s\<lparr>sc_irq := irq_off\<rparr>)"
    by (subst while_result_unfold) simp
  then show ?thesis using assms(1)
    by (cases "sc_irq s") (simp add: schedule_round_def sched_set_irq_def irq_disable_def Let_def)
qed

lemma schedule_round_turns:
  assumes "sched_ok ts s" "sc_irq s = irq_on" "sc_finished_tasks s = []"
    and "distinct (sc_scheduler_task s # ts @ created s ts)" "nullptr \<notin> set (created s ts)" "length ts + 1 < 4294967296"
  shows "\<exists>s'. schedule_round entry s = Inr s'
    \<and> sched_ok (rev (created s ts) @ filter (\<lambda>t. \<not> exits s t) ts) s' \<and> sc_scheduler_task s' = sc_scheduler_task s
    \<and> sc_irq s' = irq_on \<and> sc_finished_tasks s' = [] \<and> sc_ran s' = sc_ran s @ ts
    \<and> sc_deleted s' = sc_deleted s @ rev (filter (exits s) ts)
    \<and> sc_freed s' = sc_freed s @ map (\<lambda>t. ti_stack (sc_task s t)) (rev (filter (exits s) ts))
    \<and> sc_script s' = (\<lambda>t. if t \<in> set ts then tl (sc_script s t) else sc_script s t)"
proof -
  let ?x = "sc_scheduler_task s" and ?s = "s\<lparr>sc_irq := irq_off\<rparr>" and ?fs = "rev (filter (exits s) ts)"
  let ?all = "rev (created s ts) @ ts"
  have cr: "created ?s ts = created s ts" by (intro created_cong) simp
  have nx: "il_next (sc_tasks s) ?x = hd (ts @ [?x])" using sched_okD(5) [OF assms(1)] by (simp add: il_linked_Cons)
  have "sched_ok ([] @ ts) ?s" using assms(1) by (simp add: sched_ok_def)
  moreover have "set (created s ts) \<inter> set (?x # ts) = {}" using assms(4) by auto
  ultimately obtain it s2 where s2: "loop_of entry ?x (\<lparr>it_node = hd (ts @ [?x]), it_shift = of_nat 1\<rparr>, ?s) = Inr (it, s2)"
      "sched_ok ?all s2" "sc_irq s2 = irq_off" "sc_scheduler_task s2 = ?x" "sc_deleted s2 = sc_deleted s"
      "sc_finished_tasks s2 = ?fs" "sc_ran s2 = sc_ran s @ ts"
      "sc_script s2 = (\<lambda>t. if t \<in> set ts then tl (sc_script s t) else sc_script s t)" "sc_freed s2 = sc_freed s"
      "\<forall>u. u \<notin> set (created s ts) \<longrightarrow> ti_stack (sc_task s2 u) = ti_stack (sc_task s u)"
    using round_loop [of "[]" ts ?s 1 entry] assms(3-6) by (auto simp: cr simp del: of_nat_1 One_nat_def cong del: if_weak_cong)
  have dfs: "distinct ?fs" using assms(4) by simp
  obtain l where l: "handle_finished_tasks s2 = Inr ((fold task_destroy ?fs (s2\<lparr>sc_tasks := l\<rparr>))\<lparr>sc_finished_tasks := []\<rparr>)"
      "il_rep l (?x # filter (\<lambda>t. t \<notin> set ?fs) ?all)"
    using handle_finished_tasks_ok [OF s2(2,3)] s2(4,6) by auto
  have flt: "filter (\<lambda>t. t \<notin> set ?fs) ?all = rev (created s ts) @ filter (\<lambda>t. \<not> exits s t) ts"
    unfolding filter_append using assms(4) by (intro arg_cong2 [where f = "(@)"] filter_True filter_cong) auto
  have stacks: "map (\<lambda>t. ti_stack (sc_task s2 t)) ?fs = map (\<lambda>t. ti_stack (sc_task s t)) ?fs"
    using s2(10) assms(4) by auto
  define s3 where "s3 = (fold task_destroy ?fs (s2\<lparr>sc_tasks := l\<rparr>))\<lparr>sc_finished_tasks := [], sc_irq := irq_on\<rparr>"
  have "schedule_round entry s = Inr s3"
    using s2(1,3) l(1) unfolding s3_def
    by (simp add: fold_task_destroy [OF dfs] schedule_round_loop [OF sched_okD(1,2) [OF assms(1)]] nx sched_set_irq_def irq_enable_def Let_def)
  moreover have "sched_ok (rev (created s ts) @ filter (\<lambda>t. \<not> exits s t) ts) s3"
    using l(2) s2(2,4,6) assms(4) unfolding flt sched_ok_def s3_def fold_task_destroy [OF dfs] by auto
  moreover have "sc_scheduler_task s3 = ?x" "sc_irq s3 = irq_on" "sc_finished_tasks s3 = []" "sc_ran s3 = sc_ran s @ ts"
      "sc_deleted s3 = sc_deleted s @ ?fs" "sc_freed s3 = sc_freed s @ map (\<lambda>t. ti_stack (sc_task s t)) ?fs" "sc_script s3 = sc_script s2"
    unfolding s3_def fold_task_destroy [OF dfs] using s2(4-9) stacks by simp_all
  ultimately show ?thesis using s2(8) by (intro exI [of _ s3]) simp
qed

text \<open>The turns that a task takes in a number of rounds, up to the one in which its routine returns.\<close>

fun turns :: "turn list \<Rightarrow> nat \<Rightarrow> nat" where
  "turns xs 0 = 0"
| "turns [] (Suc k) = Suc (turns [] k)"
| "turns (x # xs) (Suc k) = (if snd x then 1 else Suc (turns xs k))"

definition still_runs :: "turn list \<Rightarrow> nat \<Rightarrow> bool" where
  "still_runs xs k \<longleftrightarrow> list_all (\<lambda>x. \<not> snd x) (take k xs)"

definition creates_none :: "turn list \<Rightarrow> bool" where
  "creates_none xs \<longleftrightarrow> list_all (\<lambda>x. fst x = []) xs"

lemma created_none: "(\<And>t. t \<in> set ts \<Longrightarrow> creates_none (sc_script s t)) \<Longrightarrow> created s ts = []"
proof (induction ts)
  case (Cons t ts)
  have "creates_none (sc_script s t)" by (rule Cons.prems) simp
  then show ?case using Cons by (cases "sc_script s t") (simp_all add: next_turn_def creates_none_def)
qed simp

lemma turns_Suc: "turns xs (Suc k) = (if xs \<noteq> [] \<and> snd (hd xs) then 1 else Suc (turns (tl xs) k))"
  by (cases xs) simp_all

lemma still_runs_Suc: "still_runs xs (Suc k) \<longleftrightarrow> \<not> (xs \<noteq> [] \<and> snd (hd xs)) \<and> still_runs (tl xs) k"
  by (cases xs) (auto simp: still_runs_def)

lemma exits_hd: "exits s t \<longleftrightarrow> sc_script s t \<noteq> [] \<and> snd (hd (sc_script s t))"
  by (simp add: next_turn_def split: list.splits)

lemma creates_none_tl: "creates_none xs \<Longrightarrow> creates_none (tl xs)"
  by (cases xs) (auto simp: creates_none_def)

lemma count_list_distinct: "distinct xs \<Longrightarrow> x \<in> set xs \<Longrightarrow> count_list xs x = 1"
  by (induction xs) (auto simp: count_list_0_iff)

lemma schedule_rounds_turns:
  assumes "sched_ok ts s" "sc_irq s = irq_on" "sc_finished_tasks s = []" "length ts + 1 < 4294967296"
    and "\<And>t. t \<in> set ts \<Longrightarrow> creates_none (sc_script s t)"
  shows "\<exists>s' rs. schedule_rounds entry k s = Inr s' \<and> sched_ok (filter (\<lambda>t. still_runs (sc_script s t) k) ts) s'
    \<and> sc_irq s' = irq_on \<and> sc_ran s' = sc_ran s @ rs \<and> (\<forall>t\<in>set ts. count_list rs t = turns (sc_script s t) k)
    \<and> set rs \<subseteq> set ts"
  using assms
proof (induction k arbitrary: ts s)
  case 0
  then show ?case by (intro exI [of _ s] exI [of _ "[]"]) (simp add: still_runs_def)
next
  case (Suc k)
  have d: "distinct (sc_scheduler_task s # ts)" by (rule sched_okD(4) [OF Suc.prems(1)])
  have cr: "created s ts = []" using Suc.prems(5) by (rule created_none)
  let ?ts = "filter (\<lambda>t. \<not> exits s t) ts"
  have le: "length ?ts < 4294967295" using Suc.prems(4) length_filter_le [of "\<lambda>t. \<not> exits s t" ts] by linarith
  obtain s1 where s1: "schedule_round entry s = Inr s1" "sched_ok ?ts s1" "sc_irq s1 = irq_on" "sc_finished_tasks s1 = []"
      "sc_ran s1 = sc_ran s @ ts" "sc_script s1 = (\<lambda>t. if t \<in> set ts then tl (sc_script s t) else sc_script s t)"
    using schedule_round_turns [OF Suc.prems(1-3), of entry] d cr Suc.prems(4) by auto
  have "\<exists>s' rs. schedule_rounds entry k s1 = Inr s' \<and> sched_ok (filter (\<lambda>t. still_runs (sc_script s1 t) k) ?ts) s'
    \<and> sc_irq s' = irq_on \<and> sc_ran s' = sc_ran s1 @ rs \<and> (\<forall>t\<in>set ?ts. count_list rs t = turns (sc_script s1 t) k) \<and> set rs \<subseteq> set ?ts"
    using Suc.prems(4,5) s1(2-4,6) le
    by (intro Suc.IH) (auto intro: creates_none_tl)
  then obtain s' rs where r: "schedule_rounds entry k s1 = Inr s'" "sched_ok (filter (\<lambda>t. still_runs (sc_script s1 t) k) ?ts) s'"
      "sc_irq s' = irq_on" "sc_ran s' = sc_ran s1 @ rs" "\<forall>t\<in>set ?ts. count_list rs t = turns (sc_script s1 t) k" "set rs \<subseteq> set ?ts"
    by blast
  have "filter (\<lambda>t. still_runs (sc_script s1 t) k) ?ts = filter (\<lambda>t. still_runs (sc_script s t) (Suc k)) ts"
    unfolding filter_filter by (intro filter_cong) (auto simp: s1(6) still_runs_Suc exits_hd)
  moreover have "count_list (ts @ rs) t = turns (sc_script s t) (Suc k)" if "t \<in> set ts" for t
  proof (cases "exits s t")
    case True
    then have "t \<notin> set rs" using r(6) by auto
    then show ?thesis using True that d by (auto simp: turns_Suc exits_hd count_list_distinct)
  next
    case False
    then show ?thesis using that d r(5) by (auto simp: turns_Suc exits_hd s1(6) count_list_distinct)
  qed
  ultimately show ?case using s1 r by (intro exI [of _ s'] exI [of _ "ts @ rs"]) auto
qed

text \<open>
  An abstract scheduler, without lists of pointers, stacks and interrupt flags: the tasks in the order in which they run, what they
  will do, and the tasks that ran and that were deleted so far.
\<close>

record round_robin =
  rr_tasks :: "ptr list"
  rr_scripts :: "ptr \<Rightarrow> turn list"
  rr_ran :: "ptr list"
  rr_deleted :: "ptr list"

definition turn_of :: "turn list \<Rightarrow> turn" where
  "turn_of xs = (case xs of [] \<Rightarrow> ([], False) | x # _ \<Rightarrow> x)"

definition rr_new :: "round_robin \<Rightarrow> ptr list" where
  "rr_new r = concat (map (\<lambda>t. map nt_addr (fst (turn_of (rr_scripts r t)))) (rr_tasks r))"

definition rr_round :: "round_robin \<Rightarrow> round_robin" where
  "rr_round r = (let exit = (\<lambda>t. snd (turn_of (rr_scripts r t)))
     in \<lparr>rr_tasks = rev (rr_new r) @ filter (\<lambda>t. \<not> exit t) (rr_tasks r),
         rr_scripts = (\<lambda>t. if t \<in> set (rr_tasks r) then tl (rr_scripts r t) else rr_scripts r t),
         rr_ran = rr_ran r @ rr_tasks r, rr_deleted = rr_deleted r @ rev (filter exit (rr_tasks r))\<rparr>)"

definition rr_of :: "ptr list \<Rightarrow> sched \<Rightarrow> round_robin" where
  "rr_of ts s = \<lparr>rr_tasks = ts, rr_scripts = sc_script s, rr_ran = sc_ran s, rr_deleted = sc_deleted s\<rparr>"

text \<open>New tasks get addresses that no task has.\<close>

definition rr_fresh :: "ptr \<Rightarrow> round_robin \<Rightarrow> bool" where
  "rr_fresh x r \<longleftrightarrow> distinct (x # rr_tasks r @ rr_new r) \<and> nullptr \<notin> set (rr_new r) \<and> length (rr_tasks r) + 1 < 4294967296"

definition rr_rounds :: "nat \<Rightarrow> round_robin \<Rightarrow> round_robin" where
  "rr_rounds k = rr_round ^^ k"

lemma rr_rounds_simps [simp]: "rr_rounds 0 r = r" "rr_rounds (Suc k) r = rr_rounds k (rr_round r)"
  by (simp_all add: rr_rounds_def funpow_swap1)

lemma next_turn_turn_of: "next_turn s t = turn_of (sc_script s t)"
  by (simp add: next_turn_def turn_of_def)

lemma rr_new_of: "rr_new (rr_of ts s) = created s ts"
  by (simp add: rr_new_def rr_of_def created_def next_turn_turn_of)

text \<open>The rounds of the scheduler simulate those of the abstract one.\<close>

lemma schedule_rounds_simulate:
  assumes "sched_ok ts s" "sc_irq s = irq_on" "sc_finished_tasks s = []"
    and "\<And>i. i < k \<Longrightarrow> rr_fresh (sc_scheduler_task s) (rr_rounds i (rr_of ts s))"
  shows "\<exists>s' ts'. schedule_rounds entry k s = Inr s' \<and> sched_ok ts' s' \<and> rr_of ts' s' = rr_rounds k (rr_of ts s)
    \<and> sc_irq s' = irq_on \<and> sc_finished_tasks s' = [] \<and> sc_scheduler_task s' = sc_scheduler_task s"
  using assms
proof (induction k arbitrary: ts s)
  case 0
  then show ?case by auto
next
  case (Suc k)
  let ?ts = "rev (created s ts) @ filter (\<lambda>t. \<not> exits s t) ts"
  have "rr_fresh (sc_scheduler_task s) (rr_of ts s)" using Suc.prems(4) [of 0] by simp
  then have f: "distinct (sc_scheduler_task s # ts @ created s ts)" "nullptr \<notin> set (created s ts)" "length ts + 1 < 4294967296"
    unfolding rr_fresh_def rr_new_of by (simp_all add: rr_of_def)
  obtain s1 where s1: "schedule_round entry s = Inr s1" "sched_ok ?ts s1" "sc_irq s1 = irq_on" "sc_finished_tasks s1 = []"
      "sc_scheduler_task s1 = sc_scheduler_task s" "sc_ran s1 = sc_ran s @ ts" "sc_deleted s1 = sc_deleted s @ rev (filter (exits s) ts)"
      "sc_script s1 = (\<lambda>t. if t \<in> set ts then tl (sc_script s t) else sc_script s t)"
    using schedule_round_turns [OF Suc.prems(1-3) f, of entry] by blast
  have rr: "rr_of ?ts s1 = rr_round (rr_of ts s)"
    unfolding rr_round_def rr_new_of using s1(6-8) by (simp add: rr_of_def Let_def next_turn_turn_of cong del: if_weak_cong)
  have "rr_fresh (sc_scheduler_task s1) (rr_rounds i (rr_of ?ts s1))" if "i < k" for i
    unfolding rr s1(5) using Suc.prems(4) [of "Suc i"] that by simp
  from Suc.IH [OF s1(2-4) this] show ?case using s1(1,5) unfolding rr by auto
qed

lemma start_scheduling_rounds:
  assumes "sc_irq s = irq_on"
  shows "start_scheduling entry k s = schedule_rounds entry k (s\<lparr>sc_current := sc_scheduler_task s\<rparr>)"
  using assms by (cases s) (simp add: start_scheduling_def switch_out_on switch_in_def irq_enable_def schedule_forever_def irq_is_enabled_def)

definition example_sched :: sched where
  "example_sched = \<lparr>sc_tasks = \<lparr>il_next = (\<lambda>p. p), il_prev = (\<lambda>p. p), il_some = nullptr\<rparr>, sc_finished_tasks = [],
     sc_scheduler_task = nullptr, sc_current = nullptr, sc_task = (\<lambda>p. task_construct \<lparr>nt_addr = 0, nt_stack = 0, nt_name = []\<rparr> 0 0),
     sc_next_task_id = 0, sc_irq = irq_on,
     sc_script = (\<lambda>p. if p = 0x2000 then [([\<lparr>nt_addr = 0x3000, nt_stack = 0x500000, nt_name = ''a''\<rparr>], True)] else []),
     sc_ran = [], sc_deleted = [], sc_freed = []\<rparr>"

section \<open>Properties\<close>

text \<open>
  A round of the scheduler is a round robin. When no task of the list has finished, the interrupts are
  on and the tasks created in this round get new addresses, the round returns; every task of the list has
  run for exactly one turn, in the order of the list; the tasks whose routine returned have been taken out
  of the list, their stacks given back and they deleted, the last one first; the tasks created in the round, which did not run yet, are
  in front of the remaining ones; and the interrupts are on again.
\<close>

theorem schedule_round_robin:
  assumes "sched_ok ts s" "sc_irq s = irq_on" "sc_finished_tasks s = []"
    and "distinct (sc_scheduler_task s # ts @ created s ts)" "nullptr \<notin> set (created s ts)" "length ts + 1 < 4294967296"
  shows "\<exists>s'. schedule_round entry s = Inr s'
    \<and> sched_ok (rev (created s ts) @ filter (\<lambda>t. \<not> exits s t) ts) s' \<and> sc_scheduler_task s' = sc_scheduler_task s
    \<and> sc_irq s' = irq_on \<and> sc_finished_tasks s' = [] \<and> sc_ran s' = sc_ran s @ ts
    \<and> sc_deleted s' = sc_deleted s @ rev (filter (exits s) ts)
    \<and> sc_freed s' = sc_freed s @ map (\<lambda>t. ti_stack (sc_task s t)) (rev (filter (exits s) ts))
    \<and> sc_script s' = (\<lambda>t. if t \<in> set ts then tl (sc_script s t) else sc_script s t)"
  using assms by (rule schedule_round_turns)

theorem schedule_round_robin_witness:
  "\<exists>s s'. sched_construct 0x100000 \<lparr>nt_addr = 0x1000, nt_stack = 0x300000, nt_name = ''scheduler''\<rparr>
      (Some \<lparr>nt_addr = 0x2000, nt_stack = 0x400000, nt_name = ''main''\<rparr>) example_sched = Inr s
    \<and> schedule_round 0x100000 s = Inr s' \<and> sched_ok [0x3000] s' \<and> sc_ran s' = [0x2000] \<and> sc_deleted s' = [0x2000]"
proof -
  define sch main :: new_task where "sch = \<lparr>nt_addr = 0x1000, nt_stack = 0x300000, nt_name = ''scheduler''\<rparr>"
    and "main = \<lparr>nt_addr = 0x2000, nt_stack = 0x400000, nt_name = ''main''\<rparr>"
  obtain s where s: "sched_construct 0x100000 sch (Some main) example_sched = Inr s" by (simp add: sched_construct_def case_prod_unfold Let_def)
  have st: "sched_ok [0x2000] s" "sc_irq s = irq_on" "sc_finished_tasks s = []" "sc_scheduler_task s = 0x1000"
      "sc_ran s = []" "sc_deleted s = []" "sc_script s = sc_script example_sched"
    using s by (auto simp: sched_construct_def sch_def main_def sched_create_task_def task_construct_def example_sched_def
        irq_lock_def irq_disable_def irq_unlock_def irq_enable_def sched_set_irq_def sched_ok_def il_insert_def il_rep_def
        il_set_next_def il_set_prev_def Let_def)
  have nt: "next_turn s 0x2000 = ([\<lparr>nt_addr = 0x3000, nt_stack = 0x500000, nt_name = ''a''\<rparr>], True)"
    using st(7) by (simp add: next_turn_def example_sched_def)
  have "\<exists>s'. schedule_round 0x100000 s = Inr s'
    \<and> sched_ok (rev (created s [0x2000]) @ filter (\<lambda>t. \<not> exits s t) [0x2000]) s' \<and> sc_scheduler_task s' = sc_scheduler_task s
    \<and> sc_irq s' = irq_on \<and> sc_finished_tasks s' = [] \<and> sc_ran s' = sc_ran s @ [0x2000]
    \<and> sc_deleted s' = sc_deleted s @ rev (filter (exits s) [0x2000])
    \<and> sc_freed s' = sc_freed s @ map (\<lambda>t. ti_stack (sc_task s t)) (rev (filter (exits s) [0x2000]))
    \<and> sc_script s' = (\<lambda>t. if t \<in> set [0x2000] then tl (sc_script s t) else sc_script s t)"
    by (rule schedule_round_robin) (use st nt in simp_all)
  then show ?thesis using s st nt unfolding sch_def main_def by auto
qed

text \<open>
  No task starves. When the tasks create no further ones, the scheduler, once started, gets through any number of
  rounds, and in \<open>k\<close> rounds a task has run for exactly \<open>k\<close> turns, or up to the turn in which its routine
  returned if that came earlier; the tasks left in the list are those that have not returned.
\<close>

theorem schedule_fair:
  assumes "sched_ok ts s" "sc_irq s = irq_on" "sc_finished_tasks s = []" "length ts + 1 < 4294967296"
    and "\<And>t. t \<in> set ts \<Longrightarrow> creates_none (sc_script s t)"
  shows "\<exists>s' rs. start_scheduling entry k s = Inr s' \<and> sched_ok (filter (\<lambda>t. still_runs (sc_script s t) k) ts) s'
    \<and> sc_irq s' = irq_on \<and> sc_ran s' = sc_ran s @ rs \<and> (\<forall>t\<in>set ts. count_list rs t = turns (sc_script s t) k)
    \<and> set rs \<subseteq> set ts"
proof -
  let ?s = "s\<lparr>sc_current := sc_scheduler_task s, sc_irq := irq_on\<rparr>"
  have "sched_ok ts ?s" using assms(1) by (simp add: sched_ok_def)
  from schedule_rounds_turns [OF this, of entry k] assms(2-5) show ?thesis
    by (simp add: start_scheduling_def switch_out_on switch_in_def irq_enable_def schedule_forever_def irq_is_enabled_def)
qed

theorem schedule_fair_witness:
  "\<exists>s' rs. start_scheduling 0 5 (example_sched\<lparr>sc_tasks := il_insert 0x2000 (il_insert 0x1000 (sc_tasks example_sched)),
      sc_scheduler_task := 0x1000, sc_script := \<lambda>t. [([], False), ([], True)]\<rparr>) = Inr s'
    \<and> sched_ok [] s' \<and> sc_ran s' = rs \<and> count_list rs 0x2000 = 2"
proof -
  let ?s = "example_sched\<lparr>sc_tasks := il_insert 0x2000 (il_insert 0x1000 (sc_tasks example_sched)),
      sc_scheduler_task := 0x1000, sc_script := \<lambda>t. [([], False), ([], True)]\<rparr>"
  have "sched_ok [0x2000] ?s"
    by (simp add: sched_ok_def example_sched_def il_rep_def il_insert_def il_set_next_def il_set_prev_def task_construct_def Let_def)
  then have "\<exists>s' rs. start_scheduling 0 5 ?s = Inr s' \<and> sched_ok (filter (\<lambda>t. still_runs (sc_script ?s t) 5) [0x2000]) s'
    \<and> sc_irq s' = irq_on \<and> sc_ran s' = sc_ran ?s @ rs \<and> (\<forall>t\<in>set [0x2000]. count_list rs t = turns (sc_script ?s t) 5)
    \<and> set rs \<subseteq> set [0x2000]"
    by (rule schedule_fair) (simp_all add: example_sched_def creates_none_def)
  then show ?thesis by (auto simp: still_runs_def turns_Suc eval_nat_numeral example_sched_def)
qed

text \<open>
  C4: the scheduler refines the abstract round robin. As long as every new task gets an address that no task has, the scheduler,
  once started, gets through any number of rounds, in which tasks may create tasks and return, and its list of tasks, what each task
  has still to do, the tasks that ran and the tasks that were deleted are those of the abstract scheduler.
\<close>

theorem schedule_refines_round_robin:
  assumes "sched_ok ts s" "sc_irq s = irq_on" "sc_finished_tasks s = []"
    and "\<And>i. i < k \<Longrightarrow> rr_fresh (sc_scheduler_task s) (rr_rounds i (rr_of ts s))"
  shows "\<exists>s' ts'. start_scheduling entry k s = Inr s' \<and> sched_ok ts' s' \<and> rr_of ts' s' = rr_rounds k (rr_of ts s)
    \<and> sc_irq s' = irq_on \<and> sc_finished_tasks s' = [] \<and> sc_scheduler_task s' = sc_scheduler_task s"
proof -
  let ?s = "s\<lparr>sc_current := sc_scheduler_task s\<rparr>"
  have "sched_ok ts ?s" "rr_of ts ?s = rr_of ts s" using assms(1) by (simp_all add: sched_ok_def rr_of_def)
  then show ?thesis
    using schedule_rounds_simulate [of ts ?s k entry] assms(2-4) by (simp add: start_scheduling_rounds [OF assms(2)])
qed

theorem schedule_refines_round_robin_witness:
  "\<exists>s' ts'. start_scheduling 7 2 (example_sched\<lparr>sc_tasks := il_insert 0x2000 (il_insert 0x1000 (sc_tasks example_sched)),
      sc_scheduler_task := 0x1000\<rparr>) = Inr s'
    \<and> sched_ok ts' s' \<and> ts' = [0x3000] \<and> sc_ran s' = [0x2000, 0x3000] \<and> sc_deleted s' = [0x2000]"
proof -
  let ?s = "example_sched\<lparr>sc_tasks := il_insert 0x2000 (il_insert 0x1000 (sc_tasks example_sched)), sc_scheduler_task := 0x1000\<rparr>"
  have ok: "sched_ok [0x2000] ?s" "sc_irq ?s = irq_on" "sc_finished_tasks ?s = []"
    by (simp_all add: sched_ok_def example_sched_def il_rep_def il_insert_def il_set_next_def il_set_prev_def task_construct_def Let_def)
  have r: "rr_tasks (rr_of [0x2000] ?s) = [0x2000]" "rr_ran (rr_of [0x2000] ?s) = []" "rr_deleted (rr_of [0x2000] ?s) = []"
    "rr_scripts (rr_of [0x2000] ?s) 0x2000 = [([\<lparr>nt_addr = 0x3000, nt_stack = 0x500000, nt_name = ''a''\<rparr>], True)]"
    "rr_scripts (rr_of [0x2000] ?s) 0x3000 = []"
    by (simp_all add: rr_of_def example_sched_def)
  have n: "rr_new (rr_of [0x2000] ?s) = [0x3000]" using r by (simp add: rr_new_def turn_of_def)
  have r1: "rr_tasks (rr_round (rr_of [0x2000] ?s)) = [0x3000]" "rr_ran (rr_round (rr_of [0x2000] ?s)) = [0x2000]"
    "rr_deleted (rr_round (rr_of [0x2000] ?s)) = [0x2000]" "rr_scripts (rr_round (rr_of [0x2000] ?s)) 0x3000 = []"
    unfolding rr_round_def n by (simp_all add: r Let_def turn_of_def)
  have n1: "rr_new (rr_round (rr_of [0x2000] ?s)) = []" using r1 by (simp add: rr_new_def turn_of_def)
  have "rr_fresh 0x1000 (rr_of [0x2000] ?s)" "rr_fresh 0x1000 (rr_round (rr_of [0x2000] ?s))"
    unfolding rr_fresh_def n n1 r(1) r1(1) by simp_all
  then have "rr_fresh 0x1000 (rr_rounds i (rr_of [0x2000] ?s))" if "i < 2" for i
    using that by (auto simp: less_Suc_eq numeral_2_eq_2)
  then obtain s' ts' where s': "start_scheduling 7 2 ?s = Inr s'" "sched_ok ts' s'" "rr_of ts' s' = rr_rounds 2 (rr_of [0x2000] ?s)"
    using schedule_refines_round_robin [OF ok, of 2 7] by auto
  have "rr_tasks (rr_rounds 2 (rr_of [0x2000] ?s)) = [0x3000]" "rr_ran (rr_rounds 2 (rr_of [0x2000] ?s)) = [0x2000, 0x3000]"
    "rr_deleted (rr_rounds 2 (rr_of [0x2000] ?s)) = [0x2000]"
    using n1 r1 by (simp_all add: numeral_2_eq_2 rr_round_def [of "rr_round _"] Let_def turn_of_def)
  then show ?thesis using s' unfolding s'(3) [symmetric] by (auto simp: rr_of_def)
qed

text \<open>
  Construction and start. Without a main routine the constructor panics. Otherwise the list holds
  the scheduler's task and the main task, with successive identifiers; the main task waits on a frame of
  20 bytes at the top of its stack that starts it; the interrupts are as before. With blocked interrupts
  neither the loop of the scheduler nor a switch starts.
\<close>

theorem scheduler_starts:
  assumes "sc_tasks s = \<lparr>il_next = nx, il_prev = pv, il_some = nullptr\<rparr>" "sc_finished_tasks s = []"
    and "distinct [nullptr, nt_addr sch, nt_addr main]" "sc_irq s = irq_on"
  shows "sched_construct entry sch None s = Inl (Panic ''no main specified'') \<and>
    (\<exists>s'. sched_construct entry sch (Some main) s = Inr s' \<and> sched_ok [nt_addr main] s' \<and> sc_irq s' = irq_on
      \<and> sc_scheduler_task s' = nt_addr sch \<and> sc_current s' = nt_addr sch
      \<and> ti_id (sc_task s' (nt_addr sch)) = sc_next_task_id s \<and> ti_id (sc_task s' (nt_addr main)) = sc_next_task_id s + 1
      \<and> ti_esp (sc_task s' (nt_addr main)) = nt_stack main + 4096 * 16 - 20
      \<and> nts_eip (ti_frame (sc_task s' (nt_addr main))) = entry \<and> nts_task (ti_frame (sc_task s' (nt_addr main))) = nt_addr main
      \<and> schedule_forever entry k (s'\<lparr>sc_irq := irq_off\<rparr>) = Inl (Panic ''started scheduling with blocked interrupts'')
      \<and> switch_to entry t (s'\<lparr>sc_irq := irq_off\<rparr>) = Inl (Panic ''switching while interrupts are disabled''))"
proof -
  have "il_rep (sc_tasks s) []" using assms(1) by (simp add: il_rep_def)
  then have "il_rep (il_insert (nt_addr main) (il_insert (nt_addr sch) (sc_tasks s))) [nt_addr sch, nt_addr main]"
    using il_insert_rep [of "sc_tasks s" "[]" "nt_addr sch"] il_insert_rep [of "il_insert (nt_addr sch) (sc_tasks s)" "[nt_addr sch]" "nt_addr main"]
      assms(3) by auto
  then show ?thesis using assms(2-4)
    by (auto simp: sched_construct_def irq_lock_def irq_disable_def irq_unlock_def irq_enable_def irq_is_enabled_def sched_set_irq_def
        sched_create_task_def task_construct_def stack_pages_def Let_def sched_ok_def schedule_forever_def switch_to_def switch_out_def)
qed

theorem scheduler_starts_witness:
  "sched_construct 7 \<lparr>nt_addr = 0x1000, nt_stack = 0x300000, nt_name = ''scheduler''\<rparr> None example_sched = Inl (Panic ''no main specified'')
    \<and> (\<exists>s'. sched_construct 7 \<lparr>nt_addr = 0x1000, nt_stack = 0x300000, nt_name = ''scheduler''\<rparr>
          (Some \<lparr>nt_addr = 0x2000, nt_stack = 0x400000, nt_name = ''main''\<rparr>) example_sched = Inr s' \<and> sched_ok [0x2000] s')"
  using scheduler_starts [of example_sched "\<lambda>p. p" "\<lambda>p. p" "\<lparr>nt_addr = 0x1000, nt_stack = 0x300000, nt_name = ''scheduler''\<rparr>"
      "\<lparr>nt_addr = 0x2000, nt_stack = 0x400000, nt_name = ''main''\<rparr>" 7 0 0]
  by (auto simp: example_sched_def)

end
