(* ===== verification/X86_Tables.thy ===== *)
theory X86_Tables
  imports Mem_Utils Out_Chain
begin

text \<open>
  The tables of the processor under \<^verbatim>\<open>x86\<close>: segment selectors and descriptors, the descriptor of a task
  state segment, the gates of the interrupt table, the flags register, the fixed size vector that the
  global descriptor table is kept in, and what is loaded into the segment registers. A bit field of
  \<open>n\<close> bits is a word of \<open>n\<close> bits. A packed structure of eight bytes is the word of 64 bits that the
  processor reads, its first field in the lowest bits.
\<close>

section \<open>Definitions\<close>

type_synonym u64 = "64 word"

datatype system_flag = Sys_null | Sys_system | Sys_code_or_data

primrec system_value :: "system_flag \<Rightarrow> 1 word" where
  "system_value Sys_null = 0" | "system_value Sys_system = 0" | "system_value Sys_code_or_data = 1"

datatype present_flag = Pr_null | Pr_not_present | Pr_present

primrec present_value :: "present_flag \<Rightarrow> 1 word" where
  "present_value Pr_null = 0" | "present_value Pr_not_present = 0" | "present_value Pr_present = 1"

datatype long_flag = Lng_null | Lng_64 | Lng_other

primrec long_value :: "long_flag \<Rightarrow> 1 word" where
  "long_value Lng_null = 0" | "long_value Lng_64 = 1" | "long_value Lng_other = 0"

datatype operation_size = Db_null | Db_32_bit | Db_16_bit

primrec operation_size_value :: "operation_size \<Rightarrow> 1 word" where
  "operation_size_value Db_null = 0" | "operation_size_value Db_32_bit = 1" | "operation_size_value Db_16_bit = 0"

datatype granularity = Gr_null | Gr_four_k_pages | Gr_bytes

primrec granularity_value :: "granularity \<Rightarrow> 1 word" where
  "granularity_value Gr_null = 0" | "granularity_value Gr_four_k_pages = 1" | "granularity_value Gr_bytes = 0"

datatype protection_ring = Ring_null | Ring_kernel | Ring_1 | Ring_2 | Ring_user

primrec ring_value :: "protection_ring \<Rightarrow> 2 word" where
  "ring_value Ring_null = 0" | "ring_value Ring_kernel = 0" | "ring_value Ring_1 = 1" | "ring_value Ring_2 = 2"
| "ring_value Ring_user = 3"

text \<open>The flags of a segment type are combined, so they are bytes.\<close>

definition segment_null :: u8 where "segment_null = push_bit 0 0"
definition segment_accessed :: u8 where "segment_accessed = push_bit 0 1"
definition segment_data :: u8 where "segment_data = push_bit 3 0"
definition segment_data_write :: u8 where "segment_data_write = push_bit 1 1"
definition segment_data_down :: u8 where "segment_data_down = push_bit 2 1"
definition segment_code :: u8 where "segment_code = push_bit 3 1"
definition segment_code_read :: u8 where "segment_code_read = push_bit 1 1"
definition segment_code_conforming :: u8 where "segment_code_conforming = push_bit 2 1"

definition enum_or :: "u8 \<Rightarrow> u8 \<Rightarrow> u8" where
  "enum_or lhs rhs = lhs OR rhs"

datatype table_indicator = TI_global | TI_local

primrec table_value :: "table_indicator \<Rightarrow> u16" where
  "table_value TI_global = 0" | "table_value TI_local = 1"

definition segment_selector :: "u16 \<Rightarrow> table_indicator \<Rightarrow> protection_ring \<Rightarrow> u16" where
  "segment_selector idx ti ring = push_bit 3 idx OR push_bit 2 (table_value ti) OR ucast (ring_value ring)"

text \<open>Memory segments.\<close>

record memory_segment_d =
  ms_limit_00_15 :: u16
  ms_base_00_15 :: u16
  ms_base_16_23 :: u8
  ms_tag :: "4 word"
  ms_system_flag :: "1 word"
  ms_dpl :: "2 word"
  ms_present :: "1 word"
  ms_limit_16_19 :: "4 word"
  ms_avl :: "1 word"
  ms_long :: "1 word"
  ms_db :: "1 word"
  ms_granularity :: "1 word"
  ms_base_24_31 :: u8

definition memory_segment :: "u32 \<Rightarrow> u32 \<Rightarrow> u8 \<Rightarrow> system_flag \<Rightarrow> protection_ring \<Rightarrow> present_flag \<Rightarrow> long_flag \<Rightarrow> operation_size
    \<Rightarrow> granularity \<Rightarrow> memory_segment_d" where
  "memory_segment base limit tag ssf dpl present lng db gr =
     \<lparr>ms_limit_00_15 = ucast (shiftmask limit 0 0xffff),
      ms_base_00_15 = ucast (shiftmask base 0 0xffff),
      ms_base_16_23 = ucast (shiftmask base 16 0xff),
      ms_tag = ucast tag,
      ms_system_flag = system_value ssf,
      ms_dpl = ring_value dpl,
      ms_present = present_value present,
      ms_limit_16_19 = ucast (shiftmask limit 16 0xf),
      ms_avl = 0,
      ms_long = long_value lng,
      ms_db = operation_size_value db,
      ms_granularity = granularity_value gr,
      ms_base_24_31 = ucast (shiftmask base 24 0xff)\<rparr>"

text \<open>Descriptors of task state segments.\<close>

record tss_d =
  td_limit_00_15 :: u16
  td_base_00_15 :: u16
  td_base_16_23 :: u8
  td_type :: "4 word"
  td_const_4_12 :: "1 word"
  td_dpl :: "2 word"
  td_present :: "1 word"
  td_limit_16_19 :: "4 word"
  td_avl :: "1 word"
  td_const_4_21 :: "1 word"
  td_const_4_22 :: "1 word"
  td_granularity :: "1 word"
  td_base_24_31 :: u8

definition task_state_segment_d :: "u32 \<Rightarrow> u32 \<Rightarrow> bool \<Rightarrow> protection_ring \<Rightarrow> present_flag \<Rightarrow> granularity \<Rightarrow> tss_d" where
  "task_state_segment_d base limit busy dpl present gr =
     \<lparr>td_limit_00_15 = ucast (shiftmask limit 0 0xffff),
      td_base_00_15 = ucast (shiftmask base 0 0xffff),
      td_base_16_23 = ucast (shiftmask base 16 0xff),
      td_type = 0b1001 OR (if busy then 0b0010 else 0b000),
      td_const_4_12 = 0,
      td_dpl = ring_value dpl,
      td_present = present_value present,
      td_limit_16_19 = ucast (shiftmask limit 16 0xf),
      td_avl = 0,
      td_const_4_21 = 0,
      td_const_4_22 = 0,
      td_granularity = granularity_value gr,
      td_base_24_31 = ucast (shiftmask base 24 0xff)\<rparr>"

text \<open>Gates.\<close>

datatype gate_type = Gate_task | Gate_interrupt | Gate_trap

primrec gate_type_value :: "gate_type \<Rightarrow> 3 word" where
  "gate_type_value Gate_task = 5" | "gate_type_value Gate_interrupt = 6" | "gate_type_value Gate_trap = 7"

datatype segment_index = Idx_null | Idx_kernel_code | Idx_kernel_data | Idx_single_task

primrec segment_index_value :: "segment_index \<Rightarrow> u16" where
  "segment_index_value Idx_null = 0" | "segment_index_value Idx_kernel_code = 1"
| "segment_index_value Idx_kernel_data = 2" | "segment_index_value Idx_single_task = 3"

definition selector_of :: "segment_index \<Rightarrow> table_indicator \<Rightarrow> protection_ring \<Rightarrow> u16" where
  "selector_of idx ti ring = segment_selector (segment_index_value idx) ti ring"

definition KERNEL_CODE_SELECTOR :: u16 where
  "KERNEL_CODE_SELECTOR = selector_of Idx_kernel_code TI_global Ring_kernel"

definition KERNEL_DATA_SELECTOR :: u16 where
  "KERNEL_DATA_SELECTOR = selector_of Idx_kernel_data TI_global Ring_kernel"

record gate =
  gt_offset_00_15 :: u16
  gt_segment_selector :: u16
  gt_reserved_0 :: "5 word"
  gt_reserved_1 :: "3 word"
  gt_gate_kind :: "3 word"
  gt_db :: "1 word"
  gt_zero_bit :: "1 word"
  gt_dpl :: "2 word"
  gt_present :: "1 word"
  gt_offset_16_31 :: u16

definition gate_construct :: "u32 \<Rightarrow> gate_type \<Rightarrow> gate" where
  "gate_construct func kind =
     \<lparr>gt_offset_00_15 = ucast (shiftmask func 0 0xffff), gt_segment_selector = KERNEL_CODE_SELECTOR,
      gt_reserved_0 = 0, gt_reserved_1 = 0, gt_gate_kind = gate_type_value kind,
      gt_db = operation_size_value Db_32_bit, gt_zero_bit = 0, gt_dpl = ring_value Ring_kernel,
      gt_present = present_value Pr_present, gt_offset_16_31 = ucast (shiftmask func 16 0xffff)\<rparr>"

definition interrupt_gate :: "u32 \<Rightarrow> gate" where
  "interrupt_gate func = gate_construct func Gate_interrupt"

text \<open>The image of a packed structure: widths and values of the fields, the first in the lowest bits.\<close>

primrec bit_fields :: "(nat \<times> u64) list \<Rightarrow> u64" where
  "bit_fields [] = 0"
| "bit_fields (f # fs) = take_bit (fst f) (snd f) OR push_bit (fst f) (bit_fields fs)"

definition memory_segment_image :: "memory_segment_d \<Rightarrow> u64" where
  "memory_segment_image d = bit_fields
     [(16, ucast (ms_limit_00_15 d)), (16, ucast (ms_base_00_15 d)), (8, ucast (ms_base_16_23 d)), (4, ucast (ms_tag d)),
      (1, ucast (ms_system_flag d)), (2, ucast (ms_dpl d)), (1, ucast (ms_present d)), (4, ucast (ms_limit_16_19 d)),
      (1, ucast (ms_avl d)), (1, ucast (ms_long d)), (1, ucast (ms_db d)), (1, ucast (ms_granularity d)),
      (8, ucast (ms_base_24_31 d))]"

definition tss_d_image :: "tss_d \<Rightarrow> u64" where
  "tss_d_image d = bit_fields
     [(16, ucast (td_limit_00_15 d)), (16, ucast (td_base_00_15 d)), (8, ucast (td_base_16_23 d)), (4, ucast (td_type d)),
      (1, ucast (td_const_4_12 d)), (2, ucast (td_dpl d)), (1, ucast (td_present d)), (4, ucast (td_limit_16_19 d)),
      (1, ucast (td_avl d)), (1, ucast (td_const_4_21 d)), (1, ucast (td_const_4_22 d)), (1, ucast (td_granularity d)),
      (8, ucast (td_base_24_31 d))]"

definition gate_image :: "gate \<Rightarrow> u64" where
  "gate_image g = bit_fields
     [(16, ucast (gt_offset_00_15 g)), (16, ucast (gt_segment_selector g)), (5, ucast (gt_reserved_0 g)), (3, ucast (gt_reserved_1 g)),
      (3, ucast (gt_gate_kind g)), (1, ucast (gt_db g)), (1, ucast (gt_zero_bit g)), (2, ucast (gt_dpl g)), (1, ucast (gt_present g)),
      (16, ucast (gt_offset_16_31 g))]"

text \<open>\<^verbatim>\<open>lib::FixedSizeVector\<close> on \<^verbatim>\<open>lib::array\<close>: the capacity is the length of the array.\<close>

record 'a fixed_vector =
  fv_data :: "'a list"
  fv_size :: u32

definition array_at :: "u32 \<Rightarrow> 'a list \<Rightarrow> 'a result" where
  "array_at pos d = (if unat pos \<ge> length d then Inl (Panic ''index out of bounds'') else Inr (d ! unat pos))"

definition fv_construct :: "'a \<Rightarrow> nat \<Rightarrow> 'a fixed_vector" where
  "fv_construct zero cap = \<lparr>fv_data = replicate cap zero, fv_size = 0\<rparr>"

definition fv_expand_up_to :: "u32 \<Rightarrow> 'a fixed_vector \<Rightarrow> 'a fixed_vector result" where
  "fv_expand_up_to new_size v =
     (if unat new_size > length (fv_data v) then Inl (Panic ''fault'')
      else Inr (v\<lparr>fv_size := max (fv_size v) new_size\<rparr>))"

definition fv_expand_by :: "u32 \<Rightarrow> 'a fixed_vector \<Rightarrow> 'a fixed_vector result" where
  "fv_expand_by additional_elems v = fv_expand_up_to (fv_size v + additional_elems) v"

definition fv_push_back :: "'a \<Rightarrow> 'a fixed_vector \<Rightarrow> 'a fixed_vector result" where
  "fv_push_back x v = bindE (fv_expand_by 1 v) (\<lambda>v1. Inr (v1\<lparr>fv_data := (fv_data v1)[unat (fv_size v1 - 1) := x]\<rparr>))"

definition fv_at :: "u32 \<Rightarrow> 'a fixed_vector \<Rightarrow> 'a result" where
  "fv_at pos v = (if pos \<ge> fv_size v then Inl (Panic ''fault'') else array_at pos (fv_data v))"

text \<open>The segments of the kernel. The address of the task state segment is an argument.\<close>

definition null_segment :: memory_segment_d where
  "null_segment = memory_segment 0 0 segment_null Sys_null Ring_null Pr_null Lng_null Db_null Gr_null"

definition kernel_code :: memory_segment_d where
  "kernel_code = memory_segment 0 0xfffff (enum_or segment_code segment_code_read) Sys_code_or_data Ring_kernel Pr_present
     Lng_other Db_32_bit Gr_four_k_pages"

definition kernel_data :: memory_segment_d where
  "kernel_data = memory_segment 0 0xfffff (enum_or segment_data segment_data_write) Sys_code_or_data Ring_kernel Pr_present
     Lng_other Db_32_bit Gr_four_k_pages"

definition single_task_descriptor :: "u32 \<Rightarrow> tss_d" where
  "single_task_descriptor tss = task_state_segment_d tss (104 - 1) False Ring_kernel Pr_present Gr_bytes"

text \<open>The size of \<^verbatim>\<open>sched::Task\<close> is an argument.\<close>

definition kernel_task_descriptor :: "u32 \<Rightarrow> u32 \<Rightarrow> tss_d" where
  "kernel_task_descriptor task_size task = task_state_segment_d task (task_size - 1) False Ring_kernel Pr_present Gr_bytes"

datatype gdt_entry = Memory_segment memory_segment_d | Task_segment tss_d

record table_pointer =
  tp_limit :: u16
  tp_base :: ptr

record gdt =
  gd_gdt :: "gdt_entry fixed_vector"
  gd_pointer :: table_pointer

definition gdt_construct :: gdt where
  "gdt_construct = \<lparr>gd_gdt = fv_construct (Memory_segment null_segment) 1024, gd_pointer = \<lparr>tp_limit = 0, tp_base = 0\<rparr>\<rparr>"

definition gdt_push_segment :: "memory_segment_d \<Rightarrow> gdt \<Rightarrow> (gdt \<times> u16) result" where
  "gdt_push_segment msd g =
     (let idx = ucast (fv_size (gd_gdt g))
      in bindE (fv_push_back (Memory_segment msd) (gd_gdt g)) (\<lambda>v. Inr (g\<lparr>gd_gdt := v\<rparr>, idx)))"

definition gdt_push_task :: "tss_d \<Rightarrow> gdt \<Rightarrow> (gdt \<times> u16) result" where
  "gdt_push_task tssd g =
     (let idx = ucast (fv_size (gd_gdt g))
      in bindE (fv_push_back (Task_segment tssd) (gd_gdt g)) (\<lambda>v. Inr (g\<lparr>gd_gdt := v\<rparr>, idx)))"

text \<open>The registers of the processor that hold tables and selectors. The address of the array is an argument.\<close>

record cpu_tables =
  cpu_gdtr :: table_pointer
  cpu_idtr :: table_pointer
  cpu_cs :: u16
  cpu_data_segments :: u16
  cpu_tr :: u16

definition gdt_reload_table :: "ptr \<Rightarrow> gdt \<times> cpu_tables \<Rightarrow> gdt \<times> cpu_tables" where
  "gdt_reload_table gdt_data = (\<lambda>(g, c).
     let g1 = g\<lparr>gd_pointer := \<lparr>tp_limit = ucast (fv_size (gd_gdt g) * 8 - 1), tp_base = gdt_data\<rparr>\<rparr>
     in (g1, c\<lparr>cpu_gdtr := gd_pointer g1\<rparr>))"

definition reload_segment_registers :: "cpu_tables \<Rightarrow> cpu_tables" where
  "reload_segment_registers c =
     c\<lparr>cpu_data_segments := selector_of Idx_kernel_data TI_global Ring_kernel,
       cpu_cs := selector_of Idx_kernel_code TI_global Ring_kernel\<rparr>"

definition init_task_register :: "cpu_tables \<Rightarrow> cpu_tables" where
  "init_task_register c = c\<lparr>cpu_tr := selector_of Idx_single_task TI_global Ring_kernel\<rparr>"

definition load_kernel_segments :: "ptr \<Rightarrow> u32 \<Rightarrow> gdt \<times> cpu_tables \<Rightarrow> (gdt \<times> cpu_tables) result" where
  "load_kernel_segments gdt_data tss = (\<lambda>(g, c).
     bindE (gdt_push_segment null_segment g) (\<lambda>(g, i0).
     bindE (gdt_push_segment kernel_code g) (\<lambda>(g, i1).
     bindE (gdt_push_segment kernel_data g) (\<lambda>(g, i2).
     bindE (gdt_push_task (single_task_descriptor tss) g) (\<lambda>(g, i3).
       let (g, c) = gdt_reload_table gdt_data (g, c)
       in Inr (g, init_task_register (reload_segment_registers c)))))))"

text \<open>The task state segment and how it prints itself.\<close>

record ring_stack =
  rs_pointer :: ptr
  rs_segment :: u16

record gp_registers =
  gp_eax :: u32
  gp_ecx :: u32
  gp_edx :: u32
  gp_ebx :: u32
  gp_esp :: ptr
  gp_ebp :: ptr
  gp_esi :: u32
  gp_edi :: u32

definition gp_zero :: gp_registers where
  "gp_zero = \<lparr>gp_eax = 0, gp_ecx = 0, gp_edx = 0, gp_ebx = 0, gp_esp = nullptr, gp_ebp = nullptr, gp_esi = 0, gp_edi = 0\<rparr>"

definition zero_on_stack :: "ptr \<Rightarrow> gp_registers" where
  "zero_on_stack stack_ptr =
     \<lparr>gp_eax = 0, gp_ecx = 0, gp_edx = 0, gp_ebx = 0, gp_esp = stack_ptr, gp_ebp = stack_ptr, gp_esi = 0, gp_edi = 0\<rparr>"

record segment_registers =
  sr_es :: u16
  sr_cs :: u16
  sr_ss :: u16
  sr_ds :: u16
  sr_fs :: u16
  sr_gs :: u16
  sr_ldt :: u16

definition segment_registers_of :: "u16 \<Rightarrow> u16 \<Rightarrow> segment_registers" where
  "segment_registers_of code data =
     \<lparr>sr_es = data, sr_cs = code, sr_ss = data, sr_ds = data, sr_fs = data, sr_gs = data, sr_ldt = 0\<rparr>"

definition segment_registers_kernel :: segment_registers where
  "segment_registers_kernel = segment_registers_of KERNEL_CODE_SELECTOR KERNEL_DATA_SELECTOR"

record tss =
  ts_previous_task_link :: u16
  ts_stack :: "ring_stack list"
  ts_page_directory :: ptr
  ts_instruction_ptr :: ptr
  ts_eflags :: u32
  ts_gp_registers :: gp_registers
  ts_segment_registers :: segment_registers
  ts_debug_trap :: bool
  ts_io_map_base_address :: u16

definition tss_construct :: "u16 \<Rightarrow> u16 \<Rightarrow> ptr \<Rightarrow> ptr \<Rightarrow> u32 \<Rightarrow> gp_registers \<Rightarrow> segment_registers \<Rightarrow> tss" where
  "tss_construct prev stack_segment stack_ptr instruction flags gp segs =
     \<lparr>ts_previous_task_link = prev,
      ts_stack = [\<lparr>rs_pointer = stack_ptr, rs_segment = stack_segment\<rparr>, \<lparr>rs_pointer = nullptr, rs_segment = 0\<rparr>,
                  \<lparr>rs_pointer = nullptr, rs_segment = 0\<rparr>],
      ts_page_directory = nullptr, ts_instruction_ptr = instruction, ts_eflags = flags, ts_gp_registers = gp,
      ts_segment_registers = segs, ts_debug_trap = False, ts_io_map_base_address = 0\<rparr>"

definition single_task :: tss where
  "single_task = tss_construct 0 0 nullptr nullptr 0 gp_zero (segment_registers_of 0 0)"

definition shl_segment_register :: "u16 \<Rightarrow> 's ostream \<times> 's \<Rightarrow> ('s ostream \<times> 's) result" where
  "shl_segment_register segment = guarded (out_items [O_dec, O_u16 segment])"

definition shl_ring_stack :: "ring_stack \<Rightarrow> 's ostream \<times> 's \<Rightarrow> ('s ostream \<times> 's) result" where
  "shl_ring_stack stack = guarded (out_items [O_dec, O_u16 (rs_segment stack), O_str '':'', O_hex, O_ptr (rs_pointer stack)])"

definition shl_tss :: "tss \<Rightarrow> 's ostream \<times> 's \<Rightarrow> ('s ostream \<times> 's) result" where
  "shl_tss t = guarded (\<lambda>x.
     bindE (out_items [O_hex, O_str ''tss{'', O_str ''prev='', O_u16 (ts_previous_task_link t), O_str '',stack_0=''] x) (\<lambda>x1.
     bindE (shl_ring_stack (ts_stack t ! 0) x1) (\<lambda>x2.
     bindE (out_items [O_str '',isp='', O_u32 (ts_instruction_ptr t), O_str '',eflags='', O_u32 (ts_eflags t), O_str '',cs=''] x2) (\<lambda>x3.
     bindE (shl_segment_register (sr_cs (ts_segment_registers t)) x3) (out_items [O_str ''}''])))))"

text \<open>The interrupt table. The address of the assembler handler of each line is an argument.\<close>

record idt =
  id_idt :: "gate list"
  id_pointer :: table_pointer
  id_global_handler :: ptr

definition make_gates :: "(nat \<Rightarrow> u32) \<Rightarrow> nat \<Rightarrow> gate list" where
  "make_gates handlers n = map (\<lambda>i. interrupt_gate (handlers i)) [0..<n]"

definition idt_construct :: "(nat \<Rightarrow> u32) \<Rightarrow> ptr \<Rightarrow> idt" where
  "idt_construct handlers idt_data =
     (let gates = make_gates handlers 256
      in \<lparr>id_idt = gates, id_pointer = \<lparr>tp_limit = of_nat (length gates * 8 - 1), tp_base = idt_data\<rparr>, id_global_handler = nullptr\<rparr>)"

definition idt_reload_table :: "idt \<Rightarrow> cpu_tables \<Rightarrow> cpu_tables" where
  "idt_reload_table i c = c\<lparr>cpu_idtr := id_pointer i\<rparr>"

definition load_interrupts_table :: "idt \<Rightarrow> cpu_tables \<Rightarrow> cpu_tables" where
  "load_interrupts_table i c = idt_reload_table i c"

definition set_global_handler :: "ptr \<Rightarrow> idt \<Rightarrow> idt \<times> ptr" where
  "set_global_handler handler i = (i\<lparr>id_global_handler := handler\<rparr>, id_global_handler i)"

definition shl_gate :: "gate_type \<Rightarrow> 's ostream \<times> 's \<Rightarrow> ('s ostream \<times> 's) result" where
  "shl_gate kind = out_items [O_str (case kind of Gate_task \<Rightarrow> ''Task{}'' | Gate_interrupt \<Rightarrow> ''Interrupt{}'' | Gate_trap \<Rightarrow> ''Trap{}'')]"

section \<open>What the processor reads\<close>

definition field :: "nat \<Rightarrow> nat \<Rightarrow> u64 \<Rightarrow> u64" where
  "field pos len x = take_bit len (drop_bit pos x)"

definition cpu_base :: "u64 \<Rightarrow> u32" where
  "cpu_base x = ucast (field 16 24 x OR push_bit 24 (field 56 8 x))"

definition cpu_limit :: "u64 \<Rightarrow> u32" where
  "cpu_limit x = ucast (field 0 16 x OR push_bit 16 (field 48 4 x))"

definition cpu_gate_offset :: "u64 \<Rightarrow> u32" where
  "cpu_gate_offset x = ucast (field 0 16 x OR push_bit 16 (field 48 16 x))"

lemma field_skip: "w \<le> pos \<Longrightarrow> pos + len \<le> 64 \<Longrightarrow> field pos len (bit_fields ((w, v) # fs)) = field (pos - w) len (bit_fields fs)"
  by (rule bit_eqI) (auto simp: field_def bit_simps)

lemma field_take: "w \<le> len \<Longrightarrow> len \<le> 64 \<Longrightarrow>
    field 0 len (bit_fields ((w, v) # fs)) = take_bit w v OR push_bit w (field 0 (len - w) (bit_fields fs))"
  by (rule bit_eqI) (auto simp: field_def bit_simps)

lemma field_0: "field pos 0 x = 0"
  by (simp add: field_def)

lemmas field_simps = field_skip field_take field_0

declare bit_fields.simps [simp del]

lemma take_bit_ucast: "LENGTH('a) \<le> w \<Longrightarrow> take_bit w (ucast (v :: 'a :: len word) :: u64) = ucast v"
  by (rule bit_eqI) (auto simp: bit_simps dest: bit_imp_le_length)

lemma shiftmask_low:
  "shiftmask v pos 0xf = take_bit 4 (drop_bit pos v)" "shiftmask v pos 0xff = take_bit 8 (drop_bit pos v)"
  "shiftmask v pos 0xffff = take_bit 16 (drop_bit pos v)"
  by (simp_all add: shiftmask_def take_bit_eq_mask mask_eq_exp_minus_1)

text \<open>The parts of a number of 32 bits, put together again.\<close>

lemma parts_of_base:
  "ucast ((ucast (ucast (take_bit 16 v) :: u16) OR push_bit 16 (ucast (ucast (take_bit 8 (drop_bit 16 v)) :: u8)) :: u64)
     OR push_bit 24 (ucast (ucast (take_bit 8 (drop_bit 24 v)) :: u8))) = v" for v :: u32
proof (rule bit_word_eqI)
  fix n assume "n < LENGTH(32)"
  then show "bit (ucast ((ucast (ucast (take_bit 16 v) :: u16) OR push_bit 16 (ucast (ucast (take_bit 8 (drop_bit 16 v)) :: u8)) :: u64)
     OR push_bit 24 (ucast (ucast (take_bit 8 (drop_bit 24 v)) :: u8))) :: u32) n = bit v n"
    by (cases "n < 24") (auto simp: bit_simps)
qed

lemma parts_of_limit:
  "ucast ((ucast (ucast (take_bit 16 v) :: u16) OR push_bit 16 (ucast (ucast (take_bit 4 (drop_bit 16 v)) :: 4 word)) :: u64)) = take_bit 20 v"
  for v :: u32
  by (rule bit_eqI) (auto simp: bit_simps)

lemma parts_of_offset:
  "ucast ((ucast (ucast (take_bit 16 v) :: u16) OR push_bit 16 (ucast (ucast (take_bit 16 (drop_bit 16 v)) :: u16)) :: u64)) = v"
  for v :: u32
  by (rule bit_eqI) (auto simp: bit_simps)

lemma low_bits_again: "ucast (ucast tag :: 4 word) = (ucast (take_bit 4 tag) :: u64)" for tag :: u8
  by (rule bit_eqI) (auto simp: bit_simps)

lemma low_bits_twice: "take_bit 4 (ucast (take_bit 4 tag)) = (ucast (take_bit 4 tag) :: u64)" for tag :: u8
  by (rule bit_eqI) (auto simp: bit_simps)

lemma one_bit: "ucast (v :: 1 word) mod 2 = (ucast v :: u64)"
  using take_bit_ucast [of 1 v] by (simp add: take_bit_Suc_from_most take_bit_eq_mod)

lemmas descriptor_simps = field_simps take_bit_ucast shiftmask_low parts_of_base parts_of_limit parts_of_offset low_bits_again low_bits_twice one_bit

lemma selector_values:
  "selector_of Idx_kernel_code TI_global Ring_kernel = 8" "selector_of Idx_kernel_data TI_global Ring_kernel = 16"
  "selector_of Idx_single_task TI_global Ring_kernel = 24"
  by (simp_all add: selector_of_def segment_selector_def)

section \<open>The vector\<close>

definition fv_rep :: "'a fixed_vector \<Rightarrow> 'a list \<Rightarrow> bool" where
  "fv_rep v xs \<longleftrightarrow> fv_size v = of_nat (length xs) \<and> length xs \<le> length (fv_data v) \<and> length (fv_data v) < 4294967295
     \<and> take (length xs) (fv_data v) = xs"

abbreviation fv_capacity :: "'a fixed_vector \<Rightarrow> nat" where
  "fv_capacity v \<equiv> length (fv_data v)"

lemma fv_repD:
  assumes "fv_rep v xs"
  shows "fv_size v = of_nat (length xs)" "length xs \<le> fv_capacity v" "fv_capacity v < 4294967295"
    "unat (fv_size v) = length xs" "unat (fv_size v + 1) = Suc (length xs)"
proof -
  show r: "fv_size v = of_nat (length xs)" "length xs \<le> fv_capacity v" "fv_capacity v < 4294967295"
    using assms by (auto simp: fv_rep_def)
  then show "unat (fv_size v) = length xs" by (simp add: unat_of_nat_u32)
  have "fv_size v + 1 = of_nat (Suc (length xs))" using r(1) by simp
  then show "unat (fv_size v + 1) = Suc (length xs)" using r by (simp add: unat_of_nat_u32 del: of_nat_Suc)
qed

lemma fv_push_back_full: "fv_rep v xs \<Longrightarrow> length xs = fv_capacity v \<Longrightarrow> fv_push_back x v = Inl (Panic ''fault'')"
  using fv_repD [of v xs] by (simp add: fv_push_back_def fv_expand_by_def fv_expand_up_to_def)

lemma fv_push_back_rep:
  assumes "fv_rep v xs" "length xs < fv_capacity v"
  shows "\<exists>v'. fv_push_back x v = Inr v' \<and> fv_rep v' (xs @ [x]) \<and> fv_capacity v' = fv_capacity v"
proof -
  note r = fv_repD [OF assms(1)]
  have "max (fv_size v) (fv_size v + 1) = fv_size v + 1"
    using r(4,5) by (simp add: max_def word_le_nat_alt)
  then have "fv_push_back x v = Inr (v\<lparr>fv_size := fv_size v + 1, fv_data := (fv_data v)[length xs := x]\<rparr>)"
    using r assms(2) by (simp add: fv_push_back_def fv_expand_by_def fv_expand_up_to_def)
  moreover have "fv_rep (v\<lparr>fv_size := fv_size v + 1, fv_data := (fv_data v)[length xs := x]\<rparr>) (xs @ [x])"
    using assms r(1,3) by (auto simp: fv_rep_def take_Suc_conv_app_nth)
  ultimately show ?thesis by simp
qed

lemma fv_at_rep:
  assumes "fv_rep v xs"
  shows "fv_at pos v = (if unat pos < length xs then Inr (xs ! unat pos) else Inl (Panic ''fault''))"
proof -
  have "xs ! i = fv_data v ! i" if "i < length xs" for i
    using assms that by (metis fv_rep_def nth_take)
  then show ?thesis using fv_repD [OF assms]
    by (auto simp: fv_at_def array_at_def word_le_nat_alt not_le)
qed

text \<open>What the tables rely on of a vector with a bound.\<close>

primrec push_all :: "('a \<Rightarrow> 'v \<Rightarrow> 'v result) \<Rightarrow> 'a list \<Rightarrow> 'v \<Rightarrow> 'v result" where
  "push_all snoc [] v = Inr v"
| "push_all snoc (x # xs) v = bindE (snoc x v) (push_all snoc xs)"

locale bounded_vector =
  fixes rep :: "'v \<Rightarrow> 'a list \<Rightarrow> bool" and room :: "'v \<Rightarrow> nat"
    and snoc :: "'a \<Rightarrow> 'v \<Rightarrow> 'v result" and get :: "u32 \<Rightarrow> 'v \<Rightarrow> 'a result"
  assumes push_room: "rep v xs \<Longrightarrow> length xs < room v \<Longrightarrow> \<exists>v'. snoc x v = Inr v' \<and> rep v' (xs @ [x]) \<and> room v' = room v"
    and push_full: "rep v xs \<Longrightarrow> length xs = room v \<Longrightarrow> snoc x v = Inl (Panic ''fault'')"
    and rep_room: "rep v xs \<Longrightarrow> length xs \<le> room v"
    and get_rep: "rep v xs \<Longrightarrow> get pos v = (if unat pos < length xs then Inr (xs ! unat pos) else Inl (Panic ''fault''))"
begin

lemma push_all_room:
  assumes "rep v xs" "length xs + length ys \<le> room v"
  shows "\<exists>v'. push_all snoc ys v = Inr v' \<and> rep v' (xs @ ys) \<and> room v' = room v"
  using assms
proof (induction ys arbitrary: v xs)
  case (Cons y ys)
  obtain v1 where v1: "snoc y v = Inr v1" "rep v1 (xs @ [y])" "room v1 = room v"
    using push_room [of v xs y] Cons.prems by auto
  then show ?case using Cons.IH [of v1 "xs @ [y]"] Cons.prems by auto
qed simp

lemma push_all_full:
  assumes "rep v xs" "room v < length xs + length ys"
  shows "push_all snoc ys v = Inl (Panic ''fault'')"
  using assms
proof (induction ys arbitrary: v xs)
  case Nil
  then show ?case using rep_room [of v xs] by simp
next
  case (Cons y ys)
  show ?case
  proof (cases "length xs < room v")
    case True
    then obtain v1 where "snoc y v = Inr v1" "rep v1 (xs @ [y])" "room v1 = room v"
      using push_room [of v xs y] Cons.prems(1) by auto
    then show ?thesis using Cons.IH [of v1 "xs @ [y]"] Cons.prems(2) by auto
  next
    case False
    then show ?thesis using push_full [of v xs y] rep_room [of v xs] Cons.prems(1) by auto
  qed
qed

end

interpretation fv: bounded_vector fv_rep fv_capacity fv_push_back fv_at
  by unfold_locales (fact fv_push_back_rep fv_push_back_full fv_repD(2) fv_at_rep)+

lemma load_kernel_segments_pushes:
  "load_kernel_segments gdt_data tss (g, c) =
     bindE (push_all fv_push_back [Memory_segment null_segment, Memory_segment kernel_code, Memory_segment kernel_data,
         Task_segment (single_task_descriptor tss)] (gd_gdt g)) (\<lambda>v.
       Inr (g\<lparr>gd_gdt := v, gd_pointer := \<lparr>tp_limit = ucast (fv_size v * 8 - 1), tp_base = gdt_data\<rparr>\<rparr>,
         c\<lparr>cpu_gdtr := \<lparr>tp_limit = ucast (fv_size v * 8 - 1), tp_base = gdt_data\<rparr>, cpu_data_segments := 16, cpu_cs := 8, cpu_tr := 24\<rparr>))"
  by (auto simp: load_kernel_segments_def gdt_push_segment_def gdt_push_task_def gdt_reload_table_def init_task_register_def
      reload_segment_registers_def selector_values Let_def intro!: bindE_ext)

lemma segment_images:
  "memory_segment_image kernel_code = 0x00cf9a000000ffff" "memory_segment_image kernel_data = 0x00cf92000000ffff"
  "memory_segment_image null_segment = 0"
  by (simp_all add: memory_segment_image_def kernel_code_def kernel_data_def null_segment_def memory_segment_def bit_fields.simps
      shiftmask_def enum_or_def segment_code_def segment_code_read_def segment_data_def segment_data_write_def segment_null_def)

lemma gate_offset_read: "cpu_gate_offset (gate_image (interrupt_gate func)) = func"
  by (simp add: cpu_gate_offset_def gate_image_def interrupt_gate_def gate_construct_def descriptor_simps)

section \<open>Properties\<close>

text \<open>
  C25: the processor reads back from the descriptors what they were made from. A memory segment has its
  base, the low 20 bits of its limit, its type, privilege, presence and granularity at the places where the
  processor looks for them; a descriptor of a task state segment likewise; an interrupt gate leads to its handler in
  the code segment of the kernel as a 32-bit interrupt gate of ring 0.
\<close>

theorem descriptors_decoded:
  "(let x = memory_segment_image (memory_segment base limit tag ssf dpl present lng db gr)
    in cpu_base x = base \<and> cpu_limit x = take_bit 20 limit \<and> field 40 4 x = ucast (take_bit 4 tag)
      \<and> field 44 1 x = ucast (system_value ssf) \<and> field 45 2 x = ucast (ring_value dpl) \<and> field 47 1 x = ucast (present_value present)
      \<and> field 52 1 x = 0 \<and> field 53 1 x = ucast (long_value lng) \<and> field 54 1 x = ucast (operation_size_value db)
      \<and> field 55 1 x = ucast (granularity_value gr))
   \<and> (let x = tss_d_image (task_state_segment_d base limit busy dpl present gr)
      in cpu_base x = base \<and> cpu_limit x = take_bit 20 limit \<and> field 40 5 x = (if busy then 11 else 9)
        \<and> field 45 2 x = ucast (ring_value dpl) \<and> field 47 1 x = ucast (present_value present) \<and> field 55 1 x = ucast (granularity_value gr))
   \<and> (let x = gate_image (interrupt_gate func)
      in cpu_gate_offset x = func \<and> field 16 16 x = 8 \<and> field 32 8 x = 0 \<and> field 40 5 x = 0xe \<and> field 45 2 x = 0 \<and> field 47 1 x = 1)"
  unfolding Let_def
  by (intro conjI; simp only: cpu_base_def cpu_limit_def cpu_gate_offset_def memory_segment_image_def memory_segment_def
      tss_d_image_def task_state_segment_d_def gate_image_def interrupt_gate_def gate_construct_def;
      simp add: descriptor_simps KERNEL_CODE_SELECTOR_def selector_values)

text \<open>
  The fixed size vector refines a list with a bound: it starts empty; \<^verbatim>\<open>push_back\<close> appends below the
  capacity and panics at it; \<^verbatim>\<open>at\<close> returns the elements that were pushed and panics at every other position.
\<close>

theorem fixed_vector_refines:
  assumes "fv_rep v xs"
  shows "(cap < 4294967295 \<longrightarrow> fv_rep (fv_construct z cap) []) \<and>
    (if length xs < fv_capacity v then \<exists>v'. fv_push_back x v = Inr v' \<and> fv_rep v' (xs @ [x]) \<and> fv_capacity v' = fv_capacity v
      else fv_push_back x v = Inl (Panic ''fault'')) \<and>
    fv_at pos v = (if unat pos < length xs then Inr (xs ! unat pos) else Inl (Panic ''fault''))"
  using fv_push_back_rep [OF assms] fv_push_back_full [OF assms] fv_repD(2) [OF assms] fv_at_rep [OF assms]
  by (auto simp: fv_rep_def fv_construct_def)

theorem fixed_vector_refines_witness:
  "fv_push_back (9 :: nat) \<lparr>fv_data = [7, 8], fv_size = 2\<rparr> = Inl (Panic ''fault'') \<and> fv_at 1 \<lparr>fv_data = [7, 8 :: nat], fv_size = 2\<rparr> = Inr 8"
proof -
  have "fv_rep \<lparr>fv_data = [7, 8], fv_size = 2\<rparr> [7, 8 :: nat]" by (simp add: fv_rep_def)
  from fixed_vector_refines [OF this, of 0 "0 :: nat" 9 1] show ?thesis by auto
qed

text \<open>
  C24: loading the segments of the kernel. On a fresh table the register of the table gets its address and the
  limit of four entries; the selectors in the code, data and task registers are those of the entries for
  the flat code and data segments, which span the whole address space, and for the task state segment. On a
  table that has no room for four entries the routine panics. The interrupt table has the handler of
  each line at its place.
\<close>

theorem kernel_tables_loaded:
  assumes "fv_rep (gd_gdt g) xs" "fv_capacity (gd_gdt g) = 1024"
  shows "(1020 < length xs \<longrightarrow> load_kernel_segments gdt_data tss (g, c) = Inl (Panic ''fault''))
    \<and> (\<exists>g' c'. load_kernel_segments gdt_data tss (gdt_construct, c) = Inr (g', c')
        \<and> cpu_gdtr c' = \<lparr>tp_limit = 31, tp_base = gdt_data\<rparr>
        \<and> fv_at (ucast (drop_bit 3 (cpu_cs c'))) (gd_gdt g') = Inr (Memory_segment kernel_code)
        \<and> fv_at (ucast (drop_bit 3 (cpu_data_segments c'))) (gd_gdt g') = Inr (Memory_segment kernel_data)
        \<and> fv_at (ucast (drop_bit 3 (cpu_tr c'))) (gd_gdt g') = Inr (Task_segment (single_task_descriptor tss)))
    \<and> memory_segment_image kernel_code = 0x00cf9a000000ffff \<and> memory_segment_image kernel_data = 0x00cf92000000ffff
    \<and> memory_segment_image null_segment = 0
    \<and> (\<forall>i < 256. cpu_gate_offset (gate_image (id_idt (idt_construct handlers idt_data) ! i)) = handlers i)
    \<and> tp_limit (cpu_idtr (load_interrupts_table (idt_construct handlers idt_data) c)) = 2047"
proof -
  let ?es = "[Memory_segment null_segment, Memory_segment kernel_code, Memory_segment kernel_data, Task_segment (single_task_descriptor tss)]"
  have full: "load_kernel_segments gdt_data tss (g, c) = Inl (Panic ''fault'')" if "1020 < length xs"
    using fv.push_all_full [OF assms(1), of ?es] assms(2) that by (simp add: load_kernel_segments_pushes)
  have "fv_rep (gd_gdt gdt_construct) []" by (simp add: fv_rep_def gdt_construct_def fv_construct_def)
  from fv.push_all_room [OF this, of ?es] obtain v where v: "push_all fv_push_back ?es (gd_gdt gdt_construct) = Inr v" "fv_rep v ?es"
    by (auto simp: gdt_construct_def fv_construct_def)
  show ?thesis
    using full v(1) fv_repD(1) [OF v(2)]
    by (simp add: load_kernel_segments_pushes fv_at_rep [OF v(2)] idt_construct_def make_gates_def load_interrupts_table_def
        idt_reload_table_def segment_images gate_offset_read Let_def)
qed

theorem kernel_tables_loaded_witness:
  "\<forall>c0. load_kernel_segments 0x8000 0x9000 (gdt_construct\<lparr>gd_gdt := \<lparr>fv_data = replicate 1024 (Memory_segment null_segment), fv_size = 1024\<rparr>\<rparr>, c0)
      = Inl (Panic ''fault'')
    \<and> (\<exists>g' c'. load_kernel_segments 0x8000 0x9000 (gdt_construct, c0) = Inr (g', c') \<and> cpu_gdtr c' = \<lparr>tp_limit = 31, tp_base = 0x8000\<rparr>)"
proof
  fix c0
  let ?g = "gdt_construct\<lparr>gd_gdt := \<lparr>fv_data = replicate 1024 (Memory_segment null_segment), fv_size = 1024\<rparr>\<rparr>"
  have "fv_rep (gd_gdt ?g) (replicate 1024 (Memory_segment null_segment))" by (simp add: fv_rep_def)
  from kernel_tables_loaded [OF this, where gdt_data = "0x8000" and tss = "0x9000" and c = c0
      and handlers = of_nat and idt_data = 0]
  show "load_kernel_segments 0x8000 0x9000 (?g, c0) = Inl (Panic ''fault'')
    \<and> (\<exists>g' c'. load_kernel_segments 0x8000 0x9000 (gdt_construct, c0) = Inr (g', c') \<and> cpu_gdtr c' = \<lparr>tp_limit = 31, tp_base = 0x8000\<rparr>)"
    by auto
qed

end
