(* ===== verification/Algorithms.thy ===== *)
theory Algorithms
  imports Kernel_Prelude
begin

text \<open>
  \<^verbatim>\<open>libkernelcxx/include/algorithm.hpp\<close>: the algorithms on ranges, for iterators into one array. An
  iterator is a position, the elements are a function of the position. The loops that compare
  iterators for equality run forever on a range that ends before it begins, which is \<^const>\<open>None\<close>.
\<close>

section \<open>Definitions\<close>

partial_function (option) copy_range ::
  "int \<Rightarrow> int \<Rightarrow> int \<Rightarrow> (int \<Rightarrow> 'a) \<Rightarrow> ((int \<Rightarrow> 'a) \<times> int) option" where
  "copy_range first last_pos res a =
     (if first \<noteq> last_pos then copy_range (first + 1) last_pos (res + 1) (a(res := a first))
      else Some (a, res))"

function copy_n :: "int \<Rightarrow> int \<Rightarrow> int \<Rightarrow> (int \<Rightarrow> 'a) \<Rightarrow> (int \<Rightarrow> 'a) \<times> int" where
  "copy_n first n res a =
     (if n > 0 then copy_n (first + 1) (n - 1) (res + 1) (a(res := a first)) else (a, res))"
  by pat_completeness auto
termination
  by (relation "measure (\<lambda>(first, n, res, a). nat n)") auto

partial_function (option) for_each :: "int \<Rightarrow> int \<Rightarrow> ('a \<Rightarrow> 's \<Rightarrow> 's) \<Rightarrow> (int \<Rightarrow> 'a) \<Rightarrow> 's \<Rightarrow> 's option" where
  "for_each first last_pos func a s =
     (if first \<noteq> last_pos then for_each (first + 1) last_pos func a (func (a first) s) else Some s)"

partial_function (option) fill_range :: "int \<Rightarrow> int \<Rightarrow> 'a \<Rightarrow> (int \<Rightarrow> 'a) \<Rightarrow> (int \<Rightarrow> 'a) option" where
  "fill_range first last_pos v a =
     (if first \<noteq> last_pos then fill_range (first + 1) last_pos v (a(first := v)) else Some a)"

function fill_n :: "int \<Rightarrow> int \<Rightarrow> 'a \<Rightarrow> (int \<Rightarrow> 'a) \<Rightarrow> (int \<Rightarrow> 'a)" where
  "fill_n first n v a = (if n > 0 then fill_n (first + 1) (n - 1) v (a(first := v)) else a)"
  by pat_completeness auto
termination
  by (relation "measure (\<lambda>(first, n, v, a). nat n)") auto

partial_function (option) find_if :: "int \<Rightarrow> int \<Rightarrow> ('a \<Rightarrow> bool) \<Rightarrow> (int \<Rightarrow> 'a) \<Rightarrow> int option" where
  "find_if first last_pos pred a =
     (if first \<noteq> last_pos then if pred (a first) then Some first else find_if (first + 1) last_pos pred a
      else Some first)"

definition max_of :: "'a :: ord \<Rightarrow> 'a \<Rightarrow> 'a" where
  "max_of a b = (if a < b then b else a)"

declare copy_n.simps [simp del] fill_n.simps [simp del]

section \<open>Behaviour\<close>

lemma fill_n_apply: "fill_n first n v a i = (if first \<le> i \<and> i < first + n then v else a i)"
proof (induction "nat n" arbitrary: first n a)
  case 0
  then show ?case by (subst fill_n.simps) auto
next
  case (Suc k)
  then have "fill_n (first + 1) (n - 1) v (a(first := v)) i
      = (if first + 1 \<le> i \<and> i < first + 1 + (n - 1) then v else (a(first := v)) i)"
    by (intro Suc.hyps(1)) simp
  then show ?case using Suc.hyps(2) by (subst fill_n.simps) auto
qed

lemma copy_n_apply:
  assumes "res \<le> first \<or> first + n \<le> res"
  shows "fst (copy_n first n res a) i = (if res \<le> i \<and> i < res + n then a (first + (i - res)) else a i)"
  using assms
proof (induction "nat n" arbitrary: first n res a)
  case 0
  then show ?case by (subst copy_n.simps) auto
next
  case (Suc k)
  let ?a = "a(res := a first)"
  have "fst (copy_n (first + 1) (n - 1) (res + 1) ?a) i
      = (if res + 1 \<le> i \<and> i < res + 1 + (n - 1) then ?a (first + 1 + (i - (res + 1))) else ?a i)"
    using Suc.hyps(2) Suc.prems by (intro Suc.hyps(1)) auto
  moreover have "?a (first + 1 + (i - (res + 1))) = a (first + (i - res))" if "res + 1 \<le> i" "i < res + n"
    using that Suc.prems by auto
  ultimately show ?case using Suc.hyps(2) by (cases "i = res"; subst copy_n.simps) auto
qed

lemma copy_n_end: "snd (copy_n first n res a) = res + max 0 n"
proof (induction "nat n" arbitrary: first n res a)
  case 0
  then show ?case by (subst copy_n.simps) simp
next
  case (Suc k)
  have "snd (copy_n (first + 1) (n - 1) (res + 1) (a(res := a first))) = res + 1 + max 0 (n - 1)"
    using Suc.hyps(2) by (intro Suc.hyps(1)) simp
  then show ?case using Suc.hyps(2) by (subst copy_n.simps) auto
qed

lemma copy_range_eq:
  assumes "first \<le> last_pos"
  shows "copy_range first last_pos res a = Some (copy_n first (last_pos - first) res a)"
  using assms
proof (induction "nat (last_pos - first)" arbitrary: first res a)
  case 0
  then show ?case by (subst copy_range.simps, subst copy_n.simps) simp
next
  case (Suc k)
  then show ?case
    by (subst copy_range.simps, subst copy_n.simps) (simp add: algebra_simps)
qed

lemma fill_range_eq:
  assumes "first \<le> last_pos"
  shows "fill_range first last_pos v a = Some (fill_n first (last_pos - first) v a)"
  using assms
proof (induction "nat (last_pos - first)" arbitrary: first a)
  case 0
  then show ?case by (subst fill_range.simps, subst fill_n.simps) simp
next
  case (Suc k)
  then show ?case
    by (subst fill_range.simps, subst fill_n.simps) (simp add: algebra_simps)
qed

lemma for_each_eq:
  assumes "first \<le> last_pos"
  shows "for_each first last_pos func a s = Some (fold (\<lambda>i. func (a i)) [first..last_pos - 1] s)"
  using assms
proof (induction "nat (last_pos - first)" arbitrary: first s)
  case 0
  then show ?case by (subst for_each.simps) simp
next
  case (Suc k)
  then have "[first..last_pos - 1] = first # [first + 1..last_pos - 1]" by (simp add: upto.simps)
  moreover have "first \<noteq> last_pos" using Suc.hyps(2) by auto
  ultimately show ?case using Suc by (subst for_each.simps) simp
qed

lemma find_if_first:
  assumes "first \<le> last_pos"
  shows "\<exists>i. find_if first last_pos pred a = Some i \<and> first \<le> i \<and> i \<le> last_pos
    \<and> (\<forall>j. first \<le> j \<and> j < i \<longrightarrow> \<not> pred (a j)) \<and> (i < last_pos \<longrightarrow> pred (a i))"
  using assms
proof (induction "nat (last_pos - first)" arbitrary: first)
  case 0
  then show ?case by (subst find_if.simps) auto
next
  case (Suc k)
  show ?case
  proof (cases "pred (a first)")
    case True
    then show ?thesis using Suc by (subst find_if.simps) auto
  next
    case False
    have "k = nat (last_pos - (first + 1))" "first + 1 \<le> last_pos" using Suc.hyps(2) Suc.prems by simp_all
    then obtain i where i: "find_if (first + 1) last_pos pred a = Some i" "first + 1 \<le> i" "i \<le> last_pos"
      "\<forall>j. first + 1 \<le> j \<and> j < i \<longrightarrow> \<not> pred (a j)" "i < last_pos \<longrightarrow> pred (a i)"
      using Suc.hyps(1) by blast
    have "\<not> pred (a j)" if "first \<le> j" "j < i" for j using that False i(4) by (cases "j = first") auto
    then show ?thesis using i False Suc.hyps(2) by (subst find_if.simps) auto
  qed
qed

text \<open>A range that ends before it begins is never left.\<close>

lemma fill_range_backwards:
  assumes "fill_range first last_pos v a = Some b"
  shows "first \<le> last_pos"
proof (rule fill_range.raw_induct [OF _ assms])
  fix f :: "int \<Rightarrow> int \<Rightarrow> 'a \<Rightarrow> (int \<Rightarrow> 'a) \<Rightarrow> (int \<Rightarrow> 'a) option" and first last_pos v a b
  assume IH: "\<And>first last_pos v a b. f first last_pos v a = Some b \<Longrightarrow> first \<le> last_pos"
    and body: "(if first \<noteq> last_pos then f (first + 1) last_pos v (a(first := v)) else Some a) = Some b"
  show "first \<le> last_pos"
  proof (cases "first = last_pos")
    case False
    then have "f (first + 1) last_pos v (a(first := v)) = Some b" using body by simp
    from IH [OF this] show ?thesis by simp
  qed simp
qed

end
