(* ===== verification/Vga_Console.thy ===== *)
theory Vga_Console
  imports Algorithms
begin

text \<open>
  \<^verbatim>\<open>devices/src/vga_console.cpp\<close>: the text console. The cells of the video memory are a function of the
  index from \<^verbatim>\<open>iomem\<close> on, the cursor is kept in two C integers. The console refines a terminal whose
  screen is a list of rows.
\<close>

section \<open>Definitions\<close>

datatype color =
  black | blue | green | cyan | red | magenta | brown | grey
  | dark_grey | bright_blue | bright_green | bright_cyan | bright_red | bright_magenta | yellow | white

definition color_value :: "color \<Rightarrow> nat" where
  "color_value c = (case c of
     black \<Rightarrow> 0 | blue \<Rightarrow> 1 | green \<Rightarrow> 2 | cyan \<Rightarrow> 3 | red \<Rightarrow> 4 | magenta \<Rightarrow> 5 | brown \<Rightarrow> 6 | grey \<Rightarrow> 7
   | dark_grey \<Rightarrow> 8 | bright_blue \<Rightarrow> 9 | bright_green \<Rightarrow> 10 | bright_cyan \<Rightarrow> 11 | bright_red \<Rightarrow> 12
   | bright_magenta \<Rightarrow> 13 | yellow \<Rightarrow> 14 | white \<Rightarrow> 15)"

record cell =
  cell_ch :: char
  cell_fg :: color
  cell_bg :: color

text \<open>The two bytes of a cell in video memory: the character, then the colours in four bits each.\<close>

definition cell_bits :: "cell \<Rightarrow> u16" where
  "cell_bits c = of_char (cell_ch c) OR push_bit 8 (of_nat (color_value (cell_fg c)))
     OR push_bit 12 (of_nat (color_value (cell_bg c)))"

definition screen_height :: int where
  "screen_height = 25"

definition screen_width :: int where
  "screen_width = 80"

record vga =
  vga_iomem :: "int \<Rightarrow> cell"
  vga_line :: int
  vga_column :: int
  global_fg :: color
  global_bg :: color

definition set_bg :: "color \<Rightarrow> vga \<Rightarrow> vga" where
  "set_bg bg v = v\<lparr>global_bg := bg\<rparr>"

definition get_bg :: "vga \<Rightarrow> color" where
  "get_bg v = global_bg v"

definition set_fg :: "color \<Rightarrow> vga \<Rightarrow> vga" where
  "set_fg fg v = v\<lparr>global_fg := fg\<rparr>"

definition get_fg :: "vga \<Rightarrow> color" where
  "get_fg v = global_fg v"

definition empty_cell :: "vga \<Rightarrow> cell" where
  "empty_cell v = \<lparr>cell_ch = CHR '' '', cell_fg = global_fg v, cell_bg = global_bg v\<rparr>"

definition cursor_address :: "vga \<Rightarrow> int" where
  "cursor_address v = vga_line v * screen_width + vga_column v"

definition carriage_return :: "vga \<Rightarrow> vga" where
  "carriage_return v = v\<lparr>vga_column := 0\<rparr>"

definition scroll :: "vga \<Rightarrow> vga" where
  "scroll v =
     (let moved = fold (\<lambda>i mem. fst (copy_n ((i + 1) * screen_width) screen_width (i * screen_width) mem))
                    [0..screen_height - 2] (vga_iomem v)
      in v\<lparr>vga_iomem := fill_n ((screen_height - 1) * screen_width) screen_width (empty_cell v) moved\<rparr>)"

definition new_line :: "vga \<Rightarrow> vga" where
  "new_line v =
     (let v1 = v\<lparr>vga_line := vga_line v + 1\<rparr>
      in if vga_line v1 = screen_height then scroll (v1\<lparr>vga_line := screen_height - 1\<rparr>) else v1)"

definition line_break :: "vga \<Rightarrow> vga" where
  "line_break v = carriage_return (new_line v)"

definition cursor_next :: "vga \<Rightarrow> vga" where
  "cursor_next v =
     (let v1 = v\<lparr>vga_column := vga_column v + 1\<rparr>
      in if vga_column v1 = screen_width then line_break v1 else v1)"

definition putc_color :: "char \<Rightarrow> color \<Rightarrow> color \<Rightarrow> vga \<Rightarrow> vga" where
  "putc_color symbol fg bg v =
     (if symbol = CHR 0x0A then line_break v
      else if symbol = CHR 0x0D then carriage_return v
      else cursor_next (v\<lparr>vga_iomem := (vga_iomem v)(cursor_address v :=
             \<lparr>cell_ch = symbol, cell_fg = fg, cell_bg = bg\<rparr>)\<rparr>))"

definition putc :: "char \<Rightarrow> vga \<Rightarrow> vga" where
  "putc symbol v = putc_color symbol (global_fg v) (global_bg v) v"

text \<open>The characters of a C string, up to its terminator.\<close>

definition puts_color :: "string \<Rightarrow> color \<Rightarrow> color \<Rightarrow> vga \<Rightarrow> vga" where
  "puts_color str fg bg v = fold (\<lambda>c. putc_color c fg bg) str v"

definition puts :: "string \<Rightarrow> vga \<Rightarrow> vga" where
  "puts str v = puts_color str (global_fg v) (global_bg v) v"

definition clear_screen :: "vga \<Rightarrow> vga" where
  "clear_screen v = v\<lparr>vga_iomem := fill_n 0 (screen_height * screen_width) (empty_cell v) (vga_iomem v)\<rparr>"

section \<open>A terminal of rows\<close>

record terminal =
  rows :: "cell list list"
  t_line :: nat
  t_column :: nat

definition terminal_ok :: "terminal \<Rightarrow> bool" where
  "terminal_ok t \<longleftrightarrow> length (rows t) = 25 \<and> (\<forall>r\<in>set (rows t). length r = 80) \<and> t_line t < 25 \<and> t_column t < 80"

definition t_break :: "cell \<Rightarrow> terminal \<Rightarrow> terminal" where
  "t_break blank t =
     (if t_line t + 1 = 25 then t\<lparr>rows := tl (rows t) @ [replicate 80 blank], t_column := 0\<rparr>
      else t\<lparr>t_line := t_line t + 1, t_column := 0\<rparr>)"

definition t_put :: "cell \<Rightarrow> cell \<Rightarrow> terminal \<Rightarrow> terminal" where
  "t_put blank c t =
     (if cell_ch c = CHR 0x0A then t_break blank t
      else if cell_ch c = CHR 0x0D then t\<lparr>t_column := 0\<rparr>
      else let t1 = t\<lparr>rows := (rows t)[t_line t := (rows t ! t_line t)[t_column t := c]]\<rparr>
      in if t_column t + 1 = 80 then t_break blank t1 else t1\<lparr>t_column := t_column t + 1\<rparr>)"

definition vga_row :: "(int \<Rightarrow> cell) \<Rightarrow> nat \<Rightarrow> cell list" where
  "vga_row mem i = map (\<lambda>j. mem (int i * 80 + int j)) [0..<80]"

definition terminal_of :: "vga \<Rightarrow> terminal" where
  "terminal_of v = \<lparr>rows = map (vga_row (vga_iomem v)) [0..<25], t_line = nat (vga_line v), t_column = nat (vga_column v)\<rparr>"

definition vga_ok :: "vga \<Rightarrow> bool" where
  "vga_ok v \<longleftrightarrow> 0 \<le> vga_line v \<and> vga_line v < 25 \<and> 0 \<le> vga_column v \<and> vga_column v < 80"

text \<open>The memory that belongs to the screen.\<close>

definition same_off_screen :: "vga \<Rightarrow> vga \<Rightarrow> bool" where
  "same_off_screen v w \<longleftrightarrow> (\<forall>i. i < 0 \<or> 2000 \<le> i \<longrightarrow> vga_iomem w i = vga_iomem v i)"


lemma scroll_moves:
  fixes mem :: "int \<Rightarrow> cell"
  shows "fold (\<lambda>i mem. fst (copy_n ((i + 1) * 80) 80 (i * 80) mem)) [0..int k - 1] mem p
    = (if 0 \<le> p \<and> p < int k * 80 then mem (p + 80) else mem p)"
proof (induction k arbitrary: p)
  case (Suc k)
  have "[0..int (Suc k) - 1] = [0..int k - 1] @ [int k]" by (simp add: upto_rec2)
  moreover have "fst (copy_n ((int k + 1) * 80) 80 (int k * 80) a) p
      = (if int k * 80 \<le> p \<and> p < int k * 80 + 80 then a ((int k + 1) * 80 + (p - int k * 80)) else a p)" for a :: "int \<Rightarrow> cell"
    by (rule copy_n_apply) simp
  ultimately show ?case using Suc.IH by (auto simp: algebra_simps)
qed auto

lemma scroll_mem:
  "vga_iomem (scroll v) p = (if 0 \<le> p \<and> p < 1920 then vga_iomem v (p + 80)
     else if 1920 \<le> p \<and> p < 2000 then empty_cell v else vga_iomem v p)"
  using scroll_moves [of 24 "vga_iomem v" p]
  by (simp add: scroll_def Let_def screen_width_def screen_height_def fill_n_apply)

lemma scroll_other [simp]:
  "vga_line (scroll v) = vga_line v" "vga_column (scroll v) = vga_column v"
  "global_fg (scroll v) = global_fg v" "global_bg (scroll v) = global_bg v"
  by (simp_all add: scroll_def Let_def)

lemma scroll_rows:
  "map (vga_row (vga_iomem (scroll v))) [0..<25] = tl (map (vga_row (vga_iomem v)) [0..<25]) @ [replicate 80 (empty_cell v)]"
proof (rule nth_equalityI)
  fix i
  assume "i < length (map (vga_row (vga_iomem (scroll v))) [0..<25])"
  then have i: "i < 25" by simp
  show "map (vga_row (vga_iomem (scroll v))) [0..<25] ! i
      = (tl (map (vga_row (vga_iomem v)) [0..<25]) @ [replicate 80 (empty_cell v)]) ! i"
  proof (cases "i = 24")
    case True
    then show ?thesis
      by (simp add: vga_row_def scroll_mem nth_append map_replicate_const [symmetric] del: upt_Suc)
         (simp add: list_eq_iff_nth_eq del: upt_Suc)
  next
    case False
    then have "i < 24" using i by simp
    then show ?thesis
      by (simp add: vga_row_def scroll_mem nth_append nth_tl algebra_simps del: upt_Suc)
  qed
qed simp

lemma t_break_refines:
  assumes "0 \<le> vga_line v" "vga_line v < 25"
  shows "terminal_of (line_break v) = t_break (empty_cell v) (terminal_of v)"
proof -
  obtain n where n: "vga_line v = int n" using assms(1) by (metis nonneg_int_cases)
  show ?thesis
  proof (cases "n = 24")
    case True
    have e: "empty_cell (v\<lparr>vga_line := 24\<rparr>) = empty_cell v" by (simp add: empty_cell_def)
    have "line_break v = (scroll (v\<lparr>vga_line := 24\<rparr>))\<lparr>vga_column := 0\<rparr>"
      using n True by (simp add: line_break_def new_line_def carriage_return_def screen_height_def)
    then show ?thesis
      using scroll_rows [of "v\<lparr>vga_line := 24\<rparr>"] n True
      by (simp only: terminal_of_def t_break_def e) simp
  next
    case False
    then have "line_break v = v\<lparr>vga_line := int (n + 1), vga_column := 0\<rparr>"
      using n assms by (simp add: line_break_def new_line_def carriage_return_def screen_height_def)
    then show ?thesis using n False by (simp only: terminal_of_def t_break_def) simp
  qed
qed

lemma line_break_ok:
  assumes "0 \<le> vga_line v" "vga_line v < 25"
  shows "vga_ok (line_break v)" "same_off_screen v (line_break v)"
    "global_fg (line_break v) = global_fg v" "global_bg (line_break v) = global_bg v"
  using assms
  by (auto simp: line_break_def new_line_def carriage_return_def vga_ok_def same_off_screen_def screen_height_def Let_def scroll_mem)


lemma row_update:
  assumes "l < 25" "c < 80"
  shows "map (vga_row (mem(int l * 80 + int c := x))) [0..<25]
    = (map (vga_row mem) [0..<25])[l := (map (vga_row mem) [0..<25] ! l)[c := x]]"
proof (rule nth_equalityI)
  fix i
  assume "i < length (map (vga_row (mem(int l * 80 + int c := x))) [0..<25])"
  then have i: "i < 25" by simp
  have eq: "int i * 80 + int j = int l * 80 + int c \<longleftrightarrow> i = l \<and> j = c" if "j < 80" for j
  proof
    assume "int i * 80 + int j = int l * 80 + int c"
    then have n: "i * 80 + j = l * 80 + c" by linarith
    have "i = l" using arg_cong [OF n, of "\<lambda>x. x div 80"] that assms(2) by simp
    then show "i = l \<and> j = c" using n by simp
  qed simp
  have "vga_row (mem(int l * 80 + int c := x)) i = (if i = l then (vga_row mem l)[c := x] else vga_row mem i)"
    using eq by (auto simp: vga_row_def list_eq_iff_nth_eq nth_list_update simp del: upt_Suc)
  then show "map (vga_row (mem(int l * 80 + int c := x))) [0..<25] ! i
      = (map (vga_row mem) [0..<25])[l := (map (vga_row mem) [0..<25] ! l)[c := x]] ! i"
    using i assms(1) by (simp add: nth_list_update del: upt_Suc)
qed simp

lemma putc_color_refines:
  fixes ch :: char and fg bg :: color and v :: vga
  assumes ok: "vga_ok v"
  defines "cl \<equiv> \<lparr>cell_ch = ch, cell_fg = fg, cell_bg = bg\<rparr>"
  shows "terminal_of (putc_color ch fg bg v) = t_put (empty_cell v) cl (terminal_of v)"
    and "vga_ok (putc_color ch fg bg v)" and "same_off_screen v (putc_color ch fg bg v)"
    and "empty_cell (putc_color ch fg bg v) = empty_cell v"
proof -
  obtain l c where lc: "vga_line v = int l" "vga_column v = int c" "l < 25" "c < 80"
    using ok by (auto simp: vga_ok_def elim!: nonneg_int_cases)
  define w where "w = v\<lparr>vga_iomem := (vga_iomem v)(cursor_address v := cl)\<rparr>"
  have ca: "cursor_address v = int l * 80 + int c" by (simp add: cursor_address_def lc screen_width_def)
  have w: "terminal_of w = (terminal_of v)\<lparr>rows := (rows (terminal_of v))[l := (rows (terminal_of v) ! l)[c := cl]]\<rparr>"
    using row_update [OF lc(3,4), of "vga_iomem v" cl] by (simp add: w_def terminal_of_def ca del: upt_Suc)
  have off: "same_off_screen v w"
    using lc by (auto simp: same_off_screen_def w_def ca)
  have e: "empty_cell w = empty_cell v" "vga_line w = int l" "vga_column w = int c"
    by (simp_all add: w_def empty_cell_def lc)
  have tl: "t_line (terminal_of v) = l" "t_column (terminal_of v) = c" by (simp_all add: terminal_of_def lc)
  have put: "putc_color ch fg bg v = (if ch = CHR 0x0A then line_break v else if ch = CHR 0x0D then carriage_return v
      else if c = 79 then line_break (w\<lparr>vga_column := 80\<rparr>) else w\<lparr>vga_column := int (c + 1)\<rparr>)"
    by (simp add: putc_color_def cursor_next_def w_def cl_def lc screen_width_def Let_def)
  have br: "terminal_of (line_break (w\<lparr>vga_column := 80\<rparr>)) = t_break (empty_cell v) (terminal_of w)"
  proof -
    have "line_break (w\<lparr>vga_column := 80\<rparr>) = line_break w"
      by (simp add: line_break_def new_line_def carriage_return_def scroll_def Let_def empty_cell_def)
    then show ?thesis using t_break_refines [of w] e lc by simp
  qed
  show "terminal_of (putc_color ch fg bg v) = t_put (empty_cell v) cl (terminal_of v)"
    using put br t_break_refines [of v] lc w tl
    by (auto simp: t_put_def cl_def carriage_return_def terminal_of_def Let_def e simp del: upt_Suc)
  show "vga_ok (putc_color ch fg bg v)"
    using put line_break_ok(1) [of v] line_break_ok(1) [of "w\<lparr>vga_column := 80\<rparr>"] lc e ok
    by (auto simp: vga_ok_def carriage_return_def)
  show "same_off_screen v (putc_color ch fg bg v)"
    using put line_break_ok(2) [of v] line_break_ok(2) [of "w\<lparr>vga_column := 80\<rparr>"] lc e off
    by (auto simp: same_off_screen_def carriage_return_def)
  show "empty_cell (putc_color ch fg bg v) = empty_cell v"
    using put line_break_ok(3,4) [of v] line_break_ok(3,4) [of "w\<lparr>vga_column := 80\<rparr>"] lc e
    by (auto simp: empty_cell_def carriage_return_def w_def)
qed

lemma puts_color_refines:
  assumes "vga_ok v"
  shows "terminal_of (puts_color str fg bg v)
      = fold (\<lambda>c. t_put (empty_cell v) \<lparr>cell_ch = c, cell_fg = fg, cell_bg = bg\<rparr>) str (terminal_of v)
    \<and> vga_ok (puts_color str fg bg v) \<and> same_off_screen v (puts_color str fg bg v)"
  using assms
proof (induction str arbitrary: v)
  case Nil
  then show ?case by (simp add: puts_color_def same_off_screen_def)
next
  case (Cons c str)
  note p = putc_color_refines [OF Cons.prems, of c fg bg]
  have "puts_color (c # str) fg bg v = puts_color str fg bg (putc_color c fg bg v)" by (simp add: puts_color_def)
  then show ?case using Cons.IH [OF p(2)] p(1,3,4) by (simp add: same_off_screen_def)
qed

section \<open>Properties\<close>

text \<open>
  C13: printing a string on the console is the same as printing it on a terminal of 25 rows of 80
  cells that wraps at the end of a row and scrolls at the end of the screen. The cursor stays on the
  screen and no memory outside of the 2000 cells of the screen is written.
\<close>

theorem console_refines_terminal:
  assumes "vga_ok v"
  shows "terminal_of (puts_color str fg bg v)
      = fold (\<lambda>c. t_put (empty_cell v) \<lparr>cell_ch = c, cell_fg = fg, cell_bg = bg\<rparr>) str (terminal_of v)
    \<and> vga_ok (puts_color str fg bg v) \<and> same_off_screen v (puts_color str fg bg v)"
  using assms by (rule puts_color_refines)

theorem console_refines_terminal_witness:
  "terminal_of (puts_color ''ab'' white black
      \<lparr>vga_iomem = \<lambda>_. \<lparr>cell_ch = CHR '' '', cell_fg = grey, cell_bg = black\<rparr>, vga_line = 24, vga_column = 79,
       global_fg = grey, global_bg = black\<rparr>)
    = fold (\<lambda>c. t_put \<lparr>cell_ch = CHR '' '', cell_fg = grey, cell_bg = black\<rparr> \<lparr>cell_ch = c, cell_fg = white, cell_bg = black\<rparr>) ''ab''
      \<lparr>rows = replicate 25 (replicate 80 \<lparr>cell_ch = CHR '' '', cell_fg = grey, cell_bg = black\<rparr>), t_line = 24, t_column = 79\<rparr>"
proof -
  let ?e = "\<lparr>cell_ch = CHR '' '', cell_fg = grey, cell_bg = black\<rparr>"
  let ?v = "\<lparr>vga_iomem = \<lambda>_. ?e, vga_line = 24, vga_column = 79, global_fg = grey, global_bg = black\<rparr>"
  have ok: "vga_ok ?v" by (simp add: vga_ok_def)
  have t: "terminal_of ?v = \<lparr>rows = replicate 25 (replicate 80 ?e), t_line = 24, t_column = 79\<rparr>"
  proof -
    have "vga_row (\<lambda>_. ?e) = (\<lambda>_. replicate 80 ?e)"
      by (rule ext) (simp only: vga_row_def map_replicate_const length_upt diff_zero)
    then show ?thesis
      by (simp only: terminal_of_def vga.simps map_replicate_const length_upt diff_zero nat_numeral)
  qed
  have e: "empty_cell ?v = ?e" by (simp add: empty_cell_def)
  show ?thesis using console_refines_terminal [OF ok, of "''ab''" white black] unfolding t e by (rule conjunct1)
qed

end
