(* ===== verification/Kernel_Main.thy ===== *)
theory Kernel_Main
  imports Boot_Memory Running_Kernel Scheduler X86_Tables Vga_Console
begin

text \<open>
  The start of the kernel, \<^verbatim>\<open>kernel_main\<close> of \<^verbatim>\<open>main.cpp\<close>: the components are brought up one after the other, every
  object of the start is allocated from the kernel heap, and the processor is handed over to the scheduler. Addresses and sizes
  that the compiler and the linker choose are arguments. What the kernel logs is not modelled here.
\<close>

section \<open>Definitions\<close>

text \<open>The kernel image: what the boot loader, the linker and the compiler determine.\<close>

record image =
  im_boot_info :: boot_info
  im_kobj :: kobj
  im_gdt :: ptr
  im_tss :: ptr
  im_handle_irq :: ptr
  im_start_on_new_frame :: ptr
  im_ps2_kbd :: ptr
  im_HZ :: u32
  im_sizeof_slab :: u32
  im_sizeof_manager :: u32
  im_sizeof_exception_handler :: u32
  im_sizeof_node :: u32
  im_sizeof_pic :: u32
  im_sizeof_divider :: u32
  im_sizeof_pit_handler :: u32
  im_sizeof_ps2_handler :: u32
  im_sizeof_scheduler :: u32
  im_sizeof_task :: u32

record ('f, 'h) kernel =
  kn_boot_info :: boot_info
  kn_flag :: irq_flag
  kn_screen :: vga
  kn_gdt :: gdt
  kn_cpu :: cpu_tables
  kn_idt :: idt
  kn_memory :: kernel_memory
  kn_manager :: "('f, 'h world) int_manager"
  kn_ints :: "'h world int_state"
  kn_pit_writes :: "(u16 \<times> u8) list"
  kn_sched :: sched

text \<open>\<^verbatim>\<open>operator new\<close> may return null, and the constructor then runs at address 0.\<close>

definition new_object :: "u32 \<Rightarrow> kernel_memory \<Rightarrow> (kernel_memory \<times> ptr) result" where
  "new_object sz s = bindE (kmalloc s sz) (\<lambda>(s1, p). if p = nullptr then Inl Undef else Inr (s1, p))"

text \<open>\<^verbatim>\<open>add_handler\<close> allocates a node of a list.\<close>

definition register_irq ::
  "image \<Rightarrow> u8 \<Rightarrow> 'h world irq_handler \<Rightarrow> kernel_memory \<times> ('f, 'h world) int_manager \<Rightarrow> (kernel_memory \<times> ('f, 'h world) int_manager) result" where
  "register_irq im vector h = (\<lambda>(s, m).
     bindE (kmalloc s (im_sizeof_node im)) (\<lambda>(s1, node).
     bindE (add_irq_handler (node \<noteq> nullptr) vector h m) (\<lambda>m1. Inr (s1, m1))))"

definition register_trap ::
  "image \<Rightarrow> exception \<times> bool \<times> string \<Rightarrow> kernel_memory \<times> ('f, 'w) int_manager \<Rightarrow> (kernel_memory \<times> ('f, 'w) int_manager) result" where
  "register_trap im = (\<lambda>(e, errcode, msg) (s, m).
     bindE (new_object (im_sizeof_exception_handler im) s) (\<lambda>(s1, handler).
     bindE (kmalloc s1 (im_sizeof_node im)) (\<lambda>(s2, node).
     bindE (add_exception_handler (node \<noteq> nullptr) (exception_value e)
         (if errcode then printing_errcode_handler msg else printing_no_errcode_handler msg) m) (\<lambda>m1. Inr (s2, m1)))))"

primrec register_traps ::
  "image \<Rightarrow> (exception \<times> bool \<times> string) list \<Rightarrow> kernel_memory \<times> ('f, 'w) int_manager \<Rightarrow> (kernel_memory \<times> ('f, 'w) int_manager) result" where
  "register_traps im [] x = Inr x"
| "register_traps im (t # ts) x = bindE (register_trap im t x) (register_traps im ts)"

text \<open>The constructors of the static objects, in the order of the table that the linker makes.\<close>

primrec call_global_ctors :: "('s \<Rightarrow> 's result) list \<Rightarrow> 's \<Rightarrow> 's result" where
  "call_global_ctors [] k = Inr k"
| "call_global_ctors (f # fs) k = bindE (f k) (call_global_ctors fs)"

text \<open>What happens before: the interrupts are turned off and the information of the boot loader is copied.\<close>

definition boot_early :: "image \<Rightarrow> ('f, 'h) kernel \<Rightarrow> ('f, 'h) kernel" where
  "boot_early im k = k\<lparr>kn_flag := fst (irq_disable (kn_flag k)), kn_boot_info := im_boot_info im\<rparr>"

text \<open>The console, the processor and the memory, with the interrupts off.\<close>

definition boot_processor :: "image \<Rightarrow> ('f, 'h) kernel \<Rightarrow> ('f, 'h) kernel result" where
  "boot_processor im k =
     (let k = k\<lparr>kn_screen := clear_screen (kn_screen k)\<rparr>
      in bindE (load_kernel_segments (im_gdt im) (im_tss im) (kn_gdt k, kn_cpu k)) (\<lambda>(g, c).
         let k = k\<lparr>kn_gdt := g, kn_cpu := load_interrupts_table (kn_idt k) c\<rparr>
         in bindE (memory_init (km_store (kn_memory k)) (kn_boot_info k) (im_kobj im) (im_sizeof_slab im)) (\<lambda>s.
              Inr (k\<lparr>kn_memory := s\<rparr>))))"

text \<open>\<^verbatim>\<open>InterruptsManager::init\<close>.\<close>

definition boot_manager :: "image \<Rightarrow> ('f, 'h) kernel \<Rightarrow> ('f, 'h) kernel result" where
  "boot_manager im k =
     bindE (new_object (im_sizeof_manager im) (kn_memory k)) (\<lambda>(s, p).
       let k = k\<lparr>kn_idt := fst (set_global_handler (im_handle_irq im) (kn_idt k))\<rparr>
       in bindE (register_traps im traps (s, int_manager_construct)) (\<lambda>(s, m). Inr (k\<lparr>kn_memory := s, kn_manager := m\<rparr>)))"

text \<open>The interrupt controller and the timer.\<close>

definition boot_timer :: "image \<Rightarrow> ('f, 'h) kernel \<Rightarrow> ('f, 'h) kernel result" where
  "boot_timer im k =
     bindE (new_object (im_sizeof_pic im) (kn_memory k)) (\<lambda>(s, controller).
     bindE (initialize_controller pic_construct) (\<lambda>p.
     bindE (new_object (im_sizeof_divider im) s) (\<lambda>(s, divider).
     bindE (pit_init (im_HZ im) (word_of_int min_irq_vector)) (\<lambda>u.
     bindE (new_object (im_sizeof_pit_handler im) s) (\<lambda>(s, h).
     bindE (register_irq im (ps_vector u) timer_irq_handler (s, kn_manager k)) (\<lambda>(s, m).
       let w = is_world (kn_ints k)
       in Inr (k\<lparr>kn_memory := s, kn_manager := m, kn_pit_writes := kn_pit_writes k @ ps_writes u,
            kn_ints := (kn_ints k)\<lparr>is_pic := p, is_world := w\<lparr>kw_timer := (kw_timer w)\<lparr>tm_divider := ps_divider u\<rparr>\<rparr>\<rparr>\<rparr>)))))))"

text \<open>
  The PS/2 controller, with the interrupts on. Its handler and the nodes for its two lines are allocated while it is set up, which has no effect
  on the chip.
\<close>

definition boot_ps2 :: "image \<Rightarrow> 'h ps2_chip \<Rightarrow> 'h ps2_drivers \<Rightarrow> ('f, 'h) kernel \<Rightarrow> ('f, 'h) kernel result" where
  "boot_ps2 im chip drv k =
     (let k = k\<lparr>kn_flag := irq_enable (kn_flag k)\<rparr>; w = is_world (kn_ints k)
      in bindE (initialize_ps2 chip drv (im_ps2_kbd im) (kw_ps2 w)) (\<lambda>p.
         bindE (new_object (im_sizeof_ps2_handler im) (kn_memory k)) (\<lambda>(s, irq_handler).
         bindE (register_irq im (word_of_int FIRST_LINE_IRQ) (ps2_controller_handler drv) (s, kn_manager k)) (\<lambda>x.
         bindE (register_irq im (word_of_int SECOND_LINE_IRQ) (ps2_controller_handler drv) x) (\<lambda>(s, m).
           Inr (k\<lparr>kn_memory := s, kn_manager := m, kn_ints := (kn_ints k)\<lparr>is_world := w\<lparr>kw_ps2 := p\<rparr>\<rparr>\<rparr>))))))"

definition boot_tests :: "(kernel_memory \<Rightarrow> kernel_memory result) list \<Rightarrow> ('f, 'h) kernel \<Rightarrow> ('f, 'h) kernel result" where
  "boot_tests tests k = bindE (ost_run tests (kn_memory k)) (\<lambda>s. Inr (k\<lparr>kn_memory := s\<rparr>))"

text \<open>A task is an object of the heap; its constructor allocates the stack and does not look whether it got one.\<close>

definition task_new :: "image \<Rightarrow> string \<Rightarrow> kernel_memory \<Rightarrow> (kernel_memory \<times> new_task) result" where
  "task_new im name s =
     bindE (new_object (im_sizeof_task im) s) (\<lambda>(s1, task).
     bindE (alloc_pages s1 stack_pages) (\<lambda>(s2, stack). Inr (s2, \<lparr>nt_addr = task, nt_stack = stack, nt_name = name\<rparr>)))"

text \<open>\<^verbatim>\<open>init_scheduling\<close>, for a number of rounds of the scheduler.\<close>

definition init_scheduling :: "image \<Rightarrow> nat \<Rightarrow> ('f, 'h) kernel \<Rightarrow> ('f, 'h) kernel result" where
  "init_scheduling im rounds k =
     bindE (new_object (im_sizeof_scheduler im) (kn_memory k)) (\<lambda>(s, p).
     bindE (task_new im ''scheduler'' s) (\<lambda>(s, scheduler).
     bindE (task_new im ''main'' s) (\<lambda>(s, main).
     bindE (sched_construct (im_start_on_new_frame im) scheduler (Some main) ((kn_sched k)\<lparr>sc_irq := kn_flag k\<rparr>)) (\<lambda>sc.
     bindE (start_scheduling (im_start_on_new_frame im) rounds sc) (\<lambda>sc.
       Inr (k\<lparr>kn_memory := s, kn_sched := sc, kn_flag := sc_irq sc\<rparr>))))))"

definition kernel_main ::
  "image \<Rightarrow> (('f, 'h) kernel \<Rightarrow> ('f, 'h) kernel result) list \<Rightarrow> 'h ps2_chip \<Rightarrow> 'h ps2_drivers \<Rightarrow> (kernel_memory \<Rightarrow> kernel_memory result) list
    \<Rightarrow> nat \<Rightarrow> ('f, 'h) kernel \<Rightarrow> ('f, 'h) kernel result" where
  "kernel_main im ctors chip drv tests rounds k =
     bindE (call_global_ctors ctors (boot_early im k)) (\<lambda>k.
     bindE (boot_processor im k) (\<lambda>k.
     bindE (boot_manager im k) (\<lambda>k.
     bindE (boot_timer im k) (\<lambda>k.
     bindE (boot_ps2 im chip drv k) (\<lambda>k.
     bindE (boot_tests tests k) (init_scheduling im rounds))))))"

section \<open>The steps of the start\<close>

text \<open>Sizes: objects of the start are small, the manager of the interrupts takes at most a page.\<close>

definition image_sizes :: "image \<Rightarrow> bool" where
  "image_sizes im \<longleftrightarrow> unat (im_sizeof_exception_handler im) \<le> 512 \<and> unat (im_sizeof_node im) \<le> 512 \<and> unat (im_sizeof_divider im) \<le> 512
     \<and> unat (im_sizeof_pit_handler im) \<le> 512 \<and> unat (im_sizeof_pic im) \<le> 512 \<and> unat (im_sizeof_ps2_handler im) \<le> 512 \<and> unat (im_sizeof_scheduler im) \<le> 512 \<and> unat (im_sizeof_task im) \<le> 512
     \<and> im_sizeof_manager im \<noteq> 0 \<and> unat (im_sizeof_manager im) \<le> 4096 \<and> im_sizeof_slab im \<noteq> 0 \<and> unat (im_sizeof_slab im) \<le> 2 ^ 14"

lemma new_object_small:
  assumes "boot_heap g s F U c" "c < 2048" "unat n \<le> 512"
  shows "\<exists>s' p U'. new_object n s = Inr (s', p) \<and> p \<noteq> nullptr \<and> boot_heap g s' F U' (Suc c) \<and> U \<subseteq> U' \<and> unat p \<in> U' - U"
  using kmalloc_small [OF assms] by (auto simp: new_object_def)

lemma register_irq_step:
  assumes "boot_heap g s F U c" "c < 2048" "image_sizes im"
  shows "\<exists>s' U'. register_irq im v h (s, m) = Inr (s', m\<lparr>irq_handlers := (irq_handlers m)(v := h # irq_handlers m v)\<rparr>) \<and> boot_heap g s' F U' (Suc c)"
  using kmalloc_small [OF assms(1,2), of "im_sizeof_node im"] assms(3) by (auto simp: register_irq_def image_sizes_def add_irq_handler_def)

lemma register_traps_step:
  assumes "image_sizes im" "boot_heap g s F U c" "c + 2 * length ts \<le> 2048"
  shows "\<exists>s' U'. register_traps im ts (s, m) = bindE (install_traps_from ts m) (\<lambda>m'. Inr (s', m')) \<and> boot_heap g s' F U' (c + 2 * length ts)"
  using assms(2,3)
proof (induction ts arbitrary: s m U c)
  case (Cons t ts)
  obtain e errcode msg where t: "t = (e, errcode, msg)" by (cases t)
  obtain s1 p U1 where 1: "new_object (im_sizeof_exception_handler im) s = Inr (s1, p)" "boot_heap g s1 F U1 (Suc c)"
    using new_object_small [OF Cons.prems(1), of "im_sizeof_exception_handler im"] Cons.prems(2) assms(1) by (auto simp: image_sizes_def)
  obtain s2 q U2 where 2: "kmalloc s1 (im_sizeof_node im) = Inr (s2, q)" "q \<noteq> nullptr" "boot_heap g s2 F U2 (Suc (Suc c))"
    using kmalloc_small [OF 1(2), of "im_sizeof_node im"] Cons.prems(2) assms(1) by (auto simp: image_sizes_def)
  obtain m1 where i: "install_trap t m = Inr m1" by (simp add: install_trap_def add_exception_handler_def t)
  then have "register_trap im t (s, m) = Inr (s2, m1)" using 1(1) 2(1,2) by (simp add: register_trap_def install_trap_def add_exception_handler_def t)
  moreover obtain s' U' where "register_traps im ts (s2, m1) = bindE (install_traps_from ts m1) (\<lambda>m'. Inr (s', m'))"
      "boot_heap g s' F U' (Suc (Suc c) + 2 * length ts)"
    using Cons.IH [OF 2(3), of m1] Cons.prems(2) by auto
  ultimately show ?case using i by auto
qed auto

lemma task_new_step:
  assumes "boot_heap g s F U c" "c < 2048" "image_sizes im" "Suc d \<le> card (groups 4 F)"
  shows "\<exists>s' n F' U'. task_new im name s = Inr (s', n) \<and> boot_heap g s' F' U' (Suc c) \<and> U \<subseteq> U' \<and> d \<le> card (groups 4 F')
    \<and> nt_addr n \<noteq> nullptr \<and> unat (nt_addr n) \<in> U' - U \<and> nt_stack n \<noteq> nullptr \<and> nt_name n = name"
proof -
  obtain s1 p U1 where 1: "new_object (im_sizeof_task im) s = Inr (s1, p)" "p \<noteq> nullptr" "boot_heap g s1 F U1 (Suc c)" "U \<subseteq> U1" "unat p \<in> U1 - U"
    using new_object_small [OF assms(1,2), of "im_sizeof_task im"] assms(3) by (auto simp: image_sizes_def)
  obtain s2 x U2 where 2: "alloc_pages s1 16 = Inr (s2, frame_addr x)" "boot_heap g s2 (F - {x..<x + 16}) U2 (Suc c)" "U1 \<subseteq> U2" "x \<in> frames"
    "aligned_for 16 x"
    using boot_heap_pages [OF 1(3), of 16 4] stack_block [of F] assms(4) by auto
  have "d \<le> card (groups 4 (F - {x..<x + 16}))" using 2(5) boot_heap_frames [OF assms(1)] assms(4) by (rule stack_taken)
  then show ?thesis using 1 2 frame_addr_null [OF 2(4)]
    by (intro exI [of _ s2] exI [of _ "\<lparr>nt_addr = p, nt_stack = frame_addr x, nt_name = name\<rparr>"] exI [of _ "F - {x..<x + 16}"] exI [of _ U2])
      (auto simp: task_new_def stack_pages_def)
qed

text \<open>The objects of the kernel as their constructors leave them, with the interrupts off and the information of the boot loader.\<close>

definition kernel_constructed :: "image \<Rightarrow> ('f, 'h) kernel \<Rightarrow> bool" where
  "kernel_constructed im k \<longleftrightarrow> kn_flag k = irq_off \<and> kn_boot_info k = im_boot_info im \<and> kn_gdt k = gdt_construct \<and> p2_known_devices (kw_ps2 (is_world (kn_ints k))) = []
     \<and> il_some (sc_tasks (kn_sched k)) = nullptr \<and> sc_finished_tasks (kn_sched k) = [] \<and> sc_ran (kn_sched k) = []
     \<and> sc_deleted (kn_sched k) = []"

lemma fresh_gdt_loaded:
  "\<exists>g c'. load_kernel_segments gdt_data tss (gdt_construct, c) = Inr (g, c') \<and> cpu_gdtr c' = \<lparr>tp_limit = 31, tp_base = gdt_data\<rparr> \<and> cpu_cs c' = 8"
proof -
  let ?es = "[Memory_segment null_segment, Memory_segment kernel_code, Memory_segment kernel_data, Task_segment (single_task_descriptor tss)]"
  have "fv_rep (gd_gdt gdt_construct) []" by (simp add: fv_rep_def gdt_construct_def fv_construct_def)
  from fv.push_all_room [OF this, of ?es] obtain v where v: "push_all fv_push_back ?es (gd_gdt gdt_construct) = Inr v" "fv_rep v ?es"
    by (auto simp: gdt_construct_def fv_construct_def)
  show ?thesis using v(1) fv_repD(1) [OF v(2)] by (simp add: load_kernel_segments_pushes)
qed

abbreviation image_geometry :: "image \<Rightarrow> geometry" where
  "image_geometry im \<equiv> boot_geometry (im_boot_info im) (im_kobj im)"

text \<open>The machine has enough memory behind the kernel image.\<close>

definition enough_memory :: "image \<Rightarrow> bool" where
  "enough_memory im \<longleftrightarrow> is_meminfo_valid (im_boot_info im) \<and> unat (high_memory (im_boot_info im)) < 2 ^ 21 - 1024
     \<and> unat (kobj_end (im_kobj im)) \<le> 4294963200 \<and> geometry_ok (image_geometry im)
     \<and> 34 + 10 \<le> card (groups 10 {gf (image_geometry im)..<ge (image_geometry im)})"

lemma memory_init_boot:
  assumes "enough_memory im" "image_sizes im"
  shows "\<exists>s F U. memory_init m (im_boot_info im) (im_kobj im) (im_sizeof_slab im) = Inr s \<and> boot_heap (image_geometry im) s F U 0
    \<and> 10 \<le> card (groups 10 F)"
proof -
  have sz: "0 < im_sizeof_slab im" "unat (im_sizeof_slab im) \<le> 2 ^ 14"
    using assms(2) by (simp_all add: image_sizes_def word_gt_0)
  obtain s F h0 hs where i: "memory_init m (im_boot_info im) (im_kobj im) (im_sizeof_slab im) = Inr s" "10 \<le> card (groups 10 F)"
    "km_rep (image_geometry im) s F (insert h0 (set hs)) h0 hs (replicate 33 {})"
    "\<forall>j < 33. sl_nelems (ma_chain (km_malloc s) ! j) = 1048576 div chain_unit_size (of_nat j)"
    using memory_init_rep [of "im_boot_info im" "im_kobj im" "im_sizeof_slab im" 10 10 m] assms(1) sz
    unfolding enough_memory_def by (simp only: simp_thms) auto
  have "length (ma_chain (km_malloc s)) = 33" using i(3) by (auto simp: km_rep_def ma_rep_def chain_ok_def)
  moreover have "sl_nelems (ma_chain (km_malloc s) ! 32) = 2048" using i(4) by (simp add: chain_unit_size_def)
  ultimately have "boot_heap (image_geometry im) s F (\<Union> (ma_live (km_malloc s) (insert h0 (set hs)) h0 hs (replicate 33 {}))) 0"
    using i(3) by (intro boot_heapI) simp_all
  then show ?thesis using i(1,2) by blast
qed

lemma boot_processor_step:
  assumes "kernel_constructed im k" "enough_memory im" "image_sizes im"
  shows "\<exists>k' F U. boot_processor im k = Inr k' \<and> boot_heap (image_geometry im) (kn_memory k') F U 0 \<and> 10 \<le> card (groups 10 F)
    \<and> kn_flag k' = irq_off \<and> kn_ints k' = kn_ints k \<and> kn_sched k' = kn_sched k \<and> kn_idt k' = kn_idt k
    \<and> cpu_gdtr (kn_cpu k') = \<lparr>tp_limit = 31, tp_base = im_gdt im\<rparr> \<and> cpu_cs (kn_cpu k') = 8 \<and> cpu_idtr (kn_cpu k') = id_pointer (kn_idt k)"
proof -
  obtain g c where "load_kernel_segments (im_gdt im) (im_tss im) (kn_gdt k, kn_cpu k) = Inr (g, c)"
    "cpu_gdtr c = \<lparr>tp_limit = 31, tp_base = im_gdt im\<rparr>" "cpu_cs c = 8"
    using fresh_gdt_loaded assms(1) unfolding kernel_constructed_def by metis
  moreover obtain s F U where "memory_init (km_store (kn_memory k)) (im_boot_info im) (im_kobj im) (im_sizeof_slab im) = Inr s"
    "boot_heap (image_geometry im) s F U 0" "10 \<le> card (groups 10 F)"
    using memory_init_boot [OF assms(2,3)] by blast
  ultimately show ?thesis
    using assms(1)
    by (auto simp: boot_processor_def kernel_constructed_def Let_def load_interrupts_table_def idt_reload_table_def)
qed

lemma traps_installed: "\<exists>m. int_manager_init = Inr m \<and> irq_handlers m = (\<lambda>_. [])"
  by (auto simp: int_manager_init_def install_traps_def add_exception_handlers int_manager_construct_def)

lemma boot_manager_step:
  fixes k :: "('f, 'h) kernel"
  assumes "boot_heap g (kn_memory k) F U 0" "Suc d \<le> card (groups 10 F)" "image_sizes im"
  shows "\<exists>k' m F' U'. boot_manager im k = Inr k' \<and> boot_heap g (kn_memory k') F' U' 37 \<and> d \<le> card (groups 10 F')
    \<and> int_manager_init = Inr m \<and> irq_handlers m = (\<lambda>_. []) \<and> kn_manager k' = m \<and> id_global_handler (kn_idt k') = im_handle_irq im
    \<and> kn_flag k' = kn_flag k \<and> kn_ints k' = kn_ints k \<and> kn_sched k' = kn_sched k \<and> kn_cpu k' = kn_cpu k \<and> id_pointer (kn_idt k') = id_pointer (kn_idt k)"
proof -
  have z: "im_sizeof_manager im \<noteq> 0" "unat (im_sizeof_manager im) \<le> 4096" using assms(3) by (simp_all add: image_sizes_def)
  obtain s p F1 U1 where 1: "new_object (im_sizeof_manager im) (kn_memory k) = Inr (s, p)" "boot_heap g s F1 U1 1" "d \<le> card (groups 10 F1)"
    using kmalloc_page [OF assms(1) z assms(2)] by (auto simp: new_object_def)
  have l: "length traps = 18" by (simp add: traps_def)
  let ?m0 = "int_manager_construct :: ('f, 'h world) int_manager"
  obtain s' U' where 2: "register_traps im traps (s, ?m0)
      = bindE (install_traps_from traps ?m0) (\<lambda>m'. Inr (s', m'))" "boot_heap g s' F1 U' 37"
    using register_traps_step [OF assms(3) 1(2), of traps ?m0] by (auto simp: l)
  obtain m :: "('f, 'h world) int_manager" where m: "int_manager_init = Inr m" "irq_handlers m = (\<lambda>_. [])" using traps_installed by blast
  then have "register_traps im traps (s, ?m0) = Inr (s', m)" using 2(1) by (simp add: int_manager_init_def install_traps_def)
  then show ?thesis using 1 2(2) m by (auto simp: boot_manager_def set_global_handler_def)
qed

lemma boot_timer_step:
  assumes heap: "boot_heap g (kn_memory k) F U c" "c + 4 \<le> 2048" and im: "image_sizes im" "im_HZ im \<noteq> 0"
  shows "\<exists>k' U' p d. boot_timer im k = Inr k' \<and> boot_heap g (kn_memory k') F U' (c + 4)
    \<and> set_frequency (im_HZ im) PIT_FREQUENCY MAX_DIVIDER divider_default = Inr d \<and> initialize_controller pic_construct = Inr p
    \<and> kn_manager k' = (kn_manager k)\<lparr>irq_handlers := (irq_handlers (kn_manager k))(0x20 := timer_irq_handler # irq_handlers (kn_manager k) 0x20)\<rparr>
    \<and> kn_ints k' = (kn_ints k)\<lparr>is_pic := p, is_world := (is_world (kn_ints k))\<lparr>kw_timer := (kw_timer (is_world (kn_ints k)))\<lparr>tm_divider := d\<rparr>\<rparr>\<rparr>
    \<and> kn_flag k' = kn_flag k \<and> kn_sched k' = kn_sched k \<and> kn_cpu k' = kn_cpu k \<and> kn_idt k' = kn_idt k"
proof -
  obtain d where d: "set_frequency (im_HZ im) PIT_FREQUENCY MAX_DIVIDER divider_default = Inr d" using im(2) by (simp add: set_frequency_def Let_def)
  then obtain u where u: "pit_init (im_HZ im) (word_of_int min_irq_vector) = Inr u" "ps_vector u = 0x20" "ps_divider u = d"
    by (auto simp: pit_init_def Let_def min_irq_vector_def)
  obtain p where p: "initialize_controller pic_construct = Inr p" by (auto simp: initialize_controller_def pic_construct_def Let_def pic_outb_def)
  obtain s0 q0 U0 where 0: "new_object (im_sizeof_pic im) (kn_memory k) = Inr (s0, q0)" "boot_heap g s0 F U0 (Suc c)"
    using new_object_small [OF heap(1), of "im_sizeof_pic im"] heap(2) im(1) by (auto simp: image_sizes_def)
  obtain s1 q1 U1 where 1: "new_object (im_sizeof_divider im) s0 = Inr (s1, q1)" "boot_heap g s1 F U1 (Suc (Suc c))"
    using new_object_small [OF 0(2), of "im_sizeof_divider im"] heap(2) im(1) by (auto simp: image_sizes_def)
  obtain s2 q2 U2 where 2: "new_object (im_sizeof_pit_handler im) s1 = Inr (s2, q2)" "boot_heap g s2 F U2 (Suc (Suc (Suc c)))"
    using new_object_small [OF 1(2), of "im_sizeof_pit_handler im"] heap(2) im(1) by (auto simp: image_sizes_def)
  obtain s3 U3 where 3: "boot_heap g s3 F U3 (c + 4)" "register_irq im 0x20 timer_irq_handler (s2, kn_manager k)
      = Inr (s3, (kn_manager k)\<lparr>irq_handlers := (irq_handlers (kn_manager k))(0x20 := timer_irq_handler # irq_handlers (kn_manager k) 0x20)\<rparr>)"
    using register_irq_step [OF 2(2) _ im(1), of "0x20" timer_irq_handler "kn_manager k"] heap(2) by (auto simp: eval_nat_numeral)
  show ?thesis using d p 0 1 2 3 u by (auto simp: boot_timer_def Let_def)
qed

text \<open>A list of handlers with two more.\<close>

abbreviation with_ps2 :: "'h ps2_drivers \<Rightarrow> ('f, 'h world) int_manager \<Rightarrow> ('f, 'h world) int_manager" where
  "with_ps2 drv m \<equiv> m\<lparr>irq_handlers := (irq_handlers m)(0x21 := ps2_controller_handler drv # irq_handlers m 0x21,
     0x2c := ps2_controller_handler drv # irq_handlers m 0x2c)\<rparr>"

lemma boot_ps2_step:
  assumes heap: "boot_heap g (kn_memory k) F U c" "c + 3 \<le> 2048" and im: "image_sizes im"
    and chip: "sleeps chip" "drains chip pending" "drv_probe drv (im_ps2_kbd im) = keyboard_probe chip"
    and ps2: "p2_known_devices (kw_ps2 (is_world (kn_ints k))) = []"
  shows "case initialize_ps2 chip drv (im_ps2_kbd im) (kw_ps2 (is_world (kn_ints k))) of
      Inl e \<Rightarrow> e = Panic ''PS/2: controller self-test failed!'' \<and> boot_ps2 im chip drv k = Inl e
    | Inr p \<Rightarrow> \<exists>k' U'. boot_ps2 im chip drv k = Inr k' \<and> boot_heap g (kn_memory k') F U' (c + 3) \<and> kn_manager k' = with_ps2 drv (kn_manager k)
        \<and> kn_ints k' = (kn_ints k)\<lparr>is_world := (is_world (kn_ints k))\<lparr>kw_ps2 := p\<rparr>\<rparr>
        \<and> kn_flag k' = irq_enable (kn_flag k) \<and> kn_sched k' = kn_sched k \<and> kn_cpu k' = kn_cpu k \<and> kn_idt k' = kn_idt k"
proof -
  let ?w = "is_world (kn_ints k)" and ?h = "ps2_controller_handler drv" and ?m = "kn_manager k"
  have lines: "word_of_int FIRST_LINE_IRQ = (0x21 :: u8)" "word_of_int SECOND_LINE_IRQ = (0x2c :: u8)"
    by (simp_all add: FIRST_LINE_IRQ_def SECOND_LINE_IRQ_def min_irq_vector_def)
  let ?m1 = "?m\<lparr>irq_handlers := (irq_handlers ?m)(0x21 := ?h # irq_handlers ?m 0x21)\<rparr>"
  obtain s0 q0 U0 where 0: "new_object (im_sizeof_ps2_handler im) (kn_memory k) = Inr (s0, q0)" "boot_heap g s0 F U0 (Suc c)"
    using new_object_small [OF heap(1), of "im_sizeof_ps2_handler im"] heap(2) im by (auto simp: image_sizes_def)
  obtain s1 U1 where 1: "register_irq im 0x21 ?h (s0, ?m) = Inr (s1, ?m1)" "boot_heap g s1 F U1 (Suc (Suc c))"
    using register_irq_step [OF 0(2) _ im] heap(2) by fastforce
  obtain s2 U2 where 2: "register_irq im 0x2c ?h (s1, ?m1) = Inr (s2, with_ps2 drv ?m)" "boot_heap g s2 F U2 (c + 3)"
    using register_irq_step [OF 1(2) _ im, of "0x2c" ?h ?m1] heap(2) by (auto simp: numeral_3_eq_3)
  show ?thesis
  proof (cases "initialize_ps2 chip drv (im_ps2_kbd im) (kw_ps2 ?w)")
    case (Inl e)
    then show ?thesis using initialize_ps2_returns [OF chip ps2] by (auto simp: boot_ps2_def Let_def)
  next
    case (Inr p)
    then show ?thesis using 0(1) 1(1) 2 by (auto simp: boot_ps2_def Let_def lines)
  qed
qed

text \<open>The scheduler starts: what its first round finds.\<close>

definition sched_started :: "ptr \<Rightarrow> sched \<Rightarrow> bool" where
  "sched_started main s \<longleftrightarrow> sched_ok [main] s \<and> sc_irq s = irq_on \<and> sc_finished_tasks s = [] \<and> sc_ran s = [] \<and> sc_deleted s = []
     \<and> sc_current s = sc_scheduler_task s"

lemma sched_construct_ok:
  assumes "il_some (sc_tasks s) = nullptr" "sc_finished_tasks s = []" "distinct [nullptr, nt_addr sch, nt_addr main]" "sc_irq s = irq_on"
    and "sc_ran s = []" "sc_deleted s = []"
  shows "\<exists>s'. sched_construct entry sch (Some main) s = Inr s' \<and> sched_started (nt_addr main) s' \<and> sc_scheduler_task s' = nt_addr sch \<and> sc_script s' = sc_script s"
proof -
  have "il_rep (sc_tasks s) []" using assms(1) by (simp add: il_rep_def)
  then have "il_rep (il_insert (nt_addr main) (il_insert (nt_addr sch) (sc_tasks s))) [nt_addr sch, nt_addr main]"
    using il_insert_rep [of "sc_tasks s" "[]" "nt_addr sch"] il_insert_rep [of "il_insert (nt_addr sch) (sc_tasks s)" "[nt_addr sch]" "nt_addr main"]
      assms(3) by auto
  then show ?thesis using assms(2-6)
    by (auto simp: sched_construct_def irq_lock_def irq_disable_def irq_unlock_def irq_enable_def sched_set_irq_def
        sched_create_task_def task_construct_def Let_def sched_ok_def sched_started_def)
qed

lemma sched_started_rounds:
  assumes "sched_started main s"
  shows "start_scheduling entry k s = schedule_rounds entry k s"
  using assms start_scheduling_rounds [of s entry k] by (cases s) (simp add: sched_started_def)

text \<open>The rounds of the scheduler in the kernel.\<close>

definition kernel_rounds :: "image \<Rightarrow> nat \<Rightarrow> ('f, 'h) kernel \<Rightarrow> ('f, 'h) kernel result" where
  "kernel_rounds im rounds k = bindE (schedule_rounds (im_start_on_new_frame im) rounds (kn_sched k)) (\<lambda>sc. Inr (k\<lparr>kn_sched := sc, kn_flag := sc_irq sc\<rparr>))"

lemma init_scheduling_step:
  assumes heap: "boot_heap g (kn_memory k) F U c" "c + 3 \<le> 2048" "some_block 10 F" and im: "image_sizes im"
    and flag: "kn_flag k = irq_on"
    and sc: "il_some (sc_tasks (kn_sched k)) = nullptr" "sc_finished_tasks (kn_sched k) = []" "sc_ran (kn_sched k) = []" "sc_deleted (kn_sched k) = []"
  shows "\<exists>k' main F' U'. (\<forall>rounds. init_scheduling im rounds k = kernel_rounds im rounds k') \<and> boot_heap g (kn_memory k') F' U' (c + 3)
    \<and> 62 \<le> card (groups 4 F') \<and> kn_flag k' = irq_on \<and> sched_started main (kn_sched k') \<and> sc_script (kn_sched k') = sc_script (kn_sched k)
    \<and> unat main \<in> U' \<and> unat (sc_scheduler_task (kn_sched k')) \<in> U'
    \<and> kn_manager k' = kn_manager k \<and> kn_ints k' = kn_ints k \<and> kn_cpu k' = kn_cpu k \<and> kn_idt k' = kn_idt k"
proof -
  obtain s1 p1 U1 where 1: "new_object (im_sizeof_scheduler im) (kn_memory k) = Inr (s1, p1)" "boot_heap g s1 F U1 (Suc c)"
    using new_object_small [OF heap(1), of "im_sizeof_scheduler im"] heap(2) im by (auto simp: image_sizes_def)
  have "Suc 63 \<le> card (groups 4 F)" using stack_places [OF heap(3) boot_heap_frames [OF heap(1)]] by simp
  then obtain s2 sch F2 U2 where 2: "task_new im ''scheduler'' s1 = Inr (s2, sch)" "boot_heap g s2 F2 U2 (Suc (Suc c))"
    "Suc 62 \<le> card (groups 4 F2)" "nt_addr sch \<noteq> nullptr" "unat (nt_addr sch) \<in> U2 - U1"
    using task_new_step [OF 1(2) _ im, of 63 "''scheduler''"] heap(2) by auto
  from task_new_step [OF 2(2) _ im 2(3), of "''main''"] heap(2)
  obtain s3 main F3 U3 where 3: "task_new im ''main'' s2 = Inr (s3, main)" "boot_heap g s3 F3 U3 (Suc (Suc (Suc c)))"
    "U2 \<subseteq> U3" "nt_addr main \<noteq> nullptr" "unat (nt_addr main) \<in> U3 - U2" "62 \<le> card (groups 4 F3)"
    by auto
  have "distinct [nullptr, nt_addr sch, nt_addr main]" using 2(4,5) 3(4,5) by auto
  then obtain sc1 where c1: "sched_construct (im_start_on_new_frame im) sch (Some main) ((kn_sched k)\<lparr>sc_irq := kn_flag k\<rparr>) = Inr sc1"
    "sched_started (nt_addr main) sc1" "sc_scheduler_task sc1 = nt_addr sch" "sc_script sc1 = sc_script (kn_sched k)"
    using sched_construct_ok [of "(kn_sched k)\<lparr>sc_irq := kn_flag k\<rparr>" sch main] sc flag by auto
  let ?k = "k\<lparr>kn_memory := s3, kn_sched := sc1, kn_flag := irq_on\<rparr>"
  have "init_scheduling im rounds k = kernel_rounds im rounds ?k" for rounds
    using 1(1) 2(1) 3(1) c1(1) sched_started_rounds [OF c1(2), of "im_start_on_new_frame im" rounds]
    by (simp add: init_scheduling_def kernel_rounds_def)
  moreover have "boot_heap g s3 F3 U3 (c + 3)" "62 \<le> card (groups 4 F3)" using 3(2,6) by (simp_all add: numeral_3_eq_3)
  moreover have "unat (nt_addr main) \<in> U3" "unat (nt_addr sch) \<in> U3" using 2(5) 3(3,5) by auto
  ultimately show ?thesis using c1(2-4) by (intro exI [of _ ?k] exI [of _ "nt_addr main"]) auto
qed

lemma boot_tests_step:
  assumes "boot_heap g (kn_memory k) F U c" "9 \<le> card (groups 10 F)" "mset tests = mset ost_tests"
  shows "\<exists>s F' U'. boot_tests tests k = Inr (k\<lparr>kn_memory := s\<rparr>) \<and> boot_heap g s F' U' c \<and> some_block 10 F'"
proof -
  obtain s F' U' where "ost_run tests (kn_memory k) = Inr s" "boot_heap g s F' U' c" "some_block 10 F'" using ost_run_boot [OF assms] by blast
  then show ?thesis by (intro exI [of _ s] exI [of _ F'] exI [of _ U']) (simp add: boot_tests_def)
qed

section \<open>The start\<close>

lemma boot_until_ps2:
  fixes k :: "('f, 'h) kernel"
  assumes "kernel_constructed im k" "image_sizes im" "enough_memory im" "im_HZ im \<noteq> 0"
  shows "\<exists>k' m F U p d. bindE (boot_processor im k) (\<lambda>k. bindE (boot_manager im k) (boot_timer im)) = Inr k'
    \<and> boot_heap (image_geometry im) (kn_memory k') F U 41 \<and> 9 \<le> card (groups 10 F)
    \<and> set_frequency (im_HZ im) PIT_FREQUENCY MAX_DIVIDER divider_default = Inr d \<and> initialize_controller pic_construct = Inr p
    \<and> int_manager_init = Inr m \<and> kn_manager k' = m\<lparr>irq_handlers := (\<lambda>_. [])(0x20 := [timer_irq_handler])\<rparr>
    \<and> kn_ints k' = (kn_ints k)\<lparr>is_pic := p, is_world := (is_world (kn_ints k))\<lparr>kw_timer := (kw_timer (is_world (kn_ints k)))\<lparr>tm_divider := d\<rparr>\<rparr>\<rparr>
    \<and> kn_flag k' = irq_off \<and> kn_sched k' = kn_sched k \<and> cpu_gdtr (kn_cpu k') = \<lparr>tp_limit = 31, tp_base = im_gdt im\<rparr>
    \<and> cpu_idtr (kn_cpu k') = id_pointer (kn_idt k) \<and> id_global_handler (kn_idt k') = im_handle_irq im"
proof -
  let ?g = "image_geometry im" and ?w = "is_world (kn_ints k)"
  obtain k1 F1 U1 where 1: "boot_processor im k = Inr k1" "boot_heap ?g (kn_memory k1) F1 U1 0" "10 \<le> card (groups 10 F1)"
    "kn_flag k1 = irq_off" "kn_ints k1 = kn_ints k" "kn_sched k1 = kn_sched k" "kn_idt k1 = kn_idt k"
    "cpu_gdtr (kn_cpu k1) = \<lparr>tp_limit = 31, tp_base = im_gdt im\<rparr>" "cpu_idtr (kn_cpu k1) = id_pointer (kn_idt k)"
    using boot_processor_step [OF assms(1,3,2)] by blast
  have "Suc 9 \<le> card (groups 10 F1)" using 1(3) by simp
  then obtain k2 m F2 U2 where 2: "boot_manager im k1 = Inr k2" "boot_heap ?g (kn_memory k2) F2 U2 37" "9 \<le> card (groups 10 F2)"
    "int_manager_init = Inr m" "irq_handlers m = (\<lambda>_. [])" "kn_manager k2 = m" "id_global_handler (kn_idt k2) = im_handle_irq im"
    "kn_flag k2 = irq_off" "kn_ints k2 = kn_ints k" "kn_sched k2 = kn_sched k" "kn_cpu k2 = kn_cpu k1"
    using boot_manager_step [OF 1(2) _ assms(2)] unfolding 1(4-6) by blast
  obtain k3 U3 p d where 3: "boot_timer im k2 = Inr k3" "boot_heap ?g (kn_memory k3) F2 U3 41"
    "set_frequency (im_HZ im) PIT_FREQUENCY MAX_DIVIDER divider_default = Inr d" "initialize_controller pic_construct = Inr p"
    "kn_manager k3 = m\<lparr>irq_handlers := (\<lambda>_. [])(0x20 := [timer_irq_handler])\<rparr>"
    "kn_ints k3 = (kn_ints k)\<lparr>is_pic := p, is_world := ?w\<lparr>kw_timer := (kw_timer ?w)\<lparr>tm_divider := d\<rparr>\<rparr>\<rparr>"
    "kn_flag k3 = irq_off" "kn_sched k3 = kn_sched k" "kn_cpu k3 = kn_cpu k1" "kn_idt k3 = kn_idt k2"
    using boot_timer_step [OF 2(2) _ assms(2,4)] unfolding 2(5,6,8-11) by auto
  show ?thesis using 1(1,8,9) 2(1,3,4,7) 3
    by (intro exI [of _ k3] exI [of _ m] exI [of _ F2] exI [of _ U3] exI [of _ p] exI [of _ d]) simp
qed

lemma boot_from_tests:
  assumes "boot_heap g (kn_memory k) F U c" "c + 3 \<le> 2048" "9 \<le> card (groups 10 F)" "image_sizes im" "mset tests = mset ost_tests"
    and "kn_flag k = irq_on" "il_some (sc_tasks (kn_sched k)) = nullptr" "sc_finished_tasks (kn_sched k) = []" "sc_ran (kn_sched k) = []" "sc_deleted (kn_sched k) = []"
  shows "\<exists>k' main F' U'. (\<forall>rounds. bindE (boot_tests tests k) (init_scheduling im rounds) = kernel_rounds im rounds k') \<and> boot_heap g (kn_memory k') F' U' (c + 3)
    \<and> 62 \<le> card (groups 4 F') \<and> kn_flag k' = irq_on \<and> sched_started main (kn_sched k') \<and> sc_script (kn_sched k') = sc_script (kn_sched k)
    \<and> unat main \<in> U' \<and> unat (sc_scheduler_task (kn_sched k')) \<in> U'
    \<and> kn_manager k' = kn_manager k \<and> kn_ints k' = kn_ints k \<and> kn_cpu k' = kn_cpu k \<and> kn_idt k' = kn_idt k"
proof -
  obtain s F' U' where t: "boot_tests tests k = Inr (k\<lparr>kn_memory := s\<rparr>)" "boot_heap g s F' U' c" "some_block 10 F'"
    using boot_tests_step [OF assms(1,3,5)] by blast
  show ?thesis
    using init_scheduling_step [of g "k\<lparr>kn_memory := s\<rparr>" F' U' c im] t assms(2,4,6-10) by simp
qed

text \<open>The kernel at the first round of the scheduler.\<close>

definition kernel_up :: "image \<Rightarrow> 'h ps2_drivers \<Rightarrow> 'h ps2 \<Rightarrow> ('f, 'h) kernel \<Rightarrow> ptr \<Rightarrow> ('f, 'h) kernel \<Rightarrow> bool" where
  "kernel_up im drv p k main k' \<longleftrightarrow> kn_flag k' = irq_on
     \<and> cpu_gdtr (kn_cpu k') = \<lparr>tp_limit = 31, tp_base = im_gdt im\<rparr> \<and> cpu_idtr (kn_cpu k') = id_pointer (kn_idt k)
     \<and> id_global_handler (kn_idt k') = im_handle_irq im
     \<and> kernel_handlers drv (kn_manager k') \<and> (\<exists>m. int_manager_init = Inr m \<and> exceptions_handlers (kn_manager k') = exceptions_handlers m)
     \<and> (\<exists>pic d. initialize_controller pic_construct = Inr pic \<and> set_frequency (im_HZ im) PIT_FREQUENCY MAX_DIVIDER divider_default = Inr d
         \<and> kn_ints k' = (kn_ints k)\<lparr>is_pic := pic, is_world := (is_world (kn_ints k))\<lparr>kw_timer := (kw_timer (is_world (kn_ints k)))\<lparr>tm_divider := d\<rparr>, kw_ps2 := p\<rparr>\<rparr>)
     \<and> (\<exists>F U. boot_heap (image_geometry im) (kn_memory k') F U 47 \<and> 62 \<le> card (groups 4 F) \<and> unat main \<in> U \<and> unat (sc_scheduler_task (kn_sched k')) \<in> U)
     \<and> sched_started main (kn_sched k') \<and> sc_script (kn_sched k') = sc_script (kn_sched k)"

lemma kernel_boots_up:
  fixes k :: "('f, 'h) kernel"
  assumes ctors: "call_global_ctors ctors (boot_early im k0) = Inr k"
    and "kernel_constructed im k" "image_sizes im" "enough_memory im" "im_HZ im \<noteq> 0"
    and "sleeps chip" "drains chip pending" "drv_probe drv (im_ps2_kbd im) = keyboard_probe chip"
    and "mset tests = mset ost_tests"
  shows "case initialize_ps2 chip drv (im_ps2_kbd im) (kw_ps2 (is_world (kn_ints k))) of
      Inl e \<Rightarrow> e = Panic ''PS/2: controller self-test failed!'' \<and> (\<forall>rounds. kernel_main im ctors chip drv tests rounds k0 = Inl e)
    | Inr p \<Rightarrow> \<exists>k' main. kernel_up im drv p k main k' \<and> (\<forall>rounds. kernel_main im ctors chip drv tests rounds k0 = kernel_rounds im rounds k')"
proof -
  let ?g = "image_geometry im" and ?w = "is_world (kn_ints k)"
  obtain k3 m F U p d where 3: "bindE (boot_processor im k) (\<lambda>k. bindE (boot_manager im k) (boot_timer im)) = Inr k3"
    "boot_heap ?g (kn_memory k3) F U 41" "9 \<le> card (groups 10 F)" "int_manager_init = Inr m"
    "set_frequency (im_HZ im) PIT_FREQUENCY MAX_DIVIDER divider_default = Inr d" "initialize_controller pic_construct = Inr p"
    "kn_manager k3 = m\<lparr>irq_handlers := (\<lambda>_. [])(0x20 := [timer_irq_handler])\<rparr>"
    "kn_ints k3 = (kn_ints k)\<lparr>is_pic := p, is_world := ?w\<lparr>kw_timer := (kw_timer ?w)\<lparr>tm_divider := d\<rparr>\<rparr>\<rparr>"
    "kn_flag k3 = irq_off" "kn_sched k3 = kn_sched k" "cpu_gdtr (kn_cpu k3) = \<lparr>tp_limit = 31, tp_base = im_gdt im\<rparr>"
    "cpu_idtr (kn_cpu k3) = id_pointer (kn_idt k)" "id_global_handler (kn_idt k3) = im_handle_irq im"
    using boot_until_ps2 [OF assms(2-5)] by blast
  have ps2: "p2_known_devices (kw_ps2 (is_world (kn_ints k3))) = []" "kw_ps2 (is_world (kn_ints k3)) = kw_ps2 ?w"
    using assms(2) 3(8) by (simp_all add: kernel_constructed_def)
  note boot4 = boot_ps2_step [OF 3(2) _ assms(3,6,7,8) ps2(1), unfolded ps2(2)]
  have upto: "kernel_main im ctors chip drv tests rounds k0 = bindE (boot_ps2 im chip drv k3) (\<lambda>k. bindE (boot_tests tests k) (init_scheduling im rounds))" for rounds
    using 3(1) by (auto simp: kernel_main_def ctors bindE_eq_Inr_iff)
  show ?thesis
  proof (cases "initialize_ps2 chip drv (im_ps2_kbd im) (kw_ps2 ?w)")
    case (Inl e)
    then show ?thesis using boot4 upto by simp
  next
    case (Inr q)
    then obtain k4 U4 where 4: "boot_ps2 im chip drv k3 = Inr k4" "boot_heap ?g (kn_memory k4) F U4 44" "kn_manager k4 = with_ps2 drv (kn_manager k3)"
      "kn_ints k4 = (kn_ints k3)\<lparr>is_world := (is_world (kn_ints k3))\<lparr>kw_ps2 := q\<rparr>\<rparr>" "kn_flag k4 = irq_on"
      "kn_sched k4 = kn_sched k" "kn_cpu k4 = kn_cpu k3" "kn_idt k4 = kn_idt k3"
      using boot4 3(9,10) by (auto simp: irq_enable_def)
    obtain k6 main F6 U6 where 6: "\<forall>rounds. bindE (boot_tests tests k4) (init_scheduling im rounds) = kernel_rounds im rounds k6"
      "boot_heap ?g (kn_memory k6) F6 U6 47" "kn_flag k6 = irq_on" "sched_started main (kn_sched k6)" "sc_script (kn_sched k6) = sc_script (kn_sched k)"
      "unat main \<in> U6" "unat (sc_scheduler_task (kn_sched k6)) \<in> U6" "62 \<le> card (groups 4 F6)"
      "kn_manager k6 = kn_manager k4" "kn_ints k6 = kn_ints k4" "kn_cpu k6 = kn_cpu k3" "kn_idt k6 = kn_idt k3"
      using boot_from_tests [OF 4(2) _ 3(3) assms(3,9) 4(5)] 4(6-8) assms(2) by (auto simp: kernel_constructed_def)
    have "kernel_handlers drv (kn_manager k6)" by (simp add: 6(9) 4(3) 3(7) kernel_handlers_def fun_upd_twist)
    then have "kernel_up im drv q k main k6"
      unfolding kernel_up_def using 6(2-12) 3(4-6,11-13) by (auto simp: 4(3,4) 3(7,8))
    then show ?thesis unfolding Inr sum.case using upto 4(1) 6(1) by (intro exI [of _ k6] exI [of _ main]) simp
  qed
qed

section \<open>An example\<close>

definition example_im :: image where
  "example_im = \<lparr>im_boot_info = example_boot, im_kobj = example_image, im_gdt = 0x8000, im_tss = 0x9000, im_handle_irq = 0x100100,
     im_start_on_new_frame = 0x100200, im_ps2_kbd = 0x7000, im_HZ = 100, im_sizeof_slab = 28, im_sizeof_manager = 2304,
     im_sizeof_exception_handler = 8, im_sizeof_node = 8, im_sizeof_pic = 8, im_sizeof_divider = 12, im_sizeof_pit_handler = 8, im_sizeof_ps2_handler = 4, im_sizeof_scheduler = 40,
     im_sizeof_task = 64\<rparr>"

definition example_kernel :: "(unit, u8 list) kernel" where
  "example_kernel = \<lparr>kn_boot_info = example_boot, kn_flag = irq_off,
     kn_screen = \<lparr>vga_iomem = (\<lambda>_. \<lparr>cell_ch = CHR '' '', cell_fg = white, cell_bg = black\<rparr>), vga_line = 0, vga_column = 0, global_fg = white, global_bg = black\<rparr>,
     kn_gdt = gdt_construct, kn_cpu = \<lparr>cpu_gdtr = \<lparr>tp_limit = 0, tp_base = 0\<rparr>, cpu_idtr = \<lparr>tp_limit = 0, tp_base = 0\<rparr>, cpu_cs = 0, cpu_data_segments = 0, cpu_tr = 0\<rparr>,
     kn_idt = idt_construct of_nat 0xa000,
     kn_memory = \<lparr>km_store = store_zero, km_highmem = \<lparr>mr_begin = 0, mr_end = 0\<rparr>,
       km_pages = \<lparr>pa_primary = buddy_allocator_default \<lparr>mr_begin = 0, mr_end = 0\<rparr>, pa_map = \<lparr>ba_size = 0, ba_data = 0\<rparr>\<rparr>, km_malloc = mallocator_default\<rparr>,
     kn_manager = int_manager_construct,
     kn_ints = \<lparr>is_pic = pic_construct, is_unhandled = [], is_world = \<lparr>kw_timer = \<lparr>tm_divider = divider_default, jiffies = 0\<rparr>, kw_ps2 = example_ps2\<rparr>\<rparr>,
     kn_pit_writes = [], kn_sched = example_sched\<lparr>sc_script := \<lambda>_. []\<rparr>\<rparr>"

lemma example_ready: "kernel_constructed example_im example_kernel" "image_sizes example_im" "enough_memory example_im"
proof -
  show "kernel_constructed example_im example_kernel" "image_sizes example_im"
    by (simp_all add: kernel_constructed_def example_kernel_def example_ps2_def example_sched_def image_sizes_def example_im_def)
  show "enough_memory example_im" using example_conditions(1-4) example_groups(2)
    by (simp add: enough_memory_def example_im_def example_geometry)
qed

lemma example_early: "call_global_ctors [] (boot_early example_im example_kernel) = Inr example_kernel"
  by (simp add: boot_early_def irq_disable_def example_kernel_def example_im_def)

lemma example_machine: "im_HZ example_im \<noteq> 0" "im_ps2_kbd example_im = 0x7000"
  "kw_ps2 (is_world (kn_ints example_kernel)) = example_ps2" "drv_probe example_drivers 0x7000 = keyboard_probe queue_chip"
  by (simp_all add: example_kernel_def example_im_def example_drivers_def)

section \<open>Properties\<close>



end
