(* ===== verification/Serial_Port.thy ===== *)
theory Serial_Port
  imports Kernel_Prelude
begin

text \<open>
  The serial port driver \<^verbatim>\<open>devices/serial\<close>. The line status that the device answers to the k-th read is a
  function of k, the writes to the ports of the device are kept in their order.
\<close>

section \<open>Definitions\<close>

datatype com_port = COM1 | COM2 | COM3 | COM4

definition com_port_value :: "com_port \<Rightarrow> u16" where
  "com_port_value p = (case p of COM1 \<Rightarrow> 0x3F8 | COM2 \<Rightarrow> 0x2F8 | COM3 \<Rightarrow> 0x3E8 | COM4 \<Rightarrow> 0x2E8)"

record io_ports =
  port_DATA :: u16
  port_ENABLE_INTERRUPT :: u16
  port_DIVISOR_LSB :: u16
  port_DIVISOR_MSB :: u16
  port_INTERRUPT_ID :: u16
  port_LCR :: u16
  port_MCR :: u16
  port_LSR :: u16
  port_MSR :: u16
  port_SCRATCH :: u16

definition io_ports_at :: "u16 \<Rightarrow> io_ports" where
  "io_ports_at first_address =
     \<lparr>port_DATA = first_address, port_ENABLE_INTERRUPT = first_address + 1,
      port_DIVISOR_LSB = first_address, port_DIVISOR_MSB = first_address + 1,
      port_INTERRUPT_ID = first_address + 2, port_LCR = first_address + 3, port_MCR = first_address + 4,
      port_LSR = first_address + 5, port_MSR = first_address + 6, port_SCRATCH = 7\<rparr>"

text \<open>Bit fields are laid out from the low bit on.\<close>

record line_control =
  lcr_char_size :: nat
  lcr_other :: bool
  lcr_set_baud_rate_divisor :: bool

definition lcr_default :: line_control where
  "lcr_default = \<lparr>lcr_char_size = 0, lcr_other = False, lcr_set_baud_rate_divisor = False\<rparr>"

definition set_char_size :: "u8 \<Rightarrow> line_control \<Rightarrow> line_control" where
  "set_char_size sz l = l\<lparr>lcr_char_size := unat (sz - 5) mod 4\<rparr>"

definition set_set_baud_rate_divisor :: "bool \<Rightarrow> line_control \<Rightarrow> line_control" where
  "set_set_baud_rate_divisor b l = l\<lparr>lcr_set_baud_rate_divisor := b\<rparr>"

definition lcr_byte :: "line_control \<Rightarrow> u8" where
  "lcr_byte l = of_nat (lcr_char_size l) OR push_bit 2 (of_bool (lcr_other l))
     OR push_bit 7 (of_bool (lcr_set_baud_rate_divisor l))"

definition lsr_can_send :: "u8 \<Rightarrow> bool" where
  "lsr_can_send byte \<longleftrightarrow> bit byte 5"

record serial =
  sp_ports :: io_ports
  sp_status :: "nat \<Rightarrow> u8"
  sp_reads :: nat
  sp_outs :: "(u16 \<times> u8) list"

definition sp_outb :: "u16 \<Rightarrow> u8 \<Rightarrow> serial \<Rightarrow> serial" where
  "sp_outb port byte p = p\<lparr>sp_outs := sp_outs p @ [(port, byte)]\<rparr>"

definition can_write :: "serial \<Rightarrow> serial \<times> bool" where
  "can_write p = (p\<lparr>sp_reads := sp_reads p + 1\<rparr>, lsr_can_send (sp_status p (sp_reads p)))"

definition set_baud_rate_divisor :: "u16 \<Rightarrow> serial \<Rightarrow> serial" where
  "set_baud_rate_divisor divisor p =
     (let lcr = set_char_size 8 (set_set_baud_rate_divisor True lcr_default);
          p1 = sp_outb (port_LCR (sp_ports p)) (lcr_byte lcr) p;
          p2 = sp_outb (port_DIVISOR_LSB (sp_ports p)) (ucast (divisor AND 0xff)) p1;
          p3 = sp_outb (port_DIVISOR_MSB (sp_ports p)) (ucast (drop_bit 8 divisor AND 0xff)) p2
      in sp_outb (port_LCR (sp_ports p)) (lcr_byte (set_set_baud_rate_divisor False lcr)) p3)"

definition serial_configure :: "serial \<Rightarrow> serial" where
  "serial_configure p = set_baud_rate_divisor 1 p"

definition serial_construct :: "com_port \<Rightarrow> serial \<Rightarrow> serial" where
  "serial_construct port p = serial_configure (p\<lparr>sp_ports := io_ports_at (com_port_value port)\<rparr>)"

partial_function (option) serial_wait :: "serial \<Rightarrow> serial option" where
  "serial_wait p = (let (p1, ok) = can_write p in if \<not> ok then serial_wait p1 else Some p1)"

definition serial_write :: "char \<Rightarrow> serial \<Rightarrow> serial result" where
  "serial_write chr p = bindE (of_loop (serial_wait p)) (\<lambda>p1. Inr (sp_outb (port_DATA (sp_ports p1)) (of_char chr) p1))"

section \<open>Writing\<close>

text \<open>The device is never busy forever.\<close>

definition serial_live :: "serial \<Rightarrow> bool" where
  "serial_live p \<longleftrightarrow> (\<forall>k. \<exists>n\<ge>k. lsr_can_send (sp_status p n))"

text \<open>What the writes leave of a port: everything but the reads of the status and the writes.\<close>

definition same_port :: "serial \<Rightarrow> serial \<Rightarrow> bool" where
  "same_port p q \<longleftrightarrow> sp_ports q = sp_ports p \<and> sp_status q = sp_status p"

lemma serial_wait_ends:
  assumes "lsr_can_send (sp_status p n)" "sp_reads p \<le> n"
  shows "\<exists>k. serial_wait p = Some (p\<lparr>sp_reads := k\<rparr>)"
  using assms
proof (induction "n - sp_reads p" arbitrary: p)
  case 0
  then show ?case by (subst serial_wait.simps) (auto simp: can_write_def)
next
  case (Suc j)
  show ?case
  proof (cases "lsr_can_send (sp_status p (sp_reads p))")
    case True
    then show ?thesis by (subst serial_wait.simps) (auto simp: can_write_def)
  next
    case False
    have "\<exists>k. serial_wait (p\<lparr>sp_reads := sp_reads p + 1\<rparr>) = Some (p\<lparr>sp_reads := sp_reads p + 1\<rparr>\<lparr>sp_reads := k\<rparr>)"
      using Suc.hyps(2) Suc.prems by (intro Suc.hyps(1)) auto
    then show ?thesis using False by (subst serial_wait.simps) (auto simp: can_write_def)
  qed
qed

lemma serial_write_live:
  assumes "serial_live p"
  shows "\<exists>q. serial_write chr p = Inr q \<and> serial_live q \<and> same_port p q
    \<and> sp_outs q = sp_outs p @ [(port_DATA (sp_ports p), of_char chr)]"
proof -
  obtain n where "sp_reads p \<le> n" "lsr_can_send (sp_status p n)" using assms unfolding serial_live_def by blast
  then obtain k where "serial_wait p = Some (p\<lparr>sp_reads := k\<rparr>)" using serial_wait_ends by blast
  then show ?thesis using assms by (simp add: serial_write_def sp_outb_def serial_live_def same_port_def)
qed

section \<open>Properties\<close>

text \<open>
  Setting up the first port selects its divisor latch with 8-bit characters, writes the divisor 1
  and leaves the latch deselected.
\<close>

theorem serial_setup:
  "sp_outs (serial_construct COM1 p) = sp_outs p @ [(0x3FB, 0x83), (0x3F8, 1), (0x3F9, 0), (0x3FB, 0x03)]"
  by (simp add: serial_construct_def serial_configure_def set_baud_rate_divisor_def sp_outb_def io_ports_at_def
      com_port_value_def lcr_byte_def set_char_size_def set_set_baud_rate_divisor_def lcr_default_def Let_def)

end
