(* ===== verification/Logging.thy ===== *)
theory Logging
  imports Out_Stream Vga_Console Serial_Port
begin

text \<open>
  The logging library \<^verbatim>\<open>log\<close>: the stream buffers of the console and of the serial port, the buffer that
  puts a prefix in front of every line, the pair of buffers, and the logger that combines them. The
  static prefix of a logger and its enabled level are arguments.
\<close>

section \<open>Buffers of the devices\<close>

text \<open>\<^verbatim>\<open>SimpleStreamBuf::xsputn\<close> writes a block of characters one by one.\<close>

primrec simple_xsputn :: "(char \<Rightarrow> 's \<Rightarrow> 's result) \<Rightarrow> string \<Rightarrow> 's \<Rightarrow> 's result" where
  "simple_xsputn overflow [] s = Inr s"
| "simple_xsputn overflow (c # str) s = bindE (overflow c s) (simple_xsputn overflow str)"

definition simple_buf :: "(char \<Rightarrow> 's \<Rightarrow> 's result) \<Rightarrow> 's streambuf" where
  "simple_buf overflow = \<lparr>sb_overflow = overflow, sb_xsputn = simple_xsputn overflow\<rparr>"

definition vga_overflow :: "char \<Rightarrow> vga \<Rightarrow> vga result" where
  "vga_overflow c v = Inr (putc c v)"

definition serial_overflow :: "char \<Rightarrow> serial \<Rightarrow> serial result" where
  "serial_overflow c p =
     (if c = CHR 0x0A then bindE (serial_write (CHR 0x0A) p) (serial_write (CHR 0x0D)) else serial_write c p)"

definition vga_buf :: "vga streambuf" where
  "vga_buf = simple_buf vga_overflow"

definition serial_buf :: "serial streambuf" where
  "serial_buf = simple_buf serial_overflow"

section \<open>A prefix on every line\<close>

datatype log_level = CRITICAL | ERROR | WARNING | NOTICE | INFO | DEBUG

definition level_value :: "log_level \<Rightarrow> nat" where
  "level_value l = (case l of CRITICAL \<Rightarrow> 0 | ERROR \<Rightarrow> 1 | WARNING \<Rightarrow> 2 | NOTICE \<Rightarrow> 3 | INFO \<Rightarrow> 4 | DEBUG \<Rightarrow> 5)"

text \<open>Levels are compared by their values.\<close>

instantiation log_level :: linorder
begin

definition less_eq_log_level :: "log_level \<Rightarrow> log_level \<Rightarrow> bool" where
  "less_eq_log_level a b \<longleftrightarrow> level_value a \<le> level_value b"

definition less_log_level :: "log_level \<Rightarrow> log_level \<Rightarrow> bool" where
  "less_log_level a b \<longleftrightarrow> level_value a < level_value b"

instance
  by standard (auto simp: less_eq_log_level_def less_log_level_def level_value_def split: log_level.splits)

end

text \<open>
  \<^verbatim>\<open>StaticDelegatingLogBuf\<close>: the level of the buffer, the enabled level, the prefix, the buffer that it
  delegates to, and the virtual functions that a derived class may define. The state is the flag
  \<^verbatim>\<open>_show_header\<close> and the state behind the delegate.
\<close>

record 'd log_buf =
  lb_level :: log_level
  lb_enabled :: log_level
  lb_prefix :: string
  lb_delegate :: "'d streambuf option"
  lb_pre_prefix :: "'d \<Rightarrow> 'd"
  lb_post_prefix :: "'d \<Rightarrow> 'd"
  lb_end_line :: "'d \<Rightarrow> 'd"

primrec sputc_all :: "'d streambuf \<Rightarrow> string \<Rightarrow> 'd \<Rightarrow> 'd result" where
  "sputc_all sb [] d = Inr d"
| "sputc_all sb (c # str) d = bindE (sputc sb c d) (sputc_all sb str)"

definition do_start_log_line :: "'d log_buf \<Rightarrow> 'd \<Rightarrow> 'd result" where
  "do_start_log_line lb d =
     (let d1 = lb_pre_prefix lb d
      in bindE (case lb_delegate lb of None \<Rightarrow> Inr d1 | Some sb \<Rightarrow> sputc_all sb (lb_prefix lb) d1)
           (\<lambda>d2. Inr (lb_post_prefix lb d2)))"

definition do_end_long_line :: "'d log_buf \<Rightarrow> 'd \<Rightarrow> 'd" where
  "do_end_long_line lb d = (case lb_delegate lb of None \<Rightarrow> d | Some sb \<Rightarrow> lb_end_line lb d)"

definition log_overflow :: "'d log_buf \<Rightarrow> char \<Rightarrow> bool \<times> 'd \<Rightarrow> (bool \<times> 'd) result" where
  "log_overflow lb c s =
     (if lb_level lb > lb_enabled lb then Inr s
      else
        let (show_header, d) = s
        in bindE (if show_header then case lb_delegate lb of None \<Rightarrow> Inr d | Some sb \<Rightarrow> do_start_log_line lb d else Inr d) (\<lambda>d1.
           bindE (case lb_delegate lb of None \<Rightarrow> Inr d1 | Some sb \<Rightarrow> sputc sb c d1) (\<lambda>d2.
           if c = CHR 0x0A
           then Inr (True, case lb_delegate lb of None \<Rightarrow> d2 | Some sb \<Rightarrow> do_end_long_line lb d2)
           else Inr (False, d2))))"

definition log_streambuf :: "'d log_buf \<Rightarrow> (bool \<times> 'd) streambuf" where
  "log_streambuf lb = simple_buf (log_overflow lb)"

text \<open>\<^verbatim>\<open>StaticSerialLogBuf\<close> sets its port up and delegates to its \<^verbatim>\<open>SerialBuf\<close>.\<close>

definition serial_log_buf :: "log_level \<Rightarrow> string \<Rightarrow> log_level \<Rightarrow> serial log_buf" where
  "serial_log_buf level prefix enabled =
     \<lparr>lb_level = level, lb_enabled = enabled, lb_prefix = prefix, lb_delegate = Some serial_buf,
      lb_pre_prefix = id, lb_post_prefix = id, lb_end_line = id\<rparr>"

definition serial_log_init :: "serial \<Rightarrow> bool \<times> serial" where
  "serial_log_init p = (True, serial_configure (serial_construct COM1 (serial_construct COM1 p)))"

text \<open>\<^verbatim>\<open>StaticVgaDelegatingLogBuf\<close> changes the colour of the console while it writes a line.\<close>

definition log_color :: "log_level \<Rightarrow> color" where
  "log_color level = (case level of
     CRITICAL \<Rightarrow> red | ERROR \<Rightarrow> bright_red | WARNING \<Rightarrow> yellow | NOTICE \<Rightarrow> green | INFO \<Rightarrow> bright_green
   | DEBUG \<Rightarrow> bright_green)"

record vga_log =
  vl_saved_color :: color
  vl_console :: vga

definition vga_delegate :: "vga_log streambuf" where
  "vga_delegate =
     \<lparr>sb_overflow = (\<lambda>c l. bindE (sb_overflow vga_buf c (vl_console l)) (\<lambda>v. Inr (l\<lparr>vl_console := v\<rparr>))),
      sb_xsputn = (\<lambda>str l. bindE (sb_xsputn vga_buf str (vl_console l)) (\<lambda>v. Inr (l\<lparr>vl_console := v\<rparr>)))\<rparr>"

definition vga_pre_prefix :: "color \<Rightarrow> vga_log \<Rightarrow> vga_log" where
  "vga_pre_prefix expected l =
     l\<lparr>vl_saved_color := get_fg (vl_console l), vl_console := set_fg expected (vl_console l)\<rparr>"

definition vga_end_line :: "vga_log \<Rightarrow> vga_log" where
  "vga_end_line l = l\<lparr>vl_console := set_fg (vl_saved_color l) (vl_console l)\<rparr>"

definition vga_log_buf :: "log_level \<Rightarrow> string \<Rightarrow> log_level \<Rightarrow> color \<Rightarrow> vga_log log_buf" where
  "vga_log_buf level prefix enabled expected =
     \<lparr>lb_level = level, lb_enabled = enabled, lb_prefix = prefix, lb_delegate = Some vga_delegate,
      lb_pre_prefix = vga_pre_prefix expected, lb_post_prefix = id, lb_end_line = vga_end_line\<rparr>"

section \<open>Two buffers\<close>

definition composite_overflow :: "'a streambuf option \<Rightarrow> 'b streambuf option \<Rightarrow> char \<Rightarrow> 'a \<times> 'b \<Rightarrow> ('a \<times> 'b) result" where
  "composite_overflow a b c s =
     bindE (case a of None \<Rightarrow> Inr (fst s) | Some sb \<Rightarrow> sputc sb c (fst s)) (\<lambda>x.
     bindE (case b of None \<Rightarrow> Inr (snd s) | Some sb \<Rightarrow> sputc sb c (snd s)) (\<lambda>y. Inr (x, y)))"

definition composite_xsputn :: "'a streambuf option \<Rightarrow> 'b streambuf option \<Rightarrow> string \<Rightarrow> 'a \<times> 'b \<Rightarrow> ('a \<times> 'b) result" where
  "composite_xsputn a b str s =
     bindE (case a of None \<Rightarrow> Inr (fst s) | Some sb \<Rightarrow> sputn sb str (fst s)) (\<lambda>x.
     bindE (case b of None \<Rightarrow> Inr (snd s) | Some sb \<Rightarrow> sputn sb str (snd s)) (\<lambda>y. Inr (x, y)))"

definition composite_buf :: "'a streambuf option \<Rightarrow> 'b streambuf option \<Rightarrow> ('a \<times> 'b) streambuf" where
  "composite_buf a b = \<lparr>sb_overflow = composite_overflow a b, sb_xsputn = composite_xsputn a b\<rparr>"

type_synonym log_state = "(bool \<times> vga_log) \<times> (bool \<times> serial)"

text \<open>The stream of one level of a \<^verbatim>\<open>StaticLogger\<close>.\<close>

definition build_sb :: "string \<Rightarrow> log_level \<Rightarrow> log_level \<Rightarrow> log_state streambuf" where
  "build_sb prefix level conf =
     composite_buf (Some (log_streambuf (vga_log_buf level prefix conf (log_color level))))
       (Some (log_streambuf (serial_log_buf level prefix conf)))"

definition logger_stream :: "string \<Rightarrow> log_level \<Rightarrow> log_level \<Rightarrow> log_state ostream" where
  "logger_stream prefix conf level = ostream_construct (Some (build_sb prefix level conf))"

section \<open>The buffers keep the contract\<close>

lemma simple_xsputn_push: "simple_xsputn ov str s = push (simple_buf ov) str s"
  by (induction str arbitrary: s) (auto simp: simple_buf_def intro: bindE_ext)

lemma simple_buf_target: "(\<And>s c s'. I s \<Longrightarrow> ov c s = Inr s' \<Longrightarrow> I s') \<Longrightarrow> stream_target (simple_buf ov) I"
  by unfold_locales (simp_all add: simple_xsputn_push [symmetric], simp_all add: simple_buf_def)

interpretation vgab: stream_target vga_buf "\<lambda>_. True"
  unfolding vga_buf_def by (rule simple_buf_target)

interpretation serb: stream_target serial_buf "\<lambda>_. True"
  unfolding serial_buf_def by (rule simple_buf_target)

interpretation logb: stream_target "log_streambuf lb" "\<lambda>_. True" for lb :: "'d log_buf"
  unfolding log_streambuf_def by (rule simple_buf_target)

text \<open>
  A pair of buffers keeps the contract if the first one never fails: else a failure of the first in the
  middle of a block would come before one of the second at its begin.
\<close>

locale two_targets = a: stream_target sba inva + b: stream_target sbb invb
  for sba :: "'a streambuf" and inva and sbb :: "'b streambuf" and invb +
  assumes total: "inva s \<Longrightarrow> \<exists>s'. sb_overflow sba c s = Inr s'"
begin

lemma push_total: "inva s \<Longrightarrow> \<exists>s'. push sba str s = Inr s'"
proof (induction str arbitrary: s)
  case (Cons c str)
  obtain s1 where s1: "sb_overflow sba c s = Inr s1" using total [OF Cons.prems] by blast
  then show ?case using Cons.IH [OF a.overflow_inv [OF Cons.prems s1]] by simp
qed simp

lemma composite_push:
  assumes "inva (fst s)"
  shows "push (composite_buf (Some sba) (Some sbb)) str s
    = bindE (push sba str (fst s)) (\<lambda>x. bindE (push sbb str (snd s)) (\<lambda>y. Inr (x, y)))"
  using assms
proof (induction str arbitrary: s)
  case Nil
  then show ?case by simp
next
  case (Cons c str)
  obtain s1 where s1: "sb_overflow sba c (fst s) = Inr s1" using total [OF Cons.prems] by blast
  note inv = a.overflow_inv [OF Cons.prems s1]
  obtain s2 where s2: "push sba str s1 = Inr s2" using push_total [OF inv] by blast
  show ?case
  proof (cases "sb_overflow sbb c (snd s)")
    case (Inr t1)
    then have "push (composite_buf (Some sba) (Some sbb)) (c # str) s = push (composite_buf (Some sba) (Some sbb)) str (s1, t1)"
      using s1 by (simp add: composite_buf_def composite_overflow_def sputc_def)
    then show ?thesis using Cons.IH [of "(s1, t1)"] inv s1 s2 Inr by simp
  qed (use s1 s2 in \<open>simp add: composite_buf_def composite_overflow_def sputc_def\<close>)
qed

end

sublocale two_targets \<subseteq> ab: stream_target "composite_buf (Some sba) (Some sbb)" "\<lambda>s. inva (fst s) \<and> invb (snd s)"
proof
  show "inva (fst s') \<and> invb (snd s')"
    if "inva (fst s) \<and> invb (snd s)" "sb_overflow (composite_buf (Some sba) (Some sbb)) c s = Inr s'" for s c s'
    using that a.overflow_inv b.overflow_inv
    by (auto simp: composite_buf_def composite_overflow_def sputc_def bindE_eq_Inr_iff)
  show "sb_xsputn (composite_buf (Some sba) (Some sbb)) str s = push (composite_buf (Some sba) (Some sbb)) str s"
    if "inva (fst s) \<and> invb (snd s)" for s str
    using that composite_push [of s str] a.xsputn_push b.xsputn_push
    by (simp add: composite_buf_def composite_xsputn_def sputn_def)
qed

section \<open>A line of the log\<close>

definition enabled :: "'d log_buf \<Rightarrow> bool" where
  "enabled lb \<longleftrightarrow> lb_level lb \<le> lb_enabled lb"

lemma sputc_all_push: "sputc_all sb str d = push sb str d"
  by (induction str arbitrary: d) (auto simp: sputc_def intro: bindE_ext)

lemma log_overflow_rest:
  assumes "enabled lb" "lb_delegate lb = Some sb"
  shows "log_overflow lb c (False, d) = bindE (sb_overflow sb c d) (\<lambda>d'.
    Inr (if c = CHR 0x0A then (True, lb_end_line lb d') else (False, d')))"
  using assms by (auto simp: log_overflow_def enabled_def sputc_def do_end_long_line_def intro: bindE_ext)

lemma log_overflow_first:
  assumes "enabled lb" "lb_delegate lb = Some sb" "lb_post_prefix lb = id"
  shows "log_overflow lb c (True, d)
    = bindE (push sb (lb_prefix lb) (lb_pre_prefix lb d)) (\<lambda>d'. log_overflow lb c (False, d'))"
  unfolding log_overflow_rest [OF assms(1,2)] using assms
  by (auto simp: log_overflow_def enabled_def sputc_def do_start_log_line_def do_end_long_line_def sputc_all_push
      intro!: bindE_ext)

lemma log_line_rest:
  assumes "enabled lb" "lb_delegate lb = Some sb" "CHR 0x0A \<notin> set msg"
  shows "push (log_streambuf lb) (msg @ [CHR 0x0A]) (False, d)
    = bindE (push sb (msg @ [CHR 0x0A]) d) (\<lambda>d'. Inr (True, lb_end_line lb d'))"
  using assms(3)
  by (induction msg arbitrary: d)
     (auto simp: log_streambuf_def simple_buf_def log_overflow_rest [OF assms(1,2)] intro: bindE_ext)

text \<open>A line that starts with the header is the prefix and the message between the two hooks.\<close>

lemma log_line:
  assumes "enabled lb" "lb_delegate lb = Some sb" "lb_post_prefix lb = id" "CHR 0x0A \<notin> set msg"
  shows "push (log_streambuf lb) (msg @ [CHR 0x0A]) (True, d)
    = bindE (push sb (lb_prefix lb @ msg @ [CHR 0x0A]) (lb_pre_prefix lb d)) (\<lambda>d'. Inr (True, lb_end_line lb d'))"
proof -
  obtain c cs where c: "msg @ [CHR 0x0A] = c # cs" by (cases msg) auto
  have "push (log_streambuf lb) (c # cs) (True, d)
      = bindE (push sb (lb_prefix lb) (lb_pre_prefix lb d)) (\<lambda>d'. push (log_streambuf lb) (c # cs) (False, d'))"
    by (simp add: log_streambuf_def simple_buf_def log_overflow_first [OF assms(1-3)])
  then show ?thesis unfolding c [symmetric] log_line_rest [OF assms(1,2,4)] by (simp add: push_append)
qed

lemma log_disabled: "\<not> enabled lb \<Longrightarrow> push (log_streambuf lb) str s = Inr s"
  by (induction str) (simp_all add: log_streambuf_def simple_buf_def log_overflow_def enabled_def not_le)

lemma vga_delegate_push: "push vga_delegate str l = Inr (l\<lparr>vl_console := fold putc str (vl_console l)\<rparr>)"
  by (induction str arbitrary: l) (simp_all add: vga_delegate_def vga_buf_def simple_buf_def vga_overflow_def)

lemma putc_color_colors:
  "global_fg (putc_color c fg bg v) = global_fg v" "global_bg (putc_color c fg bg v) = global_bg v"
  by (simp_all add: putc_color_def line_break_def new_line_def carriage_return_def cursor_next_def Let_def)

lemma fold_putc: "fold putc str v = puts str v"
proof -
  have "fold putc str v = fold (\<lambda>c. putc_color c fg bg) str v" if "global_fg v = fg" "global_bg v = bg" for fg bg
    using that
  proof (induction str arbitrary: v)
    case (Cons c str)
    have "putc c v = putc_color c fg bg v" using Cons.prems by (simp add: putc_def)
    then show ?case using Cons.IH [of "putc_color c fg bg v"] Cons.prems by (simp add: putc_color_colors)
  qed simp
  then show ?thesis by (simp add: puts_def puts_color_def)
qed

text \<open>What the serial port sends for a text.\<close>

primrec serial_text :: "string \<Rightarrow> string" where
  "serial_text [] = []"
| "serial_text (c # str) = (if c = CHR 0x0A then [CHR 0x0A, CHR 0x0D] else [c]) @ serial_text str"

lemma serial_push:
  "serial_live p \<Longrightarrow> \<exists>q. push serial_buf str p = Inr q \<and> serial_live q \<and> same_port p q
    \<and> sp_outs q = sp_outs p @ map (\<lambda>c. (port_DATA (sp_ports p), of_char c)) (serial_text str)"
proof (induction str arbitrary: p)
  case Nil
  then show ?case by (simp add: same_port_def)
next
  case (Cons c str)
  have "\<exists>q. serial_overflow c p = Inr q \<and> serial_live q \<and> same_port p q
    \<and> sp_outs q = sp_outs p @ map (\<lambda>c. (port_DATA (sp_ports p), of_char c)) (serial_text [c])"
  proof (cases "c = CHR 0x0A")
    case True
    obtain q where q: "serial_write (CHR 0x0A) p = Inr q" "serial_live q" "same_port p q"
      "sp_outs q = sp_outs p @ [(port_DATA (sp_ports p), of_char (CHR 0x0A))]"
      using serial_write_live [OF Cons.prems] by blast
    obtain r where "serial_write (CHR 0x0D) q = Inr r" "serial_live r" "same_port q r"
      "sp_outs r = sp_outs q @ [(port_DATA (sp_ports q), of_char (CHR 0x0D))]"
      using serial_write_live [OF q(2)] by blast
    then show ?thesis using q True by (simp add: serial_overflow_def same_port_def)
  next
    case False
    then show ?thesis using serial_write_live [OF Cons.prems, of c] by (simp add: serial_overflow_def)
  qed
  then obtain q where q: "serial_overflow c p = Inr q" "serial_live q" "same_port p q"
    "sp_outs q = sp_outs p @ map (\<lambda>c. (port_DATA (sp_ports p), of_char c)) (serial_text [c])" by blast
  obtain r where "push serial_buf str q = Inr r" "serial_live r" "same_port q r"
    "sp_outs r = sp_outs q @ map (\<lambda>c. (port_DATA (sp_ports q), of_char c)) (serial_text str)"
    using Cons.IH [OF q(2)] by blast
  then show ?case using q by (auto simp: serial_buf_def simple_buf_def same_port_def)
qed

section \<open>The logger\<close>

lemma vga_log_total: "\<exists>s'. log_overflow (vga_log_buf level prefix conf col) c s = Inr s'"
  using vga_delegate_push
  by (cases s) (auto simp: log_overflow_def vga_log_buf_def sputc_def do_start_log_line_def do_end_long_line_def
      sputc_all_push vga_delegate_def vga_buf_def simple_buf_def vga_overflow_def Let_def)

interpretation lg: two_targets "log_streambuf (vga_log_buf level prefix conf (log_color level))" "\<lambda>_. True"
    "log_streambuf (serial_log_buf level prefix conf)" "\<lambda>_. True" for level prefix conf
  by unfold_locales (simp add: log_streambuf_def simple_buf_def vga_log_total del: split_paired_Ex)

section \<open>Properties\<close>

text \<open>
  C15: a line that is logged with an enabled level appears on the console after the prefix of the
  logger and in the colour of the level, with the colour of the console restored behind it, and on the
  serial line with a carriage return behind the line feed. A line of a level that is not enabled changes
  nothing.
\<close>

theorem logger_line:
  assumes "CHR 0x0A \<notin> set msg" "length msg < 4294967296" "serial_live p"
  shows "\<exists>s'. bindE (shl_string (logger_stream prefix conf level) msg ((True, l), (True, p))) (endl (logger_stream prefix conf level)) = Inr s'
    \<and> (if level \<le> conf
       then fst (fst s') \<and> fst (snd s')
         \<and> vl_console (snd (fst s')) = set_fg (get_fg (vl_console l))
             (puts (prefix @ msg @ [CHR 0x0A]) (set_fg (log_color level) (vl_console l)))
         \<and> sp_outs (snd (snd s')) = sp_outs p @ map (\<lambda>c. (port_DATA (sp_ports p), of_char c)) (serial_text (prefix @ msg @ [CHR 0x0A]))
       else s' = ((True, l), (True, p)))"
proof -
  let ?os = "logger_stream prefix conf level" and ?s = "((True, l), (True, p))"
  let ?v = "vga_log_buf level prefix conf (log_color level)" and ?b = "serial_log_buf level prefix conf"
  have os: "os_streambuf ?os = Some (composite_buf (Some (log_streambuf ?v)) (Some (log_streambuf ?b)))" "os_width ?os = 0"
    by (simp_all add: logger_stream_def ostream_construct_def build_sb_def)
  have "bindE (shl_string ?os msg ?s) (endl ?os) = bindE (emit ?os msg ?s) (emit ?os [CHR 0x0A])"
    using assms(2) os(2) by (auto simp: shl_string_emit padding_def endl_def intro: bindE_ext)
  also have "\<dots> = push (composite_buf (Some (log_streambuf ?v)) (Some (log_streambuf ?b))) (msg @ [CHR 0x0A]) ?s"
    using emit_append [of ?os msg "[CHR 0x0A]" ?s] by (simp add: emit_def os(1))
  also have "\<dots> = bindE (push (log_streambuf ?v) (msg @ [CHR 0x0A]) (True, l))
      (\<lambda>x. bindE (push (log_streambuf ?b) (msg @ [CHR 0x0A]) (True, p)) (\<lambda>y. Inr (x, y)))"
    using lg.composite_push [where s = ?s] by simp
  finally have run: "bindE (shl_string ?os msg ?s) (endl ?os) = \<dots>" .
  show ?thesis
  proof (cases "level \<le> conf")
    case True
    then have en: "enabled ?v" "enabled ?b" by (simp_all add: enabled_def vga_log_buf_def serial_log_buf_def)
    obtain q where q: "push serial_buf (prefix @ msg @ [CHR 0x0A]) p = Inr q"
      "sp_outs q = sp_outs p @ map (\<lambda>c. (port_DATA (sp_ports p), of_char c)) (serial_text (prefix @ msg @ [CHR 0x0A]))"
      using serial_push [OF assms(3)] by blast
    have "push (log_streambuf ?b) (msg @ [CHR 0x0A]) (True, p) = Inr (True, q)"
      using log_line [OF en(2) _ _ assms(1), of serial_buf p] q(1) by (simp add: serial_log_buf_def)
    moreover have "push (log_streambuf ?v) (msg @ [CHR 0x0A]) (True, l)
        = Inr (True, vga_end_line ((vga_pre_prefix (log_color level) l)\<lparr>vl_console :=
            puts (prefix @ msg @ [CHR 0x0A]) (vl_console (vga_pre_prefix (log_color level) l))\<rparr>))"
      using log_line [OF en(1) _ _ assms(1), of vga_delegate l] unfolding vga_delegate_push fold_putc
      by (simp add: vga_log_buf_def)
    ultimately show ?thesis using run q(2) True by (simp add: vga_end_line_def vga_pre_prefix_def)
  next
    case False
    then have "\<not> enabled ?v" "\<not> enabled ?b" by (simp_all add: enabled_def vga_log_buf_def serial_log_buf_def)
    then show ?thesis using run False by (simp add: log_disabled)
  qed
qed

theorem logger_line_witness:
  "\<exists>s'. bindE (shl_string (logger_stream ''PIT: '' INFO WARNING) ''hi'' ((True, \<lparr>vl_saved_color = white, vl_console = \<lparr>vga_iomem = \<lambda>_. \<lparr>cell_ch = CHR '' '', cell_fg = grey, cell_bg = black\<rparr>,
        vga_line = 0, vga_column = 0, global_fg = grey, global_bg = black\<rparr>\<rparr>),
      (True, \<lparr>sp_ports = io_ports_at 0x3F8, sp_status = (\<lambda>_. 0x20), sp_reads = 0, sp_outs = []\<rparr>)))
      (endl (logger_stream ''PIT: '' INFO WARNING)) = Inr s'
    \<and> map snd (sp_outs (snd (snd s'))) = map of_char (''PIT: hi'' @ [CHR 0x0A, CHR 0x0D])"
proof -
  let ?v = "\<lparr>vga_iomem = \<lambda>_. \<lparr>cell_ch = CHR '' '', cell_fg = grey, cell_bg = black\<rparr>,
        vga_line = 0, vga_column = 0, global_fg = grey, global_bg = black\<rparr>"
  let ?p = "\<lparr>sp_ports = io_ports_at 0x3F8, sp_status = (\<lambda>_. 0x20), sp_reads = 0, sp_outs = []\<rparr>"
  have "serial_live ?p" by (auto simp: serial_live_def lsr_can_send_def bit_numeral_rec)
  then show ?thesis
    using logger_line [of "''hi''" ?p "''PIT: ''" INFO WARNING "\<lparr>vl_saved_color = white, vl_console = ?v\<rparr>"]
    by (auto simp: less_eq_log_level_def level_value_def comp_def)
qed

end
