(* ===== verification/Kernel_Tasks.thy ===== *)
theory Kernel_Tasks
  imports Scheduler Pit_Timer Logging
begin

text \<open>
  The tasks of the kernel, from \<^verbatim>\<open>main.cpp\<close>: the main task, which creates eight test tasks and then idles, and the test tasks, of
  which the odd ones log and sleep for ever and the even ones do so five times and return. A task is a sequence of actions; its turns
  are the parts between two yields. How often a sleep yields follows from the values of the jiffies that it reads, which are arguments.
\<close>

section \<open>Definitions\<close>

datatype action = Act_log log_level "out_item list" | Act_yield | Act_create new_task u32

text \<open>The actions so far, and whether the code behind them is reached.\<close>

type_synonym behaviour = "action list \<times> bool"

definition and_then :: "behaviour \<Rightarrow> behaviour \<Rightarrow> behaviour" where
  "and_then a b = (if snd a then (fst a @ fst b, snd b) else a)"

definition sleep_interval :: u32 where
  "sleep_interval = 1000"

definition tasks_count :: u32 where
  "tasks_count = 8"

definition sleep_actions :: "u32 \<Rightarrow> u32 \<Rightarrow> (nat \<Rightarrow> u32) \<Rightarrow> behaviour" where
  "sleep_actions HZ ms clock =
     (case sleep_ms True clock HZ ms of Inl e \<Rightarrow> ([], False) | Inr yields \<Rightarrow> (replicate yields Act_yield, True))"

text \<open>One iteration of the loops of a test task, for each sleep that is observed.\<close>

primrec test_iterations :: "u32 \<Rightarrow> u32 \<Rightarrow> u32 \<Rightarrow> (nat \<Rightarrow> u32) list \<Rightarrow> behaviour" where
  "test_iterations HZ task_number counter [] = ([], True)"
| "test_iterations HZ task_number counter (clock # clocks) =
     and_then ([Act_log NOTICE [O_str ''task '', O_u32 task_number, O_str ''. iteration #'', O_u32 (counter + 1), O_endl]], True)
       (and_then (sleep_actions HZ sleep_interval clock) (test_iterations HZ task_number (counter + 1) clocks))"

definition test_task :: "u32 \<Rightarrow> u32 \<Rightarrow> (nat \<Rightarrow> u32) list \<Rightarrow> behaviour" where
  "test_task HZ task_number clocks =
     and_then ([Act_log INFO [O_str ''Started task '', O_u32 task_number, O_endl]], True)
       (if task_number mod 2 \<noteq> 0
        then (fst (test_iterations HZ task_number 0 clocks), False)
        else and_then (test_iterations HZ task_number 0 (take 5 clocks)) ([], 5 \<le> length clocks))"

fun create_tasks :: "u32 \<Rightarrow> u32 \<Rightarrow> new_task list \<Rightarrow> (nat \<Rightarrow> u32) list \<Rightarrow> behaviour" where
  "create_tasks HZ i [] clocks = ([], True)"
| "create_tasks HZ i (n # news) [] = ([Act_create n i], False)"
| "create_tasks HZ i (n # news) (clock # clocks) =
     and_then ([Act_create n i], True)
       (and_then (sleep_actions HZ (sleep_interval div tasks_count) clock) (create_tasks HZ (i + 1) news clocks))"

text \<open>
  The main task creates its tasks from \<open>news\<close>, the objects that \<^verbatim>\<open>new\<close> returns to it, and idles for ever at its end: it yields in every turn and does nothing else.
\<close>

definition multithreaded_init_stage :: "u32 \<Rightarrow> new_task list \<Rightarrow> (nat \<Rightarrow> u32) list \<Rightarrow> behaviour" where
  "multithreaded_init_stage HZ news clocks =
     and_then (map (\<lambda>m. Act_log NOTICE [O_str m, O_endl])
         [''Continue initialization in multithreaded env'', ''Configuring serial port'', ''Kernel initialization routine has been finished!''], True)
       (and_then (create_tasks HZ 0 (take (unat tasks_count) news) clocks) ([], False))"

text \<open>The turns of a task.\<close>

fun turns_from :: "new_task list \<Rightarrow> action list \<Rightarrow> bool \<Rightarrow> turn list" where
  "turns_from news [] returns = [(news, returns)]"
| "turns_from news (Act_log l is # as) returns = turns_from news as returns"
| "turns_from news (Act_create n i # as) returns = turns_from (news @ [n]) as returns"
| "turns_from news (Act_yield # as) returns = (news, False) # turns_from [] as returns"

definition script_of :: "behaviour \<Rightarrow> turn list" where
  "script_of b = turns_from [] (fst b) (snd b)"

section \<open>One task that creates the others\<close>

text \<open>The addresses of the tasks that a task creates in its turns.\<close>

abbreviation turn_addrs :: "turn \<Rightarrow> ptr list" where
  "turn_addrs x \<equiv> map nt_addr (fst x)"

definition script_addrs :: "turn list \<Rightarrow> ptr list" where
  "script_addrs xs = concat (map turn_addrs xs)"

definition one_creator :: "ptr \<Rightarrow> ptr \<Rightarrow> round_robin \<Rightarrow> bool" where
  "one_creator x m r \<longleftrightarrow> m \<in> set (rr_tasks r) \<and> list_all (\<lambda>x. \<not> snd x) (rr_scripts r m)
     \<and> list_all (\<lambda>t. t \<noteq> m \<longrightarrow> creates_none (rr_scripts r t)) (rr_tasks r @ script_addrs (rr_scripts r m))
     \<and> distinct (x # rr_tasks r @ script_addrs (rr_scripts r m)) \<and> nullptr \<notin> set (script_addrs (rr_scripts r m))
     \<and> length (rr_tasks r) + length (script_addrs (rr_scripts r m)) + 1 < 4294967296"

lemma creates_none_turn: "creates_none xs \<Longrightarrow> fst (turn_of xs) = []"
  by (cases xs) (simp_all add: creates_none_def turn_of_def)

lemma script_addrs_turn: "script_addrs xs = turn_addrs (turn_of xs) @ script_addrs (tl xs)"
  by (cases xs) (simp_all add: script_addrs_def turn_of_def)

lemma concat_single: "m \<in> set ts \<Longrightarrow> distinct ts \<Longrightarrow> (\<And>t. t \<in> set ts \<Longrightarrow> t \<noteq> m \<Longrightarrow> f t = []) \<Longrightarrow> concat (map f ts) = f m"
proof (induction ts)
  case (Cons t ts)
  show ?case
  proof (cases "t = m")
    case True
    then have "concat (map f ts) = []" using Cons.prems by auto
    then show ?thesis using True by simp
  qed (use Cons in simp)
qed simp

lemma one_creator_new:
  assumes "one_creator x m r"
  shows "rr_new r = turn_addrs (turn_of (rr_scripts r m))"
  unfolding rr_new_def using assms by (intro concat_single) (auto simp: one_creator_def list_all_iff creates_none_turn)

lemma one_creator_fresh:
  assumes "one_creator x m r"
  shows "rr_fresh x r"
  using assms unfolding one_creator_def rr_fresh_def one_creator_new [OF assms] script_addrs_turn [of "rr_scripts r m"]
  by auto

lemma one_creator_round:
  assumes "one_creator x m r"
  shows "one_creator x m (rr_round r)" "rr_scripts (rr_round r) m = tl (rr_scripts r m)"
proof -
  let ?A = "turn_addrs (turn_of (rr_scripts r m))" and ?xs = "rr_scripts r m"
  have m: "m \<in> set (rr_tasks r)" using assms by (simp add: one_creator_def)
  show sc: "rr_scripts (rr_round r) m = tl ?xs" using m by (simp add: rr_round_def Let_def)
  have ex: "\<not> snd (turn_of ?xs)" using assms by (cases ?xs) (simp_all add: one_creator_def turn_of_def)
  have "list_all (\<lambda>x. \<not> snd x) (tl ?xs)" using assms by (cases ?xs) (simp_all add: one_creator_def)
  moreover have "length ?A + length (filter (\<lambda>t. \<not> snd (turn_of (rr_scripts r t))) (rr_tasks r)) + length (script_addrs (tl ?xs)) < 4294967295"
    using assms length_filter_le [of "\<lambda>t. \<not> snd (turn_of (rr_scripts r t))" "rr_tasks r"] script_addrs_turn [of ?xs]
    by (simp add: one_creator_def del: length_filter_le)
  ultimately show "one_creator x m (rr_round r)"
    using assms ex m unfolding one_creator_def sc script_addrs_turn [of ?xs]
    by (auto simp: rr_round_def one_creator_new [OF assms] Let_def list_all_iff intro: creates_none_tl)
qed

text \<open>What becomes of a task: it is in the list, it has been deleted, and how often it ran.\<close>

definition fate :: "round_robin \<Rightarrow> ptr \<Rightarrow> bool \<times> bool \<times> nat" where
  "fate r t = (t \<in> set (rr_tasks r), t \<in> set (rr_deleted r), count_list (rr_ran r) t)"

lemma fate_unborn:
  assumes "one_creator x m r" "t \<notin> set (rr_tasks r)" "t \<notin> set (script_addrs (rr_scripts r m))"
  shows "fate (rr_rounds k r) t = fate r t"
  using assms
proof (induction k arbitrary: r)
  case (Suc k)
  let ?r = "rr_round r" and ?A = "turn_addrs (turn_of (rr_scripts r m))"
  have n: "t \<notin> set ?A" "t \<notin> set (script_addrs (tl (rr_scripts r m)))" using Suc.prems(3) by (auto simp: script_addrs_turn [of "rr_scripts r m"])
  then have "fate ?r t = fate r t" "t \<notin> set (rr_tasks ?r)"
    using Suc.prems(2) by (auto simp: fate_def rr_round_def Let_def one_creator_new [OF Suc.prems(1)] count_list_0_iff)
  then show ?case using Suc.IH [OF one_creator_round(1) [OF Suc.prems(1)]] one_creator_round(2) [OF Suc.prems(1)] n(2) by simp
qed simp

lemma fate_running:
  assumes "one_creator x m r" "t \<in> set (rr_tasks r)"
  shows "fate (rr_rounds k r) t = (let xs = rr_scripts r t
    in (still_runs xs k, t \<in> set (rr_deleted r) \<or> \<not> still_runs xs k, count_list (rr_ran r) t + turns xs k))"
  using assms
proof (induction k arbitrary: r)
  case 0
  then show ?case by (simp add: fate_def still_runs_def)
next
  case (Suc k)
  let ?r = "rr_round r" and ?xs = "rr_scripts r t" and ?A = "turn_addrs (turn_of (rr_scripts r m))"
  have d: "t \<notin> set ?A" "t \<notin> set (script_addrs (tl (rr_scripts r m)))" "distinct (rr_tasks r)"
    using Suc.prems unfolding one_creator_def by (auto simp: script_addrs_turn [of "rr_scripts r m"])
  have r: "rr_scripts ?r t = tl ?xs" "count_list (rr_ran ?r) t = count_list (rr_ran r) t + 1"
    "t \<in> set (rr_tasks ?r) \<longleftrightarrow> \<not> snd (turn_of ?xs)" "t \<in> set (rr_deleted ?r) \<longleftrightarrow> t \<in> set (rr_deleted r) \<or> snd (turn_of ?xs)"
    using Suc.prems(2) d by (auto simp: rr_round_def Let_def one_creator_new [OF Suc.prems(1)] count_list_distinct)
  have ex: "snd (turn_of ?xs) \<longleftrightarrow> ?xs \<noteq> [] \<and> snd (hd ?xs)" by (cases ?xs) (simp_all add: turn_of_def)
  note oc = one_creator_round [OF Suc.prems(1)]
  show ?case
  proof (cases "snd (turn_of ?xs)")
    case True
    then have "t \<notin> set (rr_tasks ?r)" "t \<notin> set (script_addrs (rr_scripts ?r m))" using r(3) d(2) oc(2) by simp_all
    from fate_unborn [OF oc(1) this, of k] show ?thesis using True r ex by (simp add: fate_def still_runs_Suc turns_Suc Let_def)
  next
    case False
    then have "t \<in> set (rr_tasks ?r)" using r(3) by simp
    from Suc.IH [OF oc(1) this] show ?thesis using False r(1,2,4) ex by (auto simp: still_runs_Suc turns_Suc Let_def)
  qed
qed

text \<open>A task that the creator makes in its turn \<open>i\<close> starts in the round behind it.\<close>

lemma fate_created:
  assumes "one_creator x m r" "i < length (rr_scripts r m)" "t \<in> set (turn_addrs (rr_scripts r m ! i))" "t \<notin> set (rr_deleted r)" "i < k"
  shows "fate (rr_rounds k r) t = (let xs = rr_scripts r t; n = k - Suc i
    in (still_runs xs n, \<not> still_runs xs n, count_list (rr_ran r) t + turns xs n))"
  using assms
proof (induction i arbitrary: r k)
  case 0
  let ?r = "rr_round r" and ?A = "turn_addrs (turn_of (rr_scripts r m))"
  have A: "t \<in> set ?A" using 0(2,3) by (cases "rr_scripts r m") (simp_all add: turn_of_def)
  then have n: "t \<notin> set (rr_tasks r)" using 0(1) unfolding one_creator_def by (auto simp: script_addrs_turn [of "rr_scripts r m"])
  obtain j where j: "k = Suc j" using 0(5) by (cases k) simp_all
  have "t \<in> set (rr_tasks ?r)" "rr_scripts ?r t = rr_scripts r t" "t \<notin> set (rr_deleted ?r)" "count_list (rr_ran ?r) t = count_list (rr_ran r) t"
    using A n 0(4) by (auto simp: rr_round_def Let_def one_creator_new [OF 0(1)] count_list_0_iff)
  then show ?case using fate_running [OF one_creator_round(1) [OF 0(1)], of t j] by (simp add: j Let_def)
next
  case (Suc i)
  let ?r = "rr_round r" and ?xs = "rr_scripts r m"
  note oc = one_creator_round [OF Suc.prems(1)]
  have i: "i < length (tl ?xs)" "t \<in> set (turn_addrs (tl ?xs ! i))" using Suc.prems(2,3) by (cases ?xs; auto)+
  then have "t \<in> set (script_addrs (tl ?xs))" by (force simp: script_addrs_def)
  then have n: "t \<notin> set (rr_tasks r)" using Suc.prems(1) unfolding one_creator_def by (auto simp: script_addrs_turn [of ?xs])
  obtain j where j: "k = Suc j" "i < j" using Suc.prems(5) by (cases k) simp_all
  have "rr_scripts ?r t = rr_scripts r t" "t \<notin> set (rr_deleted ?r)" "count_list (rr_ran ?r) t = count_list (rr_ran r) t"
    using n Suc.prems(4) by (auto simp: rr_round_def Let_def count_list_0_iff)
  then show ?case using Suc.IH [OF oc(1), of j] i j by (simp add: oc(2) Let_def)
qed

text \<open>A task that it makes later is not there yet.\<close>

lemma fate_later:
  assumes "one_creator x m r" "i < length (rr_scripts r m)" "t \<in> set (turn_addrs (rr_scripts r m ! i))" "k \<le> i"
  shows "fate (rr_rounds k r) t = fate r t"
  using assms
proof (induction k arbitrary: r i)
  case (Suc k)
  let ?r = "rr_round r" and ?xs = "rr_scripts r m"
  note oc = one_creator_round [OF Suc.prems(1)]
  obtain j where j: "i = Suc j" "k \<le> j" using Suc.prems(4) by (cases i) simp_all
  have i: "j < length (tl ?xs)" "t \<in> set (turn_addrs (tl ?xs ! j))" using Suc.prems(2,3) j(1) by (cases ?xs; auto)+
  then have "t \<in> set (script_addrs (tl ?xs))" by (force simp: script_addrs_def)
  then have n: "t \<notin> set (rr_tasks r)" "t \<notin> set (turn_addrs (turn_of ?xs))"
    using Suc.prems(1) unfolding one_creator_def by (auto simp: script_addrs_turn [of ?xs])
  then have "fate ?r t = fate r t" by (auto simp: fate_def rr_round_def Let_def one_creator_new [OF Suc.prems(1)] count_list_0_iff)
  then show ?case using Suc.IH [OF oc(1), of j] i j(2) by (simp add: oc(2))
qed simp

lemma one_creator_rounds: "one_creator x m r \<Longrightarrow> one_creator x m (rr_rounds k r)"
  by (induction k arbitrary: r) (simp_all add: one_creator_round(1))

section \<open>The turns of the tasks\<close>

primrec yields :: "action list \<Rightarrow> nat" where
  "yields [] = 0"
| "yields (a # as) = (case a of Act_yield \<Rightarrow> Suc (yields as) | _ \<Rightarrow> yields as)"

primrec creates :: "action list \<Rightarrow> new_task list" where
  "creates [] = []"
| "creates (a # as) = (case a of Act_create n i \<Rightarrow> n # creates as | _ \<Rightarrow> creates as)"

lemma yields_append [simp]: "yields (as @ bs) = yields as + yields bs"
  by (induction as) (simp_all split: action.splits)

lemma creates_append [simp]: "creates (as @ bs) = creates as @ creates bs"
  by (induction as) (simp_all split: action.splits)

lemma replicate_yield [simp]: "yields (replicate n Act_yield) = n" "creates (replicate n Act_yield) = []"
  by (induction n) simp_all

lemma turns_idle:
  assumes "creates as = []"
  shows "turns_from [] as ret = replicate (yields as) ([], False) @ [([], ret)]"
  using assms by (induction as) (simp_all split: action.splits)

lemma turns_addrs: "script_addrs (turns_from acc as ret) = map nt_addr (acc @ creates as)"
  by (induction acc as ret rule: turns_from.induct) (simp_all add: script_addrs_def)

lemma turns_not_exit: "list_all (\<lambda>x. \<not> snd x) (turns_from acc as False)"
  by (induction acc as "False" rule: turns_from.induct) simp_all

lemma turns_acc: "set acc \<subseteq> set (fst (turns_from acc as ret ! 0))"
  by (induction acc as ret rule: turns_from.induct) auto

lemma turns_create:
  "yields as < length (turns_from acc (as @ Act_create n i # bs) ret) \<and> n \<in> set (fst (turns_from acc (as @ Act_create n i # bs) ret ! yields as))"
proof (induction acc as ret rule: turns_from.induct)
  case (1 news ret)
  have "n \<in> set (fst (turns_from (news @ [n]) bs ret ! 0))" using turns_acc [of "news @ [n]" bs ret] by auto
  moreover have "turns_from (news @ [n]) bs ret \<noteq> []" by (induction "news @ [n]" bs ret arbitrary: news n rule: turns_from.induct) auto
  ultimately show ?case by simp
qed simp_all

lemma still_runs_idle:
  "still_runs (replicate z ([], False) @ [([], True)]) n \<longleftrightarrow> n \<le> z" "still_runs (replicate z ([], False) @ [([], False)]) n"
  by (auto simp: still_runs_def list_all_iff take_Cons' dest: in_set_takeD)

lemma turns_idle_count:
  "turns (replicate z ([], False) @ [([], True)]) n = min n (Suc z)" "turns (replicate z ([], False) @ [([], False)]) n = n"
proof -
  have e: "turns [] k = k" for k by (induction k) simp_all
  show "turns (replicate z ([], False) @ [([], True)]) n = min n (Suc z)" by (induction n arbitrary: z) (case_tac [2] z, auto)
  show "turns (replicate z ([], False) @ [([], False)]) n = n" by (induction n arbitrary: z) (case_tac [2] z, auto simp: e)
qed

text \<open>How often the sleeps yield.\<close>

definition sleeping :: "u32 \<Rightarrow> u32 \<Rightarrow> (nat \<Rightarrow> u32) list \<Rightarrow> nat list \<Rightarrow> bool" where
  "sleeping HZ ms clocks ys \<longleftrightarrow> list_all2 (\<lambda>c y. sleep_ms True c HZ ms = Inr y) clocks ys"

lemma test_iterations_sleep:
  assumes "sleeping HZ sleep_interval clocks zs"
  shows "snd (test_iterations HZ n c clocks) \<and> creates (fst (test_iterations HZ n c clocks)) = []
    \<and> yields (fst (test_iterations HZ n c clocks)) = sum_list zs"
  using assms unfolding sleeping_def
  by (induction arbitrary: c rule: list_all2_induct) (simp_all add: and_then_def sleep_actions_def)

lemma test_task_script:
  assumes "sleeping HZ sleep_interval clocks zs"
  shows "n mod 2 \<noteq> 0 \<Longrightarrow> script_of (test_task HZ n clocks) = replicate (sum_list zs) ([], False) @ [([], False)]"
    and "n mod 2 = 0 \<Longrightarrow> 5 \<le> length clocks \<Longrightarrow> script_of (test_task HZ n clocks) = replicate (sum_list (take 5 zs)) ([], False) @ [([], True)]"
proof -
  show "script_of (test_task HZ n clocks) = replicate (sum_list zs) ([], False) @ [([], False)]" if "n mod 2 \<noteq> 0"
    using that test_iterations_sleep [OF assms, of n 0] by (simp add: script_of_def test_task_def and_then_def turns_idle)
  have "sleeping HZ sleep_interval (take 5 clocks) (take 5 zs)" using assms by (simp add: sleeping_def)
  from test_iterations_sleep [OF this, of n 0]
  show "script_of (test_task HZ n clocks) = replicate (sum_list (take 5 zs)) ([], False) @ [([], True)]" if "n mod 2 = 0" "5 \<le> length clocks"
    using that by (simp add: script_of_def test_task_def and_then_def turns_idle)
qed

lemma create_tasks_sleep:
  assumes "sleeping HZ (sleep_interval div tasks_count) clocks ys" "length news = length clocks"
  shows "snd (create_tasks HZ i news clocks) \<and> creates (fst (create_tasks HZ i news clocks)) = news
    \<and> (\<forall>j<length news. \<exists>as i' bs. fst (create_tasks HZ i news clocks) = as @ Act_create (news ! j) i' # bs \<and> yields as = sum_list (take j ys))"
  using assms
proof (induction HZ i news clocks arbitrary: ys rule: create_tasks.induct)
  case (3 HZ i n news clock clocks)
  obtain y zs where y: "ys = y # zs" "sleep_ms True clock HZ (sleep_interval div tasks_count) = Inr y" "sleeping HZ (sleep_interval div tasks_count) clocks zs"
    using 3(2) by (auto simp: sleeping_def list_all2_Cons1)
  let ?c = "create_tasks HZ (i + 1) news clocks"
  have IH: "snd ?c" "creates (fst ?c) = news"
    "\<And>j. j < length news \<Longrightarrow> \<exists>as i' bs. fst ?c = as @ Act_create (news ! j) i' # bs \<and> yields as = sum_list (take j zs)"
    using 3(1) [OF y(3)] 3(3) by auto
  have all: "create_tasks HZ i (n # news) (clock # clocks) = (Act_create n i # replicate y Act_yield @ fst ?c, True)"
    using y(2) IH(1) by (simp add: and_then_def sleep_actions_def)
  have "\<exists>as i' bs. fst (create_tasks HZ i (n # news) (clock # clocks)) = as @ Act_create ((n # news) ! j) i' # bs \<and> yields as = sum_list (take j ys)"
    if jn: "j < length (n # news)" for j
  proof (cases j)
    case 0
    then show ?thesis unfolding all by (intro exI [of _ "[]"]) simp
  next
    case (Suc l)
    then obtain as i' bs where "fst ?c = as @ Act_create (news ! l) i' # bs" "yields as = sum_list (take l zs)" using IH(3) [of l] jn by auto
    then show ?thesis unfolding all y(1) Suc
      by (intro exI [of _ "Act_create n i # replicate y Act_yield @ as"] exI [of _ i'] exI [of _ bs]) simp
  qed
  then show ?case using IH(2) unfolding all by simp
qed simp_all

lemma main_script:
  assumes "sleeping HZ (sleep_interval div tasks_count) clocks ys" "length news = length clocks" "length news \<le> 8"
  shows "script_addrs (script_of (multithreaded_init_stage HZ news clocks)) = map nt_addr news"
    and "list_all (\<lambda>x. \<not> snd x) (script_of (multithreaded_init_stage HZ news clocks))"
    and "j < length news \<Longrightarrow> sum_list (take j ys) < length (script_of (multithreaded_init_stage HZ news clocks))
      \<and> nt_addr (news ! j) \<in> set (turn_addrs (script_of (multithreaded_init_stage HZ news clocks) ! sum_list (take j ys)))"
proof -
  obtain ls where m: "multithreaded_init_stage HZ news clocks = (ls @ fst (create_tasks HZ 0 news clocks), False)" "creates ls = []" "yields ls = 0"
    using create_tasks_sleep [OF assms(1,2), of 0] assms(3) by (simp add: multithreaded_init_stage_def and_then_def tasks_count_def)
  show "script_addrs (script_of (multithreaded_init_stage HZ news clocks)) = map nt_addr news"
    using create_tasks_sleep [OF assms(1,2), of 0] m(2) by (simp add: script_of_def m(1) turns_addrs)
  show "list_all (\<lambda>x. \<not> snd x) (script_of (multithreaded_init_stage HZ news clocks))" by (simp add: script_of_def m(1) turns_not_exit)
  show "sum_list (take j ys) < length (script_of (multithreaded_init_stage HZ news clocks))
      \<and> nt_addr (news ! j) \<in> set (turn_addrs (script_of (multithreaded_init_stage HZ news clocks) ! sum_list (take j ys)))" if "j < length news"
  proof -
    obtain as i bs where a: "fst (create_tasks HZ 0 news clocks) = as @ Act_create (news ! j) i # bs" "yields as = sum_list (take j ys)"
      using create_tasks_sleep [OF assms(1,2), of 0] \<open>j < length news\<close> by blast
    then show ?thesis using turns_create [of "ls @ as" "[]" "news ! j" i bs False] m(3) by (simp add: script_of_def m(1))
  qed
qed

section \<open>Properties\<close>

lemma test_number_odd: "i < 8 \<Longrightarrow> (of_nat i :: u32) mod 2 \<noteq> 0 \<longleftrightarrow> odd i"
proof -
  assume "i < 8"
  then have "i = 0 \<or> i = 1 \<or> i = 2 \<or> i = 3 \<or> i = 4 \<or> i = 5 \<or> i = 6 \<or> i = 7" by arith
  then show ?thesis by (elim disjE) simp_all
qed

lemma never_exits: "list_all (\<lambda>x. \<not> snd x) xs \<Longrightarrow> still_runs xs k \<and> turns xs k = k"
proof (induction k arbitrary: xs)
  case (Suc k)
  have "list_all (\<lambda>x. \<not> snd x) (tl xs)" using Suc.prems by (cases xs) simp_all
  from Suc.IH [OF this] Suc.prems show ?case by (cases xs) (simp_all add: still_runs_Suc turns_Suc)
qed (simp add: still_runs_def)

lemma main_creates_all:
  assumes "sleeping HZ (sleep_interval div tasks_count) clocks ys" "length news = length clocks" "length news \<le> 8"
    and "sc_script s m = script_of (multithreaded_init_stage HZ news clocks)"
    and "distinct (x # m # map nt_addr news)" "nullptr \<notin> nt_addr ` set news"
    and "\<And>t. t \<in> set news \<Longrightarrow> creates_none (sc_script s (nt_addr t))"
  shows "one_creator x m (rr_of [m] s)"
  using main_script [OF assms(1-3)] assms(3-7) by (auto simp: one_creator_def rr_of_def list_all_iff)

text \<open>
  The tasks as \<^verbatim>\<open>main.cpp\<close> has them: the main task creates the eight test tasks \<open>news\<close>. The sleeps of the main task
  yield \<open>ys\<close> times, those of test task \<open>i\<close> yield \<open>zs i\<close> times.
\<close>

definition tasks_play ::
  "u32 \<Rightarrow> new_task list \<Rightarrow> (nat \<Rightarrow> u32) list \<Rightarrow> nat list \<Rightarrow> (nat \<Rightarrow> (nat \<Rightarrow> u32) list) \<Rightarrow> (nat \<Rightarrow> nat list) \<Rightarrow> ptr \<Rightarrow> sched \<Rightarrow> bool" where
  "tasks_play HZ news clocks ys tclocks zs m s \<longleftrightarrow> length clocks = 8
     \<and> sc_script s m = script_of (multithreaded_init_stage HZ news clocks) \<and> sleeping HZ (sleep_interval div tasks_count) clocks ys
     \<and> (\<forall>i<8. sc_script s (nt_addr (news ! i)) = script_of (test_task HZ (of_nat i) (tclocks i))
         \<and> sleeping HZ sleep_interval (tclocks i) (zs i) \<and> 5 \<le> length (tclocks i))"

text \<open>The tasks have addresses of their own.\<close>

definition tasks_ready ::
  "u32 \<Rightarrow> new_task list \<Rightarrow> (nat \<Rightarrow> u32) list \<Rightarrow> nat list \<Rightarrow> (nat \<Rightarrow> (nat \<Rightarrow> u32) list) \<Rightarrow> (nat \<Rightarrow> nat list) \<Rightarrow> ptr \<Rightarrow> sched \<Rightarrow> bool" where
  "tasks_ready HZ news clocks ys tclocks zs m s \<longleftrightarrow> length news = 8 \<and> tasks_play HZ news clocks ys tclocks zs m s
     \<and> distinct (sc_scheduler_task s # m # map nt_addr news) \<and> nullptr \<notin> nt_addr ` set news"

text \<open>
  What has become of them after \<open>k\<close> rounds: the main task ran in each of them. Test task \<open>i\<close> is created in the turn \<open>b\<close> of the main task, and from the
  next round on it runs once in every round, an odd one for ever, an even one until its five sleeps are over; then it is deleted.
\<close>

definition tasks_after :: "nat \<Rightarrow> new_task list \<Rightarrow> nat list \<Rightarrow> (nat \<Rightarrow> nat list) \<Rightarrow> ptr \<Rightarrow> ptr list \<Rightarrow> sched \<Rightarrow> bool" where
  "tasks_after k news ys zs m ts s \<longleftrightarrow> m \<in> set ts \<and> count_list (sc_ran s) m = k
     \<and> (\<forall>i<8. let t = nt_addr (news ! i); b = sum_list (take i ys); n = k - Suc b; z = sum_list (take 5 (zs i))
         in (t \<in> set ts \<longleftrightarrow> b < k \<and> (odd i \<or> n \<le> z)) \<and> (t \<in> set (sc_deleted s) \<longleftrightarrow> even i \<and> b < k \<and> z < n)
           \<and> count_list (sc_ran s) t = (if odd i then n else min n (Suc z)))"

lemma tasks_scripts:
  assumes "tasks_ready HZ news clocks ys tclocks zs m s" "i < 8"
  shows "sc_script s (nt_addr (news ! i)) = (if odd i then replicate (sum_list (zs i)) ([], False) @ [([], False)]
      else replicate (sum_list (take 5 (zs i))) ([], False) @ [([], True)])"
  using assms test_task_script [of HZ "tclocks i" "zs i" "of_nat i"] test_number_odd [OF assms(2)] by (auto simp: tasks_ready_def tasks_play_def)

lemma tasks_one_creator:
  assumes "tasks_ready HZ news clocks ys tclocks zs m s"
  shows "one_creator (sc_scheduler_task s) m (rr_of [m] s)"
proof -
  have idle: "creates_none (replicate z ([], False) @ [([], b)])" for z b by (simp add: creates_none_def list_all_iff)
  have "length news = 8" using assms by (simp add: tasks_ready_def tasks_play_def)
  then have "creates_none (sc_script s (nt_addr t))" if "t \<in> set news" for t
    using that idle by (auto simp: in_set_conv_nth tasks_scripts [OF assms])
  then show ?thesis
    using assms unfolding tasks_ready_def tasks_play_def by (intro main_creates_all [where HZ = HZ and clocks = clocks and ys = ys and news = news]) auto
qed

lemma tasks_run:
  assumes "sched_ok [m] s" "sc_irq s = irq_on" "sc_finished_tasks s = []" "sc_ran s = []" "sc_deleted s = []"
    and ready: "tasks_ready HZ news clocks ys tclocks zs m s"
  shows "\<exists>s' ts. schedule_rounds entry k s = Inr s' \<and> sched_ok ts s' \<and> sc_irq s' = irq_on \<and> tasks_after k news ys zs m ts s'"
proof -
  let ?r = "rr_of [m] s"
  note oc = tasks_one_creator [OF ready]
  have rd: "length news = 8" "length clocks = 8" "sc_script s m = script_of (multithreaded_init_stage HZ news clocks)"
    "sleeping HZ (sleep_interval div tasks_count) clocks ys" "distinct (sc_scheduler_task s # m # map nt_addr news)"
    using ready by (simp_all add: tasks_ready_def tasks_play_def)
  have "rr_fresh (sc_scheduler_task s) (rr_rounds i ?r)" for i using oc by (intro one_creator_fresh one_creator_rounds)
  then obtain s' ts where s': "schedule_rounds entry k s = Inr s'" "sched_ok ts s'" "sc_irq s' = irq_on" "rr_of ts s' = rr_rounds k ?r"
    using schedule_rounds_simulate [OF assms(1-3), of k entry] by blast
  have fate: "fate (rr_rounds k ?r) t = (t \<in> set ts, t \<in> set (sc_deleted s'), count_list (sc_ran s') t)" for t
    unfolding s'(4) [symmetric] by (simp add: fate_def rr_of_def)
  have r: "rr_scripts ?r = sc_script s" "rr_deleted ?r = []" "rr_ran ?r = []" "rr_tasks ?r = [m]" using assms(4,5) by (simp_all add: rr_of_def)
  have "still_runs (sc_script s m) k" "turns (sc_script s m) k = k" using never_exits [of "sc_script s m" k] oc by (simp_all add: one_creator_def r)
  then have main: "m \<in> set ts \<and> count_list (sc_ran s') m = k" using fate_running [OF oc, of m k] fate [of m] by (simp add: r)
  have "let t = nt_addr (news ! i); b = sum_list (take i ys); n = k - Suc b; z = sum_list (take 5 (zs i))
        in (t \<in> set ts \<longleftrightarrow> b < k \<and> (odd i \<or> n \<le> z)) \<and> (t \<in> set (sc_deleted s') \<longleftrightarrow> even i \<and> b < k \<and> z < n)
          \<and> count_list (sc_ran s') t = (if odd i then n else min n (Suc z))" if "i < 8" for i
  proof -
    let ?t = "nt_addr (news ! i)" and ?b = "sum_list (take i ys)"
    have b: "?b < length (sc_script s m)" "?t \<in> set (turn_addrs (sc_script s m ! ?b))"
      using main_script(3) [OF rd(4), of news i] rd(1-3) that by auto
    have tm: "?t \<noteq> m" using rd(1,5) nth_mem [of i news] that by auto
    show ?thesis
    proof (cases "?b < k")
      case True
      from fate_created [OF oc _ _ _ this, of ?t] b show ?thesis
        using True unfolding fate r tasks_scripts [OF ready that] by (auto simp: still_runs_idle turns_idle_count Let_def)
    next
      case False
      from fate_later [OF oc, of ?b ?t k] b tm show ?thesis
        using False unfolding fate r by (auto simp: fate_def r Let_def)
    qed
  qed
  then show ?thesis using s'(1-3) main unfolding tasks_after_def by blast
qed

section \<open>An example\<close>

text \<open>Sleeps that yield once.\<close>

definition example_clock :: "nat \<Rightarrow> u32" where
  "example_clock k = (if k < 2 then 0 else 1000)"

definition example_clocks :: "nat \<Rightarrow> (nat \<Rightarrow> u32) list" where
  "example_clocks n = replicate n example_clock"

definition example_scripts :: "ptr \<Rightarrow> new_task list \<Rightarrow> ptr \<Rightarrow> turn list" where
  "example_scripts m news t =
     (if t = m then script_of (multithreaded_init_stage 100 news (example_clocks 8))
      else script_of (test_task 100 (of_nat (length (takeWhile (\<lambda>n. nt_addr n \<noteq> t) news))) (example_clocks 5)))"

lemma example_loop: "0 < e \<Longrightarrow> e \<le> 1000 \<Longrightarrow> sleep_loop example_clock e 1 = Some 2"
  by (subst sleep_loop.simps, subst sleep_loop.simps) (auto simp: example_clock_def)

lemma example_ticks: "ms_to_ticks 100 125 = 13" "ms_to_ticks 100 1000 = 100"
  by (simp_all add: ms_to_ticks_def high_part_def low_part_def Let_def)

lemma example_sleeps: "sleep_ms True example_clock 100 (sleep_interval div tasks_count) = Inr 1" "sleep_ms True example_clock 100 sleep_interval = Inr 1"
proof -
  have "example_clock 0 = 0" "sleep_interval div tasks_count = 125" by (simp_all add: example_clock_def sleep_interval_def tasks_count_def)
  then show "sleep_ms True example_clock 100 (sleep_interval div tasks_count) = Inr 1" "sleep_ms True example_clock 100 sleep_interval = Inr 1"
    using example_loop [of 13] example_loop [of 100] by (simp_all add: sleep_ms_def sleep_ticks_def sleep_interval_def example_ticks)
qed

lemma example_tasks_play:
  assumes "sc_script s = example_scripts m news" "length news = 8" "distinct (m # map nt_addr news)"
  shows "tasks_play 100 news (example_clocks 8) (replicate 8 1) (\<lambda>_. example_clocks 5) (\<lambda>_. replicate 5 1) m s"
proof -
  have ys: "sleeping 100 (sleep_interval div tasks_count) (example_clocks 8) (replicate 8 1)" "sleeping 100 sleep_interval (example_clocks 5) (replicate 5 1)"
    by (simp_all add: sleeping_def example_clocks_def list_all2_conv_all_nth example_sleeps)
  have "sc_script s (nt_addr (news ! i)) = script_of (test_task 100 (of_nat i) (example_clocks 5))" if "i < 8" for i
  proof -
    have "nt_addr (news ! j) \<noteq> nt_addr (news ! i)" if "j < i" for j
      using assms(2,3) that \<open>i < 8\<close> nth_eq_iff_index_eq [of "map nt_addr news" j i] by simp
    then have "takeWhile (\<lambda>n. nt_addr n \<noteq> nt_addr (news ! i)) news = take i news" by (intro takeWhile_eq_take_P_nth) simp_all
    moreover have "nt_addr (news ! i) \<noteq> m" using assms(2,3) that by auto
    ultimately show ?thesis using assms(1,2) that by (simp add: example_scripts_def)
  qed
  moreover have "length (example_clocks j) = j" for j by (simp add: example_clocks_def)
  moreover have "sc_script s m = script_of (multithreaded_init_stage 100 news (example_clocks 8))" using assms(1) by (simp add: example_scripts_def)
  ultimately show ?thesis unfolding tasks_play_def using ys by simp
qed

end
