(* ===== verification/Task_Memory.thy ===== *)
theory Task_Memory
  imports Kernel_Main Kernel_Tasks
begin

text \<open>
  The memory of tasks: an object of the kernel heap and sixteen pages for the stack, taken by the constructor of \<^verbatim>\<open>sched/task.cpp\<close> and given back by its
  destructor, while other parts of the kernel use the heap as well.
\<close>

section \<open>Definitions\<close>

definition delete_object :: "ptr \<Rightarrow> kernel_memory \<Rightarrow> kernel_memory result" where
  "delete_object p s = kfree s p"

text \<open>\<^verbatim>\<open>delete\<close> of a task: its destructor, then the release of the object.\<close>

definition task_delete :: "new_task \<Rightarrow> kernel_memory \<Rightarrow> kernel_memory result" where
  "task_delete t s = bindE (free_pages_at s (nt_stack t)) (delete_object (nt_addr t))"

text \<open>The memory side of the loop in which the main task creates the test tasks: the number of the task, then the task.\<close>

primrec new_test_tasks :: "image \<Rightarrow> nat \<Rightarrow> kernel_memory \<Rightarrow> (kernel_memory \<times> new_task list) result" where
  "new_test_tasks im 0 s = Inr (s, [])"
| "new_test_tasks im (Suc n) s =
     bindE (new_object 4 s) (\<lambda>(s, number).
     bindE (task_new im ''test_task'' s) (\<lambda>(s, t).
     bindE (new_test_tasks im n s) (\<lambda>(s, ts). Inr (s, t # ts))))"

section \<open>Regions in use\<close>

text \<open>Blocks that are allocated, and whole regions that are known to be in use.\<close>

definition live_inv :: "geometry \<Rightarrow> kernel_memory \<Rightarrow> (ptr \<times> u32) set \<Rightarrow> nat set set \<Rightarrow> bool" where
  "live_inv g s B R \<longleftrightarrow> (\<exists>F H h0 hs Ss. km_rep g s F H h0 hs Ss \<and> length (ma_chain (km_malloc s)) = 33
     \<and> blocks_in B (ma_live (km_malloc s) H h0 hs Ss) \<and> R \<subseteq> ma_live (km_malloc s) H h0 hs Ss)"

lemma live_invE:
  assumes "live_inv g s B R"
  obtains F H h0 hs Ss where "ma_rep g (km_store s) (km_pages s) (km_malloc s) F H h0 hs Ss" "length (ma_chain (km_malloc s)) = 33"
    "blocks_in B (ma_live (km_malloc s) H h0 hs Ss)" "R \<subseteq> ma_live (km_malloc s) H h0 hs Ss"
  using assms unfolding live_inv_def km_rep_def by blast

lemma live_inv_repI:
  assumes "km_rep g s F H h0 hs Ss" "length (ma_chain (km_malloc s)) = 33"
    and "blocks_in B (ma_live (km_malloc s) H h0 hs Ss)" "R \<subseteq> ma_live (km_malloc s) H h0 hs Ss"
  shows "live_inv g s B R"
  unfolding live_inv_def using assms by blast

lemma live_invI:
  assumes "ma_rep g m pa (km_malloc s) F H h0 hs Ss" "length (ma_chain (km_malloc s)) = 33"
    and "blocks_in B (ma_live (km_malloc s) H h0 hs Ss)" "R \<subseteq> ma_live (km_malloc s) H h0 hs Ss"
  shows "live_inv g (s\<lparr>km_store := m, km_pages := pa\<rparr>) B R"
  using assms by (intro live_inv_repI [of _ _ F H h0 hs Ss]) (simp_all add: km_rep_def)

lemma kmalloc_live:
  assumes "live_inv g s B R" "unat n \<le> 4294963200"
  shows "\<exists>s' p. kmalloc s n = Inr (s', p)
    \<and> (if p = nullptr \<or> n = 0 \<and> p = zero_size_page then live_inv g s' B R else live_inv g s' (insert (p, n) B) R \<and> p \<notin> fst ` B)"
proof -
  obtain F H h0 hs Ss where r: "ma_rep g (km_store s) (km_pages s) (km_malloc s) F H h0 hs Ss" "length (ma_chain (km_malloc s)) = 33"
    "blocks_in B (ma_live (km_malloc s) H h0 hs Ss)" "R \<subseteq> ma_live (km_malloc s) H h0 hs Ss" using assms(1) by (rule live_invE)
  let ?live = "ma_live (km_malloc s) H h0 hs Ss"
  obtain m' pa' p F' H' Ss' where al: "ma_allocate (km_store s) (km_pages s) (km_malloc s) n = Inr (m', pa', p)"
    and rep': "ma_rep g m' pa' (km_malloc s) F' H' h0 hs Ss'"
    and live: "(p = nullptr \<or> n = 0 \<and> p = zero_size_page) \<and> ma_live (km_malloc s) H' h0 hs Ss' = ?live
      \<or> (\<exists>k. unat n \<le> k \<and> 0 < k \<and> p \<noteq> nullptr \<and> ma_live (km_malloc s) H' h0 hs Ss' = insert {unat p..<unat p + k} ?live
          \<and> (\<forall>L\<in>?live. {unat p..<unat p + k} \<inter> L = {}))"
    using ma_allocate_fresh [OF r(1) assms(2)] by (elim exE conjE) (rule that)
  let ?s = "s\<lparr>km_store := m', km_pages := pa'\<rparr>"
  have km: "kmalloc s n = Inr (?s, p)" using al by (simp add: kmalloc_def)
  note inv = live_invI [OF rep' r(2)]
  from live have "if p = nullptr \<or> n = 0 \<and> p = zero_size_page then live_inv g ?s B R else live_inv g ?s (insert (p, n) B) R \<and> p \<notin> fst ` B"
  proof (elim disjE exE conjE)
    fix k
    assume k: "unat n \<le> k" "0 < k" and l: "ma_live (km_malloc s) H' h0 hs Ss' = insert {unat p..<unat p + k} ?live"
      and new: "\<forall>L\<in>?live. {unat p..<unat p + k} \<inter> L = {}"
    have sub: "R \<subseteq> insert {unat p..<unat p + k} ?live" using r(4) by blast
    have "live_inv g ?s B R" "live_inv g ?s (insert (p, n) B) R"
      using inv [of B R, unfolded l, OF blocks_in_grow [OF r(3) new] sub] inv [of "insert (p, n) B" R, unfolded l, OF blocks_in_insert [OF r(3) k new] sub] .
    then show ?thesis using blocks_in_fresh [OF r(3) k(2) new] by simp
  qed (use inv r(3,4) in \<open>simp_all\<close>)
  then show ?thesis using km by blast
qed

lemma kfree_live:
  assumes "live_inv g s B R" "(p, n) \<in> B" "\<And>L. L \<in> R \<Longrightarrow> unat p \<notin> L"
  shows "\<exists>s'. kfree s p = Inr s' \<and> live_inv g s' (B - {(p, n)}) R"
proof -
  obtain F H h0 hs Ss where r: "ma_rep g (km_store s) (km_pages s) (km_malloc s) F H h0 hs Ss" "length (ma_chain (km_malloc s)) = 33"
    "blocks_in B (ma_live (km_malloc s) H h0 hs Ss)" "R \<subseteq> ma_live (km_malloc s) H h0 hs Ss" using assms(1) by (rule live_invE)
  obtain k where k: "unat n \<le> k" "0 < k" "{unat p..<unat p + k} \<in> ma_live (km_malloc s) H h0 hs Ss" using blocks_inD [OF r(3) assms(2)] by auto
  obtain m' pa' F' H' Ss' where d: "ma_deallocate (km_store s) (km_pages s) (km_malloc s) p = Inr (m', pa')"
    "ma_rep g m' pa' (km_malloc s) F' H' h0 hs Ss'"
    "ma_live (km_malloc s) H' h0 hs Ss' = ma_live (km_malloc s) H h0 hs Ss - {{unat p..<unat p + k}}"
    using ma_deallocate_releases [OF r(1) k(3), of p] k(2) by auto
  have "blocks_in (B - {(p, n)}) (ma_live (km_malloc s) H' h0 hs Ss')"
    unfolding d(3) using k by (intro blocks_in_remove [OF r(3) assms(2) k(3)]) auto
  moreover have "R \<subseteq> ma_live (km_malloc s) H' h0 hs Ss'" using assms(3) [of "{unat p..<unat p + k}"] k(2) r(4) unfolding d(3) by auto
  ultimately show ?thesis using live_invI [OF d(2) r(2)] d(1) by (simp add: kfree_def)
qed

text \<open>The bytes of a stack.\<close>

definition stack_bytes :: "ptr \<Rightarrow> nat set" where
  "stack_bytes p = {unat p..<unat p + 65536}"

lemma run_stack_bytes: "x \<in> frames \<Longrightarrow> run_bytes (x, 16) = stack_bytes (frame_addr x)"
  by (simp add: run_bytes_def stack_bytes_def unat_frame_addr algebra_simps)

lemma alloc_stack_live:
  assumes "live_inv g s B R"
  shows "\<exists>s' p. alloc_pages s stack_pages = Inr (s', p)
    \<and> (if p = nullptr then live_inv g s' B R else live_inv g s' (insert (p, 65536) B) (insert (stack_bytes p) R) \<and> p \<notin> fst ` B)"
proof -
  obtain F H h0 hs Ss where r: "ma_rep g (km_store s) (km_pages s) (km_malloc s) F H h0 hs Ss" "length (ma_chain (km_malloc s)) = 33"
    "blocks_in B (ma_live (km_malloc s) H h0 hs Ss)" "R \<subseteq> ma_live (km_malloc s) H h0 hs Ss" using assms(1) by (rule live_invE)
  let ?live = "ma_live (km_malloc s) H h0 hs Ss"
  have rep: "km_rep g s F H h0 hs Ss" using r(1) by (simp add: km_rep_def)
  have sub: "set (h0 # hs) \<subseteq> H" using r(1) by (simp add: ma_rep_def)
  obtain s' q where a: "alloc_pages s 16 = Inr (s', ptr_of q)" "km_rep g s' (F - taken 16 q) (H \<union> held 16 q) h0 hs Ss"
    "taken 16 q \<subseteq> F" "held 16 q \<inter> H = {}" "km_malloc s' = km_malloc s"
    using alloc_pages_step [OF rep, of 16] by auto
  show ?thesis
  proof (cases q)
    case None
    then have "live_inv g s' B R" using a r(2-4) by (intro live_inv_repI [of _ _ F H h0 hs Ss]) simp_all
    then show ?thesis using a(1) None by (simp add: stack_pages_def)
  next
    case (Some x)
    have h: "(x, 16) \<notin> H" using a(4) Some by simp
    have ma: "ma_rep g (km_store s') (km_pages s') (km_malloc s) (F - taken 16 q) (insert (x, 16) H) h0 hs Ss"
      using a(2,5) Some by (simp add: km_rep_def)
    have "gf g \<le> x" "x + 16 \<le> ge g" using run_bounds(2,3) [OF ma_repD(2) [OF ma], of x 16] by simp_all
    then have x: "x \<in> frames" using ma_repD(3) [OF ma] by (auto simp: geometry_ok_def)
    have l: "ma_live (km_malloc s) (insert (x, 16) H) h0 hs Ss = insert (stack_bytes (frame_addr x)) ?live"
      using ma_live_insert_run [of "(x, 16)" h0 hs "km_malloc s" H Ss] h sub run_stack_bytes [OF x] by auto
    have new: "\<forall>L\<in>?live. {unat (frame_addr x)..<unat (frame_addr x) + 65536} \<inter> L = {}"
      using ma_live_disjoint_run [OF ma h sub] run_stack_bytes [OF x] by (auto simp: stack_bytes_def)
    have u: "unat (65536 :: u32) = 65536" by simp
    have B: "blocks_in (insert (frame_addr x, 65536) B) (insert (stack_bytes (frame_addr x)) ?live)" "frame_addr x \<notin> fst ` B"
      using blocks_in_insert [OF r(3) _ _ new, of 65536] blocks_in_fresh [OF r(3) _ new] unfolding stack_bytes_def u by auto
    have "live_inv g s' (insert (frame_addr x, 65536) B) (insert (stack_bytes (frame_addr x)) R)"
      using ma r(2,4) B(1) unfolding a(5) [symmetric] l [folded a(5), symmetric]
      by (intro live_inv_repI [of _ _ "F - taken 16 q" "insert (x, 16) H" h0 hs Ss]) (auto simp: km_rep_def l [folded a(5)])
    then show ?thesis using a(1) Some B(2) frame_addr_null [OF x] by (intro exI [of _ s'] exI [of _ "frame_addr x"]) (simp add: stack_pages_def)
  qed
qed

text \<open>A region of this size is no element of a slab.\<close>

lemma stack_is_run:
  assumes "ma_rep g m pa ma F H h0 hs Ss" "length (ma_chain ma) = 33" "stack_bytes p \<in> ma_live ma H h0 hs Ss"
  shows "\<exists>x. (x, 16) \<in> H - set (h0 # hs) \<and> p = frame_addr x"
proof -
  note D = ma_repD [OF assms(1)]
  have small: "stack_bytes p \<noteq> slab_elem (ma_chain ma ! k) i" if "k < 33" for k i
  proof
    assume e: "stack_bytes p = slab_elem (ma_chain ma ! k) i"
    have "sl_elem_size (ma_chain ma ! k) = chain_unit_size (of_nat k)" using assms(1,2) that by (simp add: ma_rep_def chain_ok_def)
    moreover have "unat (chain_unit_size (of_nat k)) \<le> 512"
    proof -
      have "unat (of_nat k * 16 :: u32) = k * 16" using that by (simp add: unat_word_ariths unat_of_nat)
      then show ?thesis using that by (simp add: chain_unit_size_def)
    qed
    ultimately have "card (slab_elem (ma_chain ma ! k) i) \<le> 512" by (simp add: slab_elem_def)
    moreover have "card (stack_bytes p) = 65536" by (simp add: stack_bytes_def)
    ultimately show False using e by simp
  qed
  then obtain h where h: "h \<in> H - set (h0 # hs)" "stack_bytes p = run_bytes h" using assms(2,3) by (auto simp: ma_live_def)
  obtain x n where xn: "h = (x, n)" by (cases h)
  have "0 < n" "gf g \<le> x" "x + n \<le> ge g" using run_bounds(1-3) [OF D(2), of x n] h(1) xn by auto
  then have "x \<in> frames" using D(3) by (auto simp: geometry_ok_def)
  moreover have "unat p = x * 4096" "65536 = n * 4096"
    using h(2) \<open>0 < n\<close> by (auto simp: xn stack_bytes_def run_bytes_def atLeastLessThan_eq_iff algebra_simps)
  ultimately show ?thesis using h(1) xn by (intro exI [of _ x]) (auto simp: u32_eq_iff_unat unat_frame_addr)
qed

lemma free_stack_live:
  assumes "live_inv g s B R" "(p, 65536) \<in> B" "stack_bytes p \<in> R"
  shows "\<exists>s'. free_pages_at s p = Inr s' \<and> live_inv g s' (B - {(p, 65536)}) (R - {stack_bytes p})"
proof -
  obtain F H h0 hs Ss where r: "ma_rep g (km_store s) (km_pages s) (km_malloc s) F H h0 hs Ss" "length (ma_chain (km_malloc s)) = 33"
    "blocks_in B (ma_live (km_malloc s) H h0 hs Ss)" "R \<subseteq> ma_live (km_malloc s) H h0 hs Ss" using assms(1) by (rule live_invE)
  obtain x where x: "(x, 16) \<in> H - set (h0 # hs)" "p = frame_addr x" using stack_is_run [OF r(1,2)] assms(3) r(4) by blast
  have rep: "km_rep g s F H h0 hs Ss" using r(1) by (simp add: km_rep_def)
  have sub: "set (h0 # hs) \<subseteq> H" using r(1) by (simp add: ma_rep_def)
  have "x \<in> frames" using run_bounds(2,3) [OF ma_repD(2) [OF r(1)], of x 16] ma_repD(3) [OF r(1)] x(1) by (auto simp: geometry_ok_def)
  then have e: "run_bytes (x, 16) = stack_bytes p" unfolding x(2) by (rule run_stack_bytes)
  obtain s' where d: "free_pages_at s p = Inr s'" "km_rep g s' (F \<union> taken 16 (Some x)) (H - {(x, 16)}) h0 hs Ss" "km_malloc s' = km_malloc s"
    using free_pages_step [OF rep, of 16 "Some x"] x by auto
  have ins: "insert (x, 16) (H - {(x, 16)}) = H" "set (h0 # hs) \<subseteq> H - {(x, 16)}" using x(1) sub by auto
  have live: "ma_live (km_malloc s) H h0 hs Ss = insert (stack_bytes p) (ma_live (km_malloc s) (H - {(x, 16)}) h0 hs Ss)"
    using ma_live_insert_run [of "(x, 16)" h0 hs "km_malloc s" "H - {(x, 16)}" Ss] x(1) ins(1) e by simp
  have "stack_bytes p \<notin> ma_live (km_malloc s) (H - {(x, 16)}) h0 hs Ss"
  proof
    assume "stack_bytes p \<in> ma_live (km_malloc s) (H - {(x, 16)}) h0 hs Ss"
    from ma_live_disjoint_run [OF _ _ ins(2) this, of g "km_store s" "km_pages s" F "(x, 16)"]
    show False using r(1) ins(1) e by (auto simp: stack_bytes_def)
  qed
  then have l: "ma_live (km_malloc s) (H - {(x, 16)}) h0 hs Ss = ma_live (km_malloc s) H h0 hs Ss - {stack_bytes p}" unfolding live by blast
  have "blocks_in (B - {(p, 65536)}) (ma_live (km_malloc s) H h0 hs Ss - {stack_bytes p})"
    using assms(3) r(4) by (intro blocks_in_remove [OF r(3) assms(2)]) (auto simp: stack_bytes_def)
  moreover have "R - {stack_bytes p} \<subseteq> ma_live (km_malloc s) H h0 hs Ss - {stack_bytes p}" using r(4) by blast
  ultimately show ?thesis using d(1) r(2) live_inv_repI [OF d(2), unfolded d(3) l] by blast
qed

lemma live_inv_blocks:
  assumes "live_inv g s B R"
  shows "inj_on fst B" "b \<in> B \<Longrightarrow> c \<in> B \<Longrightarrow> b \<noteq> c \<Longrightarrow> extent b \<inter> extent c = {}"
proof -
  obtain L where L: "blocks_in B L" using assms by (auto simp: live_inv_def)
  then show "inj_on fst B" by (simp add: blocks_in_def)
  show "b \<in> B \<Longrightarrow> c \<in> B \<Longrightarrow> b \<noteq> c \<Longrightarrow> extent b \<inter> extent c = {}" using blocks_in_extents [OF L] by blast
qed

lemma live_block_outside:
  assumes "live_inv g s B R" "(p, n) \<in> B" "stack_bytes q \<in> R" "p \<noteq> q"
  shows "unat p \<notin> stack_bytes q"
proof
  assume p: "unat p \<in> stack_bytes q"
  obtain F H h0 hs Ss where r: "ma_rep g (km_store s) (km_pages s) (km_malloc s) F H h0 hs Ss" "length (ma_chain (km_malloc s)) = 33"
    "blocks_in B (ma_live (km_malloc s) H h0 hs Ss)" "R \<subseteq> ma_live (km_malloc s) H h0 hs Ss" using assms(1) by (rule live_invE)
  obtain k where k: "0 < k" "{unat p..<unat p + k} \<in> ma_live (km_malloc s) H h0 hs Ss" using blocks_inD [OF r(3) assms(2)] by auto
  have "disjoint (ma_live (km_malloc s) H h0 hs Ss)" using r(3) by (simp add: blocks_in_def)
  moreover have "unat p \<in> {unat p..<unat p + k}" using k(1) by simp
  ultimately have "{unat p..<unat p + k} = stack_bytes q" using k(2) r(4) assms(3) p disjointD [of _ "{unat p..<unat p + k}" "stack_bytes q"] by blast
  then show False using k(1) assms(4) by (simp add: stack_bytes_def atLeastLessThan_eq_iff u32_eq_iff_unat)
qed

section \<open>The memory of tasks\<close>

definition task_blocks :: "image \<Rightarrow> new_task set \<Rightarrow> (ptr \<times> u32) set" where
  "task_blocks im T = (\<lambda>t. (nt_addr t, im_sizeof_task im)) ` T \<union> (\<lambda>t. (nt_stack t, 65536)) ` T"

definition task_area :: "image \<Rightarrow> new_task \<Rightarrow> nat set" where
  "task_area im t = extent (nt_addr t, im_sizeof_task im) \<union> extent (nt_stack t, 65536)"

text \<open>
  The states of the memory while tasks are created, if there is a stack for them, and deleted, in any order, and other parts of the kernel allocate and release blocks: \<open>T\<close> are the tasks
  that exist and \<open>B\<close> the other blocks.
\<close>

inductive tasks_reach :: "image \<Rightarrow> kernel_memory \<Rightarrow> kernel_memory \<Rightarrow> new_task set \<Rightarrow> (ptr \<times> u32) set \<Rightarrow> bool" for im s0 where
  start: "tasks_reach im s0 s0 {} {}"
| create: "tasks_reach im s0 s T B \<Longrightarrow> task_new im name s = Inr (s', t) \<Longrightarrow> nt_stack t \<noteq> nullptr \<Longrightarrow> tasks_reach im s0 s' (insert t T) B"
| delete: "tasks_reach im s0 s T B \<Longrightarrow> t \<in> T \<Longrightarrow> task_delete t s = Inr s' \<Longrightarrow> tasks_reach im s0 s' (T - {t}) B"
| malloc: "tasks_reach im s0 s T B \<Longrightarrow> n \<noteq> 0 \<Longrightarrow> unat n \<le> 4294963200 \<Longrightarrow> kmalloc s n = Inr (s', p) \<Longrightarrow> p \<noteq> nullptr
    \<Longrightarrow> tasks_reach im s0 s' T (insert (p, n) B)"
| no_block: "tasks_reach im s0 s T B \<Longrightarrow> unat n \<le> 4294963200 \<Longrightarrow> kmalloc s n = Inr (s', nullptr) \<Longrightarrow> tasks_reach im s0 s' T B"
| free: "tasks_reach im s0 s T B \<Longrightarrow> (p, n) \<in> B \<Longrightarrow> kfree s p = Inr s' \<Longrightarrow> tasks_reach im s0 s' T (B - {(p, n)})"

definition tasks_inv :: "geometry \<Rightarrow> image \<Rightarrow> kernel_memory \<Rightarrow> new_task set \<Rightarrow> (ptr \<times> u32) set \<Rightarrow> bool" where
  "tasks_inv g im s T B \<longleftrightarrow> live_inv g s (task_blocks im T \<union> B) (stack_bytes ` nt_stack ` T) \<and> inj_on nt_addr T \<and> inj_on nt_stack T
     \<and> task_blocks im T \<inter> B = {} \<and> nullptr \<notin> nt_addr ` T"

text \<open>Objects of tasks have a size, and stacks are larger.\<close>

definition task_size :: "image \<Rightarrow> bool" where
  "task_size im \<longleftrightarrow> im_sizeof_task im \<noteq> 0 \<and> unat (im_sizeof_task im) \<le> 512"

lemma task_sizeD: "task_size im \<Longrightarrow> im_sizeof_task im \<noteq> 0 \<and> im_sizeof_task im \<noteq> 65536 \<and> unat (im_sizeof_task im) \<le> 4294963200"
  by (auto simp: task_size_def)

lemma task_new_inv:
  assumes "tasks_inv g im s T B" "task_size im"
  shows "task_new im name s = Inl Undef \<or> (\<exists>s' t. task_new im name s = Inr (s', t) \<and> nt_addr t \<noteq> nullptr \<and> nt_addr t \<notin> nt_addr ` T
    \<and> (nt_stack t \<noteq> nullptr \<longrightarrow> tasks_inv g im s' (insert t T) B))"
proof -
  let ?C = "task_blocks im T \<union> B" and ?R = "stack_bytes ` nt_stack ` T" and ?n = "im_sizeof_task im"
  note inv = assms(1) [unfolded tasks_inv_def]
  note sz = task_sizeD [OF assms(2)]
  obtain s1 p where m: "kmalloc s ?n = Inr (s1, p)"
    "if p = nullptr then live_inv g s1 ?C ?R else live_inv g s1 (insert (p, ?n) ?C) ?R \<and> p \<notin> fst ` ?C"
    using kmalloc_live [of g s ?C ?R ?n] inv sz by auto
  show ?thesis
  proof (cases "p = nullptr")
    case True
    then show ?thesis using m(1) by (simp add: task_new_def new_object_def)
  next
    case False
    then have l1: "live_inv g s1 (insert (p, ?n) ?C) ?R" "p \<notin> fst ` ?C" using m(2) by simp_all
    obtain s2 q where a: "alloc_pages s1 stack_pages = Inr (s2, q)"
      "if q = nullptr then live_inv g s2 (insert (p, ?n) ?C) ?R
       else live_inv g s2 (insert (q, 65536) (insert (p, ?n) ?C)) (insert (stack_bytes q) ?R) \<and> q \<notin> fst ` insert (p, ?n) ?C"
      using alloc_stack_live [OF l1(1)] by blast
    let ?t = "\<lparr>nt_addr = p, nt_stack = q, nt_name = name\<rparr>"
    have new: "task_new im name s = Inr (s2, ?t)" using m(1) a(1) False by (simp add: task_new_def new_object_def)
    have p: "p \<notin> nt_addr ` T" "(p, ?n) \<notin> B" using l1(2) by (force simp: task_blocks_def)+
    have "tasks_inv g im s2 (insert ?t T) B" if "q \<noteq> nullptr"
    proof -
      have q: "live_inv g s2 (insert (q, 65536) (insert (p, ?n) ?C)) (insert (stack_bytes q) ?R)" "q \<notin> fst ` insert (p, ?n) ?C" using a(2) that by simp_all
      have "q \<notin> nt_stack ` T" "(q, 65536) \<notin> B" using q(2) by (force simp: task_blocks_def)+
      moreover have "task_blocks im (insert ?t T) = insert (q, 65536) (insert (p, ?n) (task_blocks im T))" by (auto simp: task_blocks_def)
      ultimately show ?thesis using inv p q(1) False unfolding tasks_inv_def by (simp add: image_iff)
    qed
    then show ?thesis using new p(1) False by auto
  qed
qed

lemma task_delete_inv:
  assumes "tasks_inv g im s T B" "task_size im" "t \<in> T"
  shows "\<exists>s'. task_delete t s = Inr s' \<and> tasks_inv g im s' (T - {t}) B"
proof -
  let ?C = "task_blocks im T \<union> B" and ?R = "stack_bytes ` nt_stack ` T" and ?n = "im_sizeof_task im"
  note inv = assms(1) [unfolded tasks_inv_def]
  note sz = task_sizeD [OF assms(2)]
  have C: "(nt_stack t, 65536) \<in> ?C" "(nt_addr t, ?n) \<in> ?C" "stack_bytes (nt_stack t) \<in> ?R" using assms(3) by (auto simp: task_blocks_def)
  have inj: "inj_on fst ?C" using inv live_inv_blocks(1) by blast
  obtain s1 where f: "free_pages_at s (nt_stack t) = Inr s1" "live_inv g s1 (?C - {(nt_stack t, 65536)}) (?R - {stack_bytes (nt_stack t)})"
    using free_stack_live [OF _ C(1,3)] inv by blast
  have "unat (nt_addr t) \<notin> L" if "L \<in> ?R - {stack_bytes (nt_stack t)}" for L
  proof -
    from that obtain u where u: "u \<in> T" "L = stack_bytes (nt_stack u)" by blast
    then have "(nt_stack u, 65536) \<in> ?C" by (auto simp: task_blocks_def)
    from inj_onD [OF inj _ C(2) this] have "nt_addr t \<noteq> nt_stack u" using sz by auto
    then show ?thesis using live_block_outside [of g s ?C ?R "nt_addr t" ?n "nt_stack u"] inv C(2) u by blast
  qed
  then obtain s2 where k: "kfree s1 (nt_addr t) = Inr s2"
    "live_inv g s2 (?C - {(nt_stack t, 65536)} - {(nt_addr t, ?n)}) (?R - {stack_bytes (nt_stack t)})"
    using kfree_live [OF f(2), of "nt_addr t" ?n] C(2) sz by auto
  have injs: "inj_on nt_addr T" "inj_on nt_stack T" "task_blocks im T \<inter> B = {}" "nullptr \<notin> nt_addr ` T" using inv by blast+
  have tb: "task_blocks im (T - {t}) = task_blocks im T - {(nt_stack t, 65536)} - {(nt_addr t, ?n)}"
    using injs(1,2) assms(3) sz by (auto simp: task_blocks_def inj_on_def)
  have "(nt_stack t, 65536) \<notin> B" "(nt_addr t, ?n) \<notin> B" using injs(3) assms(3) by (auto simp: task_blocks_def)
  then have "task_blocks im (T - {t}) \<union> B = ?C - {(nt_stack t, 65536)} - {(nt_addr t, ?n)}" unfolding tb by blast
  moreover have "inj stack_bytes" by (auto simp: inj_def stack_bytes_def atLeastLessThan_eq_iff u32_eq_iff_unat)
  then have "stack_bytes ` nt_stack ` (T - {t}) = ?R - {stack_bytes (nt_stack t)}"
    using inj_on_image_set_diff [OF injs(2), of T "{t}"] image_set_diff [of stack_bytes "nt_stack ` T" "{nt_stack t}"] assms(3) by simp
  moreover have "task_blocks im (T - {t}) \<inter> B = {}" "nullptr \<notin> nt_addr ` (T - {t})" using injs(3,4) unfolding tb by blast+
  moreover have "inj_on nt_addr (T - {t})" "inj_on nt_stack (T - {t})" using injs(1,2) by (auto intro: inj_on_subset)
  ultimately have "tasks_inv g im s2 (T - {t}) B" using k(2) unfolding tasks_inv_def by simp
  then show ?thesis using f(1) k(1) by (auto simp: task_delete_def delete_object_def)
qed

lemma tasks_kmalloc_inv:
  assumes "tasks_inv g im s T B" "unat n \<le> 4294963200" "kmalloc s n = Inr (s', p)" "p = nullptr \<or> n \<noteq> 0"
  shows "tasks_inv g im s' T (if p = nullptr then B else insert (p, n) B)"
proof -
  let ?C = "task_blocks im T \<union> B" and ?R = "stack_bytes ` nt_stack ` T"
  have "if p = nullptr then live_inv g s' ?C ?R else live_inv g s' (insert (p, n) ?C) ?R \<and> p \<notin> fst ` ?C"
    using kmalloc_live [of g s ?C ?R n] assms by (auto simp: tasks_inv_def split: if_splits)
  moreover have "(p, n) \<notin> task_blocks im T" if "p \<notin> fst ` ?C" using that by force
  ultimately show ?thesis using assms(1) by (auto simp: tasks_inv_def)
qed

lemma tasks_kfree_inv:
  assumes "tasks_inv g im s T B" "(p, n) \<in> B" "kfree s p = Inr s'"
  shows "tasks_inv g im s' T (B - {(p, n)})"
proof -
  let ?C = "task_blocks im T \<union> B" and ?R = "stack_bytes ` nt_stack ` T"
  note inv = assms(1) [unfolded tasks_inv_def]
  have C: "(p, n) \<in> ?C" "(p, n) \<notin> task_blocks im T" using assms(2) inv by auto
  have "unat p \<notin> L" if "L \<in> ?R" for L
  proof -
    from that obtain u where u: "u \<in> T" "L = stack_bytes (nt_stack u)" by blast
    have "inj_on fst ?C" using inv live_inv_blocks(1) by blast
    moreover have "(nt_stack u, 65536) \<in> task_blocks im T" using u by (auto simp: task_blocks_def)
    ultimately have "p \<noteq> nt_stack u" using inj_onD [of fst ?C "(p, n)" "(nt_stack u, 65536)"] C by auto
    then show ?thesis using live_block_outside [of g s ?C ?R p n "nt_stack u"] inv C(1) u by blast
  qed
  then have "live_inv g s' (?C - {(p, n)}) ?R" using kfree_live [of g s ?C ?R p n] inv C(1) assms(3) by auto
  moreover have "?C - {(p, n)} = task_blocks im T \<union> (B - {(p, n)})" using C(2) by blast
  ultimately show ?thesis using inv by (auto simp: tasks_inv_def)
qed

lemma tasks_reach_inv: "tasks_reach im s0 s T B \<Longrightarrow> task_size im \<Longrightarrow> live_inv g s0 {} {} \<Longrightarrow> tasks_inv g im s T B"
proof (induction rule: tasks_reach.induct)
  case start
  then show ?case by (simp add: tasks_inv_def task_blocks_def)
next
  case (create s T B name s' t)
  then show ?case using task_new_inv [of g im s T B name] by auto
next
  case (delete s T B t s')
  then show ?case using task_delete_inv [of g im s T B t] by auto
next
  case (malloc s T B n s' p)
  then show ?case using tasks_kmalloc_inv [of g im s T B n s' p] by simp
next
  case (no_block s T B n s')
  then show ?case using tasks_kmalloc_inv [of g im s T B n s' nullptr] by simp
next
  case (free s T B p n s')
  then show ?case using tasks_kfree_inv [of g im s T B p n s'] by simp
qed

lemma tasks_inv_areas:
  assumes "tasks_inv g im s T B" "task_size im" "t \<in> T"
  shows "u \<in> T \<Longrightarrow> t \<noteq> u \<Longrightarrow> nt_addr t \<noteq> nt_addr u \<and> task_area im t \<inter> task_area im u = {}"
    and "b \<in> B \<Longrightarrow> task_area im t \<inter> extent b = {}"
proof -
  let ?C = "task_blocks im T \<union> B" and ?n = "im_sizeof_task im"
  note inv = assms(1) [unfolded tasks_inv_def]
  have dis: "extent b \<inter> extent c = {}" if "b \<in> ?C" "c \<in> ?C" "b \<noteq> c" for b c using inv live_inv_blocks(2) that by blast
  have C: "(nt_stack v, 65536) \<in> task_blocks im T" "(nt_addr v, ?n) \<in> task_blocks im T" if "v \<in> T" for v using that by (auto simp: task_blocks_def)
  have sz: "?n \<noteq> 65536" using task_sizeD [OF assms(2)] by simp
  show "nt_addr t \<noteq> nt_addr u \<and> task_area im t \<inter> task_area im u = {}" if "u \<in> T" "t \<noteq> u"
  proof -
    have ne: "nt_addr t \<noteq> nt_addr u" "nt_stack t \<noteq> nt_stack u" using inv assms(3) that by (auto dest: inj_onD)
    have "extent (nt_addr t, ?n) \<inter> extent (nt_addr u, ?n) = {}" "extent (nt_addr t, ?n) \<inter> extent (nt_stack u, 65536) = {}"
      "extent (nt_stack t, 65536) \<inter> extent (nt_addr u, ?n) = {}" "extent (nt_stack t, 65536) \<inter> extent (nt_stack u, 65536) = {}"
      using C [OF assms(3)] C [OF that(1)] ne sz by (simp_all add: dis)
    then show ?thesis using ne(1) unfolding task_area_def by blast
  qed
  show "task_area im t \<inter> extent b = {}" if "b \<in> B"
  proof -
    have "b \<noteq> (nt_addr t, ?n)" "b \<noteq> (nt_stack t, 65536)" using inv C [OF assms(3)] that by auto
    then have "extent (nt_addr t, ?n) \<inter> extent b = {}" "extent (nt_stack t, 65536) \<inter> extent b = {}"
      using C [OF assms(3)] that by (simp_all add: dis)
    then show ?thesis unfolding task_area_def by blast
  qed
qed

section \<open>Room for the test tasks\<close>

lemma new_test_tasks_step:
  assumes "boot_heap g s F U c" "c + 2 * n \<le> 2048" "image_sizes im" "n \<le> card (groups 4 F)"
  shows "\<exists>s' ts. new_test_tasks im n s = Inr (s', ts) \<and> length ts = n \<and> distinct (map nt_addr ts) \<and> nullptr \<notin> nt_addr ` set ts
    \<and> (\<forall>t\<in>set ts. unat (nt_addr t) \<notin> U)"
  using assms
proof (induction n arbitrary: s F U c)
  case (Suc n)
  obtain s1 p U1 where 1: "new_object 4 s = Inr (s1, p)" "boot_heap g s1 F U1 (Suc c)" "U \<subseteq> U1"
    using new_object_small [OF Suc.prems(1), of 4] Suc.prems(2) by auto
  obtain s2 t F2 U2 where 2: "task_new im ''test_task'' s1 = Inr (s2, t)" "boot_heap g s2 F2 U2 (Suc (Suc c))" "U1 \<subseteq> U2" "n \<le> card (groups 4 F2)"
    "nt_addr t \<noteq> nullptr" "unat (nt_addr t) \<in> U2 - U1"
    using task_new_step [OF 1(2) _ Suc.prems(3,4), of "''test_task''"] Suc.prems(2) by auto
  obtain s3 ts where 3: "new_test_tasks im n s2 = Inr (s3, ts)" "length ts = n" "distinct (map nt_addr ts)" "nullptr \<notin> nt_addr ` set ts"
    "\<forall>t\<in>set ts. unat (nt_addr t) \<notin> U2"
    using Suc.IH [OF 2(2) _ Suc.prems(3) 2(4)] Suc.prems(2) by auto
  have "nt_addr t \<notin> nt_addr ` set ts" using 2(6) 3(5) by auto
  then show ?case using 1(1,3) 2(1,3,5,6) 3 by auto
qed simp

section \<open>The start does not depend on what the tasks do\<close>

definition with_scripts :: "(ptr \<Rightarrow> turn list) \<Rightarrow> ('f, 'h) kernel \<Rightarrow> ('f, 'h) kernel" where
  "with_scripts f k = k\<lparr>kn_sched := (kn_sched k)\<lparr>sc_script := f\<rparr>\<rparr>"

lemma boot_scripts:
  "boot_processor im (with_scripts f k) = bindE (boot_processor im k) (\<lambda>k. Inr (with_scripts f k))"
  "boot_manager im (with_scripts f k) = bindE (boot_manager im k) (\<lambda>k. Inr (with_scripts f k))"
  "boot_timer im (with_scripts f k) = bindE (boot_timer im k) (\<lambda>k. Inr (with_scripts f k))"
  "boot_ps2 im chip drv (with_scripts f k) = bindE (boot_ps2 im chip drv k) (\<lambda>k. Inr (with_scripts f k))"
  "boot_tests tests (with_scripts f k) = bindE (boot_tests tests k) (\<lambda>k. Inr (with_scripts f k))"
  by (simp_all add: boot_processor_def boot_manager_def boot_timer_def boot_ps2_def boot_tests_def Let_def with_scripts_def bindE_def split: sum.splits prod.splits)

lemma sched_construct_scripts:
  "sched_construct e a b (s\<lparr>sc_irq := i, sc_script := f\<rparr>) = bindE (sched_construct e a b (s\<lparr>sc_irq := i\<rparr>)) (\<lambda>s. Inr (s\<lparr>sc_script := f\<rparr>))"
  by (cases s) (simp add: sched_construct_def sched_create_task_def task_construct_def sched_set_irq_def Let_def bindE_def split: sum.splits prod.splits option.splits)

lemma start_scheduling_scripts:
  "start_scheduling e 0 (s\<lparr>sc_script := f\<rparr>) = bindE (start_scheduling e 0 s) (\<lambda>s. Inr (s\<lparr>sc_script := f\<rparr>))"
  by (cases s) (simp add: start_scheduling_def schedule_forever_def switch_out_def switch_in_def bindE_def split: sum.splits)

lemma init_scheduling_scripts:
  "init_scheduling im 0 (with_scripts f k) = bindE (init_scheduling im 0 k) (\<lambda>k. Inr (with_scripts f k))"
proof -
  have "sched_construct e a b ((kn_sched k)\<lparr>sc_script := f, sc_irq := i\<rparr>) = bindE (sched_construct e a b ((kn_sched k)\<lparr>sc_irq := i\<rparr>)) (\<lambda>s. Inr (s\<lparr>sc_script := f\<rparr>))" for e a b i
    using sched_construct_scripts [where e = e and a = a and b = b and s = "kn_sched k" and i = i and f = f] by (cases "kn_sched k") simp
  then show ?thesis
    by (simp add: init_scheduling_def with_scripts_def start_scheduling_scripts case_prod_unfold cong: bindE_cong)
      (simp add: bindE_def start_scheduling_scripts split: sum.splits)
qed

lemma kernel_main_scripts:
  "kernel_main im [] chip drv tests 0 (with_scripts f k) = bindE (kernel_main im [] chip drv tests 0 k) (\<lambda>k. Inr (with_scripts f k))"
proof -
  have "boot_early im (with_scripts f k) = with_scripts f (boot_early im k)" by (simp add: boot_early_def with_scripts_def)
  then show ?thesis by (simp add: kernel_main_def boot_scripts init_scheduling_scripts)
qed

section \<open>Properties\<close>

lemma memory_init_live:
  assumes "km_rep g s F (insert h0 (set hs)) h0 hs (replicate 33 {})"
  shows "live_inv g s {} {}"
proof -
  have "length (ma_chain (km_malloc s)) = 33" using assms by (auto simp: km_rep_def ma_rep_def chain_ok_def)
  then show ?thesis using memory_init_inv [OF assms] by (auto simp: live_inv_def km_inv_def)
qed

text \<open>
  C5: tasks own their memory. After the set-up of the memory subsystem, however tasks are created and deleted and other parts of the kernel allocate and release memory, the objects
  and the stacks of the tasks that exist are disjoint from each other and from every other block, the objects have different addresses that are not null, a new task gets an address that no
  existing task has, and the deletion of a task returns.
\<close>

theorem tasks_own_memory:
  assumes "is_meminfo_valid bi" and "unat (high_memory bi) < 2 ^ 21 - 1024"
    and "unat (kobj_end k) \<le> 4294963200" and "geometry_ok (boot_geometry bi k)"
    and "0 < sz" "unat sz \<le> 2 ^ 14"
    and "34 \<le> card (groups 9 {gf (boot_geometry bi k)..<ge (boot_geometry bi k)})" "task_size im"
  shows "\<exists>s0. memory_init m bi k sz = Inr s0
    \<and> (\<forall>s T B. tasks_reach im s0 s T B \<longrightarrow>
        (\<forall>t\<in>T. nt_addr t \<noteq> nullptr \<and> (\<forall>u\<in>T. t \<noteq> u \<longrightarrow> nt_addr t \<noteq> nt_addr u \<and> task_area im t \<inter> task_area im u = {})
          \<and> (\<forall>b\<in>B. task_area im t \<inter> extent b = {}) \<and> (\<exists>s'. task_delete t s = Inr s'))
        \<and> (\<forall>name. task_new im name s = Inl Undef \<or> (\<exists>s' t. task_new im name s = Inr (s', t) \<and> nt_addr t \<notin> insert nullptr (nt_addr ` T))))"
proof -
  obtain s0 F h0 hs where ini: "memory_init m bi k sz = Inr s0"
    and "km_rep (boot_geometry bi k) s0 F (insert h0 (set hs)) h0 hs (replicate 33 {})"
    using memory_init_rep [OF assms(1-6), of 0 9 m] assms(7) by auto
  then have inv0: "live_inv (boot_geometry bi k) s0 {} {}" by (intro memory_init_live)
  have "(\<forall>t\<in>T. nt_addr t \<noteq> nullptr \<and> (\<forall>u\<in>T. t \<noteq> u \<longrightarrow> nt_addr t \<noteq> nt_addr u \<and> task_area im t \<inter> task_area im u = {})
          \<and> (\<forall>b\<in>B. task_area im t \<inter> extent b = {}) \<and> (\<exists>s'. task_delete t s = Inr s'))
        \<and> (\<forall>name. task_new im name s = Inl Undef \<or> (\<exists>s' t. task_new im name s = Inr (s', t) \<and> nt_addr t \<notin> insert nullptr (nt_addr ` T)))"
    if "tasks_reach im s0 s T B" for s T B
  proof -
    have inv: "tasks_inv (boot_geometry bi k) im s T B" using tasks_reach_inv [OF that assms(8) inv0] .
    have "nt_addr t \<noteq> nullptr" if "t \<in> T" for t using inv that by (force simp: tasks_inv_def)
    moreover have "\<exists>s'. task_delete t s = Inr s'" if "t \<in> T" for t using task_delete_inv [OF inv assms(8) that] by blast
    moreover have "task_new im name s = Inl Undef \<or> (\<exists>s' t. task_new im name s = Inr (s', t) \<and> nt_addr t \<notin> insert nullptr (nt_addr ` T))" for name
      using task_new_inv [OF inv assms(8), of name] by auto
    ultimately show ?thesis using tasks_inv_areas [OF inv assms(8)] by blast
  qed
  then show ?thesis using ini by blast
qed

theorem tasks_own_memory_witness:
  "\<exists>s0 s1 t s2. memory_init store_zero example_boot example_image 28 = Inr s0 \<and> task_new example_im ''main'' s0 = Inr (s1, t) \<and> task_delete t s1 = Inr s2"
proof -
  have size: "task_size example_im" "image_sizes example_im" using example_ready(2) by (simp_all add: task_size_def example_im_def)
  obtain s0 where ini: "memory_init store_zero example_boot example_image 28 = Inr s0"
    and all: "\<And>s T B t. tasks_reach example_im s0 s T B \<Longrightarrow> t \<in> T \<Longrightarrow> \<exists>s'. task_delete t s = Inr s'"
    using tasks_own_memory [OF example_conditions(1-4) _ _ example_conditions(5) size(1), of 28 store_zero] by auto
  obtain F U where heap: "boot_heap (image_geometry example_im) s0 F U 0" "10 \<le> card (groups 10 F)"
    using memory_init_boot [OF example_ready(3,2), of store_zero] ini by (auto simp: example_im_def)
  have "some_block 10 F" using heap(2) some_block_left [of "{}" F] by simp
  then have "Suc 63 \<le> card (groups 4 F)" using stack_places [OF _ boot_heap_frames [OF heap(1)]] by simp
  from task_new_step [OF heap(1) _ size(2) this, of "''main''"]
  obtain s1 t where t: "task_new example_im ''main'' s0 = Inr (s1, t)" "nt_stack t \<noteq> nullptr" by auto
  from all [OF tasks_reach.create [OF tasks_reach.start this], of t] obtain s2 where "task_delete t s1 = Inr s2" by blast
  then show ?thesis using ini t(1) by blast
qed

end
