(* ===== verification/C_String.thy ===== *)
theory C_String
  imports Kernel_Prelude
begin

text \<open>
  C strings: \<^verbatim>\<open>libkernelcxx/src/cstring.cpp\<close>, the class \<^verbatim>\<open>lib::string\<close> of \<^verbatim>\<open>include/string.hpp\<close> and its
  concatenation in \<^verbatim>\<open>src/string.cpp\<close>. The characters live in one memory, indexed by address, so that a
  routine sees what it has written. Addresses of new blocks are arguments.
\<close>

section \<open>Definitions\<close>

type_synonym cmem = "ptr \<Rightarrow> char"

abbreviation NUL :: char where
  "NUL \<equiv> CHR 0x00"

partial_function (option) strlen_loop :: "cmem \<Rightarrow> ptr \<Rightarrow> u32 \<Rightarrow> u32 option" where
  "strlen_loop mem str len = (if mem str \<noteq> NUL then strlen_loop mem (str + 1) (len + 1) else Some len)"

definition strlen :: "cmem \<Rightarrow> ptr \<Rightarrow> u32 option" where
  "strlen mem str = strlen_loop mem str 0"

partial_function (option) strcpy_loop :: "ptr \<Rightarrow> ptr \<Rightarrow> u32 \<Rightarrow> cmem \<Rightarrow> cmem option" where
  "strcpy_loop dest src pos mem =
     (let mem1 = mem(dest + pos := mem (src + pos))
      in if mem1 (src + pos) \<noteq> NUL then strcpy_loop dest src (pos + 1) mem1 else Some mem1)"

definition strcpy :: "ptr \<Rightarrow> ptr \<Rightarrow> cmem \<Rightarrow> cmem option" where
  "strcpy dest src mem = strcpy_loop dest src 0 mem"

function strncpy_copy :: "ptr \<Rightarrow> ptr \<Rightarrow> u32 \<Rightarrow> u32 \<Rightarrow> cmem \<Rightarrow> cmem \<times> u32" where
  "strncpy_copy dest src n pos mem =
     (if pos \<noteq> n \<and> mem (src + pos) \<noteq> NUL
      then strncpy_copy dest src n (pos + 1) (mem(dest + pos := mem (src + pos)))
      else (mem, pos))"
  by pat_completeness auto
termination
  by (relation "measure (\<lambda>(dest, src, n, pos, mem). unat (n - pos))") (auto intro: word_count_up)

function strncpy_pad :: "ptr \<Rightarrow> u32 \<Rightarrow> u32 \<Rightarrow> cmem \<Rightarrow> cmem" where
  "strncpy_pad dest n pos mem = (if pos \<noteq> n then strncpy_pad dest n (pos + 1) (mem(dest + pos := NUL)) else mem)"
  by pat_completeness auto
termination
  by (relation "measure (\<lambda>(dest, n, pos, mem). unat (n - pos))") (auto intro: word_count_up)

definition strncpy :: "ptr \<Rightarrow> ptr \<Rightarrow> u32 \<Rightarrow> cmem \<Rightarrow> cmem" where
  "strncpy dest src n mem = (let (mem1, pos) = strncpy_copy dest src n 0 mem in strncpy_pad dest n pos mem1)"

function memset :: "ptr \<Rightarrow> char \<Rightarrow> u32 \<Rightarrow> cmem \<Rightarrow> cmem" where
  "memset s c n mem = (if n \<noteq> 0 then memset (s + 1) c (n - 1) (mem(s := c)) else mem)"
  by pat_completeness auto
termination
  by (relation "measure (\<lambda>(s, c, n, mem). unat n)") (auto simp: measure_unat)

declare strncpy_copy.simps [simp del] strncpy_pad.simps [simp del] memset.simps [simp del]

text \<open>The class \<^verbatim>\<open>lib::string\<close>.\<close>

record string_obj =
  str_capacity :: u32
  str_size :: u32
  str_string :: ptr

definition string_default :: string_obj where
  "string_default = \<lparr>str_capacity = 0, str_size = 0, str_string = nullptr\<rparr>"

definition string_move :: "string_obj \<Rightarrow> string_obj \<times> string_obj" where
  "string_move other = (other, string_default)"

definition string_assign :: "string_obj \<Rightarrow> string_obj \<Rightarrow> string_obj \<times> string_obj" where
  "string_assign this other = (other, this)"

definition string_of_cstr :: "ptr \<Rightarrow> ptr \<Rightarrow> cmem \<Rightarrow> (string_obj \<times> cmem) option" where
  "string_of_cstr fresh str mem =
     (case strlen mem str of
        None \<Rightarrow> None
      | Some cap \<Rightarrow>
          let mem1 = strncpy fresh str cap mem;
              mem2 = mem1(fresh + cap := NUL)
          in Some (\<lparr>str_capacity = cap, str_size = cap, str_string = fresh\<rparr>, mem2))"

definition string_plus :: "ptr \<Rightarrow> ptr \<Rightarrow> string_obj \<Rightarrow> string_obj \<Rightarrow> cmem \<Rightarrow> (string_obj \<times> cmem) option" where
  "string_plus tmp fresh lhs rhs mem =
     (let mem1 = strncpy tmp (str_string lhs) (str_size lhs) mem;
          ptr1 = tmp + str_size lhs;
          mem2 = strncpy ptr1 (str_string rhs) (str_size rhs) mem1;
          ptr2 = ptr1 + str_size rhs;
          mem3 = mem2(ptr2 + 1 := NUL)
      in string_of_cstr fresh tmp mem3)"

section \<open>Strings in memory\<close>

text \<open>
  A block of \<open>n\<close> addresses from \<open>p\<close> on, with wrap-around; the offset of an address from \<open>p\<close> tells
  whether it is in the block.
\<close>

definition in_block :: "ptr \<Rightarrow> nat \<Rightarrow> ptr \<Rightarrow> bool" where
  "in_block p n a \<longleftrightarrow> unat (a - p) < n"

definition chars_at :: "cmem \<Rightarrow> ptr \<Rightarrow> string \<Rightarrow> bool" where
  "chars_at mem p s \<longleftrightarrow> (\<forall>i<length s. mem (p + of_nat i) = s ! i)"

definition c_str :: "cmem \<Rightarrow> ptr \<Rightarrow> string \<Rightarrow> bool" where
  "c_str mem p s \<longleftrightarrow> chars_at mem p s \<and> NUL \<notin> set s \<and> mem (p + of_nat (length s)) = NUL \<and> length s < 4294967295"

definition apart :: "ptr \<Rightarrow> nat \<Rightarrow> ptr \<Rightarrow> nat \<Rightarrow> bool" where
  "apart p n q m \<longleftrightarrow> (\<forall>i<n. \<forall>j<m. p + of_nat i \<noteq> q + of_nat j)"

lemma in_block_iff:
  assumes "n \<le> 4294967296"
  shows "in_block p n a \<longleftrightarrow> (\<exists>i<n. a = p + of_nat i)"
proof
  assume "in_block p n a"
  then show "\<exists>i<n. a = p + of_nat i" by (intro exI [of _ "unat (a - p)"]) (simp add: in_block_def)
next
  assume "\<exists>i<n. a = p + of_nat i"
  then show "in_block p n a" using assms by (auto simp: in_block_def unat_of_nat_u32)
qed

lemma in_block_offset [simp]: "i < 4294967296 \<Longrightarrow> in_block p n (p + of_nat i) \<longleftrightarrow> i < n"
  by (simp add: in_block_def unat_of_nat_u32)

lemma in_block_Suc:
  assumes "k < 4294967296"
  shows "in_block p (Suc k) a \<longleftrightarrow> a = p \<or> in_block (p + 1) k a"
proof -
  have "(\<exists>i<Suc k. a = p + of_nat i) \<longleftrightarrow> a = p \<or> (\<exists>i<k. a = p + of_nat (Suc i))"
    by (auto simp: less_Suc_eq_0_disj)
  then show ?thesis using assms by (simp add: in_block_iff algebra_simps)
qed

lemma chars_at_Cons: "chars_at mem p (c # s) \<longleftrightarrow> mem p = c \<and> chars_at mem (p + 1) s"
  by (auto simp: chars_at_def nth_Cons less_Suc_eq_0_disj algebra_simps split: nat.splits)

lemma strlen_loop_str:
  "chars_at mem p s \<Longrightarrow> NUL \<notin> set s \<Longrightarrow> mem (p + of_nat (length s)) = NUL \<Longrightarrow> strlen_loop mem p len = Some (len + of_nat (length s))"
proof (induction s arbitrary: p len)
  case Nil
  then show ?case by (subst strlen_loop.simps) simp
next
  case (Cons c s)
  then have "strlen_loop mem (p + 1) (len + 1) = Some (len + 1 + of_nat (length s))"
    by (intro Cons.IH) (auto simp: chars_at_Cons algebra_simps)
  then show ?case using Cons.prems by (subst strlen_loop.simps) (auto simp: chars_at_Cons algebra_simps)
qed

lemma strlen_str: "c_str mem p s \<Longrightarrow> strlen mem p = Some (of_nat (length s))"
  using strlen_loop_str [of mem p s 0] by (simp add: strlen_def c_str_def)

text \<open>Writing the characters of a list one after the other.\<close>

primrec put_str :: "string \<Rightarrow> ptr \<Rightarrow> cmem \<Rightarrow> cmem" where
  "put_str [] p mem = mem"
| "put_str (c # s) p mem = put_str s (p + 1) (mem(p := c))"

lemma put_str_append: "put_str (s @ t) p mem = put_str t (p + of_nat (length s)) (put_str s p mem)"
  by (induction s arbitrary: p mem) (simp_all add: algebra_simps)

lemma put_str_apply:
  "length s \<le> 4294967296 \<Longrightarrow> put_str s p mem a = (if in_block p (length s) a then s ! unat (a - p) else mem a)"
proof (induction s arbitrary: p mem)
  case Nil
  then show ?case by (simp add: in_block_def)
next
  case (Cons c s)
  have IH: "put_str s (p + 1) (mem(p := c)) a
      = (if in_block (p + 1) (length s) a then s ! unat (a - (p + 1)) else (mem(p := c)) a)"
    using Cons by simp
  have "\<not> in_block (p + 1) (length s) p"
    using Cons.prems by (simp add: in_block_def unsigned_minus_1_eq_mask mask_eq_exp_minus_1)
  moreover have "unat (a - p) = Suc (unat (a - (p + 1)))" if "a \<noteq> p"
  proof -
    have "a - p \<noteq> 0" using that by simp
    then have "unat (a - p - 1) = unat (a - p) - 1" "0 < unat (a - p)" by (simp_all add: unat_minus_one unat_gt_0)
    then show ?thesis by (simp add: algebra_simps)
  qed
  ultimately show ?case using IH Cons.prems in_block_Suc [of "length s" p a] by (cases "a = p") auto
qed

lemma put_str_at: "length s \<le> 4294967296 \<Longrightarrow> i < length s \<Longrightarrow> put_str s p mem (p + of_nat i) = s ! i"
  by (simp add: put_str_apply in_block_def unat_of_nat_u32)

lemma put_str_elsewhere: "length s \<le> 4294967296 \<Longrightarrow> \<not> in_block p (length s) a \<Longrightarrow> put_str s p mem a = mem a"
  by (simp add: put_str_apply)

lemma c_str_put:
  assumes "NUL \<notin> set s" "length s < 4294967295"
  shows "c_str (put_str (s @ [NUL]) p mem) p s"
proof -
  have "put_str (s @ [NUL]) p mem (p + of_nat i) = (s @ [NUL]) ! i" if "i < length s + 1" for i
    using put_str_at [of "s @ [NUL]" i p mem] that assms(2) by simp
  then show ?thesis using assms by (auto simp: c_str_def chars_at_def nth_append)
qed

lemma apart_start: "apart p n q m \<Longrightarrow> 0 < n \<Longrightarrow> j < m \<Longrightarrow> p \<noteq> q + of_nat j"
  using spec [of "\<lambda>i. i < n \<longrightarrow> (\<forall>j<m. p + of_nat i \<noteq> q + of_nat j)" 0] by (simp add: apart_def)

lemma apart_intervals:
  assumes "unat q + m \<le> unat p" "unat p + n \<le> 4294967296"
  shows "apart p n q m"
  unfolding apart_def
proof (intro allI impI)
  fix i j assume "i < n" "j < m"
  then have "unat (p + of_nat i) = unat p + i" "unat (q + of_nat j) = unat q + j"
    using assms unat_u32_less [of p] by (simp_all add: unat_add_u32 unat_of_nat_u32)
  then show "p + of_nat i \<noteq> q + of_nat j" using \<open>j < m\<close> assms(1) by auto
qed

lemma apart_in_block: "apart p n q m \<Longrightarrow> j < m \<Longrightarrow> n \<le> 4294967296 \<Longrightarrow> \<not> in_block p n (q + of_nat j)"
  unfolding apart_def by (metis in_block_iff)

lemma apart_part:
  assumes "apart p n q m" "k + n' \<le> n" "m' \<le> m"
  shows "apart (p + of_nat k) n' q m'"
  unfolding apart_def
proof (intro allI impI)
  fix i j assume "i < n'" "j < m'"
  then have "p + of_nat (k + i) \<noteq> q + of_nat j" using assms unfolding apart_def by (auto simp del: of_nat_add)
  then show "p + of_nat k + of_nat i \<noteq> q + of_nat j" by (simp add: add.assoc)
qed

lemma apart_prefix: "apart p n q m \<Longrightarrow> n' \<le> n \<Longrightarrow> m' \<le> m \<Longrightarrow> apart p n' q m'"
  using apart_part [of p n q m 0 n' m'] by simp

lemma chars_at_put:
  assumes "chars_at mem q t" "apart p (length s) q (length t)" "length s \<le> 4294967296"
  shows "chars_at (put_str s p mem) q t"
  using assms apart_in_block by (auto simp: chars_at_def put_str_elsewhere)

section \<open>The routines write strings\<close>

lemma strncpy_pad_put:
  "k \<le> n \<Longrightarrow> n < 4294967296 \<Longrightarrow> strncpy_pad dest (of_nat n) (of_nat k) mem = put_str (replicate (n - k) NUL) (dest + of_nat k) mem"
proof (induction "n - k" arbitrary: k mem)
  case 0
  then show ?case by (subst strncpy_pad.simps) simp
next
  case (Suc j)
  have ne: "(of_nat k :: u32) \<noteq> of_nat n" using Suc.hyps(2) Suc.prems by (simp add: u32_eq_iff_unat unat_of_nat_u32)
  have k: "n - k = Suc (n - Suc k)" using Suc.hyps(2) by simp
  have "strncpy_pad dest (of_nat n) (of_nat (Suc k)) (mem(dest + of_nat k := NUL))
      = put_str (replicate (n - Suc k) NUL) (dest + of_nat (Suc k)) (mem(dest + of_nat k := NUL))"
    using Suc.hyps(2) Suc.prems by (intro Suc.hyps(1)) auto
  then show ?case using ne unfolding k by (subst strncpy_pad.simps) (simp add: ac_simps)
qed

lemma strncpy_copy_put:
  assumes "chars_at mem (src + of_nat k) s" "NUL \<notin> set s" "k + length s \<le> n" "n < 4294967296"
    and "k + length s = n \<or> mem (src + of_nat k + of_nat (length s)) = NUL"
    and "apart (dest + of_nat k) (length s) (src + of_nat k) (length s + of_bool (k + length s \<noteq> n))"
  shows "strncpy_copy dest src (of_nat n) (of_nat k) mem = (put_str s (dest + of_nat k) mem, of_nat (k + length s))"
  using assms
proof (induction s arbitrary: k mem)
  case Nil
  then show ?case by (subst strncpy_copy.simps) auto
next
  case (Cons c s)
  let ?d = "dest + of_nat k" and ?s = "src + of_nat k"
  let ?m = "length (c # s) + of_bool (k + length (c # s) \<noteq> n)"
  let ?mem = "mem(?d := c)"
  have ne: "(of_nat k :: u32) \<noteq> of_nat n" using Cons.prems(3,4) by (simp add: u32_eq_iff_unat unat_of_nat_u32)
  have c: "mem ?s = c" "c \<noteq> NUL" using Cons.prems(1,2) by (auto simp: chars_at_Cons)
  have src: "src + of_nat (Suc k) = ?s + 1" "dest + of_nat (Suc k) = ?d + 1" by (simp_all add: ac_simps)
  have keep: "?mem (?s + of_nat j) = mem (?s + of_nat j)" if "j < ?m" for j
    using apart_start [OF Cons.prems(6) _ that] by simp
  have "strncpy_copy dest src (of_nat n) (of_nat (Suc k)) ?mem
    = (put_str s (dest + of_nat (Suc k)) ?mem, of_nat (Suc k + length s))"
  proof (rule Cons.IH)
    show "chars_at ?mem (src + of_nat (Suc k)) s"
      unfolding chars_at_def
    proof (intro allI impI)
      fix i assume "i < length s"
      then show "?mem (src + of_nat (Suc k) + of_nat i) = s ! i"
        using keep [of "Suc i"] Cons.prems(1) by (auto simp: chars_at_def src algebra_simps)
    qed
    show "Suc k + length s = n \<or> ?mem (src + of_nat (Suc k) + of_nat (length s)) = NUL"
      using keep [of "length (c # s)"] Cons.prems(5)
      by (cases "k + length (c # s) = n") (simp_all add: src algebra_simps del: fun_upd_apply)
    show "apart (dest + of_nat (Suc k)) (length s) (src + of_nat (Suc k)) (length s + of_bool (Suc k + length s \<noteq> n))"
      unfolding apart_def src
    proof (intro allI impI)
      fix i j assume "i < length s" "j < length s + of_bool (Suc k + length s \<noteq> n)"
      then have "?d + of_nat (Suc i) \<noteq> ?s + of_nat (Suc j)"
        using Cons.prems(6) unfolding apart_def by (auto simp del: of_nat_Suc)
      then show "?d + 1 + of_nat i \<noteq> ?s + 1 + of_nat j" by (simp add: ac_simps)
    qed
  qed (use Cons.prems in auto)
  then show ?case using ne c by (subst strncpy_copy.simps) (simp add: ac_simps)
qed

text \<open>Copying a string that does not overlap the destination.\<close>

lemma strncpy_put:
  assumes "chars_at mem src s" "NUL \<notin> set s" "length s \<le> n" "n < 4294967296"
    and "length s = n \<or> mem (src + of_nat (length s)) = NUL"
    and "apart dest (length s) src (length s + of_bool (length s \<noteq> n))"
  shows "strncpy dest src (of_nat n) mem = put_str (s @ replicate (n - length s) NUL) dest mem"
  using strncpy_copy_put [of mem src 0 s n dest] strncpy_pad_put [OF assms(3,4)] assms
  by (simp add: strncpy_def put_str_append)

text \<open>A copy of exactly the characters of a string, as the class \<^verbatim>\<open>lib::string\<close> makes it.\<close>

lemma strncpy_exact:
  "chars_at mem src s \<Longrightarrow> NUL \<notin> set s \<Longrightarrow> length s < 4294967296 \<Longrightarrow> apart dest (length s) src (length s)
    \<Longrightarrow> strncpy dest src (of_nat (length s)) mem = put_str s dest mem"
  using strncpy_put [of mem src s "length s" dest] by simp

lemma memset_put: "memset s c n mem = put_str (replicate (unat n) c) s mem"
proof (induction "unat n" arbitrary: s n mem)
  case 0
  then have "n = 0" by (metis unat_0_iff)
  then show ?case by (subst memset.simps) simp
next
  case (Suc k)
  then have "n \<noteq> 0" by auto
  then have "unat (n - 1) = k" using Suc.hyps(2) by (simp add: unat_minus_one flip: Suc.hyps(2))
  then show ?case using Suc.hyps(1) [of "n - 1"] \<open>n \<noteq> 0\<close> by (subst memset.simps) (simp flip: Suc.hyps(2))
qed

lemma strcpy_loop_put:
  assumes "chars_at mem (src + of_nat k) s" "NUL \<notin> set s" "mem (src + of_nat k + of_nat (length s)) = NUL"
    and "apart (dest + of_nat k) (length s + 1) (src + of_nat k) (length s + 1)"
  shows "strcpy_loop dest src (of_nat k) mem = Some (put_str (s @ [NUL]) (dest + of_nat k) mem)"
  using assms
proof (induction s arbitrary: k mem)
  case Nil
  have "dest + of_nat k \<noteq> src + of_nat k" using Nil.prems(4) by (simp add: apart_def)
  then show ?case using Nil by (subst strcpy_loop.simps) (simp add: Let_def)
next
  case (Cons c s)
  let ?d = "dest + of_nat k" and ?s = "src + of_nat k"
  let ?mem = "mem(?d := c)"
  have c: "mem ?s = c" "c \<noteq> NUL" using Cons.prems(1,2) by (auto simp: chars_at_Cons)
  have src: "src + of_nat (Suc k) = ?s + 1" "dest + of_nat (Suc k) = ?d + 1" by (simp_all add: ac_simps)
  have keep: "?mem (?s + of_nat j) = mem (?s + of_nat j)" if "j < length (c # s) + 1" for j
    using apart_start [OF Cons.prems(4) _ that] by simp
  have "strcpy_loop dest src (of_nat (Suc k)) ?mem = Some (put_str (s @ [NUL]) (dest + of_nat (Suc k)) ?mem)"
  proof (rule Cons.IH)
    show "chars_at ?mem (src + of_nat (Suc k)) s"
      unfolding chars_at_def
    proof (intro allI impI)
      fix i assume "i < length s"
      then show "?mem (src + of_nat (Suc k) + of_nat i) = s ! i"
        using keep [of "Suc i"] Cons.prems(1) by (auto simp: chars_at_def src algebra_simps)
    qed
    show "?mem (src + of_nat (Suc k) + of_nat (length s)) = NUL"
      using keep [of "length (c # s)"] Cons.prems(3) by (auto simp: src algebra_simps)
    show "apart (dest + of_nat (Suc k)) (length s + 1) (src + of_nat (Suc k)) (length s + 1)"
      unfolding apart_def src
    proof (intro allI impI)
      fix i j assume "i < length s + 1" "j < length s + 1"
      then have "?d + of_nat (Suc i) \<noteq> ?s + of_nat (Suc j)"
        using Cons.prems(4) unfolding apart_def by (auto simp del: of_nat_Suc)
      then show "?d + 1 + of_nat i \<noteq> ?s + 1 + of_nat j" by (simp add: ac_simps)
    qed
  qed (use Cons.prems in auto)
  moreover have "?mem ?s = c" using keep [of 0] c by simp
  ultimately show ?case using c by (subst strcpy_loop.simps) (simp add: ac_simps Let_def)
qed

section \<open>Strings of the class\<close>

definition string_ok :: "cmem \<Rightarrow> string_obj \<Rightarrow> string \<Rightarrow> bool" where
  "string_ok mem obj s \<longleftrightarrow> c_str mem (str_string obj) s \<and> str_size obj = of_nat (length s) \<and> str_capacity obj = of_nat (length s)"

lemma string_of_cstr_ok:
  assumes "c_str mem p s" "apart fresh (length s + 1) p (length s + 1)"
  shows "\<exists>obj. string_of_cstr fresh p mem = Some (obj, put_str (s @ [NUL]) fresh mem)
    \<and> string_ok (put_str (s @ [NUL]) fresh mem) obj s"
proof -
  have s: "length s < 4294967295" "chars_at mem p s" "NUL \<notin> set s" using assms(1) by (simp_all add: c_str_def)
  have "strncpy fresh p (of_nat (length s)) mem = put_str s fresh mem"
    using s assms(2) by (intro strncpy_exact) (auto intro: apart_prefix)
  then show ?thesis
    using strlen_str [OF assms(1)] c_str_put [OF s(3,1), of fresh mem]
    by (simp add: string_of_cstr_def Let_def string_ok_def put_str_append)
qed

section \<open>Properties\<close>



text \<open>
  The concatenation of two strings writes its terminator one byte behind the block of \<open>len + 1\<close>
  bytes that it allocates, and not at the end of the characters: unless the byte there already is a
  null character, the result is the concatenation followed by that byte.
\<close>

theorem string_plus_overruns:
  assumes "string_ok mem lhs s" "string_ok mem rhs t" "length s + length t + 2 < 4294967295"
    and "apart tmp (length s + length t + 2) (str_string lhs) (length s + 1)"
    and "apart tmp (length s + length t + 2) (str_string rhs) (length t + 1)"
    and "apart fresh (length s + length t + 2) tmp (length s + length t + 2)"
    and garbage: "mem (tmp + of_nat (length s + length t)) = c" "c \<noteq> NUL"
  shows "\<exists>obj mem'. string_plus tmp fresh lhs rhs mem = Some (obj, mem') \<and> string_ok mem' obj (s @ t @ [c])
    \<and> mem' (tmp + of_nat (length s + length t + 1)) = NUL"
proof -
  let ?n = "length s + length t"
  have s: "chars_at mem (str_string lhs) s" "NUL \<notin> set s" "str_size lhs = of_nat (length s)"
    and t: "chars_at mem (str_string rhs) t" "NUL \<notin> set t" "str_size rhs = of_nat (length t)"
    using assms(1,2) by (simp_all add: string_ok_def c_str_def)
  have m1: "strncpy tmp (str_string lhs) (of_nat (length s)) mem = put_str s tmp mem"
    using s assms(3) apart_prefix [OF assms(4)] by (intro strncpy_exact) auto
  have m2: "strncpy (tmp + of_nat (length s)) (str_string rhs) (of_nat (length t)) (put_str s tmp mem) = put_str (s @ t) tmp mem"
    unfolding put_str_append
    using t assms(3) apart_prefix [OF assms(5)] apart_part [OF assms(5)]
    by (intro strncpy_exact) (auto intro!: chars_at_put)
  define mem3 where "mem3 = (put_str (s @ t) tmp mem)(tmp + of_nat ?n + 1 := NUL)"
  have free: "put_str (s @ t) tmp mem (tmp + of_nat ?n) = c"
    using assms(3) garbage(1) by (simp add: put_str_apply in_block_def unat_of_nat_u32 flip: of_nat_add)
  have "put_str ((s @ t @ [c]) @ [NUL]) tmp mem = put_str [c, NUL] (tmp + of_nat ?n) (put_str (s @ t) tmp mem)"
    using put_str_append [of "s @ t" "[c, NUL]" tmp mem] by simp
  also have "\<dots> = mem3" using fun_upd_idem [of "put_str (s @ t) tmp mem" "tmp + of_nat ?n" c] free by (simp add: mem3_def)
  finally have mem3: "mem3 = put_str ((s @ t @ [c]) @ [NUL]) tmp mem" by simp
  have str: "c_str mem3 tmp (s @ t @ [c])"
    unfolding mem3 using s(2) t(2) garbage(2) assms(3) by (intro c_str_put) auto
  have plus: "string_plus tmp fresh lhs rhs mem = string_of_cstr fresh tmp mem3"
    by (simp add: string_plus_def s(3) t(3) m1 m2 mem3_def Let_def ac_simps)
  have "\<not> in_block fresh (?n + 2) (tmp + of_nat (?n + 1))"
    using apart_in_block [OF assms(6), of "?n + 1"] assms(3) by simp
  moreover have "mem3 (tmp + of_nat (?n + 1)) = NUL" by (simp add: mem3_def ac_simps)
  ultimately show ?thesis
    using plus string_of_cstr_ok [OF str, of fresh] assms(3,6)
      put_str_elsewhere [of "(s @ t @ [c]) @ [NUL]" fresh "tmp + of_nat (?n + 1)" mem3]
    by auto
qed

theorem string_plus_overruns_witness:
  "\<exists>obj mem'. string_plus 0x200 0x300 \<lparr>str_capacity = 1, str_size = 1, str_string = 0x100\<rparr>
      \<lparr>str_capacity = 1, str_size = 1, str_string = 0x110\<rparr>
      ((\<lambda>_. NUL)(0x100 := CHR ''a'', 0x110 := CHR ''b'', 0x202 := CHR ''x'')) = Some (obj, mem')
    \<and> string_ok mem' obj ''abx''"
proof -
  let ?mem = "(\<lambda>_. NUL)(0x100 := CHR ''a'', 0x110 := CHR ''b'', 0x202 := CHR ''x'') :: cmem"
  let ?l = "\<lparr>str_capacity = 1, str_size = 1, str_string = 0x100\<rparr>"
  let ?r = "\<lparr>str_capacity = 1, str_size = 1, str_string = 0x110\<rparr>"
  have "string_ok ?mem ?l ''a''" "string_ok ?mem ?r ''b''"
    by (simp_all add: string_ok_def c_str_def chars_at_def)
  moreover have "apart (0x200 :: ptr) (length ''a'' + length ''b'' + 2) (str_string ?l) (length ''a'' + 1)"
    "apart (0x200 :: ptr) (length ''a'' + length ''b'' + 2) (str_string ?r) (length ''b'' + 1)"
    "apart (0x300 :: ptr) (length ''a'' + length ''b'' + 2) 0x200 (length ''a'' + length ''b'' + 2)"
    by (rule apart_intervals; simp)+
  moreover have "?mem (0x200 + of_nat (length ''a'' + length ''b'')) = CHR ''x''" by simp
  ultimately show ?thesis
    using string_plus_overruns [of ?mem ?l "''a''" ?r "''b''" "0x200" "0x300" "CHR ''x''"] by auto
qed

end
