(* ===== verification/Forward_List.thy ===== *)
theory Forward_List
  imports Kernel_Prelude
begin

text \<open>
  The singly linked list of \<^verbatim>\<open>libkernelcxx/include/forward_list.hpp\<close> on
  \<^verbatim>\<open>impl/basic_forward_list.hpp\<close>. The nodes live in a heap that maps addresses to the two fields of a
  node. A list object is given by the address of its node \<^verbatim>\<open>before_begin_\<close>, an iterator by the address
  of its current node. The address that the allocator returns for a new node is an argument, the
  addresses that go back to the allocator are kept in their order.
\<close>

section \<open>Definitions\<close>

record 'a fwd_heap =
  fw_next :: "ptr \<Rightarrow> ptr"
  fw_value :: "ptr \<Rightarrow> 'a"
  fw_freed :: "ptr list"

definition basic_push_after :: "ptr \<Rightarrow> ptr \<Rightarrow> 'a fwd_heap \<Rightarrow> ('a fwd_heap \<times> ptr) result" where
  "basic_push_after after node s =
     (if after = nullptr \<or> node = nullptr then Inl Undef
      else let s1 = s\<lparr>fw_next := (fw_next s)(node := fw_next s after)\<rparr>
      in Inr (s1\<lparr>fw_next := (fw_next s1)(after := node)\<rparr>, node))"

definition basic_erase_after :: "ptr \<Rightarrow> 'a fwd_heap \<Rightarrow> ('a fwd_heap \<times> ptr) result" where
  "basic_erase_after after s =
     (if after = nullptr then Inl Undef
      else let erased = fw_next s after
      in if erased = nullptr then Inl Undef
         else Inr (s\<lparr>fw_next := (fw_next s)(after := fw_next s erased)\<rparr>, erased))"

definition fwd_before_begin :: "ptr \<Rightarrow> ptr" where
  "fwd_before_begin l = l"

definition fwd_begin :: "ptr \<Rightarrow> 'a fwd_heap \<Rightarrow> ptr" where
  "fwd_begin l s = fw_next s (fwd_before_begin l)"

definition fwd_end :: ptr where
  "fwd_end = nullptr"

definition fwd_deref :: "ptr \<Rightarrow> 'a fwd_heap \<Rightarrow> 'a result" where
  "fwd_deref it s = (if it = nullptr then Inl Undef else Inr (fw_value s it))"

definition fwd_inc :: "ptr \<Rightarrow> 'a fwd_heap \<Rightarrow> ptr result" where
  "fwd_inc it s = (if it = nullptr then Inl Undef else Inr (fw_next s it))"

fun fwd_advance :: "ptr \<Rightarrow> nat \<Rightarrow> 'a fwd_heap \<Rightarrow> ptr result" where
  "fwd_advance it 0 s = Inr it"
| "fwd_advance it (Suc n) s = bindE (fwd_inc it s) (\<lambda>it1. fwd_advance it1 n s)"

definition fwd_next :: "ptr \<Rightarrow> 'a fwd_heap \<Rightarrow> ptr result" where
  "fwd_next it s = fwd_advance it 1 s"

definition fwd_front :: "ptr \<Rightarrow> 'a fwd_heap \<Rightarrow> 'a result" where
  "fwd_front l s = fwd_deref (fwd_begin l s) s"

definition fwd_empty :: "ptr \<Rightarrow> 'a fwd_heap \<Rightarrow> bool" where
  "fwd_empty l s \<longleftrightarrow> fwd_begin l s = fwd_end"

definition fwd_erase_after :: "ptr \<Rightarrow> 'a fwd_heap \<Rightarrow> 'a fwd_heap result" where
  "fwd_erase_after position s =
     bindE (basic_erase_after position s) (\<lambda>(s1, erased). Inr (s1\<lparr>fw_freed := fw_freed s1 @ [erased]\<rparr>))"

definition fwd_pop_front :: "ptr \<Rightarrow> 'a fwd_heap \<Rightarrow> 'a fwd_heap result" where
  "fwd_pop_front l s = fwd_erase_after (fwd_before_begin l) s"

definition fwd_push_after :: "ptr \<Rightarrow> ptr \<Rightarrow> 'a \<Rightarrow> 'a fwd_heap \<Rightarrow> ('a fwd_heap \<times> ptr) result" where
  "fwd_push_after node position v s =
     (if node = nullptr then Inr (s, fwd_end)
      else basic_push_after position node (s\<lparr>fw_value := (fw_value s)(node := v)\<rparr>))"

definition fwd_push_front :: "ptr \<Rightarrow> ptr \<Rightarrow> 'a \<Rightarrow> 'a fwd_heap \<Rightarrow> ('a fwd_heap \<times> ptr) result" where
  "fwd_push_front node l v s = fwd_push_after node (fwd_before_begin l) v s"

definition fwd_clear :: "ptr \<Rightarrow> 'a fwd_heap \<Rightarrow> 'a fwd_heap result" where
  "fwd_clear l s = while_result (\<lambda>s. \<not> fwd_empty l s) (fwd_erase_after (fwd_before_begin l)) s"

definition fwd_destroy :: "ptr \<Rightarrow> 'a fwd_heap \<Rightarrow> 'a fwd_heap result" where
  "fwd_destroy l s = while_result (\<lambda>s. \<not> fwd_empty l s) (fwd_pop_front l) s"

text \<open>The loop of \<^verbatim>\<open>remove\<close>, on the iterator, the number of removed nodes and the heap.\<close>

definition fwd_remove_step :: "'a \<Rightarrow> ptr \<times> u32 \<times> 'a fwd_heap \<Rightarrow> (ptr \<times> u32 \<times> 'a fwd_heap) result" where
  "fwd_remove_step v = (\<lambda>(it, removed, s).
     bindE (fwd_next it s) (\<lambda>next_it.
       if next_it = fwd_end then Inr (it, removed, s)
       else bindE (fwd_deref next_it s) (\<lambda>x.
         if x = v then bindE (fwd_erase_after it s) (\<lambda>s1. Inr (it, removed + 1, s1))
         else bindE (fwd_inc it s) (\<lambda>it1. Inr (it1, removed, s)))))"

definition fwd_remove :: "ptr \<Rightarrow> 'a \<Rightarrow> 'a fwd_heap \<Rightarrow> ('a fwd_heap \<times> u32) result" where
  "fwd_remove l v s =
     bindE (while_result (\<lambda>(it, removed, s). fwd_next it s \<noteq> Inr fwd_end) (fwd_remove_step v) (fwd_before_begin l, 0, s))
       (\<lambda>(it, removed, s1). Inr (s1, removed))"

text \<open>
  The interface of the list for loops: its ends, the iterators for lists that are not changed, and their comparisons. A constant iterator holds the address of a node, like an iterator.
\<close>

definition list_before_begin :: "ptr \<Rightarrow> ptr" where
  "list_before_begin l = fwd_before_begin l"

definition list_begin :: "ptr \<Rightarrow> 'a fwd_heap \<Rightarrow> ptr" where
  "list_begin l s = fwd_begin l s"

definition list_end :: ptr where
  "list_end = fwd_end"

definition const_of :: "ptr \<Rightarrow> ptr" where
  "const_of it = it"

definition const_deref :: "ptr \<Rightarrow> 'a fwd_heap \<Rightarrow> 'a result" where
  "const_deref it s = (if it = nullptr then Inl Undef else Inr (fw_value s it))"

definition const_inc :: "ptr \<Rightarrow> 'a fwd_heap \<Rightarrow> ptr result" where
  "const_inc it s = (if it = nullptr then Inl Undef else Inr (fw_next s it))"

definition const_post_inc :: "ptr \<Rightarrow> 'a fwd_heap \<Rightarrow> (ptr \<times> ptr) result" where
  "const_post_inc it s = (let tmp = it in bindE (const_inc it s) (\<lambda>it1. Inr (tmp, it1)))"

definition const_eq :: "ptr \<Rightarrow> ptr \<Rightarrow> bool" where
  "const_eq it other \<longleftrightarrow> it = other"

definition const_neq :: "ptr \<Rightarrow> ptr \<Rightarrow> bool" where
  "const_neq it other \<longleftrightarrow> it \<noteq> other"

definition iter_eq :: "ptr \<Rightarrow> ptr \<Rightarrow> bool" where
  "iter_eq it other \<longleftrightarrow> it = other"

definition iter_neq :: "ptr \<Rightarrow> ptr \<Rightarrow> bool" where
  "iter_neq it other \<longleftrightarrow> it \<noteq> other"

text \<open>What the compiler makes of a loop over a constant list: the state of the loop is updated with the value of each node.\<close>

definition fwd_for :: "('a \<Rightarrow> 'b \<Rightarrow> 'b result) \<Rightarrow> ptr \<Rightarrow> 'a fwd_heap \<Rightarrow> 'b \<Rightarrow> 'b result" where
  "fwd_for body l s b =
     bindE (while_result (\<lambda>(it, b). const_neq it (const_of list_end))
         (\<lambda>(it, b). bindE (const_deref it s) (\<lambda>x. bindE (body x b) (\<lambda>b1. bindE (const_inc it s) (\<lambda>it1. Inr (it1, b1)))))
         (const_of (list_begin l s), b))
       (\<lambda>(it, b1). Inr b1)"

text \<open>The same on a list of values.\<close>

primrec fold_result :: "('a \<Rightarrow> 'b \<Rightarrow> 'b result) \<Rightarrow> 'a list \<Rightarrow> 'b \<Rightarrow> 'b result" where
  "fold_result f [] b = Inr b"
| "fold_result f (x # xs) b = bindE (f x b) (fold_result f xs)"

section \<open>Lists in the heap\<close>

text \<open>The nodes from an address on, with their values.\<close>

primrec fwd_path :: "'a fwd_heap \<Rightarrow> ptr \<Rightarrow> (ptr \<times> 'a) list \<Rightarrow> bool" where
  "fwd_path s p [] \<longleftrightarrow> p = nullptr"
| "fwd_path s p (n # ns) \<longleftrightarrow> p = fst n \<and> p \<noteq> nullptr \<and> fw_value s p = snd n \<and> fwd_path s (fw_next s p) ns"

definition fwd_nodes :: "ptr \<Rightarrow> 'a fwd_heap \<Rightarrow> (ptr \<times> 'a) list \<Rightarrow> bool" where
  "fwd_nodes l s ns \<longleftrightarrow> l \<noteq> nullptr \<and> distinct (l # map fst ns) \<and> fwd_path s (fw_next s l) ns"

lemma fwd_path_cong:
  "(\<And>n. n \<in> set ns \<Longrightarrow> fw_next s' (fst n) = fw_next s (fst n) \<and> fw_value s' (fst n) = fw_value s (fst n))
    \<Longrightarrow> fwd_path s' p ns \<longleftrightarrow> fwd_path s p ns"
proof (induction ns arbitrary: p)
  case (Cons n ns)
  then show ?case by (cases "p = fst n") auto
qed simp

text \<open>A path of nodes up to an address, for positions in the middle of a list.\<close>

primrec fwd_seg :: "'a fwd_heap \<Rightarrow> ptr \<Rightarrow> (ptr \<times> 'a) list \<Rightarrow> ptr \<Rightarrow> bool" where
  "fwd_seg s p [] q \<longleftrightarrow> p = q"
| "fwd_seg s p (n # ns) q \<longleftrightarrow> p = fst n \<and> p \<noteq> nullptr \<and> fw_value s p = snd n \<and> fwd_seg s (fw_next s p) ns q"

lemma fwd_path_append: "fwd_path s p (xs @ ys) \<longleftrightarrow> (\<exists>q. fwd_seg s p xs q \<and> fwd_path s q ys)"
  by (induction xs arbitrary: p) auto

lemma fwd_seg_cong:
  "(\<And>n. n \<in> set ns \<Longrightarrow> fw_next s' (fst n) = fw_next s (fst n) \<and> fw_value s' (fst n) = fw_value s (fst n))
    \<Longrightarrow> fwd_seg s' p ns q \<longleftrightarrow> fwd_seg s p ns q"
proof (induction ns arbitrary: p)
  case (Cons n ns)
  then show ?case by (cases "p = fst n") auto
qed simp

lemma fwd_empty_nodes: "fwd_nodes l s ns \<Longrightarrow> fwd_empty l s \<longleftrightarrow> ns = []"
  by (cases ns) (auto simp: fwd_nodes_def fwd_empty_def fwd_begin_def fwd_before_begin_def fwd_end_def)

lemma fwd_push_front_nodes:
  assumes "fwd_nodes l s ns" "node \<noteq> nullptr" "node \<notin> set (l # map fst ns)"
  shows "\<exists>s'. fwd_push_front node l v s = Inr (s', node) \<and> fwd_nodes l s' ((node, v) # ns) \<and> fw_freed s' = fw_freed s"
proof -
  define s' where "s' = s\<lparr>fw_value := (fw_value s)(node := v), fw_next := (fw_next s)(node := fw_next s l, l := node)\<rparr>"
  have l: "l \<noteq> nullptr" "l \<noteq> node" "l \<notin> fst ` set ns" using assms by (auto simp: fwd_nodes_def)
  have "fwd_path s' (fw_next s l) ns \<longleftrightarrow> fwd_path s (fw_next s l) ns"
    using assms(3) l by (intro fwd_path_cong) (force simp: s'_def)
  then have "fwd_nodes l s' ((node, v) # ns)"
    using assms l by (auto simp: fwd_nodes_def s'_def)
  moreover have "fwd_push_front node l v s = Inr (s', node)"
    using assms(2) l by (simp add: fwd_push_front_def fwd_push_after_def basic_push_after_def fwd_before_begin_def s'_def)
  ultimately show ?thesis by (auto simp: s'_def)
qed

text \<open>A position: the node before the begin, or the last node of a prefix of the list.\<close>

definition fwd_pos :: "ptr \<Rightarrow> (ptr \<times> 'a) list \<Rightarrow> ptr" where
  "fwd_pos l xs = (if xs = [] then l else fst (last xs))"

lemma fwd_pos_simps [simp]: "fwd_pos l [] = l" "fwd_pos l (xs @ [x]) = fst x"
  by (simp_all add: fwd_pos_def)

lemma fwd_seg_snoc:
  "fwd_seg s p (xs @ [x]) q \<longleftrightarrow> fwd_seg s p xs (fst x) \<and> fst x \<noteq> nullptr \<and> fw_value s (fst x) = snd x \<and> fw_next s (fst x) = q"
  by (induction xs arbitrary: p) auto

lemma fwd_nodes_pos:
  assumes "fwd_nodes l s (xs @ ys)"
  shows "fwd_pos l xs \<noteq> nullptr" "fwd_path s (fw_next s (fwd_pos l xs)) ys"
    "fwd_pos l xs \<notin> fst ` set ys"
proof -
  have n: "l \<noteq> nullptr" "distinct (l # map fst (xs @ ys))" "fwd_path s (fw_next s l) (xs @ ys)"
    using assms by (auto simp: fwd_nodes_def)
  show "fwd_pos l xs \<noteq> nullptr" "fwd_path s (fw_next s (fwd_pos l xs)) ys" "fwd_pos l xs \<notin> fst ` set ys"
    using n by (cases xs rule: rev_cases; auto simp: fwd_path_append fwd_seg_snoc)+
qed

text \<open>Erasing the node behind a position.\<close>

lemma fwd_erase_after_nodes:
  assumes "fwd_nodes l s (xs @ n # ys)"
  shows "\<exists>s'. fwd_erase_after (fwd_pos l xs) s = Inr s' \<and> fwd_nodes l s' (xs @ ys) \<and> fw_freed s' = fw_freed s @ [fst n]"
proof -
  let ?pos = "fwd_pos l xs"
  have d: "distinct (l # map fst (xs @ n # ys))" and l: "l \<noteq> nullptr" and p: "fwd_path s (fw_next s l) (xs @ n # ys)"
    using assms by (auto simp: fwd_nodes_def)
  note at = fwd_nodes_pos [OF assms]
  have q: "fw_next s ?pos = fst n" "fst n \<noteq> nullptr" "fwd_path s (fw_next s (fst n)) ys" using at(2) by auto
  define s' where "s' = s\<lparr>fw_next := (fw_next s)(?pos := fw_next s (fst n)), fw_freed := fw_freed s @ [fst n]\<rparr>"
  have "\<And>m. m \<in> set ys \<Longrightarrow> fw_next s' (fst m) = fw_next s (fst m) \<and> fw_value s' (fst m) = fw_value s (fst m)"
    using at(3) by (force simp: s'_def)
  from fwd_path_cong [OF this, where p = "fw_next s (fst n)"] have ys: "fwd_path s' (fw_next s (fst n)) ys" using q(3) by simp
  have "fwd_nodes l s' (xs @ ys)"
  proof (cases xs rule: rev_cases)
    case Nil
    then show ?thesis using ys d l by (auto simp: fwd_nodes_def s'_def)
  next
    case (snoc zs z)
    have z: "fwd_seg s (fw_next s l) zs (fst z)" "fst z \<noteq> nullptr" "fw_value s (fst z) = snd z"
      using p snoc by (auto simp: fwd_path_append fwd_seg_snoc)
    have "fst z \<notin> fst ` set zs" using d snoc by auto
    then have "fst m \<noteq> fst z" if "m \<in> set zs" for m using that by (metis imageI)
    then have "\<And>m. m \<in> set zs \<Longrightarrow> fw_next s' (fst m) = fw_next s (fst m) \<and> fw_value s' (fst m) = fw_value s (fst m)"
      using snoc by (simp add: s'_def)
    from fwd_seg_cong [OF this, where p = "fw_next s l" and q = "fst z"] have "fwd_seg s' (fw_next s l) zs (fst z)" using z(1) by simp
    then have "fwd_path s' (fw_next s l) (zs @ z # ys)" using ys z snoc by (auto simp: fwd_path_append s'_def)
    moreover have "fw_next s' l = fw_next s l" using d snoc by (auto simp: s'_def)
    ultimately show ?thesis using d l snoc by (auto simp: fwd_nodes_def)
  qed
  moreover have "fwd_erase_after ?pos s = Inr s'"
    using at(1) q by (simp add: fwd_erase_after_def basic_erase_after_def s'_def Let_def)
  ultimately show ?thesis by (auto simp: s'_def)
qed

lemma fwd_next_pos: "fwd_nodes l s (xs @ ys) \<Longrightarrow> fwd_next (fwd_pos l xs) s = Inr (fw_next s (fwd_pos l xs))"
  using fwd_nodes_pos(1) by (auto simp: fwd_next_def fwd_inc_def)

lemma fwd_remove_loop:
  assumes "fwd_nodes l s (xs @ ys)"
  shows "\<exists>it s'. while_result (\<lambda>(it, removed, s). fwd_next it s \<noteq> Inr fwd_end) (fwd_remove_step v) (fwd_pos l xs, k, s)
      = Inr (it, k + of_nat (length (filter (\<lambda>n. snd n = v) ys)), s')
    \<and> fwd_nodes l s' (xs @ filter (\<lambda>n. snd n \<noteq> v) ys)
    \<and> fw_freed s' = fw_freed s @ map fst (filter (\<lambda>n. snd n = v) ys)"
  using assms
proof (induction ys arbitrary: xs k s)
  case Nil
  note at = fwd_nodes_pos [OF Nil.prems] fwd_next_pos [OF Nil.prems]
  then show ?case using Nil.prems by (subst while_result_unfold) (simp add: fwd_end_def)
next
  case (Cons n ys)
  note at = fwd_nodes_pos [OF Cons.prems] fwd_next_pos [OF Cons.prems]
  have nx: "fw_next s (fwd_pos l xs) = fst n" "fst n \<noteq> nullptr" "fw_value s (fst n) = snd n" using at(2) by auto
  have go: "fwd_next (fwd_pos l xs) s \<noteq> Inr fwd_end" using at(4) nx by (simp add: fwd_end_def)
  have inc: "fwd_inc (fwd_pos l xs) s = Inr (fst n)" using at(1) nx(1) by (simp add: fwd_inc_def)
  show ?case
  proof (cases "snd n = v")
    case True
    obtain s1 where s1: "fwd_erase_after (fwd_pos l xs) s = Inr s1" "fwd_nodes l s1 (xs @ ys)" "fw_freed s1 = fw_freed s @ [fst n]"
      using fwd_erase_after_nodes [OF Cons.prems] by blast
    have "fwd_remove_step v (fwd_pos l xs, k, s) = Inr (fwd_pos l xs, k + 1, s1)"
      using at(4) nx s1(1) True by (simp add: fwd_remove_step_def fwd_deref_def fwd_end_def)
    then show ?thesis using Cons.IH [OF s1(2), of "k + 1"] go True s1(3)
      by (subst while_result_unfold) (auto simp: ac_simps)
  next
    case False
    have "fwd_remove_step v (fwd_pos l xs, k, s) = Inr (fwd_pos l (xs @ [n]), k, s)"
      using at(4) nx inc False by (simp add: fwd_remove_step_def fwd_deref_def fwd_end_def)
    then show ?thesis using Cons.IH [of s "xs @ [n]" k] Cons.prems go False
      by (subst while_result_unfold) auto
  qed
qed

lemma fwd_clear_loop:
  "fwd_nodes l s ns \<Longrightarrow> \<exists>s'. while_result (\<lambda>s. \<not> fwd_empty l s) (fwd_erase_after (fwd_before_begin l)) s = Inr s'
    \<and> fwd_nodes l s' [] \<and> fw_freed s' = fw_freed s @ map fst ns"
proof (induction ns arbitrary: s)
  case Nil
  then show ?case using fwd_empty_nodes [OF Nil] by (subst while_result_unfold) simp
next
  case (Cons n ns)
  obtain s1 where s1: "fwd_erase_after l s = Inr s1" "fwd_nodes l s1 ns" "fw_freed s1 = fw_freed s @ [fst n]"
    using fwd_erase_after_nodes [of l s "[]" n ns] Cons.prems by auto
  then show ?case
    using Cons.IH [OF s1(2)] fwd_empty_nodes [OF Cons.prems] by (subst while_result_unfold) (auto simp: fwd_before_begin_def)
qed

lemma fwd_for_nodes:
  assumes "fwd_nodes l s ns"
  shows "fwd_for body l s b = fold_result body (map snd ns) b"
proof -
  let ?step = "\<lambda>(it, b). bindE (const_deref it s) (\<lambda>x. bindE (body x b) (\<lambda>b1. bindE (const_inc it s) (\<lambda>it1. Inr (it1, b1))))"
  have "bindE (while_result (\<lambda>(it, b). const_neq it nullptr) ?step (p, b)) (\<lambda>(it, b1). Inr b1) = fold_result body (map snd ns) b" if "fwd_path s p ns" for p
    using that
  proof (induction ns arbitrary: p b)
    case Nil
    then show ?case by (subst while_result_unfold) (simp add: const_neq_def)
  next
    case (Cons n ns)
    then show ?case
      by (subst while_result_unfold) (auto simp: const_neq_def const_deref_def const_inc_def intro!: bindE_ext)
  qed
  then show ?thesis using assms
    by (simp add: fwd_for_def fwd_nodes_def const_of_def list_end_def list_begin_def fwd_end_def fwd_begin_def fwd_before_begin_def)
qed

section \<open>Properties\<close>

text \<open>
  C17: the forward list refines a functional list. On a list object whose nodes hold \<open>ns\<close>: pushing in
  front adds a node that is not in use yet, popping frees the first node, removing a value frees exactly
  the nodes that hold it and keeps the others in their order, and clearing, as well as the destructor,
  frees every node once. A loop over the list runs its body on the values in their order, up to the first error.
\<close>

theorem forward_list_refines:
  assumes "fwd_nodes l s ns"
  shows "(node \<noteq> nullptr \<and> node \<notin> set (l # map fst ns) \<longrightarrow>
        (\<exists>s'. fwd_push_front node l v s = Inr (s', node) \<and> fwd_nodes l s' ((node, v) # ns) \<and> fw_freed s' = fw_freed s))
    \<and> fwd_push_front nullptr l v s = Inr (s, fwd_end)
    \<and> (case ns of [] \<Rightarrow> fwd_pop_front l s = Inl Undef \<and> fwd_front l s = Inl Undef \<and> fwd_empty l s
       | n # ns' \<Rightarrow> fwd_front l s = Inr (snd n) \<and> \<not> fwd_empty l s
           \<and> (\<exists>s'. fwd_pop_front l s = Inr s' \<and> fwd_nodes l s' ns' \<and> fw_freed s' = fw_freed s @ [fst n]))
    \<and> (\<exists>s'. fwd_remove l v s = Inr (s', of_nat (length (filter (\<lambda>n. snd n = v) ns)))
         \<and> fwd_nodes l s' (filter (\<lambda>n. snd n \<noteq> v) ns)
         \<and> fw_freed s' = fw_freed s @ map fst (filter (\<lambda>n. snd n = v) ns))
    \<and> (\<exists>s'. fwd_clear l s = Inr s' \<and> fwd_destroy l s = Inr s' \<and> fwd_nodes l s' [] \<and> fw_freed s' = fw_freed s @ map fst ns)
    \<and> fwd_for body l s b = fold_result body (map snd ns) b"
proof (intro conjI impI)
  show "fwd_for body l s b = fold_result body (map snd ns) b" by (rule fwd_for_nodes [OF assms])
  show "\<exists>s'. fwd_push_front node l v s = Inr (s', node) \<and> fwd_nodes l s' ((node, v) # ns) \<and> fw_freed s' = fw_freed s"
    if "node \<noteq> nullptr \<and> node \<notin> set (l # map fst ns)"
    using fwd_push_front_nodes [OF assms] that by blast
  show "fwd_push_front nullptr l v s = Inr (s, fwd_end)" by (simp add: fwd_push_front_def fwd_push_after_def)
  show "case ns of [] \<Rightarrow> fwd_pop_front l s = Inl Undef \<and> fwd_front l s = Inl Undef \<and> fwd_empty l s
      | n # ns' \<Rightarrow> fwd_front l s = Inr (snd n) \<and> \<not> fwd_empty l s
          \<and> (\<exists>s'. fwd_pop_front l s = Inr s' \<and> fwd_nodes l s' ns' \<and> fw_freed s' = fw_freed s @ [fst n])"
  proof (cases ns)
    case Nil
    then show ?thesis using assms fwd_empty_nodes [OF assms]
      by (simp add: fwd_pop_front_def fwd_erase_after_def basic_erase_after_def fwd_front_def fwd_deref_def fwd_begin_def
          fwd_before_begin_def fwd_nodes_def)
  next
    case (Cons n ns')
    then show ?thesis using assms fwd_empty_nodes [OF assms] fwd_erase_after_nodes [of l s "[]" n ns']
      by (auto simp: fwd_front_def fwd_deref_def fwd_begin_def fwd_before_begin_def fwd_nodes_def fwd_pop_front_def)
  qed
  show "\<exists>s'. fwd_remove l v s = Inr (s', of_nat (length (filter (\<lambda>n. snd n = v) ns)))
      \<and> fwd_nodes l s' (filter (\<lambda>n. snd n \<noteq> v) ns)
      \<and> fw_freed s' = fw_freed s @ map fst (filter (\<lambda>n. snd n = v) ns)"
    using fwd_remove_loop [of l s "[]" ns v 0] assms by (auto simp: fwd_remove_def fwd_before_begin_def)
  have "fwd_pop_front l = fwd_erase_after (fwd_before_begin l)" for s :: "'a fwd_heap" by (rule ext) (simp add: fwd_pop_front_def)
  then show "\<exists>s'. fwd_clear l s = Inr s' \<and> fwd_destroy l s = Inr s' \<and> fwd_nodes l s' [] \<and> fw_freed s' = fw_freed s @ map fst ns"
    using fwd_clear_loop [OF assms] by (simp add: fwd_clear_def fwd_destroy_def fwd_pop_front_def [abs_def])
qed

theorem forward_list_refines_witness:
  "\<exists>s'. fwd_remove 0x10 (7 :: nat) \<lparr>fw_next = (\<lambda>_. nullptr)(0x10 := 0x20, 0x20 := 0x30), fw_value = (\<lambda>_. 7)(0x30 := 8), fw_freed = []\<rparr>
    = Inr (s', 1) \<and> fw_freed s' = [0x20]"
proof -
  have "fwd_nodes 0x10 \<lparr>fw_next = (\<lambda>_. nullptr)(0x10 := 0x20, 0x20 := 0x30), fw_value = (\<lambda>_. 7 :: nat)(0x30 := 8), fw_freed = []\<rparr>
      [(0x20, 7), (0x30, 8)]" by (simp add: fwd_nodes_def)
  from forward_list_refines [OF this, where node = "0x40" and v = 7 and body = "\<lambda>x b. Inr (b + x)" and b = 0] show ?thesis by auto
qed

end
