(* ===== verification/Ownership.thy ===== *)
theory Ownership
  imports Kernel_Prelude
begin

text \<open>
  The owning types of \<^verbatim>\<open>libkernelcxx\<close>: \<^verbatim>\<open>unique_ptr\<close> and its deleters, \<^verbatim>\<open>optional\<close>, and the atomic variable with the
  guards of static objects that \<^verbatim>\<open>cxxabi.cpp\<close> builds on it. Objects are given by their addresses. The state keeps
  the objects that exist and, in their order, those that have been deleted, and whether an object was ever deleted
  that did not exist; the variables of the program
  that hold a \<^verbatim>\<open>unique_ptr\<close> are numbered.
\<close>

section \<open>Atomic variables\<close>

text \<open>Each operation is one locked instruction: it returns a value and leaves a value in the variable.\<close>

definition atomic_load :: "'a \<Rightarrow> 'a" where
  "atomic_load x = x"

definition atomic_store :: "'a \<Rightarrow> 'a \<Rightarrow> 'a" where
  "atomic_store v x = v"

definition atomic_exchange :: "'a \<Rightarrow> 'a \<Rightarrow> 'a \<times> 'a" where
  "atomic_exchange v x = (x, v)"

definition atomic_compare_exchange :: "'a \<Rightarrow> 'a \<Rightarrow> 'a \<Rightarrow> bool \<times> 'a" where
  "atomic_compare_exchange expected desired x = (if x = expected then (True, desired) else (False, x))"

definition atomic_fetch_add :: "'w :: len word \<Rightarrow> 'w word \<Rightarrow> 'w word \<times> 'w word" where
  "atomic_fetch_add increment x = (x, x + increment)"

definition atomic_fetch_sub :: "'w :: len word \<Rightarrow> 'w word \<Rightarrow> 'w word \<times> 'w word" where
  "atomic_fetch_sub decrement x = atomic_fetch_add (- decrement) x"

definition atomic_pre_inc :: "'w :: len word \<Rightarrow> 'w word \<times> 'w word" where
  "atomic_pre_inc x = (let (value, x1) = atomic_fetch_add 1 x in (value + 1, x1))"

definition atomic_post_inc :: "'w :: len word \<Rightarrow> 'w word \<times> 'w word" where
  "atomic_post_inc x = atomic_fetch_add 1 x"

definition atomic_pre_dec :: "'w :: len word \<Rightarrow> 'w word \<times> 'w word" where
  "atomic_pre_dec x = (let (value, x1) = atomic_fetch_sub 1 x in (value - 1, x1))"

definition atomic_post_dec :: "'w :: len word \<Rightarrow> 'w word \<times> 'w word" where
  "atomic_post_dec x = atomic_fetch_sub 1 x"

text \<open>The guard of a static object.\<close>

definition cxa_guard_acquire :: "bool \<Rightarrow> int \<times> bool" where
  "cxa_guard_acquire g = (let (done, g1) = atomic_compare_exchange False True g in (if done then 1 else 0, g1))"

definition cxa_guard_release :: "bool \<Rightarrow> bool" where
  "cxa_guard_release g = g"

definition cxa_guard_abort :: "bool \<Rightarrow> bool" where
  "cxa_guard_abort g = snd (atomic_compare_exchange True False g)"

text \<open>
  A use of a static object, as it is compiled: the constructor runs if the guard is acquired. The constructor
  may fail. Returned are whether it ran and the guard.
\<close>

definition static_use :: "bool \<Rightarrow> bool \<Rightarrow> bool \<times> bool" where
  "static_use fails g =
     (let (acquired, g1) = cxa_guard_acquire g
      in if acquired = 0 then (False, g1)
         else (True, if fails then cxa_guard_abort g1 else cxa_guard_release g1))"

section \<open>Pointers that own\<close>

record objects =
  ob_live :: "ptr set"
  ob_deleted :: "ptr list"
  ob_double_free :: bool
  ob_var :: "nat \<Rightarrow> ptr"

definition default_delete :: "ptr \<Rightarrow> objects \<Rightarrow> objects" where
  "default_delete p s = s\<lparr>ob_live := ob_live s - {p}, ob_deleted := ob_deleted s @ [p],
     ob_double_free := ob_double_free s \<or> p \<notin> ob_live s\<rparr>"

definition up_default :: "nat \<Rightarrow> objects \<Rightarrow> objects" where
  "up_default v s = s\<lparr>ob_var := (ob_var s)(v := nullptr)\<rparr>"

definition up_construct :: "nat \<Rightarrow> ptr \<Rightarrow> objects \<Rightarrow> objects" where
  "up_construct v p s = s\<lparr>ob_var := (ob_var s)(v := p)\<rparr>"

text \<open>The fields of the new pointer are null first, then they are swapped with those of the other one.\<close>

definition up_move_construct :: "nat \<Rightarrow> nat \<Rightarrow> objects \<Rightarrow> objects" where
  "up_move_construct v other s =
     (let s1 = up_default v s;
          tmp = ob_var s1 other;
          s2 = s1\<lparr>ob_var := (ob_var s1)(other := ob_var s1 v)\<rparr>
      in s2\<lparr>ob_var := (ob_var s2)(v := tmp)\<rparr>)"

definition up_get :: "nat \<Rightarrow> objects \<Rightarrow> ptr" where
  "up_get v s = ob_var s v"

definition up_destroy :: "nat \<Rightarrow> objects \<Rightarrow> objects" where
  "up_destroy v s = (if ob_var s v \<noteq> nullptr then default_delete (up_get v s) s else s)"

definition up_reset :: "nat \<Rightarrow> ptr \<Rightarrow> objects \<Rightarrow> objects" where
  "up_reset v p s =
     (let old_ptr = ob_var s v; s1 = s\<lparr>ob_var := (ob_var s)(v := p)\<rparr>
      in if old_ptr \<noteq> nullptr then default_delete old_ptr s1 else s1)"

definition up_release :: "nat \<Rightarrow> objects \<Rightarrow> ptr \<times> objects" where
  "up_release v s = (let old_ptr = ob_var s v in (old_ptr, s\<lparr>ob_var := (ob_var s)(v := nullptr)\<rparr>))"

definition up_move_assign :: "nat \<Rightarrow> nat \<Rightarrow> objects \<Rightarrow> objects" where
  "up_move_assign v other s = (let (p, s1) = up_release other s in up_reset v p s1)"

text \<open>\<^verbatim>\<open>make_unique\<close>, with the address of the new object; \<^verbatim>\<open>new\<close> may return null.\<close>

definition make_unique :: "nat \<Rightarrow> ptr \<Rightarrow> objects \<Rightarrow> objects" where
  "make_unique v p s = up_construct v p (if p = nullptr then s else s\<lparr>ob_live := insert p (ob_live s)\<rparr>)"

text \<open>
  Programs on pointers that own: a new object has an address that is not in use, a variable begins its life
  with one of the constructors, and a released address is deleted or kept by the program itself.
  \<open>vs\<close> are the variables that live, \<open>raw\<close> the addresses that were released.
\<close>

inductive own_reach :: "objects \<Rightarrow> nat set \<Rightarrow> ptr set \<Rightarrow> bool" where
  start: "ob_live s = {} \<Longrightarrow> ob_deleted s = [] \<Longrightarrow> \<not> ob_double_free s \<Longrightarrow> own_reach s {} {}"
| construct_null: "own_reach s vs raw \<Longrightarrow> v \<notin> vs \<Longrightarrow> own_reach (up_default v s) (insert v vs) raw"
| construct_raw: "own_reach s vs raw \<Longrightarrow> v \<notin> vs \<Longrightarrow> p \<in> raw \<Longrightarrow> own_reach (up_construct v p s) (insert v vs) (raw - {p})"
| make: "own_reach s vs raw \<Longrightarrow> v \<notin> vs \<Longrightarrow> p \<notin> ob_live s \<Longrightarrow> own_reach (make_unique v p s) (insert v vs) raw"
| move_construct: "own_reach s vs raw \<Longrightarrow> v \<notin> vs \<Longrightarrow> w \<in> vs \<Longrightarrow> own_reach (up_move_construct v w s) (insert v vs) raw"
| move_assign: "own_reach s vs raw \<Longrightarrow> v \<in> vs \<Longrightarrow> w \<in> vs \<Longrightarrow> own_reach (up_move_assign v w s) vs raw"
| reset_null: "own_reach s vs raw \<Longrightarrow> v \<in> vs \<Longrightarrow> own_reach (up_reset v nullptr s) vs raw"
| reset_raw: "own_reach s vs raw \<Longrightarrow> v \<in> vs \<Longrightarrow> p \<in> raw \<Longrightarrow> own_reach (up_reset v p s) vs (raw - {p})"
| release: "own_reach s vs raw \<Longrightarrow> v \<in> vs \<Longrightarrow> up_release v s = (p, s') \<Longrightarrow> own_reach s' vs (if p = nullptr then raw else insert p raw)"
| delete_raw: "own_reach s vs raw \<Longrightarrow> p \<in> raw \<Longrightarrow> own_reach (default_delete p s) vs (raw - {p})"
| destroy: "own_reach s vs raw \<Longrightarrow> v \<in> vs \<Longrightarrow> own_reach (up_destroy v s) (vs - {v}) raw"

text \<open>
  What holds of every such program: an object that exists has exactly one owner, a variable or the program itself.
\<close>

definition owned :: "objects \<Rightarrow> nat set \<Rightarrow> ptr set" where
  "owned s vs = ob_var s ` vs - {nullptr}"

definition own_inv :: "objects \<Rightarrow> nat set \<Rightarrow> ptr set \<Rightarrow> bool" where
  "own_inv s vs raw \<longleftrightarrow> \<not> ob_double_free s \<and> nullptr \<notin> raw \<and> owned s vs \<inter> raw = {} \<and> ob_live s = owned s vs \<union> raw
     \<and> (\<forall>v\<in>vs. \<forall>w\<in>vs. ob_var s v = ob_var s w \<longrightarrow> v = w \<or> ob_var s v = nullptr)"

lemma own_invD:
  assumes "own_inv s vs raw"
  shows "\<not> ob_double_free s" "nullptr \<notin> raw" "p \<in> raw \<Longrightarrow> p \<notin> owned s vs" "ob_live s = owned s vs \<union> raw"
    "v \<in> vs \<Longrightarrow> w \<in> vs \<Longrightarrow> ob_var s v = ob_var s w \<Longrightarrow> ob_var s v \<noteq> nullptr \<Longrightarrow> v = w"
    "v \<in> vs \<Longrightarrow> ob_var s v \<noteq> nullptr \<Longrightarrow> ob_var s v \<in> owned s vs"
  using assms by (auto simp: own_inv_def owned_def)

lemma owned_upd: "v \<in> vs \<Longrightarrow> owned (s\<lparr>ob_var := (ob_var s)(v := p)\<rparr>) vs = (ob_var s ` (vs - {v}) \<union> {p}) - {nullptr}"
  by (auto simp: owned_def)

text \<open>A variable takes over an address that has no other owner, after its own object has been deleted.\<close>

lemma own_inv_take:
  assumes "own_inv s vs raw" "ob_var s v = nullptr \<or> v \<notin> vs" "p = nullptr \<or> p \<in> raw"
  shows "own_inv (s\<lparr>ob_var := (ob_var s)(v := p)\<rparr>) (insert v vs) (raw - {p})"
  using assms unfolding own_inv_def owned_def by (auto split: if_splits)

lemma own_inv_sole:
  assumes "own_inv s vs raw" "v \<in> vs" "ob_var s v \<noteq> nullptr"
  shows "ob_var s v \<notin> ob_var s ` (vs - {v})"
  using assms unfolding own_inv_def by (metis (no_types, lifting) DiffE imageE singletonI)

lemma own_inv_give:
  assumes "own_inv s vs raw" "v \<in> vs" "ob_var s v \<noteq> nullptr"
  shows "own_inv (s\<lparr>ob_var := (ob_var s)(v := nullptr)\<rparr>) vs (insert (ob_var s v) raw)"
proof -
  let ?s = "s\<lparr>ob_var := (ob_var s)(v := nullptr)\<rparr>"
  have vs: "insert v (vs - {v}) = vs" using assms(2) by auto
  have o: "owned s vs = insert (ob_var s v) (owned ?s vs)" and n: "ob_var s v \<notin> owned ?s vs"
    using assms(2,3) own_inv_sole [OF assms] unfolding owned_def by (subst (1 2) vs [symmetric], auto)+
  show ?thesis using assms o n unfolding own_inv_def by (auto split: if_splits)
qed

lemma own_inv_delete:
  assumes "own_inv s vs raw" "p \<in> raw"
  shows "own_inv (default_delete p s) vs (raw - {p})"
  using assms unfolding own_inv_def owned_def default_delete_def by auto

lemma own_inv_reset:
  assumes "own_inv s vs raw" "v \<in> vs" "p = nullptr \<or> p \<in> raw"
  shows "own_inv (up_reset v p s) vs (raw - {p})"
proof (cases "ob_var s v = nullptr")
  case True
  then show ?thesis using own_inv_take [OF assms(1), of v p] assms(2,3) by (simp add: up_reset_def insert_absorb)
next
  case False
  let ?s1 = "s\<lparr>ob_var := (ob_var s)(v := nullptr)\<rparr>" and ?old = "ob_var s v"
  have np: "p \<noteq> ?old" using assms False own_invD(3,6) [OF assms(1)] by blast
  have 1: "own_inv ?s1 vs (insert ?old raw)" using own_inv_give [OF assms(1,2) False] .
  have 2: "own_inv (default_delete ?old ?s1) vs (insert ?old raw - {?old})" by (rule own_inv_delete [OF 1]) simp
  have old: "?old \<notin> raw" using own_invD(3,6) [OF assms(1)] assms(2) False by blast
  have "own_inv ((default_delete ?old ?s1)\<lparr>ob_var := (ob_var (default_delete ?old ?s1))(v := p)\<rparr>) (insert v vs) (raw - {p})"
    using own_inv_take [OF 2, of v p] assms(3) np old by (simp add: default_delete_def)
  moreover have "(default_delete ?old ?s1)\<lparr>ob_var := (ob_var (default_delete ?old ?s1))(v := p)\<rparr> = up_reset v p s"
    using False by (cases s) (simp add: up_reset_def default_delete_def Let_def)
  ultimately show ?thesis using assms(2) by (simp add: insert_absorb)
qed

lemma own_inv_release: "own_inv s vs raw \<Longrightarrow> v \<in> vs \<Longrightarrow> up_release v s = (p, s') \<Longrightarrow>
    own_inv s' vs (if p = nullptr then raw else insert p raw)"
  using own_inv_give [of s vs raw v] own_inv_take [of s vs raw v nullptr]
  by (auto simp: up_release_def Let_def insert_absorb own_inv_def)

lemma own_inv_move_assign:
  assumes "own_inv s vs raw" "v \<in> vs" "w \<in> vs"
  shows "own_inv (up_move_assign v w s) vs raw"
proof -
  obtain p s1 where r: "up_release w s = (p, s1)" by fastforce
  have p: "p = ob_var s w" using r by (simp add: up_release_def Let_def)
  have 1: "own_inv s1 vs (if p = nullptr then raw else insert p raw)" by (rule own_inv_release [OF assms(1,3) r])
  have nr: "p \<noteq> nullptr \<Longrightarrow> p \<notin> raw" using own_invD(3,6) [OF assms(1)] assms(3) p by blast
  have "own_inv (up_reset v p s1) vs ((if p = nullptr then raw else insert p raw) - {p})"
    by (rule own_inv_reset [OF 1 assms(2)]) auto
  moreover have "nullptr \<notin> raw" by (rule own_invD(2) [OF assms(1)])
  ultimately show ?thesis using nr r by (auto simp: up_move_assign_def split: if_splits)
qed

lemma own_inv_make: "own_inv s vs raw \<Longrightarrow> v \<notin> vs \<Longrightarrow> p \<notin> ob_live s \<Longrightarrow> own_inv (make_unique v p s) (insert v vs) raw"
  by (auto simp: own_inv_def owned_def make_unique_def up_construct_def split: if_splits)

lemma own_inv_move_construct:
  "own_inv s vs raw \<Longrightarrow> v \<notin> vs \<Longrightarrow> w \<in> vs \<Longrightarrow> own_inv (up_move_construct v w s) (insert v vs) raw"
  by (auto simp: own_inv_def owned_def up_move_construct_def up_default_def Let_def split: if_splits)

lemma own_inv_destroy:
  assumes "own_inv s vs raw" "v \<in> vs"
  shows "own_inv (up_destroy v s) (vs - {v}) raw"
proof (cases "ob_var s v = nullptr")
  case True
  then show ?thesis using assms unfolding own_inv_def owned_def up_destroy_def by auto
next
  case False
  have vs: "ob_var s ` vs = insert (ob_var s v) (ob_var s ` (vs - {v}))" using assms(2) by blast
  show ?thesis using assms own_inv_sole [OF assms False] False
    unfolding own_inv_def owned_def up_destroy_def up_get_def default_delete_def vs by auto
qed

lemma own_reach_inv: "own_reach s vs raw \<Longrightarrow> own_inv s vs raw"
proof (induction rule: own_reach.induct)
  case (start s)
  then show ?case by (simp add: own_inv_def owned_def)
next
  case (construct_null s vs raw v)
  then show ?case using own_inv_take [of s vs raw v nullptr] by (auto simp: up_default_def own_inv_def)
next
  case (construct_raw s vs raw v p)
  then show ?case using own_inv_take [of s vs raw v p] by (simp add: up_construct_def)
next
  case (reset_null s vs raw v)
  then show ?case using own_inv_reset [of s vs raw v nullptr] own_invD(2) [of s vs raw] by simp
qed (auto intro: own_inv_make own_inv_move_construct own_inv_move_assign own_inv_reset own_inv_release own_inv_delete own_inv_destroy
    dest: own_inv_release split: if_splits)


text \<open>C21: \<^verbatim>\<open>unique_ptr\<close>: in a program that constructs, moves, resets, releases and destroys owning pointers in any order, and itself
  deletes or hands back what it has released, every object that exists has exactly one owner, no object is ever deleted twice, and
  when the last variable is gone and nothing is released, no object is left.\<close>

theorem unique_ptr_owners:
  assumes "own_reach s vs raw"
  shows "\<not> ob_double_free s
    \<and> (\<forall>p. p \<in> ob_live s \<longleftrightarrow> p \<noteq> nullptr \<and> (p \<in> raw \<longleftrightarrow> \<not> (\<exists>!v. v \<in> vs \<and> up_get v s = p)))
    \<and> (vs = {} \<longrightarrow> raw = {} \<longrightarrow> ob_live s = {})"
proof -
  note i = own_reach_inv [OF assms]
  have "p \<in> ob_live s \<longleftrightarrow> p \<noteq> nullptr \<and> (p \<in> raw \<longleftrightarrow> \<not> (\<exists>!v. v \<in> vs \<and> up_get v s = p))" for p
  proof (cases "p = nullptr")
    case False
    have "v = w" if "v \<in> vs \<and> ob_var s v = p" "w \<in> vs \<and> ob_var s w = p" for v w
      using own_invD(5) [OF i, of v w] that False by simp
    then have one: "(\<exists>!v. v \<in> vs \<and> ob_var s v = p) \<longleftrightarrow> p \<in> owned s vs"
      using False unfolding owned_def by auto
    have live: "p \<in> ob_live s \<longleftrightarrow> p \<in> owned s vs \<or> p \<in> raw" using own_invD(4) [OF i] by simp
    show ?thesis using own_invD(3) [OF i, of p] False unfolding up_get_def one live by blast
  next
    case True
    have "nullptr \<notin> ob_live s" using own_invD(2) [OF i] unfolding own_invD(4) [OF i] owned_def by simp
    then show ?thesis using True by simp
  qed
  moreover have "vs = {} \<Longrightarrow> raw = {} \<Longrightarrow> ob_live s = {}" using own_invD(4) [OF i] by (simp add: owned_def)
  ultimately show ?thesis using own_invD(1) [OF i] by blast
qed

text \<open>Two objects, the second moved into the first variable: the first object is deleted and the second has a new owner.\<close>

abbreviation no_objects :: objects where
  "no_objects \<equiv> \<lparr>ob_live = {}, ob_deleted = [], ob_double_free = False, ob_var = (\<lambda>v. nullptr)\<rparr>"

theorem unique_ptr_owners_witness:
  "let s = up_move_assign 1 2 (make_unique 2 0x2000 (make_unique 1 0x1000 no_objects))
   in \<not> ob_double_free s \<and> ob_live s = {0x2000} \<and> ob_deleted s = [0x1000] \<and> up_get 1 s = 0x2000 \<and> up_get 2 s = nullptr
    \<and> (\<exists>!v. v \<in> {2, 1} \<and> up_get v s = 0x2000)"
proof -
  let ?s = "up_move_assign 1 2 (make_unique 2 0x2000 (make_unique 1 0x1000 no_objects))"
  have "own_reach (make_unique 1 0x1000 no_objects) (insert 1 {}) {}"
    by (rule own_reach.make [OF own_reach.start]) simp_all
  then have "own_reach (make_unique 2 0x2000 (make_unique 1 0x1000 no_objects)) (insert 2 (insert 1 {})) {}"
    by (rule own_reach.make) (simp_all add: make_unique_def up_construct_def)
  then have r: "own_reach ?s {2, 1} {}" by (rule own_reach.move_assign) simp_all
  have s: "?s = \<lparr>ob_live = {0x2000}, ob_deleted = [0x1000], ob_double_free = False, ob_var = (\<lambda>v. nullptr)(1 := 0x2000, 2 := 0)\<rparr>"
    by (simp add: up_move_assign_def up_release_def up_reset_def make_unique_def up_construct_def default_delete_def fun_eq_iff insert_Diff_if Let_def)
  have "0x2000 \<in> ob_live ?s \<longleftrightarrow> 0x2000 \<noteq> nullptr \<and> (0x2000 \<in> {} \<longleftrightarrow> \<not> (\<exists>!v. v \<in> {2, 1} \<and> up_get v ?s = 0x2000))"
    using unique_ptr_owners [OF r] by blast
  then show ?thesis unfolding Let_def s by (simp add: up_get_def)
qed

text \<open>Moving a pointer into itself keeps the object.\<close>

theorem unique_ptr_self_move: "up_move_assign v v s = s"
  by (cases s) (simp add: up_move_assign_def up_release_def up_reset_def Let_def)

section \<open>Static objects\<close>

primrec static_uses :: "bool list \<Rightarrow> bool \<Rightarrow> bool list" where
  "static_uses [] g = []"
| "static_uses (fails # fs) g = (let (ran, g1) = static_use fails g in ran # static_uses fs g1)"

lemma static_use_eval:
  "static_use fails False = (True, \<not> fails)" "static_use fails True = (False, True)"
  by (simp_all add: static_use_def cxa_guard_acquire_def cxa_guard_release_def cxa_guard_abort_def atomic_compare_exchange_def)

lemma static_uses_done: "static_uses fs True = replicate (length fs) False"
  by (induction fs) (simp_all add: static_use_eval)

text \<open>The constructor of a static object runs at each use until it has succeeded once, and never again.\<close>

theorem static_constructed_once:
  "static_uses fs False = map (\<lambda>i. \<forall>j<i. fs ! j) [0..<length fs]"
proof (induction fs)
  case (Cons f fs)
  have *: "(\<forall>j<Suc i. (f # fs) ! j) \<longleftrightarrow> f \<and> (\<forall>j<i. fs ! j)" for i
    by (auto simp: less_Suc_eq_0_disj)
  have "map (\<lambda>i. \<forall>j<i. (f # fs) ! j) [0..<length (f # fs)] = True # map (\<lambda>i. \<forall>j<Suc i. (f # fs) ! j) [0..<length fs]"
    by (simp add: upt_conv_Cons map_Suc_upt [symmetric] del: upt_Suc)
  also have "\<dots> = True # map (\<lambda>i. f \<and> (\<forall>j<i. fs ! j)) [0..<length fs]" unfolding * ..
  also have "\<dots> = static_uses (f # fs) False"
    using Cons by (cases f) (simp_all add: static_use_eval static_uses_done map_replicate_const)
  finally show ?case ..
qed simp

text \<open>
  The guard is set before the constructor runs: a use that interrupts the constructor takes the object as
  constructed, while it is not.
\<close>

theorem static_used_unconstructed:
  "cxa_guard_acquire False = (1, True) \<and> cxa_guard_acquire (snd (cxa_guard_acquire False)) = (0, True)"
  by (simp add: cxa_guard_acquire_def atomic_compare_exchange_def)

section \<open>Values that may be missing\<close>

text \<open>
  The storage of an \<^verbatim>\<open>optional\<close> holds an object or is raw; the flag should say which. A value that is moved
  leaves a residue behind, which is given by \<open>residue\<close>.
\<close>

record 'a optional =
  op_storage :: "'a option"
  op_has_value :: bool

definition opt_default :: "'a optional" where
  "opt_default = \<lparr>op_storage = None, op_has_value = False\<rparr>"

definition opt_of :: "'a \<Rightarrow> 'a optional" where
  "opt_of u = opt_default\<lparr>op_storage := Some u, op_has_value := True\<rparr>"

definition opt_value :: "'a optional \<Rightarrow> 'a result" where
  "opt_value x =
     (if \<not> op_has_value x then Inl (Panic ''bad_optional_access'')
      else case op_storage x of None \<Rightarrow> Inl Undef | Some v \<Rightarrow> Inr v)"

text \<open>Moving the value out returns it and the other \<^verbatim>\<open>optional\<close> as it is then.\<close>

definition opt_move_value :: "('a \<Rightarrow> 'a) \<Rightarrow> 'a optional \<Rightarrow> ('a \<times> 'a optional) result" where
  "opt_move_value residue other = bindE (opt_value other) (\<lambda>v. Inr (v, other\<lparr>op_storage := Some (residue v)\<rparr>))"

definition opt_move_construct :: "('a \<Rightarrow> 'a) \<Rightarrow> 'a optional \<Rightarrow> ('a optional \<times> 'a optional) result" where
  "opt_move_construct residue other =
     (if op_has_value other
      then bindE (opt_move_value residue other) (\<lambda>(v, other1). Inr (opt_default\<lparr>op_storage := Some v\<rparr>, other1))
      else Inr (opt_default, other))"

definition opt_destroy_value :: "'a optional \<Rightarrow> 'a optional result" where
  "opt_destroy_value x =
     (if op_has_value x then bindE (opt_value x) (\<lambda>v. Inr (x\<lparr>op_storage := None\<rparr>)) else Inr x)"

definition opt_move_assign :: "('a \<Rightarrow> 'a) \<Rightarrow> 'a optional \<Rightarrow> 'a optional \<Rightarrow> ('a optional \<times> 'a optional) result" where
  "opt_move_assign residue x other =
     bindE (opt_destroy_value x) (\<lambda>x1.
     bindE (opt_move_value residue other) (\<lambda>(v, other1).
       Inr (x1\<lparr>op_storage := Some v, op_has_value := True\<rparr>, other1)))"

definition opt_assign :: "'a \<Rightarrow> 'a optional \<Rightarrow> 'a optional result" where
  "opt_assign u x = bindE (opt_destroy_value x) (\<lambda>x1. Inr (x1\<lparr>op_storage := Some u, op_has_value := True\<rparr>))"

definition opt_destroy :: "'a optional \<Rightarrow> 'a optional result" where
  "opt_destroy x = opt_destroy_value x"

definition opt_wf :: "'a optional \<Rightarrow> bool" where
  "opt_wf x \<longleftrightarrow> op_has_value x = (op_storage x \<noteq> None)"

lemmas opt_defs = opt_default_def opt_of_def opt_value_def opt_move_value_def opt_move_construct_def opt_destroy_value_def
  opt_move_assign_def opt_assign_def opt_destroy_def opt_wf_def

text \<open>Assignment and the destructor keep the flag true to the storage, and no object is left behind.\<close>

theorem optional_assign:
  assumes "opt_wf x"
  shows "opt_assign u x = Inr (opt_of u)" and "\<exists>y. opt_destroy x = Inr y \<and> op_storage y = None"
  using assms by (cases x, auto simp: opt_defs split: option.splits)+

text \<open>
  The move constructor does not: the new \<^verbatim>\<open>optional\<close> holds the object and says that it is empty, so that the value cannot
  be read and is never destroyed. Moving from an empty one by assignment halts the kernel.
\<close>

theorem optional_move:
  "opt_move_construct residue (opt_of u) = Inr (\<lparr>op_storage = Some u, op_has_value = False\<rparr>, opt_of (residue u))"
  "opt_value \<lparr>op_storage = Some u, op_has_value = False\<rparr> = Inl (Panic ''bad_optional_access'')"
  "opt_destroy \<lparr>op_storage = Some u, op_has_value = False\<rparr> = Inr \<lparr>op_storage = Some u, op_has_value = False\<rparr>"
  "opt_wf x \<Longrightarrow> opt_move_assign residue x opt_default = Inl (Panic ''bad_optional_access'')"
  "opt_wf x \<Longrightarrow> opt_move_assign residue x (opt_of u) = Inr (opt_of u, opt_of (residue u))"
  by (cases x, auto simp: opt_defs split: option.splits)+

text \<open>
  \<^verbatim>\<open>CompositeBuf::operator=\<close> assigns both of its \<^verbatim>\<open>optional\<close> buffers: it halts the kernel unless the other pair has both.
\<close>

definition composite_move_assign ::
  "('a \<Rightarrow> 'a) \<Rightarrow> ('b \<Rightarrow> 'b) \<Rightarrow> 'a optional \<times> 'b optional \<Rightarrow> 'a optional \<times> 'b optional
    \<Rightarrow> (('a optional \<times> 'b optional) \<times> ('a optional \<times> 'b optional)) result" where
  "composite_move_assign ra rb this other =
     bindE (opt_move_assign ra (fst this) (fst other)) (\<lambda>(a, oa).
     bindE (opt_move_assign rb (snd this) (snd other)) (\<lambda>(b, ob). Inr ((a, b), (oa, ob))))"

theorem composite_move_assign_returns:
  assumes "opt_wf (fst this)" "opt_wf (snd this)" "opt_wf (fst other)" "opt_wf (snd other)"
  shows "(\<exists>r. composite_move_assign ra rb this other = Inr r) \<longleftrightarrow> op_has_value (fst other) \<and> op_has_value (snd other)"
  using assms by (cases this; cases other; cases "fst this"; cases "snd this"; cases "fst other"; cases "snd other")
    (auto simp: composite_move_assign_def opt_defs split: option.splits)

end
