(* ===== verification/Backtrace.thy ===== *)
theory Backtrace
  imports Kernel_Memory Interrupts
begin

text \<open>
  \<^verbatim>\<open>libkernelcxx/src/backtrace.cpp\<close>: the frames of the calls that led to a place in the kernel are printed by following the
  saved base pointers. The stack is read through a function \<open>mem\<close> from addresses to words.
\<close>

section \<open>Definitions\<close>

record stack_frame =
  sf_callers_ebp :: ptr
  sf_return_address :: ptr

definition frame_at :: "(ptr \<Rightarrow> u32) \<Rightarrow> ptr \<Rightarrow> stack_frame" where
  "frame_at mem p = \<lparr>sf_callers_ebp = mem p, sf_return_address = mem (p + 4)\<rparr>"

definition is_inside_code :: "kobj \<Rightarrow> ptr \<Rightarrow> bool" where
  "is_inside_code k p \<longleftrightarrow> kobj_code_begin k \<le> p \<and> p < kobj_code_end k"

definition is_inside_stack :: "kobj \<Rightarrow> ptr \<Rightarrow> bool" where
  "is_inside_stack k p \<longleftrightarrow> kobj_stack_begin k \<le> p \<and> p < kobj_stack_end k"

definition shl_stack_frame :: "kobj \<Rightarrow> ptr \<Rightarrow> stack_frame \<Rightarrow> 's ostream \<times> 's \<Rightarrow> ('s ostream \<times> 's) result" where
  "shl_stack_frame k p frame = guarded (out_items
     [O_hex, O_str ''frame['', O_ptr p, O_setw 0, O_str '']: ebp = '', O_setw 8,
      if is_inside_stack k (sf_callers_ebp frame) then O_ptr (sf_callers_ebp frame) else O_str ''invalid'',
      O_setw 0, O_str '' eip = '', O_setw 8,
      if is_inside_code k (sf_return_address frame) then O_ptr (sf_return_address frame) else O_str ''invalid''])"

text \<open>
  The loop: the frame, the stream, and whether the loop goes on. The frame that the caller gives lies at address \<open>tmp\<close>, that of
  the function itself at \<open>own_ebp\<close>.
\<close>

definition backtrace_step :: "kobj \<Rightarrow> (ptr \<Rightarrow> u32) \<Rightarrow> bool \<times> ptr \<times> ('s ostream \<times> 's) \<Rightarrow> (bool \<times> ptr \<times> ('s ostream \<times> 's)) result" where
  "backtrace_step k mem = (\<lambda>(go, frame, x).
     bindE (shl_stack_frame k frame (frame_at mem frame) x) (\<lambda>x1.
     bindE (out_items [O_endl] x1) (\<lambda>x2.
       let new_frame = sf_callers_ebp (frame_at mem frame)
       in Inr (if frame = new_frame then (False, frame, x2)
          else (is_inside_stack k new_frame \<and> is_inside_code k (sf_return_address (frame_at mem new_frame)), new_frame, x2)))))"

definition backtrace_loop :: "kobj \<Rightarrow> (ptr \<Rightarrow> u32) \<Rightarrow> ptr \<Rightarrow> 's ostream \<times> 's \<Rightarrow> ('s ostream \<times> 's) result" where
  "backtrace_loop k mem frame x =
     bindE (while_result (\<lambda>(go, frame, x). go) (backtrace_step k mem) (True, frame, x)) (\<lambda>(go, frame, x). Inr x)"

definition show_backtrace ::
  "kobj \<Rightarrow> (ptr \<Rightarrow> u32) \<Rightarrow> ptr \<Rightarrow> ptr \<Rightarrow> ptr \<Rightarrow> ptr \<Rightarrow> 's ostream \<times> 's \<Rightarrow> ('s ostream \<times> 's) result" where
  "show_backtrace k mem tmp own_ebp ebp eip = guarded (\<lambda>x.
     bindE (out_items [O_setw 50, O_setfill (CHR ''-''), O_char (CHR 0x0A), O_setfill (CHR '' ''), O_setw 0] x)
       (let ebp = (if ebp = nullptr then own_ebp else ebp);
            mem = mem(tmp := ebp, tmp + 4 := eip)
        in backtrace_loop k mem (if eip = nullptr then ebp else tmp)))"

section \<open>The text of a frame\<close>

definition frame_text :: "kobj \<Rightarrow> ptr \<Rightarrow> stack_frame \<Rightarrow> string" where
  "frame_text k p frame =
     ''frame['' @ rev (digit_buffer fmt_hex t_uint (uint p)) @ '']: ebp = ''
     @ (if is_inside_stack k (sf_callers_ebp frame) then hex_field (CHR '' '') t_uint (uint (sf_callers_ebp frame)) else '' invalid'')
     @ '' eip = ''
     @ (if is_inside_code k (sf_return_address frame) then hex_field (CHR '' '') t_uint (uint (sf_return_address frame)) else '' invalid'')"

abbreviation plain :: "'s ostream \<Rightarrow> bool" where
  "plain os \<equiv> os_width os = 0 \<and> os_fillch os = CHR '' ''"

lemma shl_stack_frame_text:
  "plain os \<Longrightarrow> shl_stack_frame k p frame (os, s) = bindE (emit os (frame_text k p frame) s) (\<lambda>s1. Inr (os, s1))"
  unfolding shl_stack_frame_def
  by (subst guarded_items)
     (simp_all add: manip_hex_def setf_masked_def base_set_hex digit_buffer_hex frame_text_def hex_field_def padding_def Let_def)

text \<open>The frames of a chain: every frame but the first lies on the stack and returns into the code, and the last one has no successor.\<close>

definition valid_frame :: "kobj \<Rightarrow> (ptr \<Rightarrow> u32) \<Rightarrow> ptr \<Rightarrow> bool" where
  "valid_frame k mem p \<longleftrightarrow> is_inside_stack k p \<and> is_inside_code k (mem (p + 4))"

fun call_chain :: "kobj \<Rightarrow> (ptr \<Rightarrow> u32) \<Rightarrow> ptr list \<Rightarrow> bool" where
  "call_chain k mem [] \<longleftrightarrow> False"
| "call_chain k mem [p] \<longleftrightarrow> mem p = p \<or> \<not> valid_frame k mem (mem p)"
| "call_chain k mem (p # q # ps) \<longleftrightarrow> q = mem p \<and> q \<noteq> p \<and> valid_frame k mem q \<and> call_chain k mem (q # ps)"

definition backtrace_text :: "kobj \<Rightarrow> (ptr \<Rightarrow> u32) \<Rightarrow> ptr list \<Rightarrow> string" where
  "backtrace_text k mem ps = concat (map (\<lambda>p. frame_text k p (frame_at mem p) @ [CHR 0x0A]) ps)"

lemma backtrace_step_emit:
  assumes "plain os"
  shows "backtrace_step k mem (go, p, (os, s)) = bindE (emit os (frame_text k p (frame_at mem p) @ [CHR 0x0A]) s) (\<lambda>s1.
    Inr (mem p \<noteq> p \<and> valid_frame k mem (mem p), mem p, (os, s1)))"
  using assms
  by (auto simp: backtrace_step_def shl_stack_frame_text out_one_emit emit_append frame_at_def valid_frame_def Let_def intro!: bindE_ext)

lemma backtrace_loop_chain:
  assumes "plain os" "call_chain k mem ps"
  shows "backtrace_loop k mem (hd ps) (os, s) = bindE (emit os (backtrace_text k mem ps) s) (\<lambda>s1. Inr (os, s1))"
  using assms(2)
proof (induction k mem ps arbitrary: s rule: call_chain.induct)
  case (2 k mem p)
  then show ?case
    by (auto simp: backtrace_loop_def while_result_unfold [of _ _ "(True, _)"] while_result_unfold [of _ _ "(False, _)"]
        backtrace_step_emit [OF assms(1)] backtrace_text_def intro!: bindE_ext)
next
  case (3 k mem p q ps)
  define line where "line = frame_text k p (frame_at mem p) @ [CHR 0x0A]"
  have "backtrace_loop k mem p (os, s) = bindE (emit os line s) (\<lambda>s1. backtrace_loop k mem q (os, s1))"
    using 3(2) unfolding backtrace_loop_def line_def
    by (subst while_result_unfold) (auto simp: backtrace_step_emit [OF assms(1)] intro!: bindE_ext)
  moreover have "backtrace_text k mem (p # q # ps) = line @ backtrace_text k mem (q # ps)" by (simp add: backtrace_text_def line_def)
  ultimately show ?case using 3 by (auto simp: emit_append intro!: bindE_ext)
qed simp

text \<open>On a stack whose links go upwards the chain ends.\<close>

definition links_up :: "kobj \<Rightarrow> (ptr \<Rightarrow> u32) \<Rightarrow> bool" where
  "links_up k mem \<longleftrightarrow> (\<forall>p. valid_frame k mem p \<and> valid_frame k mem (mem p) \<longrightarrow> p \<le> mem p)"

lemma call_chain_exists:
  assumes "links_up k mem" and p: "valid_frame k mem p"
  shows "\<exists>ps. call_chain k mem (p # ps) \<and> sorted_wrt (<) (p # ps) \<and> set ps \<subseteq> {q. is_inside_stack k q}"
  using p
proof (induction "unat (kobj_stack_end k) - unat p" arbitrary: p rule: less_induct)
  case less
  show ?case
  proof (cases "mem p \<noteq> p \<and> valid_frame k mem (mem p)")
    case True
    then have q: "valid_frame k mem (mem p)" "p < mem p" using assms(1) less.prems by (auto simp: links_up_def less_le)
    then have "unat (kobj_stack_end k) - unat (mem p) < unat (kobj_stack_end k) - unat p"
      by (auto simp: valid_frame_def is_inside_stack_def word_less_nat_alt)
    from less.hyps [OF this q(1)] obtain ps where ps: "call_chain k mem (mem p # ps)" "sorted_wrt (<) (mem p # ps)" "set ps \<subseteq> {q. is_inside_stack k q}"
      by blast
    then show ?thesis using True q by (intro exI [of _ "mem p # ps"]) (auto simp: valid_frame_def)
  next
    case False
    then show ?thesis by (intro exI [of _ "[]"]) auto
  qed
qed

lemma chain_length:
  assumes "sorted_wrt (<) ps" "set ps \<subseteq> {q. is_inside_stack k q}"
  shows "length ps \<le> unat (kobj_stack_end k) - unat (kobj_stack_begin k)"
proof -
  have "unat ` set ps \<subseteq> {unat (kobj_stack_begin k)..<unat (kobj_stack_end k)}"
    using assms(2) by (auto simp: is_inside_stack_def word_less_nat_alt word_le_nat_alt)
  then have "card (unat ` set ps) \<le> unat (kobj_stack_end k) - unat (kobj_stack_begin k)"
    using card_mono [of "{unat (kobj_stack_begin k)..<unat (kobj_stack_end k)}" "unat ` set ps"] by simp
  moreover have "card (unat ` set ps) = card (set ps)" by (intro card_image inj_onI) (simp add: u32_eq_iff_unat)
  moreover have "distinct ps" using assms(1) by (simp add: strict_sorted_iff)
  ultimately show ?thesis by (simp add: distinct_card)
qed

lemma show_backtrace_loop:
  fixes os :: "'s ostream"
  defines "os1 \<equiv> os\<lparr>os_width := 0, os_fillch := CHR '' ''\<rparr>"
  assumes "eip \<noteq> nullptr" "ebp \<noteq> nullptr"
    and loop: "\<And>s. backtrace_loop k (mem(tmp := ebp, tmp + 4 := eip)) tmp (os1, s) = bindE (emit os1 text s) (\<lambda>s1. Inr (os1, s1))"
  shows "show_backtrace k mem tmp own_ebp ebp eip (os, s)
    = bindE (emit os (replicate 49 (CHR ''-'') @ [CHR 0x0A] @ text) s) (\<lambda>s1. Inr (os, s1))"
proof -
  have "out_items [O_setw 50, O_setfill (CHR ''-''), O_char (CHR 0x0A), O_setfill (CHR '' ''), O_setw 0] (os, s)
      = bindE (emit os (replicate 49 (CHR ''-'') @ [CHR 0x0A]) s) (\<lambda>s1. Inr (os1, s1))"
    by (subst out_items_emit) (simp_all add: padding_def os1_def, cases os, simp)
  moreover have "emit os1 = emit os" by (rule emit_buffer) (simp add: os1_def)
  moreover have "guard_destruct (guard_construct os) os1 = os" by (simp add: guard_destruct_def guard_construct_def copyfmt_def os1_def)
  moreover have "emit os (replicate 49 (CHR ''-'') @ [CHR 0x0A] @ text) s = bindE (emit os (replicate 49 (CHR ''-'') @ [CHR 0x0A]) s) (emit os text)"
    by (simp only: emit_append [symmetric] append_assoc)
  ultimately show ?thesis using assms(2,3) loop
    by (auto simp: show_backtrace_def guarded_def simp del: out_items.simps intro!: bindE_ext)
qed

lemma show_backtrace_chain:
  assumes "ebp \<noteq> nullptr" "eip \<noteq> nullptr" "mem' = mem(tmp := ebp, tmp + 4 := eip)" "tmp \<noteq> ebp"
    and "links_up k mem'"
  shows "\<exists>ps. call_chain k mem' (tmp # ps) \<and> sorted_wrt (<) ps \<and> length ps \<le> unat (kobj_stack_end k) - unat (kobj_stack_begin k)
    \<and> (\<forall>(os :: 's ostream) s. show_backtrace k mem tmp own_ebp ebp eip (os, s)
      = bindE (emit os (replicate 49 (CHR ''-'') @ [CHR 0x0A] @ backtrace_text k mem' (tmp # ps)) s) (\<lambda>s1. Inr (os, s1)))"
proof -
  have tmp: "mem' tmp = ebp"
  proof -
    have "tmp + 4 \<noteq> tmp" by simp
    then show ?thesis by (simp add: assms(3))
  qed
  have "\<exists>ps. call_chain k mem' (tmp # ps) \<and> sorted_wrt (<) ps \<and> set ps \<subseteq> {q. is_inside_stack k q}"
  proof (cases "valid_frame k mem' ebp")
    case True
    from call_chain_exists [OF assms(5) this] obtain ps where "call_chain k mem' (ebp # ps)" "sorted_wrt (<) (ebp # ps)"
      "set ps \<subseteq> {q. is_inside_stack k q}" by blast
    then show ?thesis using True tmp assms(4) by (intro exI [of _ "ebp # ps"]) (auto simp: valid_frame_def)
  next
    case False
    then show ?thesis using tmp by (intro exI [of _ "[]"]) simp
  qed
  then obtain ps where ps: "call_chain k mem' (tmp # ps)" "sorted_wrt (<) ps" "set ps \<subseteq> {q. is_inside_stack k q}" by blast
  have "show_backtrace k mem tmp own_ebp ebp eip (os, s)
      = bindE (emit os (replicate 49 (CHR ''-'') @ [CHR 0x0A] @ backtrace_text k mem' (tmp # ps)) s) (\<lambda>s1. Inr (os, s1))" for os :: "'s ostream" and s
    using assms(1,2) backtrace_loop_chain [OF _ ps(1), of "os\<lparr>os_width := 0, os_fillch := CHR '' ''\<rparr>"] by (intro show_backtrace_loop) (simp_all add: assms(3))
  then show ?thesis using ps(1,2) chain_length [OF ps(2,3)] by (intro exI [of _ ps] conjI allI)
qed

section \<open>An example\<close>

definition example_stack :: "ptr \<Rightarrow> u32" where
  "example_stack p = (if p = 0x180010 then 0x180040 else if p = 0x180014 then 0x100123
     else if p = 0x180040 then 0 else if p = 0x180044 then 0x100456 else p)"

section \<open>Properties\<close>

text \<open>
  C39: a backtrace ends and shows the calls. When the base pointers that link frames of the kernel stack point upwards, and whatever else is
  in memory, the backtrace from a given base pointer and instruction prints a ruler and then one line for every frame of
  the chain of calls, each above the one before, and stops at the first that leaves the stack or returns
  outside of the code. There are no more lines than the stack has bytes, and one for the start.
\<close>

theorem backtrace_shows_calls:
  fixes os :: "'s ostream"
  assumes "ebp \<noteq> nullptr" "eip \<noteq> nullptr" "mem' = mem(tmp := ebp, tmp + 4 := eip)" "tmp \<noteq> ebp"
    and "links_up k mem'"
  shows "\<exists>ps. call_chain k mem' (tmp # ps) \<and> sorted_wrt (<) ps \<and> length ps \<le> unat (kobj_stack_end k) - unat (kobj_stack_begin k)
    \<and> show_backtrace k mem tmp own_ebp ebp eip (os, s)
      = bindE (emit os (replicate 49 (CHR ''-'') @ [CHR 0x0A] @ backtrace_text k mem' (tmp # ps)) s) (\<lambda>s1. Inr (os, s1))"
proof -
  obtain ps where ps: "call_chain k mem' (tmp # ps)" "sorted_wrt (<) ps" "length ps \<le> unat (kobj_stack_end k) - unat (kobj_stack_begin k)"
      "\<forall>(os :: 's ostream) s. show_backtrace k mem tmp own_ebp ebp eip (os, s)
        = bindE (emit os (replicate 49 (CHR ''-'') @ [CHR 0x0A] @ backtrace_text k mem' (tmp # ps)) s) (\<lambda>s1. Inr (os, s1))"
    using show_backtrace_chain [OF assms, where own_ebp = own_ebp] by (elim exE conjE) rule
  show ?thesis by (intro exI [of _ ps] conjI ps(1-3) ps(4) [rule_format])
qed

theorem backtrace_shows_calls_witness:
  "\<exists>ps. call_chain example_image (example_stack(0x1000 := 0x180010, 0x1004 := 0x100042)) (0x1000 # ps) \<and> sorted_wrt (<) ps"
proof -
  let ?mem = "example_stack(0x1000 := 0x180010, 0x1004 := 0x100042)"
  let ?os = "\<lparr>os_streambuf = None, os_format = fmt_dec, os_width = 0, os_fillch = CHR '' ''\<rparr> :: unit ostream"
  have "links_up example_image ?mem"
    by (auto simp: links_up_def example_stack_def valid_frame_def is_inside_stack_def is_inside_code_def example_image_def split: if_splits)
  then have "\<exists>ps. call_chain example_image ?mem (0x1000 # ps) \<and> sorted_wrt (<) ps \<and> length ps \<le> unat (kobj_stack_end example_image) - unat (kobj_stack_begin example_image)
      \<and> show_backtrace example_image example_stack 0x1000 0 0x180010 0x100042 (?os, ())
        = bindE (emit ?os (replicate 49 (CHR ''-'') @ [CHR 0x0A] @ backtrace_text example_image ?mem (0x1000 # ps)) ()) (\<lambda>s1. Inr (?os, s1))"
    by (intro backtrace_shows_calls) simp_all
  then show ?thesis by blast
qed

text \<open>
  Two frames that point at each other make the loop run for ever: only a frame that points to itself is recognised.
\<close>

theorem backtrace_cycle_hangs:
  assumes "valid_frame k mem p" "valid_frame k mem q" "mem p = q" "mem q = p" "p \<noteq> q" "plain os"
  shows "backtrace_loop k mem p (os, s) \<noteq> Inr x"
proof
  let ?b = "\<lambda>r. case r of Inl e \<Rightarrow> False | Inr (go, frame, x) \<Rightarrow> go" and ?c = "\<lambda>r. bindE r (backtrace_step k mem)"
  let ?P = "\<lambda>r. (\<exists>e. r = Inl e) \<or> (\<exists>f s. f \<in> {p, q} \<and> r = Inr (True, f, (os, s)))"
  assume "backtrace_loop k mem p (os, s) = Inr x"
  then obtain r where "while_option ?b ?c (Inr (True, p, (os, s))) = Some (Inr r)"
    unfolding backtrace_loop_def while_result_def by (auto simp: bindE_eq_Inr_iff of_loop_def id_def split: option.splits)
  moreover have "?P (?c r)" if "?P r" "?b r" for r
    using that assms by (auto simp: backtrace_step_emit bindE_def split: sum.splits)
  ultimately have "?P (Inr r)" "\<not> ?b (Inr r)"
    using while_option_rule [of ?P ?b ?c "Inr (True, p, (os, s))" "Inr r"] while_option_stop [of ?b ?c "Inr (True, p, (os, s))"] by auto
  then show False by auto
qed

text \<open>
  The stacks of tasks lie outside of the kernel stack. A backtrace in a task prints a single frame, whatever the calls were.
\<close>

theorem backtrace_of_task:
  assumes "ebp \<noteq> nullptr" "eip \<noteq> nullptr" "\<not> is_inside_stack k ebp"
  shows "show_backtrace k mem tmp own_ebp ebp eip (os, s)
    = bindE (emit os (replicate 49 (CHR ''-'') @ [CHR 0x0A] @ backtrace_text k (mem(tmp := ebp, tmp + 4 := eip)) [tmp]) s) (\<lambda>s1. Inr (os, s1))"
proof -
  have "tmp + 4 \<noteq> tmp" by simp
  then have "call_chain k (mem(tmp := ebp, tmp + 4 := eip)) [tmp]" using assms(3) by (simp add: valid_frame_def)
  from backtrace_loop_chain [OF _ this, of "os\<lparr>os_width := 0, os_fillch := CHR '' ''\<rparr>"] show ?thesis
    using assms(1,2) by (intro show_backtrace_loop) simp_all
qed

end
