(* ===== verification/Cpp_Types.thy ===== *)
theory Cpp_Types
  imports Kernel_Prelude
begin

text \<open>
  The compile-time part of the library: \<^verbatim>\<open>libkernelcxx/include/type_traits.hpp\<close> with \<^verbatim>\<open>impl/type_traits\<close>, as functions on
  the types of C++, and the small run-time helpers of \<^verbatim>\<open>utility.hpp\<close> and \<^verbatim>\<open>impl/cstddef/byte.hpp\<close>.
  A trait that has no member \<^verbatim>\<open>type\<close>, or whose member would be ill-formed, is \<open>None\<close>. The traits that only name an intrinsic of
  the compiler (\<^verbatim>\<open>is_pod\<close>, \<^verbatim>\<open>is_enum\<close>, \<^verbatim>\<open>is_base_of\<close> and the like) are not modelled.
\<close>

section \<open>Types\<close>

datatype arith_type = A_bool | A_char | A_schar | A_uchar | A_short | A_ushort | A_int | A_uint | A_long | A_ulong | A_llong | A_ullong

text \<open>\<open>T_cv\<close> carries the qualifiers const and volatile, at least one of which is set.\<close>

datatype cpp_type =
    T_void
  | T_arith arith_type
  | T_class string
  | T_cv bool bool cpp_type
  | T_ptr cpp_type
  | T_lref cpp_type
  | T_rref cpp_type
  | T_array cpp_type "nat option"
  | T_fun cpp_type "cpp_type list"

text \<open>
  What the language makes of a qualifier or a reference on a type: qualifiers on references and functions have no effect, on an
  array they go to the elements; references to references collapse; there is no reference to void.
\<close>

fun cv_qualified :: "bool \<Rightarrow> bool \<Rightarrow> cpp_type \<Rightarrow> cpp_type" where
  "cv_qualified c v (T_cv c' v' t) = T_cv (c \<or> c') (v \<or> v') t"
| "cv_qualified c v (T_lref t) = T_lref t"
| "cv_qualified c v (T_rref t) = T_rref t"
| "cv_qualified c v (T_fun r ps) = T_fun r ps"
| "cv_qualified c v (T_array t n) = T_array (cv_qualified c v t) n"
| "cv_qualified c v t = (if c \<or> v then T_cv c v t else t)"

fun is_void_type :: "cpp_type \<Rightarrow> bool" where
  "is_void_type T_void \<longleftrightarrow> True"
| "is_void_type (T_cv c v t) \<longleftrightarrow> is_void_type t"
| "is_void_type t \<longleftrightarrow> False"

fun lref_to :: "cpp_type \<Rightarrow> cpp_type option" where
  "lref_to (T_lref t) = Some (T_lref t)"
| "lref_to (T_rref t) = Some (T_lref t)"
| "lref_to t = (if is_void_type t then None else Some (T_lref t))"

fun rref_to :: "cpp_type \<Rightarrow> cpp_type option" where
  "rref_to (T_lref t) = Some (T_lref t)"
| "rref_to (T_rref t) = Some (T_rref t)"
| "rref_to t = (if is_void_type t then None else Some (T_rref t))"

section \<open>Traits\<close>

definition add_const :: "cpp_type \<Rightarrow> cpp_type" where
  "add_const t = cv_qualified True False t"

fun add_lvalue_reference :: "cpp_type \<Rightarrow> cpp_type option" where
  "add_lvalue_reference (T_rref t) = lref_to t"
| "add_lvalue_reference t = lref_to t"

definition add_rvalue_reference :: "cpp_type \<Rightarrow> cpp_type option" where
  "add_rvalue_reference t = rref_to t"

fun remove_reference :: "cpp_type \<Rightarrow> cpp_type" where
  "remove_reference (T_lref t) = t"
| "remove_reference (T_rref t) = t"
| "remove_reference t = t"

fun remove_const :: "cpp_type \<Rightarrow> cpp_type" where
  "remove_const (T_cv c v t) = (if v then T_cv False True t else t)"
| "remove_const (T_array t n) = T_array (remove_const t) n"
| "remove_const t = t"

fun remove_volatile :: "cpp_type \<Rightarrow> cpp_type" where
  "remove_volatile (T_cv c v t) = (if c then T_cv True False t else t)"
| "remove_volatile (T_array t n) = T_array (remove_volatile t) n"
| "remove_volatile t = t"

definition remove_cv :: "cpp_type \<Rightarrow> cpp_type" where
  "remove_cv t = remove_const (remove_volatile t)"

fun remove_extent :: "cpp_type \<Rightarrow> cpp_type" where
  "remove_extent (T_array t n) = t"
| "remove_extent t = t"

definition conditional :: "bool \<Rightarrow> cpp_type \<Rightarrow> cpp_type \<Rightarrow> cpp_type" where
  "conditional b t f = (if b then t else f)"

definition enable_if :: "bool \<Rightarrow> cpp_type \<Rightarrow> cpp_type option" where
  "enable_if b t = (if b then Some t else None)"

definition is_same :: "cpp_type \<Rightarrow> cpp_type \<Rightarrow> bool" where
  "is_same t1 t2 \<longleftrightarrow> t1 = t2"

definition is_void :: "cpp_type \<Rightarrow> bool" where
  "is_void t \<longleftrightarrow> is_same T_void (remove_cv t)"

fun is_pointer_helper :: "cpp_type \<Rightarrow> bool" where
  "is_pointer_helper (T_ptr t) \<longleftrightarrow> True"
| "is_pointer_helper t \<longleftrightarrow> False"

definition is_pointer :: "cpp_type \<Rightarrow> bool" where
  "is_pointer t \<longleftrightarrow> is_pointer_helper (remove_cv t)"

definition is_signed :: "cpp_type \<Rightarrow> bool" where
  "is_signed t \<longleftrightarrow> t \<in> T_arith ` {A_llong, A_long, A_int, A_short, A_char}"

definition is_unsigned :: "cpp_type \<Rightarrow> bool" where
  "is_unsigned t \<longleftrightarrow> t \<in> T_arith ` {A_ullong, A_ulong, A_uint, A_ushort, A_uchar}"

definition make_unsigned :: "cpp_type \<Rightarrow> cpp_type option" where
  "make_unsigned t =
     (if t = T_arith A_char then Some (T_arith A_uchar)
      else if t = T_arith A_short then Some (T_arith A_ushort)
      else if t = T_arith A_int then Some (T_arith A_uint)
      else if t = T_arith A_long then Some (T_arith A_ulong)
      else if t = T_arith A_llong then Some (T_arith A_ullong)
      else enable_if (is_unsigned t) t)"

text \<open>The types of the results of \<^verbatim>\<open>move\<close> and \<^verbatim>\<open>forward\<close>.\<close>

definition move_type :: "cpp_type \<Rightarrow> cpp_type option" where
  "move_type t = rref_to (remove_reference t)"

definition forward_type :: "cpp_type \<Rightarrow> cpp_type option" where
  "forward_type t = rref_to t"

section \<open>Values\<close>

definition swap_values :: "'a \<times> 'a \<Rightarrow> 'a \<times> 'a" where
  "swap_values = (\<lambda>(a, b). let tmp = b; b = a; a = tmp in (a, b))"

text \<open>The loop that swaps two arrays of \<open>n\<close> elements.\<close>

function swap_arrays :: "nat \<Rightarrow> nat \<Rightarrow> 'a list \<times> 'a list \<Rightarrow> ('a list \<times> 'a list) result" where
  "swap_arrays n index x =
     (if n \<le> index then Inr x
      else if length (fst x) \<le> index \<or> length (snd x) \<le> index then Inl Undef
      else let (a, b) = swap_values (fst x ! index, snd x ! index)
           in swap_arrays n (index + 1) ((fst x)[index := a], (snd x)[index := b]))"
  by pat_completeness auto
termination by (relation "measure (\<lambda>(n, index, x). n - index)") auto

declare swap_arrays.simps [simp del]

definition exchange :: "'a \<Rightarrow> 'a \<Rightarrow> 'a \<times> 'a" where
  "exchange obj new_value = (let old_value = obj; obj = new_value in (obj, old_value))"

text \<open>\<^verbatim>\<open>lib::byte\<close>.\<close>

definition byte_or :: "u8 \<Rightarrow> u8 \<Rightarrow> u8" where
  "byte_or lhs rhs = lhs OR rhs"

definition byte_and :: "u8 \<Rightarrow> u8 \<Rightarrow> u8" where
  "byte_and lhs rhs = lhs AND rhs"

definition byte_xor :: "u8 \<Rightarrow> u8 \<Rightarrow> u8" where
  "byte_xor lhs rhs = lhs XOR rhs"

definition byte_not :: "u8 \<Rightarrow> u8" where
  "byte_not lhs = lhs"

definition byte_to_integer :: "u8 \<Rightarrow> 'a::len word" where
  "byte_to_integer b = ucast b"

section \<open>The compile-time tests\<close>

abbreviation t_int :: cpp_type where "t_int \<equiv> T_arith A_int"
abbreviation t_class :: cpp_type where "t_class \<equiv> T_class ''ClassType''"
abbreviation t_const :: "cpp_type \<Rightarrow> cpp_type" where "t_const t \<equiv> T_cv True False t"
abbreviation t_volatile :: "cpp_type \<Rightarrow> cpp_type" where "t_volatile t \<equiv> T_cv False True t"
abbreviation t_cv :: "cpp_type \<Rightarrow> cpp_type" where "t_cv t \<equiv> T_cv True True t"

definition t_add_const :: "(cpp_type \<times> cpp_type) list" where
  "t_add_const =
     [(t_int, t_const t_int), (t_volatile t_int, t_cv t_int), (T_ptr t_int, t_const (T_ptr t_int)), (T_lref t_int, T_lref t_int),
      (T_fun t_int [t_int], T_fun t_int [t_int]), (t_const t_int, t_const t_int), (t_class, t_const t_class),
      (t_volatile t_class, t_cv t_class), (T_ptr t_class, t_const (T_ptr t_class)), (T_lref t_class, T_lref t_class),
      (T_fun t_class [t_class], T_fun t_class [t_class]), (t_const t_class, t_const t_class)]"

definition t_is_same :: "(cpp_type \<times> cpp_type \<times> bool) list" where
  "t_is_same =
     [(t_int, t_int, True), (t_const t_int, t_const t_int, True), (T_lref t_int, T_lref t_int, True), (t_class, t_class, True),
      (T_void, t_int, False), (t_int, t_const t_int, False), (t_int, T_lref t_int, False), (t_int, t_class, False)]"

definition t_remove_reference :: "(cpp_type \<times> cpp_type) list" where
  "t_remove_reference =
     [(T_lref t_int, t_int), (t_int, t_int), (T_lref (t_const t_int), t_const t_int), (T_lref (T_ptr t_int), T_ptr t_int),
      (T_lref t_class, t_class), (t_class, t_class), (T_lref (T_fun t_int [t_int]), T_fun t_int [t_int]),
      (T_rref t_int, t_int), (t_int, t_int), (T_rref (t_const t_int), t_const t_int), (T_rref (T_ptr t_int), T_ptr t_int),
      (T_rref t_class, t_class), (t_class, t_class), (T_rref (T_fun t_int [t_int]), T_fun t_int [t_int])]"

section \<open>Types of the language\<close>

text \<open>The types that exist: references and qualifiers do not nest, and there are no references to void and no arrays of references.\<close>

fun is_reference :: "cpp_type \<Rightarrow> bool" where
  "is_reference (T_lref t) \<longleftrightarrow> True"
| "is_reference (T_rref t) \<longleftrightarrow> True"
| "is_reference t \<longleftrightarrow> False"

fun takes_cv :: "cpp_type \<Rightarrow> bool" where
  "takes_cv (T_cv c v t) \<longleftrightarrow> False"
| "takes_cv (T_lref t) \<longleftrightarrow> False"
| "takes_cv (T_rref t) \<longleftrightarrow> False"
| "takes_cv (T_fun r ps) \<longleftrightarrow> False"
| "takes_cv (T_array t n) \<longleftrightarrow> False"
| "takes_cv t \<longleftrightarrow> True"

fun is_function :: "cpp_type \<Rightarrow> bool" where
  "is_function (T_fun r ps) \<longleftrightarrow> True"
| "is_function t \<longleftrightarrow> False"

fun wf_type :: "cpp_type \<Rightarrow> bool" where
  "wf_type (T_cv c v t) \<longleftrightarrow> (c \<or> v) \<and> takes_cv t \<and> wf_type t"
| "wf_type (T_ptr t) \<longleftrightarrow> \<not> is_reference t \<and> wf_type t"
| "wf_type (T_lref t) \<longleftrightarrow> \<not> is_reference t \<and> \<not> is_void_type t \<and> wf_type t"
| "wf_type (T_rref t) \<longleftrightarrow> \<not> is_reference t \<and> \<not> is_void_type t \<and> wf_type t"
| "wf_type (T_array t n) \<longleftrightarrow> \<not> is_reference t \<and> \<not> is_void_type t \<and> \<not> is_function t \<and> wf_type t"
| "wf_type (T_fun r ps) \<longleftrightarrow> wf_type r \<and> (\<forall>p \<in> set ps. wf_type p)"
| "wf_type t \<longleftrightarrow> True"

lemma cv_qualified_kind [simp]:
  "is_reference (cv_qualified c v t) = is_reference t" "is_void_type (cv_qualified c v t) = is_void_type t" "is_function (cv_qualified c v t) = is_function t"
  by (cases t; simp)+

lemma cv_qualified_wf: "wf_type t \<Longrightarrow> wf_type (cv_qualified c v t)"
  by (induction c v t rule: cv_qualified.induct) auto

lemma remove_wf:
  assumes "wf_type t"
  shows "wf_type (remove_const t)" "wf_type (remove_volatile t)" "is_reference (remove_const t) = is_reference t"
    "is_reference (remove_volatile t) = is_reference t" "is_void_type (remove_const t) = is_void_type t"
    "is_void_type (remove_volatile t) = is_void_type t" "is_function (remove_const t) = is_function t" "is_function (remove_volatile t) = is_function t"
  using assms
  by (induction t) (auto elim: takes_cv.elims)

lemma remove_cv_wf: "wf_type t \<Longrightarrow> wf_type (remove_cv t)"
  by (simp add: remove_cv_def remove_wf)

lemma remove_cv_array [simp]: "remove_cv (T_array t n) = T_array (remove_cv t) n"
  by (simp add: remove_cv_def)

lemma remove_cv_again: "wf_type t \<Longrightarrow> remove_cv (remove_cv t) = remove_cv t"
  by (induction t) (auto simp: remove_cv_def elim: takes_cv.elims)

lemma remove_cv_qualified: "wf_type t \<Longrightarrow> remove_cv (cv_qualified c v t) = remove_cv t"
  by (induction c v t rule: cv_qualified.induct) (auto simp: remove_cv_def elim: takes_cv.elims)

lemma is_void_iff: "wf_type t \<Longrightarrow> is_void t \<longleftrightarrow> is_void_type t"
  by (cases t) (auto simp: is_void_def is_same_def remove_cv_def elim: takes_cv.elims)

lemma reference_result:
  assumes "wf_type t"
  shows "\<not> is_reference (remove_reference t)" "wf_type (remove_reference t)" "is_void_type (remove_reference t) = is_void_type t"
    "add_lvalue_reference t = (if is_void_type t then None else Some (T_lref (remove_reference t)))"
    "rref_to t = (if is_void_type t then None else if is_reference t then Some t else Some (T_rref t))"
  using assms by (cases t; auto elim: is_reference.elims)+

lemma move_type_eq: "wf_type t \<Longrightarrow> move_type t = (if is_void_type t then None else Some (T_rref (remove_reference t)))"
  using reference_result [of t] reference_result(5) [of "remove_reference t"] by (simp add: move_type_def)

lemma make_unsigned_cases:
  "make_unsigned t \<noteq> None \<longleftrightarrow> is_signed t \<or> is_unsigned t" "make_unsigned t = Some u \<Longrightarrow> is_unsigned u"
  by (auto simp: make_unsigned_def enable_if_def is_signed_def is_unsigned_def split: if_splits)

lemma swap_arrays_from:
  assumes "length xs = n" "length ys = n" "index \<le> n"
  shows "swap_arrays n index (xs, ys) = Inr (take index xs @ drop index ys, take index ys @ drop index xs)"
  using assms
proof (induction "n - index" arbitrary: index xs ys)
  case 0
  then show ?case by (subst swap_arrays.simps) simp
next
  case (Suc d)
  then have i: "index < n" by simp
  have "swap_arrays n index (xs, ys) = swap_arrays n (index + 1) (xs[index := ys ! index], ys[index := xs ! index])"
    using i Suc.prems by (subst swap_arrays.simps) (simp add: swap_values_def)
  also have "\<dots> = Inr (take (index + 1) (xs[index := ys ! index]) @ drop (index + 1) (ys[index := xs ! index]),
      take (index + 1) (ys[index := xs ! index]) @ drop (index + 1) (xs[index := ys ! index]))"
    using Suc i by (intro Suc.hyps(1)) simp_all
  also have "\<dots> = Inr (take index xs @ drop index ys, take index ys @ drop index xs)"
    using i Suc.prems by (simp add: take_Suc_conv_app_nth Cons_nth_drop_Suc [symmetric])
  finally show ?case .
qed

section \<open>Properties\<close>



text \<open>The compile-time tests of the traits hold.\<close>

theorem type_trait_tests:
  "(\<forall>(t, u) \<in> set t_add_const. is_same (add_const t) u) \<and> (\<forall>(t, u, b) \<in> set t_is_same. is_same t u = b)
    \<and> (\<forall>(t, u) \<in> set t_remove_reference. is_same (remove_reference t) u)"
  by (simp add: t_add_const_def t_is_same_def t_remove_reference_def is_same_def add_const_def)

text \<open>Swapping arrays exchanges them.\<close>

theorem swap_arrays_swaps: "length xs = n \<Longrightarrow> length ys = n \<Longrightarrow> swap_arrays n 0 (xs, ys) = Inr (ys, xs)"
  using swap_arrays_from [of xs n ys 0] by simp

text \<open>The complement of a byte is the byte itself, which agrees with the bitwise complement nowhere.\<close>

theorem byte_not_wrong: "byte_not b \<noteq> NOT b"
proof
  assume "byte_not b = NOT b"
  then have "bit b 0 = bit (NOT b) 0" by (simp add: byte_not_def)
  then show False by (simp add: bit_simps)
qed

end
