(* ===== verification/Context_Switch.thy ===== *)
theory Context_Switch
  imports Interrupts
begin

unbundle bit_operations_syntax

text \<open>
  The parts of the kernel that are written in inline assembly and move the stack: the switch between two tasks and the entry of an interrupt. The
  machine has its registers and a memory of bytes; each instruction is a function on it. A function that the compiler makes keeps the frame pointer:
  it starts with \<^verbatim>\<open>push ebp; mov ebp, esp\<close> and ends with \<^verbatim>\<open>pop ebp; ret\<close>, which is the layout that \<^verbatim>\<open>NewTaskStack\<close> is written for.
\<close>

section \<open>Definitions\<close>

type_synonym memory = "u32 \<Rightarrow> u8"

definition load32 :: "memory \<Rightarrow> u32 \<Rightarrow> u32" where
  "load32 m a = ucast (m a) OR push_bit 8 (ucast (m (a + 1))) OR push_bit 16 (ucast (m (a + 2))) OR push_bit 24 (ucast (m (a + 3)))"

definition store32 :: "memory \<Rightarrow> u32 \<Rightarrow> u32 \<Rightarrow> memory" where
  "store32 m a v = m(a := ucast v, a + 1 := ucast (drop_bit 8 v), a + 2 := ucast (drop_bit 16 v), a + 3 := ucast (drop_bit 24 v))"

definition load16 :: "memory \<Rightarrow> u32 \<Rightarrow> u16" where
  "load16 m a = ucast (m a) OR push_bit 8 (ucast (m (a + 1)))"

record machine =
  r_eax :: u32
  r_ecx :: u32
  r_edx :: u32
  r_ebx :: u32
  r_esp :: u32
  r_ebp :: u32
  r_esi :: u32
  r_edi :: u32
  r_eip :: u32
  r_eflags :: u32
  r_cs :: u16
  r_mem :: memory

definition push32 :: "u32 \<Rightarrow> machine \<Rightarrow> machine" where
  "push32 v s = s\<lparr>r_esp := r_esp s - 4, r_mem := store32 (r_mem s) (r_esp s - 4) v\<rparr>"

definition pop_to :: "(u32 \<Rightarrow> machine \<Rightarrow> machine) \<Rightarrow> machine \<Rightarrow> machine" where
  "pop_to set_reg s = (let v = load32 (r_mem s) (r_esp s) in set_reg v (s\<lparr>r_esp := r_esp s + 4\<rparr>))"

definition set_ebp :: "u32 \<Rightarrow> machine \<Rightarrow> machine" where
  "set_ebp v s = s\<lparr>r_ebp := v\<rparr>"

definition set_eflags :: "u32 \<Rightarrow> machine \<Rightarrow> machine" where
  "set_eflags v s = s\<lparr>r_eflags := v\<rparr>"

definition set_eip :: "u32 \<Rightarrow> machine \<Rightarrow> machine" where
  "set_eip v s = s\<lparr>r_eip := v\<rparr>"

definition set_ecx :: "u32 \<Rightarrow> machine \<Rightarrow> machine" where
  "set_ecx v s = s\<lparr>r_ecx := v\<rparr>"

definition call_near :: "u32 \<Rightarrow> u32 \<Rightarrow> machine \<Rightarrow> machine" where
  "call_near ret target s = set_eip target (push32 ret s)"

subsection \<open>The flags register\<close>

text \<open>The bit field that the flags are read through, from the lowest bit on.\<close>

record eflags =
  carry :: bool
  parity :: bool
  auxiliary_carry :: bool
  zero :: bool
  sign :: bool
  trap :: bool
  interrupts :: bool
  direction :: bool
  overflow :: bool
  io_privilege_level :: u32
  nested_task :: bool
  resume :: bool
  virtual_8086 :: bool
  alignment_check :: bool
  virtual_interrupt :: bool
  virtual_interrupt_pending :: bool
  cpuid_available :: bool

definition eflags_of :: "u32 \<Rightarrow> eflags" where
  "eflags_of w = \<lparr>carry = bit w 0, parity = bit w 2, auxiliary_carry = bit w 4, zero = bit w 6, sign = bit w 7, trap = bit w 8, interrupts = bit w 9,
     direction = bit w 10, overflow = bit w 11, io_privilege_level = take_bit 2 (drop_bit 12 w), nested_task = bit w 14, resume = bit w 16,
     virtual_8086 = bit w 17, alignment_check = bit w 18, virtual_interrupt = bit w 19, virtual_interrupt_pending = bit w 20, cpuid_available = bit w 21\<rparr>"

text \<open>\<^verbatim>\<open>pushf; pop\<close> into a local variable.\<close>

definition processor_flags :: "machine \<Rightarrow> eflags \<times> machine" where
  "processor_flags s = (let s1 = push32 (r_eflags s) s in (eflags_of (load32 (r_mem s1) (r_esp s1)), s1\<lparr>r_esp := r_esp s1 + 4\<rparr>))"

subsection \<open>The switch of tasks\<close>

text \<open>The arguments are the addresses of the fields \<^verbatim>\<open>_esp\<close> of the two tasks.\<close>

definition switch_tasks_impl :: "u32 \<Rightarrow> u32 \<Rightarrow> machine \<Rightarrow> machine" where
  "switch_tasks_impl prev_esp next_esp s =
     (let s = push32 (r_ebp s) s;
          s = set_ebp (r_esp s) s;
          s = push32 (r_eflags s) s;
          s = push32 (r_ebp s) s;
          s = s\<lparr>r_mem := store32 (r_mem s) prev_esp (r_esp s)\<rparr>;
          s = s\<lparr>r_esp := load32 (r_mem s) next_esp\<rparr>;
          s = pop_to set_ebp s;
          s = pop_to set_eflags s;
          s = pop_to set_ebp s
      in pop_to set_eip s)"

text \<open>The frame that \<^verbatim>\<open>create_task\<close> writes below the top of the stack of a new task.\<close>

definition write_new_task_stack :: "u32 \<Rightarrow> u32 \<Rightarrow> u32 \<Rightarrow> u32 \<Rightarrow> u32 \<Rightarrow> u32 \<Rightarrow> memory \<Rightarrow> memory" where
  "write_new_task_stack stack stack_size esp_field task entry flags m =
     (let frame = stack + stack_size - 20;
          m = store32 m (frame + 12) entry;
          m = store32 m (frame + 16) task;
          m = store32 m (frame + 8) (stack - 8);
          m = store32 m frame (stack - 8);
          m = store32 m (frame + 4) flags
      in store32 m esp_field frame)"

text \<open>\<^verbatim>\<open>pop ecx; call wrapperForRun\<close>, up to the first instruction of \<^verbatim>\<open>wrapperForRun\<close>.\<close>

definition start_on_new_frame :: "u32 \<Rightarrow> u32 \<Rightarrow> machine \<Rightarrow> machine" where
  "start_on_new_frame ret wrapperForRun s = call_near ret wrapperForRun (pop_to set_ecx s)"

subsection \<open>The entry of an interrupt\<close>

text \<open>
  What the processor does: it pushes the flags, the code segment in a word whose upper half is not specified, and the address of the next instruction, and turns the
  interrupts off. Some exceptions push an error code as well.
\<close>

definition cpu_interrupt :: "u16 \<Rightarrow> u32 option \<Rightarrow> u32 \<Rightarrow> machine \<Rightarrow> machine" where
  "cpu_interrupt upper errcode handler s =
     (let s = push32 (r_eflags s) s\<lparr>r_eflags := r_eflags s AND NOT 0x200\<rparr>;
          s = push32 (ucast (r_cs s) OR push_bit 16 (ucast upper)) s;
          s = push32 (r_eip s) s;
          s = (case errcode of None \<Rightarrow> s | Some e \<Rightarrow> push32 e s)
      in s\<lparr>r_eip := handler\<rparr>)"

definition pushal :: "machine \<Rightarrow> machine" where
  "pushal s = (let sp = r_esp s
     in push32 (r_edi s) (push32 (r_esi s) (push32 (r_ebp s) (push32 sp (push32 (r_ebx s) (push32 (r_edx s) (push32 (r_ecx s) (push32 (r_eax s) s))))))))"

definition popal :: "machine \<Rightarrow> machine" where
  "popal s = (let sp = r_esp s; w = (\<lambda>i. load32 (r_mem s) (sp + i))
     in s\<lparr>r_edi := w 0, r_esi := w 4, r_ebp := w 8, r_ebx := w 16, r_edx := w 20, r_ecx := w 24, r_eax := w 28, r_esp := sp + 32\<rparr>)"

definition iret :: "machine \<Rightarrow> machine" where
  "iret s = (let sp = r_esp s; w = (\<lambda>i. load32 (r_mem s) (sp + i))
     in s\<lparr>r_eip := w 0, r_cs := ucast (w 4), r_eflags := w 8, r_esp := sp + 12\<rparr>)"

text \<open>The assembler handler of vector \<open>n\<close>. The dispatcher, a C function, is an argument.\<close>

definition asm_irq_handler :: "u32 \<Rightarrow> u32 \<Rightarrow> (machine \<Rightarrow> machine) \<Rightarrow> machine \<Rightarrow> machine" where
  "asm_irq_handler n ret c_irq_dispatcher s =
     (let s = pushal s;
          s = push32 (r_esp s) s;
          s = push32 n s;
          s = c_irq_dispatcher (push32 ret s);
          s = s\<lparr>r_esp := r_esp s + 8\<rparr>
      in iret (popal s))"

text \<open>The frames that the handlers of the kernel read, as the packed structures lie over the stack.\<close>

definition read_registers :: "memory \<Rightarrow> u32 \<Rightarrow> registers_dump" where
  "read_registers m p = \<lparr>reg_edi = load32 m p, reg_esi = load32 m (p + 4), reg_ebp = load32 m (p + 8), reg_esp = load32 m (p + 12),
     reg_ebx = load32 m (p + 16), reg_edx = load32 m (p + 20), reg_ecx = load32 m (p + 24), reg_eax = load32 m (p + 28)\<rparr>"

definition read_execution_info :: "memory \<Rightarrow> u32 \<Rightarrow> execution_info_dump" where
  "read_execution_info m p = \<lparr>exe_eip = load32 m p, exe_cs = load16 m (p + 4), exe_eflags = load32 m (p + 6)\<rparr>"

definition read_frame_noerror :: "memory \<Rightarrow> u32 \<Rightarrow> int_frame_noerror" where
  "read_frame_noerror m p = \<lparr>fn_regs = read_registers m p, fn_exe = read_execution_info m (p + 32)\<rparr>"

definition read_frame_error :: "memory \<Rightarrow> u32 \<Rightarrow> int_frame_error" where
  "read_frame_error m p = \<lparr>fe_regs = read_registers m p, fe_error_code = load32 m (p + 32), fe_exe = read_execution_info m (p + 36)\<rparr>"

section \<open>Memory\<close>

definition bytes32 :: "u32 \<Rightarrow> u32 set" where
  "bytes32 a = {a, a + 1, a + 2, a + 3}"

lemma load_store_same [simp]: "load32 (store32 m a v) a = v"
proof (rule bit_word_eqI)
  fix n
  assume "n < LENGTH(32)"
  then have "n < 8 \<or> (8 \<le> n \<and> n < 16) \<or> (16 \<le> n \<and> n < 24) \<or> (24 \<le> n \<and> n < 32)" by auto
  then show "bit (load32 (store32 m a v) a) n = bit v n"
    by (elim disjE) (auto simp: load32_def store32_def bit_simps)
qed

lemma load_store_disjoint: "bytes32 a \<inter> bytes32 b = {} \<Longrightarrow> load32 (store32 m a v) b = load32 m b"
  by (simp add: load32_def store32_def bytes32_def)

text \<open>Words at least four bytes apart.\<close>

lemma bytes32_apart:
  assumes "4 \<le> c - a" "4 \<le> a - c"
  shows "bytes32 a \<inter> bytes32 c = {}"
proof -
  define d where "d = c - a"
  have c: "c = a + d" by (simp add: d_def)
  have "d \<noteq> 0" "d \<noteq> 1" "d \<noteq> 2" "d \<noteq> 3" "d \<noteq> - 1" "d \<noteq> - 2" "d \<noteq> - 3" using assms by (auto simp: c word_le_nat_alt)
  moreover from this have "1 + d \<noteq> 0" "d + 2 \<noteq> 0" "d + 3 \<noteq> 0" by (simp_all add: eq_neg_iff_add_eq_0 add.commute)
  ultimately show ?thesis unfolding bytes32_def c by (auto simp: algebra_simps)
qed

lemma load_store_apart [simp]: "4 \<le> c - a \<Longrightarrow> 4 \<le> a - c \<Longrightarrow> load32 (store32 m a v) c = load32 m c"
  by (intro load_store_disjoint bytes32_apart)

lemma store32_outside: "x \<notin> bytes32 a \<Longrightarrow> store32 m a v x = m x"
  by (simp add: store32_def bytes32_def)

lemma processor_flags_reads: "processor_flags s = (eflags_of (r_eflags s), s\<lparr>r_mem := store32 (r_mem s) (r_esp s - 4) (r_eflags s)\<rparr>)"
  by (cases s) (simp add: processor_flags_def push32_def Let_def)

section \<open>Saved contexts\<close>

text \<open>Where a task goes on: the registers behind the call of \<^verbatim>\<open>switch_tasks_impl\<close>.\<close>

record task_context =
  c_eip :: u32
  c_esp :: u32
  c_ebp :: u32
  c_eflags :: u32

definition ret_context :: "machine \<Rightarrow> task_context" where
  "ret_context s = \<lparr>c_eip = load32 (r_mem s) (r_esp s), c_esp = r_esp s + 4, c_ebp = r_ebp s, c_eflags = r_eflags s\<rparr>"

definition running :: "machine \<Rightarrow> task_context \<Rightarrow> bool" where
  "running s c \<longleftrightarrow> r_eip s = c_eip c \<and> r_esp s = c_esp c \<and> r_ebp s = c_ebp c \<and> r_eflags s = c_eflags c"

text \<open>A context in memory, found through the field \<^verbatim>\<open>_esp\<close> of the task, and the bytes that hold it.\<close>

definition suspended :: "memory \<Rightarrow> u32 \<Rightarrow> task_context \<Rightarrow> bool" where
  "suspended m f c \<longleftrightarrow> (let sp = load32 m f
     in load32 m (sp + 4) = c_eflags c \<and> load32 m (sp + 8) = c_ebp c \<and> load32 m (sp + 12) = c_eip c \<and> sp + 16 = c_esp c)"

definition footprint :: "memory \<Rightarrow> u32 \<Rightarrow> u32 set" where
  "footprint m f = (let sp = load32 m f in bytes32 f \<union> bytes32 sp \<union> bytes32 (sp + 4) \<union> bytes32 (sp + 8) \<union> bytes32 (sp + 12))"

lemma load_agree: "(\<And>x. x \<in> bytes32 a \<Longrightarrow> m' x = m x) \<Longrightarrow> load32 m' a = load32 m a"
  by (simp add: load32_def bytes32_def)

lemma footprint_agree:
  assumes "\<And>x. x \<in> footprint m f \<Longrightarrow> m' x = m x"
  shows "footprint m' f = footprint m f" "suspended m' f c \<longleftrightarrow> suspended m f c"
proof -
  have sp: "load32 m' f = load32 m f" using assms by (intro load_agree) (auto simp: footprint_def Let_def)
  then show "footprint m' f = footprint m f" by (simp add: footprint_def)
  have "load32 m' (load32 m f + i) = load32 m (load32 m f + i)" if "i \<in> {4, 8, 12}" for i
    using assms that by (intro load_agree) (auto simp: footprint_def Let_def)
  then show "suspended m' f c \<longleftrightarrow> suspended m f c" by (simp add: suspended_def sp Let_def)
qed

text \<open>The first half of a switch saves the context of the task that leaves, the second one loads that of the other.\<close>

definition save_context :: "u32 \<Rightarrow> machine \<Rightarrow> memory" where
  "save_context f s = store32 (store32 (store32 (store32 (r_mem s) (r_esp s - 4) (r_ebp s)) (r_esp s - 8) (r_eflags s)) (r_esp s - 12) (r_esp s - 4)) f (r_esp s - 12)"

lemma switch_halves:
  "switch_tasks_impl prev next s = (let m = save_context prev s; sp = load32 m next
     in s\<lparr>r_mem := m, r_esp := sp + 16, r_ebp := load32 m (sp + 8), r_eflags := load32 m (sp + 4), r_eip := load32 m (sp + 12)\<rparr>)"
  by (cases s) (simp add: switch_tasks_impl_def save_context_def push32_def pop_to_def set_ebp_def set_eflags_def set_eip_def Let_def add.commute)

abbreviation switch_words :: "machine \<Rightarrow> u32 set" where
  "switch_words s \<equiv> bytes32 (r_esp s - 12) \<union> bytes32 (r_esp s - 8) \<union> bytes32 (r_esp s - 4) \<union> bytes32 (r_esp s)"

lemma save_context_outside: "x \<notin> bytes32 f \<Longrightarrow> x \<notin> switch_words s \<Longrightarrow> save_context f s x = r_mem s x"
  by (simp add: save_context_def store32_outside)

lemma save_context_saves:
  assumes "bytes32 f \<inter> switch_words s = {}"
  shows "suspended (save_context f s) f (ret_context s)" "footprint (save_context f s) f = bytes32 f \<union> switch_words s"
proof -
  let ?sp = "r_esp s - 12" and ?m = "save_context f s"
  have f: "load32 ?m f = ?sp" by (simp add: save_context_def)
  have dj: "bytes32 f \<inter> bytes32 (r_esp s - 8) = {}" "bytes32 f \<inter> bytes32 (r_esp s - 4) = {}" "bytes32 f \<inter> bytes32 (r_esp s) = {}"
    using assms by auto
  have "load32 ?m (r_esp s - 8) = r_eflags s" "load32 ?m (r_esp s - 4) = r_ebp s" "load32 ?m (r_esp s) = load32 (r_mem s) (r_esp s)"
    unfolding save_context_def using dj by (simp_all add: load_store_disjoint word_le_nat_alt)
  then show "suspended ?m f (ret_context s)" by (simp add: suspended_def ret_context_def f Let_def)
  show "footprint ?m f = bytes32 f \<union> switch_words s" by (auto simp: footprint_def f Let_def)
qed

lemma switch_runs:
  assumes "suspended (save_context prev s) next c"
  shows "running (switch_tasks_impl prev next s) c" "r_mem (switch_tasks_impl prev next s) = save_context prev s"
  using assms by (simp_all add: switch_halves running_def suspended_def Let_def)

section \<open>Runs of tasks\<close>

text \<open>
  A system of tasks: the tasks that exist, the one that runs, the machine, and for every other task the context it left with. Each task has an area of memory of
  its own, which holds its stack and its field \<^verbatim>\<open>_esp\<close>, at the address that \<open>f\<close> gives.
\<close>

record 't system =
  sy_tasks :: "'t set"
  sy_current :: 't
  sy_machine :: machine
  sy_contexts :: "'t \<Rightarrow> task_context"

definition new_context :: "u32 \<Rightarrow> u32 \<Rightarrow> u32 \<Rightarrow> u32 \<Rightarrow> task_context" where
  "new_context stack stack_size entry flags = \<lparr>c_eip = entry, c_esp = stack + stack_size - 4, c_ebp = stack - 8, c_eflags = flags\<rparr>"

text \<open>
  The running task computes, without a write into the areas of the others; it creates a task, whose frame is written into the area of that task; or it switches to another one.
\<close>

inductive system_step :: "('t \<Rightarrow> u32 set) \<Rightarrow> ('t \<Rightarrow> u32) \<Rightarrow> 't system \<Rightarrow> 't system \<Rightarrow> bool" for area f where
  compute: "(\<And>u x. u \<in> sy_tasks y - {sy_current y} \<Longrightarrow> x \<in> area u \<Longrightarrow> r_mem s x = r_mem (sy_machine y) x)
    \<Longrightarrow> system_step area f y (y\<lparr>sy_machine := s\<rparr>)"
| create: "t \<notin> sy_tasks y \<Longrightarrow> s = sy_machine y
    \<Longrightarrow> bytes32 (f t) \<union> {stack + stack_size - 20 + i |i. i < 20} \<subseteq> area t \<Longrightarrow> bytes32 (f t) \<inter> {stack + stack_size - 20 + i |i. i < 20} = {}
    \<Longrightarrow> system_step area f y (y\<lparr>sy_tasks := insert t (sy_tasks y),
      sy_machine := s\<lparr>r_mem := write_new_task_stack stack stack_size (f t) task entry (r_eflags s) (r_mem s)\<rparr>,
      sy_contexts := (sy_contexts y)(t := new_context stack stack_size entry (r_eflags s))\<rparr>)"
| switch: "t \<in> sy_tasks y \<Longrightarrow> s = sy_machine y \<Longrightarrow> c = sy_current y
    \<Longrightarrow> bytes32 (f c) \<union> switch_words s \<subseteq> area c \<Longrightarrow> bytes32 (f c) \<inter> switch_words s = {}
    \<Longrightarrow> system_step area f y (y\<lparr>sy_current := t, sy_machine := switch_tasks_impl (f c) (f t) s,
      sy_contexts := (sy_contexts y)(c := ret_context s)\<rparr>)"

definition system_ok :: "('t \<Rightarrow> u32 set) \<Rightarrow> ('t \<Rightarrow> u32) \<Rightarrow> 't system \<Rightarrow> bool" where
  "system_ok area f y \<longleftrightarrow> sy_current y \<in> sy_tasks y \<and> (\<forall>u \<in> sy_tasks y - {sy_current y}.
     suspended (r_mem (sy_machine y)) (f u) (sy_contexts y u) \<and> footprint (r_mem (sy_machine y)) (f u) \<subseteq> area u)"

lemma suspended_kept:
  assumes "suspended m (f u) c" "footprint m (f u) \<subseteq> A" "\<And>x. x \<in> A \<Longrightarrow> m' x = m x"
  shows "suspended m' (f u) c" "footprint m' (f u) \<subseteq> A"
  using footprint_agree(1) [of m "f u" m'] footprint_agree(2) [of m "f u" m' c] assms by auto

lemma new_frame_word: "i \<in> {0, 4, 8, 12, 16} \<Longrightarrow> bytes32 (b + i) \<subseteq> {b + j |j. j < (20 :: u32)}"
  by (auto simp: bytes32_def)

lemma new_task_suspended:
  assumes "bytes32 f \<inter> {stack + stack_size - 20 + i |i. i < 20} = {}"
  shows "suspended (write_new_task_stack stack stack_size f task entry flags m) f (new_context stack stack_size entry flags)"
    "footprint (write_new_task_stack stack stack_size f task entry flags m) f \<subseteq> bytes32 f \<union> {stack + stack_size - 20 + i |i. i < 20}"
    "x \<notin> bytes32 f \<union> {stack + stack_size - 20 + i |i. i < 20} \<Longrightarrow> write_new_task_stack stack stack_size f task entry flags m x = m x"
proof -
  define b where "b = stack + stack_size - 20"
  let ?m = "write_new_task_stack stack stack_size f task entry flags m"
  have sub: "bytes32 (b + i) \<subseteq> {b + j |j. j < 20}" if "i \<in> {0, 4, 8, 12, 16}" for i using that by (rule new_frame_word)
  have dj: "bytes32 f \<inter> bytes32 (b + i) = {}" if "i \<in> {0, 4, 8, 12, 16}" for i using assms sub [OF that] unfolding b_def by blast
  have m: "?m = store32 (store32 (store32 (store32 (store32 (store32 m (b + 12) entry) (b + 16) task) (b + 8) (stack - 8)) b (stack - 8)) (b + 4) flags) f b"
    by (simp add: write_new_task_stack_def Let_def b_def)
  have f: "load32 ?m f = b" by (simp add: m)
  have "load32 ?m (b + 4) = flags" "load32 ?m (b + 8) = stack - 8" "load32 ?m (b + 12) = entry"
    unfolding m using dj [of 4] dj [of 8] dj [of 12] by (simp_all add: load_store_disjoint word_le_nat_alt)
  then show "suspended ?m f (new_context stack stack_size entry flags)" by (simp add: suspended_def new_context_def f Let_def b_def)
  show "footprint ?m f \<subseteq> bytes32 f \<union> {stack + stack_size - 20 + i |i. i < 20}"
    using sub [of 0] sub [of 4] sub [of 8] sub [of 12] unfolding footprint_def f Let_def b_def by auto
  show "?m x = m x" if "x \<notin> bytes32 f \<union> {stack + stack_size - 20 + i |i. i < 20}"
    using that sub [of 0] sub [of 4] sub [of 8] sub [of 12] sub [of 16] unfolding m b_def [symmetric] by (subst store32_outside; auto)+
qed

text \<open>The invariant, for tasks with disjoint areas.\<close>

lemma system_step_ok:
  assumes "system_step area f y y'" "system_ok area f y" "\<And>u v. u \<noteq> v \<Longrightarrow> area u \<inter> area v = {}"
  shows "system_ok area f y'"
  using assms(1,2)
proof (induction rule: system_step.induct)
  case (compute y s)
  have "suspended (r_mem s) (f u) (sy_contexts y u) \<and> footprint (r_mem s) (f u) \<subseteq> area u" if "u \<in> sy_tasks y - {sy_current y}" for u
    using suspended_kept [of "r_mem (sy_machine y)" f u "sy_contexts y u" "area u" "r_mem s"] compute that unfolding system_ok_def by blast
  then show ?case using compute(2) by (simp add: system_ok_def)
next
  case (create t y s stack stack_size entry task)
  let ?m = "write_new_task_stack stack stack_size (f t) task entry (r_eflags s) (r_mem s)"
  note new = new_task_suspended [OF create(4), where task = task and entry = entry and flags = "r_eflags s" and m = "r_mem s"]
  have "suspended ?m (f u) (sy_contexts y u) \<and> footprint ?m (f u) \<subseteq> area u" if "u \<in> sy_tasks y - {sy_current y}" for u
  proof -
    have "u \<noteq> t" using that create(1) by auto
    then have "area u \<inter> area t = {}" by (rule assms(3))
    then have "?m x = r_mem s x" if "x \<in> area u" for x using that create(3) by (intro new(3)) blast
    then show ?thesis using suspended_kept [of "r_mem s" f u "sy_contexts y u" "area u" ?m] that create(2,5) unfolding system_ok_def by blast
  qed
  moreover have "suspended ?m (f t) (new_context stack stack_size entry (r_eflags s))" "footprint ?m (f t) \<subseteq> area t" using new(1,2) create(3) by auto
  ultimately show ?case using create(1,5) by (auto simp: system_ok_def)
next
  case (switch t y s c)
  let ?s = "switch_tasks_impl (f c) (f t) s" and ?m = "save_context (f c) s"
  have m: "r_mem ?s = ?m" by (simp add: switch_halves Let_def)
  have "suspended ?m (f u) (sy_contexts y u) \<and> footprint ?m (f u) \<subseteq> area u" if "u \<in> sy_tasks y - {c}" for u
  proof -
    have "area u \<inter> area c = {}" using that by (intro assms(3)) simp
    then have "?m x = r_mem s x" if "x \<in> area u" for x using that switch(4) by (intro save_context_outside) blast+
    then show ?thesis using suspended_kept [of "r_mem s" f u "sy_contexts y u" "area u" ?m] that switch(2,3,6) unfolding system_ok_def by blast
  qed
  moreover have "suspended ?m (f c) (ret_context s)" "footprint ?m (f c) \<subseteq> area c"
    using save_context_saves [OF switch(5)] switch(4) by simp_all
  ultimately show ?case using switch(1) m by (auto simp: system_ok_def)
qed

lemma system_steps_ok:
  assumes "(system_step area f)\<^sup>*\<^sup>* y y'" "system_ok area f y" "\<And>u v. u \<noteq> v \<Longrightarrow> area u \<inter> area v = {}"
  shows "system_ok area f y'"
  using assms(1,2) by (induction rule: rtranclp_induct) (auto intro: system_step_ok [OF _ _ assms(3)])

text \<open>What a switch in a good system runs.\<close>

lemma switch_resumes:
  assumes "system_ok area f y" "\<And>u v. u \<noteq> v \<Longrightarrow> area u \<inter> area v = {}"
    and "s = sy_machine y" "c = sy_current y" "t \<in> sy_tasks y"
    and "bytes32 (f c) \<union> switch_words s \<subseteq> area c" "bytes32 (f c) \<inter> switch_words s = {}"
  shows "running (switch_tasks_impl (f c) (f t) s) (if t = c then ret_context s else sy_contexts y t)"
proof (cases "t = c")
  case True
  then show ?thesis using switch_runs(1) [OF save_context_saves(1) [OF assms(7)]] by simp
next
  case False
  then have "area t \<inter> area c = {}" by (rule assms(2))
  then have "save_context (f c) s x = r_mem s x" if "x \<in> area t" for x using that assms(6) by (intro save_context_outside) blast+
  then have "suspended (save_context (f c) s) (f t) (sy_contexts y t)"
    using suspended_kept(1) [of "r_mem s" f t "sy_contexts y t" "area t" "save_context (f c) s"] assms(1,3-5) False unfolding system_ok_def by blast
  from switch_runs(1) [OF this] False show ?thesis by simp
qed

text \<open>While a task does not run, nothing changes its context.\<close>

lemma context_kept:
  assumes "(\<lambda>y y'. system_step area f y y' \<and> sy_current y' \<noteq> a)\<^sup>*\<^sup>* y y'" "a \<in> sy_tasks y" "sy_current y \<noteq> a"
  shows "a \<in> sy_tasks y' \<and> sy_contexts y' a = sy_contexts y a \<and> sy_current y' \<noteq> a \<and> (system_step area f)\<^sup>*\<^sup>* y y'"
  using assms
proof (induction rule: rtranclp_induct)
  case (step y' z)
  then have "a \<in> sy_tasks y'" "sy_contexts y' a = sy_contexts y a" "sy_current y' \<noteq> a" "(system_step area f)\<^sup>*\<^sup>* y y'" by simp_all
  moreover have "a \<in> sy_tasks z \<and> sy_contexts z a = sy_contexts y' a"
    using step.hyps(2) calculation(1,3) by (auto elim: system_step.cases)
  ultimately show ?case using step.hyps(2) by auto
qed simp

section \<open>The entry of interrupts\<close>

text \<open>The stack of an interrupt: the words from the frame that the handlers get up to the one that was on top before.\<close>

definition frame_words :: "u32 \<Rightarrow> u32 set" where
  "frame_words frame = {frame + i |i. i < 44}"

text \<open>A C function by the calling convention: it returns to its caller, keeps the registers that it has to keep, and leaves the frame above its arguments alone.\<close>

definition cdecl :: "(machine \<Rightarrow> machine) \<Rightarrow> bool" where
  "cdecl g \<longleftrightarrow> (\<forall>s. r_esp (g s) = r_esp s + 4 \<and> r_eip (g s) = load32 (r_mem s) (r_esp s) \<and> r_ebp (g s) = r_ebp s
     \<and> r_ebx (g s) = r_ebx s \<and> r_esi (g s) = r_esi s \<and> r_edi (g s) = r_edi s \<and> r_cs (g s) = r_cs s
     \<and> (\<forall>x \<in> frame_words (r_esp s + 12). r_mem (g s) x = r_mem s x))"

lemma frame_word: "i \<in> {0, 4, 8, 12, 16, 20, 24, 28, 32, 36, 40} \<Longrightarrow> bytes32 (b + i) \<subseteq> frame_words b"
  by (auto simp: bytes32_def frame_words_def)

text \<open>What is on the stack when the dispatcher starts.\<close>

definition entered :: "u32 \<Rightarrow> u32 \<Rightarrow> machine \<Rightarrow> machine" where
  "entered n ret s = (let s = pushal s; s = push32 (r_esp s) s; s = push32 n s in push32 ret s)"

lemma asm_irq_handler_entered:
  "asm_irq_handler n ret g s = (let s = g (entered n ret s) in iret (popal (s\<lparr>r_esp := r_esp s + 8\<rparr>)))"
  by (simp add: asm_irq_handler_def entered_def Let_def)

lemma entered_regs:
  "r_esp (entered n ret s) = r_esp s - 44" "r_cs (entered n ret s) = r_cs s" "r_eflags (entered n ret s) = r_eflags s"
  by (simp_all add: entered_def pushal_def push32_def Let_def)

lemma entered_memory:
  "r_mem (entered n ret s) =
    store32 (store32 (store32 (store32 (store32 (store32 (store32 (store32 (store32 (store32 (store32 (r_mem s)
      (r_esp s - 4) (r_eax s)) (r_esp s - 8) (r_ecx s)) (r_esp s - 12) (r_edx s)) (r_esp s - 16) (r_ebx s)) (r_esp s - 20) (r_esp s)) (r_esp s - 24) (r_ebp s))
      (r_esp s - 28) (r_esi s)) (r_esp s - 32) (r_edi s)) (r_esp s - 36) (r_esp s - 32)) (r_esp s - 40) n) (r_esp s - 44) ret"
  by (simp add: entered_def pushal_def push32_def Let_def)

lemma entered_words:
  fixes s n ret
  defines "m \<equiv> r_mem (entered n ret s)"
  shows "load32 m (r_esp s - 40) = n" "load32 m (r_esp s - 36) = r_esp s - 32"
    "load32 m (r_esp s - 32) = r_edi s" "load32 m (r_esp s - 28) = r_esi s" "load32 m (r_esp s - 24) = r_ebp s"
    "load32 m (r_esp s - 20) = r_esp s" "load32 m (r_esp s - 16) = r_ebx s" "load32 m (r_esp s - 12) = r_edx s" "load32 m (r_esp s - 8) = r_ecx s"
    "load32 m (r_esp s - 4) = r_eax s" "load32 m (r_esp s) = load32 (r_mem s) (r_esp s)" "load32 m (r_esp s + 4) = load32 (r_mem s) (r_esp s + 4)"
    "load32 m (r_esp s + 8) = load32 (r_mem s) (r_esp s + 8)"
  unfolding m_def entered_memory by (simp_all add: word_le_nat_alt)

lemma load32_half: "load32 m (a + 2) = drop_bit 16 (load32 m a) OR push_bit 16 (load32 m (a + 4))"
proof (rule bit_word_eqI)
  fix n
  assume "n < LENGTH(32)"
  then have "n < 8 \<or> (8 \<le> n \<and> n < 16) \<or> (16 \<le> n \<and> n < 24) \<or> (24 \<le> n \<and> n < 32)" by auto
  then show "bit (load32 m (a + 2)) n = bit (drop_bit 16 (load32 m a) OR push_bit 16 (load32 m (a + 4))) n"
    by (elim disjE) (auto simp: load32_def bit_simps add.assoc dest: bit_imp_le_length)
qed

lemma load16_low: "load16 m a = ucast (load32 m a)"
proof (rule bit_word_eqI)
  fix n
  assume "n < LENGTH(16)"
  then have "n < 8 \<or> (8 \<le> n \<and> n < 16)" by auto
  then show "bit (load16 m a) n = bit (ucast (load32 m a) :: u16) n"
    by (elim disjE) (auto simp: load32_def load16_def bit_simps)
qed

lemma cs_word: "ucast (ucast (c :: u16) OR push_bit 16 (ucast (u :: u16)) :: u32) = c" "drop_bit 16 (ucast (c :: u16) OR push_bit 16 (ucast (u :: u16)) :: u32) = ucast u"
  by (rule bit_word_eqI; auto simp: bit_simps dest: bit_imp_le_length)+

text \<open>What the processor leaves on the stack.\<close>

lemma cpu_interrupt_none:
  fixes s upper handler
  defines "s1 \<equiv> cpu_interrupt upper None handler s"
  shows "r_esp s1 = r_esp s - 12" "load32 (r_mem s1) (r_esp s1) = r_eip s"
    "load32 (r_mem s1) (r_esp s1 + 4) = ucast (r_cs s) OR push_bit 16 (ucast upper)" "load32 (r_mem s1) (r_esp s1 + 8) = r_eflags s"
    "r_eax s1 = r_eax s" "r_ecx s1 = r_ecx s" "r_edx s1 = r_edx s" "r_ebx s1 = r_ebx s" "r_ebp s1 = r_ebp s" "r_esi s1 = r_esi s" "r_edi s1 = r_edi s"
    "r_eip s1 = handler" "\<not> bit (r_eflags s1) 9"
proof -
  show "\<not> bit (r_eflags s1) 9" by (simp add: s1_def cpu_interrupt_def push32_def Let_def bit_simps)
qed (simp_all add: s1_def cpu_interrupt_def push32_def Let_def word_le_nat_alt)

lemma cpu_interrupt_some:
  fixes s upper handler e
  defines "s1 \<equiv> cpu_interrupt upper (Some e) handler s"
  shows "r_esp s1 = r_esp s - 16" "load32 (r_mem s1) (r_esp s1) = e" "load32 (r_mem s1) (r_esp s1 + 4) = r_eip s"
  by (simp_all add: s1_def cpu_interrupt_def push32_def Let_def word_le_nat_alt)

text \<open>What the assembler handler restores.\<close>

lemma asm_irq_handler_restores:
  fixes s n ret g
  assumes "cdecl g"
  defines "s' \<equiv> asm_irq_handler n ret g s"
  shows "r_eax s' = r_eax s" "r_ecx s' = r_ecx s" "r_edx s' = r_edx s" "r_ebx s' = r_ebx s" "r_ebp s' = r_ebp s" "r_esi s' = r_esi s" "r_edi s' = r_edi s"
    "r_esp s' = r_esp s + 12" "r_eip s' = load32 (r_mem s) (r_esp s)" "r_cs s' = ucast (load32 (r_mem s) (r_esp s + 4))"
    "r_eflags s' = load32 (r_mem s) (r_esp s + 8)" "r_mem s' = r_mem (g (entered n ret s))"
proof -
  let ?e = "entered n ret s" and ?b = "r_esp s - 32"
  have g: "r_esp (g ?e) = r_esp ?e + 4" "\<And>x. x \<in> frame_words (r_esp ?e + 12) \<Longrightarrow> r_mem (g ?e) x = r_mem ?e x"
    using assms(1) by (simp_all add: cdecl_def)
  have sp: "r_esp ?e + 12 = ?b" "r_esp (g ?e) = r_esp s - 40" using g(1) by (simp_all add: entered_regs(1))
  have w: "load32 (r_mem (g ?e)) (?b + i) = load32 (r_mem ?e) (?b + i)" if "i \<in> {0, 4, 8, 12, 16, 20, 24, 28, 32, 36, 40}" for i
    using frame_word [OF that, of ?b] g(2) unfolding sp(1) by (intro load_agree) blast
  note ws = w [of 0] w [of 4] w [of 8] w [of 16] w [of 20] w [of 24] w [of 28] w [of 32] w [of 36] w [of 40]
  show "r_eax s' = r_eax s" "r_ecx s' = r_ecx s" "r_edx s' = r_edx s" "r_ebx s' = r_ebx s" "r_ebp s' = r_ebp s" "r_esi s' = r_esi s" "r_edi s' = r_edi s"
    "r_esp s' = r_esp s + 12" "r_eip s' = load32 (r_mem s) (r_esp s)" "r_cs s' = ucast (load32 (r_mem s) (r_esp s + 4))"
    "r_eflags s' = load32 (r_mem s) (r_esp s + 8)" "r_mem s' = r_mem (g ?e)"
    using ws entered_words [of n ret s] unfolding s'_def asm_irq_handler_entered by (simp_all add: popal_def iret_def Let_def sp(2) add.commute)
qed

text \<open>The frame that the handlers see, from the registers of the interrupted code.\<close>

definition frame_of :: "u16 \<Rightarrow> machine \<Rightarrow> int_frame_noerror" where
  "frame_of upper s = \<lparr>fn_regs = \<lparr>reg_edi = r_edi s, reg_esi = r_esi s, reg_ebp = r_ebp s, reg_esp = r_esp s - 12,
       reg_ebx = r_ebx s, reg_edx = r_edx s, reg_ecx = r_ecx s, reg_eax = r_eax s\<rparr>,
     fn_exe = \<lparr>exe_eip = r_eip s, exe_cs = r_cs s, exe_eflags = ucast upper OR push_bit 16 (r_eflags s)\<rparr>\<rparr>"

lemma entered_frame:
  fixes s n ret upper handler
  defines "s1 \<equiv> cpu_interrupt upper None handler s" and "e \<equiv> entered n ret (cpu_interrupt upper None handler s)"
  shows "load32 (r_mem e) (r_esp e + 4) = n" "load32 (r_mem e) (r_esp e + 8) = r_esp s1 - 32"
    "read_frame_noerror (r_mem e) (r_esp s1 - 32) = frame_of upper s"
proof -
  note c = cpu_interrupt_none [of upper handler s, folded s1_def]
  note w = entered_words [of n ret s1, folded e_def [folded s1_def]]
  have sp: "r_esp e + 4 = r_esp s1 - 40" "r_esp e + 8 = r_esp s1 - 36" by (simp_all add: e_def s1_def entered_regs(1))
  show "load32 (r_mem e) (r_esp e + 4) = n" "load32 (r_mem e) (r_esp e + 8) = r_esp s1 - 32" using w(1,2) by (simp_all only: sp)
  have exe: "load32 (r_mem e) (r_esp s1) = r_eip s" "load32 (r_mem e) (r_esp s1 + 4) = ucast (r_cs s) OR push_bit 16 (ucast upper)"
    "load32 (r_mem e) (r_esp s1 + 8) = r_eflags s"
    using w(11-13) c(2-4) by simp_all
  have "load32 (r_mem e) (r_esp s1 + 6) = drop_bit 16 (load32 (r_mem e) (r_esp s1 + 4)) OR push_bit 16 (load32 (r_mem e) (r_esp s1 + 8))"
    using load32_half [of "r_mem e" "r_esp s1 + 4"] by (simp add: add.assoc)
  then have "load32 (r_mem e) (r_esp s1 + 6) = ucast upper OR push_bit 16 (r_eflags s)" by (simp only: exe(2,3) cs_word(2))
  moreover have "load16 (r_mem e) (r_esp s1 + 4) = r_cs s" by (simp only: load16_low exe(2) cs_word(1))
  ultimately have "read_execution_info (r_mem e) (r_esp s1) = fn_exe (frame_of upper s)" using exe(1) by (simp add: read_execution_info_def frame_of_def)
  moreover have "read_registers (r_mem e) (r_esp s1 - 32) = fn_regs (frame_of upper s)"
    using w(3-10) c(1,5-11) by (simp add: read_registers_def frame_of_def)
  ultimately show "read_frame_noerror (r_mem e) (r_esp s1 - 32) = frame_of upper s" by (simp add: read_frame_noerror_def)
qed

section \<open>An example\<close>

definition example_area :: "bool \<Rightarrow> u32 set" where
  "example_area t = (if t then {0x1000..<0x2000} else {0x2000..<0x3000})"

definition example_field :: "bool \<Rightarrow> u32" where
  "example_field t = (if t then 0x1000 else 0x2000)"

definition example_machine0 :: machine where
  "example_machine0 = \<lparr>r_eax = 1, r_ecx = 2, r_edx = 3, r_ebx = 4, r_esp = 0x1f00, r_ebp = 0x1f20, r_esi = 5, r_edi = 6, r_eip = 0x100000, r_eflags = 0x202, r_cs = 8,
     r_mem = store32 (write_new_task_stack 0x2010 0xff0 0x2000 0x2004 0x100200 0x202 (\<lambda>_. 0)) 0x1f00 0x100123\<rparr>"

definition example_system :: "bool system" where
  "example_system = \<lparr>sy_tasks = UNIV, sy_current = True, sy_machine = example_machine0, sy_contexts = (\<lambda>_. new_context 0x2010 0xff0 0x100200 0x202)\<rparr>"

lemma example_areas: "u \<noteq> v \<Longrightarrow> example_area u \<inter> example_area v = {}"
  by (auto simp: example_area_def word_le_nat_alt word_less_nat_alt)

lemma example_memory:
  "load32 (r_mem example_machine0) 0x2000 = 0x2fec" "load32 (r_mem example_machine0) 0x2ff0 = 0x202" "load32 (r_mem example_machine0) 0x2ff4 = 0x2008"
  "load32 (r_mem example_machine0) 0x2ff8 = 0x100200" "load32 (r_mem example_machine0) 0x1f00 = 0x100123"
  by (simp_all add: example_machine0_def write_new_task_stack_def Let_def)

lemma example_system_ok: "system_ok example_area example_field example_system"
  by (simp add: system_ok_def example_system_def suspended_def footprint_def example_field_def example_memory new_context_def Let_def example_area_def bytes32_def)

section \<open>Properties\<close>

text \<open>
  C3: a task goes on where it left off. Tasks have disjoint areas of memory for their stacks and saved stack pointers. When a task switches to another one, and then any tasks compute, create
  tasks and switch to each other, as long as nobody writes into the areas of tasks that do not run, the first switch back to it returns behind its own call of
  \<^verbatim>\<open>switch_tasks_impl\<close>, with its stack pointer, frame pointer and flags as they were there.
\<close>

theorem tasks_resume:
  assumes "system_ok area f y" "\<And>u v. u \<noteq> v \<Longrightarrow> area u \<inter> area v = {}"
    and "a = sy_current y" "s = sy_machine y" "b \<in> sy_tasks y" "b \<noteq> a"
    and "bytes32 (f a) \<union> switch_words s \<subseteq> area a" "bytes32 (f a) \<inter> switch_words s = {}"
    and "y1 = y\<lparr>sy_current := b, sy_machine := switch_tasks_impl (f a) (f b) s, sy_contexts := (sy_contexts y)(a := ret_context s)\<rparr>"
    and "(\<lambda>y y'. system_step area f y y' \<and> sy_current y' \<noteq> a)\<^sup>*\<^sup>* y1 y2" "c = sy_current y2" "s2 = sy_machine y2"
    and "bytes32 (f c) \<union> switch_words s2 \<subseteq> area c" "bytes32 (f c) \<inter> switch_words s2 = {}"
  shows "running (switch_tasks_impl (f c) (f a) s2) (ret_context s)"
proof -
  have "system_step area f y y1" unfolding assms(9) using assms(3-5,7,8) by (intro system_step.switch) auto
  then have ok1: "system_ok area f y1" using assms(1,2) by (rule system_step_ok)
  have a1: "a \<in> sy_tasks y1" "sy_current y1 \<noteq> a" "sy_contexts y1 a = ret_context s" using assms(1,3,6,9) by (simp_all add: system_ok_def)
  note kept = context_kept [OF assms(10) a1(1,2)]
  have "system_ok area f y2" using kept ok1 assms(2) by (blast intro: system_steps_ok)
  from switch_resumes [OF this assms(2,12,11) _ assms(13,14), of a] show ?thesis using kept a1(3) assms(11) by auto
qed

theorem tasks_resume_witness:
  "running (switch_tasks_impl 0x2000 0x1000 (switch_tasks_impl 0x1000 0x2000 example_machine0)) (ret_context example_machine0)"
proof -
  let ?y1 = "example_system\<lparr>sy_current := False, sy_machine := switch_tasks_impl 0x1000 0x2000 example_machine0,
      sy_contexts := (sy_contexts example_system)(True := ret_context example_machine0)\<rparr>"
  have e: "example_field True = 0x1000" "example_field False = 0x2000" "sy_current example_system = True" "sy_machine example_system = example_machine0"
    "sy_tasks example_system = UNIV"
    by (simp_all add: example_field_def example_system_def)
  have "running (switch_tasks_impl 0x1000 0x2000 example_machine0) (new_context 0x2010 0xff0 0x100200 0x202)"
    using switch_resumes [OF example_system_ok example_areas, where t = False and s = example_machine0 and c = True] e
    by (simp add: example_area_def bytes32_def example_machine0_def example_system_def)
  then have sp: "r_esp (switch_tasks_impl 0x1000 0x2000 example_machine0) = 0x2ffc" by (simp add: running_def new_context_def)
  show ?thesis
    using tasks_resume [OF example_system_ok example_areas, where a = True and s = example_machine0 and b = False and ?y1.0 = ?y1 and ?y2.0 = ?y1
        and c = False and ?s2.0 = "switch_tasks_impl 0x1000 0x2000 example_machine0"] e
    by (simp add: example_area_def bytes32_def sp) (simp add: example_machine0_def)
qed

text \<open>
  C10: interrupts are transparent. The assembler handler of a vector calls the dispatcher, with the interrupts off, with that vector and a frame that holds the general registers of the interrupted code in the order of
  \<^verbatim>\<open>registers_dump_t\<close>, its instruction pointer and its code segment. If the dispatcher keeps to the calling convention, the interrupted code goes on with all registers, its stack
  pointer and its flags as they were, and memory is as the dispatcher left it. Two flaws: the field for the flags lies two bytes too low, so it reads the unspecified half of the word of the code segment below
  the lower half of the flags; and of an exception with an error code the handler returns to the error code as an address.
\<close>

theorem interrupts_transparent:
  assumes "cdecl g" "s1 = cpu_interrupt upper None handler s" "e = entered n ret s1"
  shows "load32 (r_mem e) (r_esp e + 4) = n \<and> read_frame_noerror (r_mem e) (load32 (r_mem e) (r_esp e + 8)) = frame_of upper s
    \<and> \<not> interrupts (fst (processor_flags e)) \<and> asm_irq_handler n ret g s1 = s\<lparr>r_mem := r_mem (g e)\<rparr>
    \<and> r_eip (asm_irq_handler n ret g (cpu_interrupt upper (Some code) handler s)) = code"
proof -
  note c = cpu_interrupt_none [of upper handler s, folded assms(2)]
  have "asm_irq_handler n ret g s1 = s\<lparr>r_mem := r_mem (g e)\<rparr>"
    using asm_irq_handler_restores [OF assms(1), of n ret s1, folded assms(3)] c by (cases "asm_irq_handler n ret g s1") (cases s; simp add: cs_word(1))
  moreover have "r_eip (asm_irq_handler n ret g (cpu_interrupt upper (Some code) handler s)) = code"
    using asm_irq_handler_restores(9) [OF assms(1)] cpu_interrupt_some(2) by simp
  moreover have "\<not> interrupts (fst (processor_flags e))" using c(13) by (simp add: assms(3) entered_regs(3) processor_flags_reads eflags_of_def)
  ultimately show ?thesis using entered_frame [of n ret upper handler s, folded assms(2,3)] by simp
qed

text \<open>A dispatcher that returns at once.\<close>

definition example_dispatcher :: "machine \<Rightarrow> machine" where
  "example_dispatcher s = pop_to set_eip s"

theorem interrupts_transparent_witness:
  "asm_irq_handler 0x20 0x100300 example_dispatcher (cpu_interrupt 0xffff None 0x100400 example_machine0)
     = example_machine0\<lparr>r_mem := r_mem (entered 0x20 0x100300 (cpu_interrupt 0xffff None 0x100400 example_machine0))\<rparr>"
proof -
  have d: "cdecl example_dispatcher" by (simp add: cdecl_def example_dispatcher_def pop_to_def set_eip_def Let_def)
  have m: "r_mem (example_dispatcher s) = r_mem s" for s by (simp add: example_dispatcher_def pop_to_def set_eip_def Let_def)
  show ?thesis using interrupts_transparent [OF d refl refl, of "0x20" "0x100300" "0xffff" "0x100400" example_machine0] by (simp add: m)
qed

end
