(* ===== verification/Asm_Instructions.thy ===== *)
theory Asm_Instructions
  imports Context_Switch Ownership
begin

unbundle bit_operations_syntax

text \<open>
  The single instructions that \<^verbatim>\<open>asm.hpp\<close> wraps and the atomic variables are made from, for the three widths they exist for, on a memory of bytes. An instruction on memory is one step.
\<close>

section \<open>Definitions\<close>

definition store16 :: "memory \<Rightarrow> u32 \<Rightarrow> u16 \<Rightarrow> memory" where
  "store16 m a v = m(a := ucast v, a + 1 := ucast (drop_bit 8 v))"

definition movb_load :: "memory \<Rightarrow> u32 \<Rightarrow> u8" where
  "movb_load m from = m from"

definition movw_load :: "memory \<Rightarrow> u32 \<Rightarrow> u16" where
  "movw_load m from = load16 m from"

definition movl_load :: "memory \<Rightarrow> u32 \<Rightarrow> u32" where
  "movl_load m from = load32 m from"

definition movb_store :: "u8 \<Rightarrow> u32 \<Rightarrow> memory \<Rightarrow> memory" where
  "movb_store from to m = m(to := from)"

definition movw_store :: "u16 \<Rightarrow> u32 \<Rightarrow> memory \<Rightarrow> memory" where
  "movw_store from to m = store16 m to from"

definition movl_store :: "u32 \<Rightarrow> u32 \<Rightarrow> memory \<Rightarrow> memory" where
  "movl_store from to m = store32 m to from"

text \<open>The register operand gets the old value of the memory operand.\<close>

definition xchgb :: "u32 \<Rightarrow> u8 \<Rightarrow> memory \<Rightarrow> u8 \<times> memory" where
  "xchgb from to m = (m from, m(from := to))"

definition xchgw :: "u32 \<Rightarrow> u16 \<Rightarrow> memory \<Rightarrow> u16 \<times> memory" where
  "xchgw from to m = (load16 m from, store16 m from to)"

definition xchgl :: "u32 \<Rightarrow> u32 \<Rightarrow> memory \<Rightarrow> u32 \<times> memory" where
  "xchgl from to m = (load32 m from, store32 m from to)"

definition xaddb :: "u32 \<Rightarrow> u8 \<Rightarrow> memory \<Rightarrow> u8 \<times> memory" where
  "xaddb variable increment m = (m variable, m(variable := m variable + increment))"

definition xaddw :: "u32 \<Rightarrow> u16 \<Rightarrow> memory \<Rightarrow> u16 \<times> memory" where
  "xaddw variable increment m = (load16 m variable, store16 m variable (load16 m variable + increment))"

definition xaddl :: "u32 \<Rightarrow> u32 \<Rightarrow> memory \<Rightarrow> u32 \<times> memory" where
  "xaddl variable increment m = (load32 m variable, store32 m variable (load32 m variable + increment))"

text \<open>The identifiers of tasks come from one counter.\<close>

definition allocate_task_id :: "u32 \<Rightarrow> memory \<Rightarrow> u32 \<times> memory" where
  "allocate_task_id next_task_id m = xaddl next_task_id 1 m"

fun allocate_task_ids :: "nat \<Rightarrow> u32 \<Rightarrow> memory \<Rightarrow> u32 list \<times> memory" where
  "allocate_task_ids 0 c m = ([], m)"
| "allocate_task_ids (Suc k) c m = (let (i, m1) = allocate_task_id c m; (is, m2) = allocate_task_ids k c m1 in (i # is, m2))"

section \<open>Values behind the bytes\<close>

lemma load16_store16 [simp]: "load16 (store16 m a v) a = v"
proof (rule bit_word_eqI)
  fix n
  assume "n < LENGTH(16)"
  then have "n < 8 \<or> (8 \<le> n \<and> n < 16)" by auto
  then show "bit (load16 (store16 m a v) a) n = bit v n"
    by (elim disjE) (auto simp: load16_def store16_def bit_simps)
qed

lemma store16_outside: "x \<notin> {a, a + 1} \<Longrightarrow> store16 m a v x = m x"
  by (simp add: store16_def)

text \<open>
  An instruction on the bytes \<open>A\<close> of a variable does the atomic operation \<open>op\<close> on its value and writes no other byte.
\<close>

definition acts_as :: "(memory \<Rightarrow> 'v) \<Rightarrow> u32 set \<Rightarrow> ('v \<Rightarrow> 'r \<times> 'v) \<Rightarrow> (memory \<Rightarrow> 'r \<times> memory) \<Rightarrow> bool" where
  "acts_as get A op instr \<longleftrightarrow> (\<forall>m. (fst (instr m), get (snd (instr m))) = op (get m) \<and> (\<forall>x. x \<notin> A \<longrightarrow> snd (instr m) x = m x))"

lemma allocate_task_ids_values:
  "fst (allocate_task_ids k c m) = map (\<lambda>i. load32 m c + of_nat i) [0..<k]"
proof (induction k arbitrary: m)
  case (Suc k)
  have "map (\<lambda>i. load32 m c + of_nat i) [0..<Suc k] = load32 m c # map (\<lambda>i. load32 m c + 1 + of_nat i) [0..<k]"
    by (simp add: upt_conv_Cons map_Suc_upt [symmetric] o_def add.assoc del: upt_Suc map_Suc_upt)
  then show ?case
    using Suc.IH [of "store32 m c (load32 m c + 1)"] by (simp add: allocate_task_id_def xaddl_def case_prod_unfold Let_def del: upt_Suc)
qed simp

section \<open>Properties\<close>



end
