(* ===== verification/Trap_Report.thy ===== *)
theory Trap_Report
  imports Backtrace Context_Switch Vga_Console
begin

unbundle bit_operations_syntax

text \<open>
  The end of the kernel: \<^verbatim>\<open>panic\<close> and its relatives in \<^verbatim>\<open>error.cpp\<close>, with what they leave on the screen, and the report that the handlers of
  \<^verbatim>\<open>traps.cpp\<close> print for an exception of the processor before they panic.
\<close>

section \<open>Definitions\<close>

definition printk :: "string \<Rightarrow> vga \<Rightarrow> vga" where
  "printk str v = puts str v"

text \<open>The state in which the processor halts for ever: the interrupt flag and the screen.\<close>

definition panic :: "string option \<Rightarrow> irq_flag \<times> vga \<Rightarrow> irq_flag \<times> vga" where
  "panic msg = (\<lambda>(c, v).
     let c = fst (irq_disable c);
         v = printk (''Kernel Panic:'' @ [CHR 0x0A]) v
     in (c, case msg of None \<Rightarrow> v | Some m \<Rightarrow> printk m v))"

definition bug :: "string option \<Rightarrow> irq_flag \<times> vga \<Rightarrow> irq_flag \<times> vga" where
  "bug msg = (\<lambda>(c, v). panic msg (c, printk (''Kernel Bug! Escalating to Kernel Panic...'' @ [CHR 0x0A]) v))"

definition raise_not_implemented :: "string option \<Rightarrow> irq_flag \<times> vga \<Rightarrow> irq_flag \<times> vga" where
  "raise_not_implemented msg = (\<lambda>(c, v). panic (Some ''not implemented error'') (c, case msg of None \<Rightarrow> v | Some m \<Rightarrow> printk m v))"

definition cxa_pure_virtual :: "irq_flag \<times> vga \<Rightarrow> irq_flag \<times> vga" where
  "cxa_pure_virtual = panic (Some (''Pure virtual function is called'' @ [CHR 0x0A]))"

text \<open>
  What the handlers print on the stream for critical messages. The kernel image, the memory, the address of the local frame of the backtrace and its own base pointer are arguments.
\<close>

definition report_noerror ::
  "kobj \<Rightarrow> (ptr \<Rightarrow> u32) \<Rightarrow> ptr \<Rightarrow> ptr \<Rightarrow> string \<Rightarrow> int_frame_noerror \<Rightarrow> 's ostream \<times> 's \<Rightarrow> ('s ostream \<times> 's) result" where
  "report_noerror k mem tmp own_ebp msg frame x =
     bindE (out_items [O_str msg, O_endl] x) (\<lambda>x.
     bindE (shl_frame_noerror frame x) (\<lambda>x.
     bindE (out_items [O_endl] x)
       (show_backtrace k mem tmp own_ebp (reg_ebp (fn_regs frame)) (exe_eip (fn_exe frame)))))"

definition report_error ::
  "kobj \<Rightarrow> (ptr \<Rightarrow> u32) \<Rightarrow> ptr \<Rightarrow> ptr \<Rightarrow> string \<Rightarrow> int_frame_error \<Rightarrow> 's ostream \<times> 's \<Rightarrow> ('s ostream \<times> 's) result" where
  "report_error k mem tmp own_ebp msg frame x =
     bindE (out_items [O_str msg, O_endl] x) (\<lambda>x.
     bindE (shl_frame_error frame x) (\<lambda>x.
     bindE (out_items [O_endl, O_str ''error code is '', O_u32 (fe_error_code frame), O_endl] x)
       (show_backtrace k mem tmp own_ebp (reg_ebp (fe_regs frame)) (exe_eip (fe_exe frame)))))"

section \<open>The text of a report\<close>

definition execution_text :: "execution_info_dump \<Rightarrow> string" where
  "execution_text exe = ''eflg = '' @ hex_field (CHR '' '') t_uint (uint (exe_eflags exe)) @ '' ''
     @ ''  cs = '' @ hex_field (CHR '' '') t_ushort (uint (exe_cs exe)) @ '' ''
     @ '' eip = '' @ hex_field (CHR '' '') t_uint (uint (exe_eip exe))"

lemma shl_execution_info_text:
  "os_fillch os = CHR '' '' \<Longrightarrow> shl_execution_info exe (os, s) = bindE (emit os (execution_text exe) s) (\<lambda>s1. Inr (os, s1))"
  unfolding shl_execution_info_def
  by (subst guarded_items)
     (simp_all add: manip_hex_def setf_masked_def base_set_hex digit_buffer_hex execution_text_def hex_field_def padding_def Let_def)

lemma guarded_emit:
  assumes "\<And>s. f (os, s) = bindE (emit os txt s) (\<lambda>s1. Inr (os1, s1))" "os_streambuf os1 = os_streambuf os"
  shows "guarded f (os, s) = bindE (emit os txt s) (\<lambda>s1. Inr (os, s1))"
  using assms by (auto simp: guarded_def guard_destruct_def guard_construct_def copyfmt_def intro!: bindE_ext)

definition noerror_text :: "int_frame_noerror \<Rightarrow> string" where
  "noerror_text frame = execution_text (fn_exe frame) @ [CHR 0x0A] @ registers_text (fn_regs frame)"

definition error_text :: "int_frame_error \<Rightarrow> string" where
  "error_text frame = '' err = '' @ hex_field (CHR '' '') t_uint (uint (fe_error_code frame)) @ [CHR 0x0A]
     @ execution_text (fe_exe frame) @ [CHR 0x0A] @ registers_text (fe_regs frame)"

lemma shl_frame_noerror_text:
  assumes "plain os"
  shows "shl_frame_noerror frame (os, s) = bindE (emit os (noerror_text frame) s) (\<lambda>s1. Inr (os, s1))"
  unfolding shl_frame_noerror_def
proof (rule guarded_emit)
  let ?os = "manip_hex (os\<lparr>os_width := 0\<rparr>)"
  have b: "emit ?os = emit os" by (rule emit_buffer) (simp add: manip_hex_def setf_masked_def)
  have f: "os_fillch ?os = CHR '' ''" using assms by (simp add: manip_hex_def setf_masked_def)
  show "bindE (out_items [O_setw 0, O_hex] (os, s)) (\<lambda>x1. bindE (shl_execution_info (fn_exe frame) x1) (\<lambda>x2. bindE (out_items [O_endl] x2) (shl_registers (fn_regs frame))))
      = bindE (emit os (noerror_text frame) s) (\<lambda>s1. Inr (?os, s1))" for s
    by (simp add: out_one_emit shl_execution_info_text [OF f] registers_printed b noerror_text_def emit_append emit_Cons)
qed (simp add: manip_hex_def setf_masked_def)

lemma shl_frame_error_text:
  assumes "plain os"
  shows "shl_frame_error frame (os, s) = bindE (emit os (error_text frame) s) (\<lambda>s1. Inr (os, s1))"
  unfolding shl_frame_error_def
proof (rule guarded_emit)
  let ?is = "[O_hex, O_setw 0, O_str '' err = '', O_setw 8, O_u32 (fe_error_code frame), O_endl]"
  let ?os = "(manip_hex os)\<lparr>os_width := 8\<rparr>"
  have b: "emit ?os = emit os" by (rule emit_buffer) (simp add: manip_hex_def setf_masked_def)
  have f: "os_fillch ?os = CHR '' ''" using assms by (simp add: manip_hex_def setf_masked_def)
  have "out_items ?is (os, s) = bindE (emit os ('' err = '' @ hex_field (CHR '' '') t_uint (uint (fe_error_code frame)) @ [CHR 0x0A]) s) (\<lambda>s1. Inr (?os, s1))" for s
    using assms by (subst out_items_emit)
      (simp_all add: manip_hex_def setf_masked_def base_set_hex digit_buffer_hex hex_field_def padding_def Let_def)
  then show "bindE (out_items ?is (os, s)) (\<lambda>x1. bindE (shl_execution_info (fe_exe frame) x1) (\<lambda>x2. bindE (out_items [O_endl] x2) (shl_registers (fe_regs frame))))
      = bindE (emit os (error_text frame) s) (\<lambda>s1. Inr (?os, s1))" for s
    by (simp add: out_one_emit shl_execution_info_text [OF f] registers_printed b error_text_def emit_append emit_Cons del: out_items.simps) (simp add: out_one_emit emit_Cons b registers_printed)
qed (simp add: manip_hex_def setf_masked_def)

text \<open>The report of an exception, with the chain of calls.\<close>

definition report_tail :: "kobj \<Rightarrow> (ptr \<Rightarrow> u32) \<Rightarrow> ptr list \<Rightarrow> string" where
  "report_tail k mem ps = replicate 49 (CHR ''-'') @ [CHR 0x0A] @ backtrace_text k mem ps"

lemma report_noerror_text:
  assumes "plain os" "length msg < 4294967296"
    and "\<And>s. show_backtrace k mem tmp own (reg_ebp (fn_regs frame)) (exe_eip (fn_exe frame)) (os, s) = bindE (emit os tail s) (\<lambda>s1. Inr (os, s1))"
  shows "report_noerror k mem tmp own msg frame (os, s)
    = bindE (emit os (msg @ [CHR 0x0A] @ noerror_text frame @ [CHR 0x0A] @ tail) s) (\<lambda>s1. Inr (os, s1))"
  using assms by (simp add: report_noerror_def out_one_emit padding_def shl_frame_noerror_text emit_append emit_Cons)

lemma report_error_text:
  assumes "plain os" "length msg < 4294967296" "base_set (os_format os)"
    and "\<And>s. show_backtrace k mem tmp own (reg_ebp (fe_regs frame)) (exe_eip (fe_exe frame)) (os, s) = bindE (emit os tail s) (\<lambda>s1. Inr (os, s1))"
  shows "report_error k mem tmp own msg frame (os, s)
    = bindE (emit os (msg @ [CHR 0x0A] @ error_text frame @ [CHR 0x0A] @ ''error code is ''
        @ rev (digit_buffer (os_format os) t_uint (uint (fe_error_code frame))) @ [CHR 0x0A] @ tail) s) (\<lambda>s1. Inr (os, s1))"
  using assms by (simp add: report_error_def out_one_emit padding_def shl_frame_error_text emit_append emit_Cons Let_def)

section \<open>The screen after a panic\<close>

lemma putc_color_globals: "global_fg (putc_color c fg bg v) = global_fg v" "global_bg (putc_color c fg bg v) = global_bg v"
  by (simp_all add: putc_color_def line_break_def new_line_def carriage_return_def cursor_next_def scroll_def Let_def)

lemma puts_color_globals: "global_fg (puts_color str fg bg v) = global_fg v" "global_bg (puts_color str fg bg v) = global_bg v"
  by (induction str arbitrary: v) (simp_all add: puts_color_def putc_color_globals)

lemma puts_append: "puts b (puts a v) = puts (a @ b) v"
  unfolding puts_def puts_color_globals by (simp add: puts_color_def)

definition shown :: "string \<Rightarrow> vga \<Rightarrow> terminal" where
  "shown str v = fold (\<lambda>c. t_put (empty_cell v) \<lparr>cell_ch = c, cell_fg = global_fg v, cell_bg = global_bg v\<rparr>) str (terminal_of v)"

lemma puts_shown: "vga_ok v \<Longrightarrow> terminal_of (puts str v) = shown str v"
  using puts_color_refines [of v str "global_fg v" "global_bg v"] by (simp add: puts_def shown_def)

lemma panic_shown:
  assumes "vga_ok v"
  shows "fst (panic (Some m) (c, v)) = irq_off \<and> terminal_of (snd (panic (Some m) (c, v))) = shown (''Kernel Panic:'' @ [CHR 0x0A] @ m) v"
  by (cases c) (simp add: panic_def printk_def puts_append irq_disable_def puts_shown [OF assms] Let_def)

definition example_report :: machine where
  "example_report = example_machine0\<lparr>r_ebp := 0x180010, r_eip := 0x100042\<rparr>"

section \<open>Properties\<close>



end
