(* ===== verification/Spec2Isabelle.thy ===== *)
theory Spec2Isabelle
  imports Task_Memory Logging C_String Forward_List Ownership Backtrace Cpp_Types Serial_Port
    Context_Switch Asm_Instructions Trap_Report
begin

text \<open>
  \<^bold>\<open>bolgenos-ng, a small i386 kernel in C++, modelled and verified.\<close> File names are relative to \<^verbatim>\<open>src/kernel\<close>.

  \<^bold>\<open>The program.\<close> A multiboot loader starts \<^verbatim>\<open>kernel_main\<close> (\<^verbatim>\<open>main.cpp\<close>). It turns the interrupts off, copies the information of the
  loader, runs the global constructors, clears the screen, loads the segment and interrupt tables (\<^verbatim>\<open>x86\<close>), sets the memory subsystem up
  (\<^verbatim>\<open>memory\<close>), creates the interrupt manager, programs the interrupt controller and the timer (\<^verbatim>\<open>devices\<close>), turns the interrupts on,
  initialises the PS/2 controller with its keyboard, runs the tests of the kernel on itself (\<^verbatim>\<open>ost\<close>) and enters the cooperative scheduler
  (\<^verbatim>\<open>sched\<close>), whose main task creates eight test tasks. From then on tasks run until they yield, sleep or return, while interrupts reach the
  dispatcher, which calls the registered handlers, and their output goes through the logging library (\<^verbatim>\<open>log\<close>) to the screen and the serial
  port. \<^verbatim>\<open>libkernelcxx\<close> is the standard library that all of this is written with.

  \<^bold>\<open>The theories\<close>, each with the code it models, its state, and what its lemmas show.

  \<^item> \<open>Kernel_Prelude\<close>: machine integers as words of their width, the faults of a routine (\<^verbatim>\<open>panic\<close> with its message, a loop that does not
    end, behaviour that the language leaves undefined), results \<open>fault + 'a\<close> with \<open>bindE\<close> and the loop \<open>while_result\<close>, the store of bytes and links, lemmas on words and lists.
  \<^item> \<open>Mem_Utils\<close> (\<^verbatim>\<open>mem_utils.hpp\<close>): alignment and bit fields.
  \<^item> \<open>Bit_Array\<close> (\<^verbatim>\<open>bitarray.hpp\<close>): bits over bytes of the store; the last write to a bit is what is read. Locale \<open>bit_store\<close>, interpreted as \<open>ba\<close>.
  \<^item> \<open>Free_List\<close>, \<open>Memory_Region\<close>, \<open>Buddy_Allocator\<close>, \<open>Page_Allocator\<close> (\<^verbatim>\<open>memory/free_list\<close>, \<^verbatim>\<open>memory_region\<close>, \<^verbatim>\<open>buddy_allocator\<close>,
    \<^verbatim>\<open>page_allocator\<close>): sorted linked lists of blocks inside the free pages, merging and splitting of buddies, runs of pages with a bit for the
    last page of a run. The links of a list are in the store; an abstract list of page numbers and an abstract set of free pages are related to them. Put and get
    act on the abstract set as the specification says, merge whatever can be merged, and free and held runs partition the memory. Locale
    \<open>page_pool\<close>, interpreted as \<open>bud\<close>; reachable states of the page allocator are \<open>pa_reach\<close>.
  \<^item> \<open>Slab_Allocator\<close>, \<open>Mallocator\<close>, \<open>Kernel_Memory\<close> (\<^verbatim>\<open>memory/slab.cpp\<close>, \<^verbatim>\<open>mallocator\<close>, \<^verbatim>\<open>memory.cpp\<close>, \<^verbatim>\<open>kobj\<close>): equal cells in pages with a
    bit array, a chain of slabs in front of the page allocator, the set-up of the whole from the boot information. A slab gives exactly its capacity (locale \<open>cell_pool\<close>,
    interpreted as \<open>sl\<close>); in every state that calls of the heap reach (\<open>km_reach\<close>) the blocks handed out are aligned, disjoint and in managed memory.
  \<^item> \<open>Self_Tests\<close>, \<open>Boot_Memory\<close> (\<^verbatim>\<open>ost\<close>): the tests of the kernel as calls of the modelled operations; they pass, and what they leave is enough for the
    start of the kernel.
  \<^item> \<open>Keyboard\<close>, \<open>Ps2_Controller\<close> (\<^verbatim>\<open>devices/ps2\<close>, \<^verbatim>\<open>keyboard\<close>): the scan-code state machine and the driver of the chip; what is typed is printed, and
    the initialisation of the controller ends and leaves exactly the lines with drivers on.
  \<^item> \<open>Pit_Timer\<close> (\<^verbatim>\<open>devices/src/pit.cpp\<close>, \<^verbatim>\<open>frequency_divider\<close>, \<^verbatim>\<open>time.cpp\<close>): the divider, the count of the timer and the waiting routines.
  \<^item> \<open>Serial_Port\<close>, \<open>Algorithms\<close>, \<open>Vga_Console\<close> (\<^verbatim>\<open>devices/serial\<close>, \<^verbatim>\<open>algorithm.hpp\<close>, \<^verbatim>\<open>vga_console.cpp\<close>): the port; the algorithms on ranges;
    the console, which refines an abstract terminal of lines.
  \<^item> \<open>Out_Stream\<close>, \<open>Out_Chain\<close>, \<open>Logging\<close> (\<^verbatim>\<open>ostream\<close>, \<^verbatim>\<open>streambuf\<close>, \<^verbatim>\<open>snprintf\<close>, \<^verbatim>\<open>log\<close>): formatted output and loggers. Locale
    \<open>stream_target\<close> (what a buffer promises), interpreted for the buffers of memory, screen, serial port and log lines (\<open>snb\<close>, \<open>vgab\<close>, \<open>serb\<close>,
    \<open>logb\<close>); \<open>two_targets\<close> for the composite buffer, a \<open>sublocale\<close> of it, interpreted as \<open>lg\<close> on the logger of the kernel. Printed numbers read back; the log levels are an instance of \<open>linorder\<close>.
  \<^item> \<open>C_String\<close>, \<open>Forward_List\<close>, \<open>Intrusive_List\<close>, \<open>Ownership\<close>, \<open>Cpp_Types\<close> (\<^verbatim>\<open>libkernelcxx\<close>): strings in one memory; the two
    linked lists on heaps of nodes, refining lists; unique pointers (\<open>own_reach\<close>), optionals, atomic variables and guards of static objects; the type traits as functions on types.
  \<^item> \<open>X86_Tables\<close> (\<^verbatim>\<open>x86\<close>): descriptors, gates, the tables and the vector of fixed size (locale \<open>bounded_vector\<close>, interpreted as \<open>fv\<close>).
  \<^item> \<open>Interrupts\<close>, \<open>Running_Kernel\<close> (\<^verbatim>\<open>x86/src/irq.cpp\<close>, \<^verbatim>\<open>traps.cpp\<close>, \<^verbatim>\<open>threading\<close>, \<^verbatim>\<open>devices/interrupt_controller\<close>): the interrupt flag and its
    locks, the controller, the dispatch to handlers; any interleaving of the interrupts of the timer, the keyboard and other lines.
  \<^item> \<open>Scheduler\<close>, \<open>Kernel_Tasks\<close> (\<^verbatim>\<open>sched\<close>, \<^verbatim>\<open>main.cpp\<close>): the scheduler on the circular list, which refines an abstract round robin, and the bodies of the
    tasks as sequences of actions, cut into turns at their yields.
  \<^item> \<open>Task_Memory\<close> (\<^verbatim>\<open>sched/task.cpp\<close>, \<^verbatim>\<open>cxxabi.cpp\<close>): the objects and stacks of tasks on the kernel heap. While tasks come and go and other clients use the heap
    (\<open>tasks_reach\<close>), tasks own disjoint memory; the heap that the start leaves has room for the test tasks.
  \<^item> \<open>Context_Switch\<close>, \<open>Asm_Instructions\<close> (\<^verbatim>\<open>scheduler.cpp\<close>, \<^verbatim>\<open>task.cpp\<close>, \<^verbatim>\<open>idt.cpp\<close>, \<^verbatim>\<open>asm.hpp\<close>): the inline assembly that moves the
    stack, instruction by instruction on registers and a memory of bytes, and the instructions behind atomic variables. Tasks go on where they left off (\<open>system_step\<close>),
    interrupts restore the interrupted code, and the instructions do what \<open>Ownership\<close> takes an atomic operation to be.
  \<^item> \<open>Backtrace\<close>, \<open>Trap_Report\<close> (\<^verbatim>\<open>backtrace.cpp\<close>, \<^verbatim>\<open>error.cpp\<close>, \<^verbatim>\<open>traps.cpp\<close>): the walk over the stack frames, the report of an exception and
    what \<^verbatim>\<open>panic\<close> leaves on the screen.
  \<^item> \<open>Kernel_Main\<close>: \<^verbatim>\<open>kernel_main\<close> as the composition of all of these; and this theory, which puts the start, the heap and the tasks together.

  \<^bold>\<open>How the components meet.\<close> The state of each component is a record and its operations take and return it; \<open>kernel\<close> of \<open>Kernel_Main\<close> holds
  the records of all of them. A client sees a provider through its lemmas, or through its locale where several clients or several providers share a contract: the slabs and the page allocator use the
  bit array through \<open>bit_store\<close>, the page allocator the buddy system through \<open>page_pool\<close>, the mallocator the slabs through \<open>cell_pool\<close>, streams
  and loggers their buffers through \<open>stream_target\<close>, the tables of the processor the vector through \<open>bounded_vector\<close>.

  \<^bold>\<open>Bounds and fuel.\<close> Words wrap at their width. Loops are structural recursion, functions with a measure, \<open>while_result\<close> or
  \<^theory_text>\<open>partial_function (option)\<close>; a theorem about a loop says that it returns. There is no fuel: the one number of steps that
  is an argument is that of the rounds of the scheduler, a loop that does not end by design, and the theorems hold for every number. The memory of the
  machine is what the boot information says; \<open>enough_memory\<close> asks for the pages that the slabs, the first tasks and the self tests need (34 and 10 blocks of 1024
  pages), and pages lie below 2 GiB so that addresses do not wrap. Objects of the start are of at most 512 bytes, the interrupt manager of at most 4096.

  \<^bold>\<open>Arguments of the model\<close>, which stand for what is outside of the code: the chips behind ports (what they answer, and for the PS/2
  chip that it becomes ready and that its buffer drains), the values of the jiffies that a sleeping task reads, addresses and sizes chosen by the compiler, the linker
  and the loader, addresses of new objects where the allocator is not part of the theory, and, for the inline assembly, that compiled functions keep the frame pointer
  and that the C dispatcher obeys the calling convention.

  \<^bold>\<open>Not modelled.\<close> Single instructions on ports, model-specific registers, \<^verbatim>\<open>lzcnt\<close> and \<^verbatim>\<open>hlt\<close>, which have no content beyond the instruction (device models take the answers
  of ports as arguments). Declarations that exist at compile time only: concepts, traits that name an intrinsic of the compiler, integer sequences. The text that
  the start of the kernel logs and the printing operators of the allocators, which change no state; the logging library itself is modelled. Interrupts that
  interrupt a handler: gates turn the interrupts off, so that one is handled to its end. Move constructors of buffers, which only re-point a delegate, and the array version
  of \<^verbatim>\<open>unique_ptr\<close>, which repeats the text of the other. The jump to a hardware task, which nothing calls.
\<close>

section \<open>The kernel from its start to its tasks\<close>


lemma example_world_ready:
  "call_global_ctors [] (boot_early example_im (with_scripts f example_kernel)) = Inr (with_scripts f example_kernel)"
  "kernel_constructed example_im (with_scripts f example_kernel)"
  "kw_ps2 (is_world (kn_ints (with_scripts f example_kernel))) = example_ps2" "sc_script (kn_sched (with_scripts f example_kernel)) = f"
  using example_early example_ready(1) example_machine(3)
  by (auto simp: with_scripts_def boot_early_def kernel_constructed_def irq_disable_def example_kernel_def example_im_def example_sched_def)


end
